(* ===== verification/Prelude.thy ===== *)
theory Prelude
  imports Main "HOL-Library.Word"
begin

text \<open>
  Shared vocabulary of the development: bytes and C arrays, the ways an execution can go wrong
  as values, sequencing of fallible steps, and the interfaces (locales) that the components
  are measured against.

  \<^item> \<open>fault\<close> lists the executions the C++ standard leaves undefined (a write past an array, a
    read past an array, the use of an indeterminate value, a signed overflow), the failed assertion
    and the uncaught exception that end the process; \<open>'a res\<close> is such a fault or a value.
  \<^item> \<open>res_bind\<close> runs a step and hands its value on, or passes the fault or exception on.
  \<^item> the collections \<open>res_simps\<close>, \<open>cstr_simps\<close>, \<open>net_simps\<close>, \<open>frame_simps\<close> gather the rewrite
    rules the component proofs share.
\<close>

named_theorems res_simps
named_theorems cstr_simps
named_theorems net_simps
named_theorems frame_simps

section \<open>Bytes, arrays and faults\<close>

type_synonym bytes = "char list"

abbreviation NUL :: char where
  "NUL \<equiv> CHR 0x00"

datatype fault =
    Overflow              \<comment> \<open>a write past the end of an array\<close>
  | OverRead              \<comment> \<open>a read past the end of an array\<close>
  | Indeterminate         \<comment> \<open>use of a value that was never initialised\<close>
  | SignedOverflow        \<comment> \<open>a signed result that does not fit its type\<close>
  | AssertionFailed       \<comment> \<open>an \<open>assert\<close> that does not hold: \<open>std::abort\<close>\<close>
  | Uncaught string       \<comment> \<open>an exception that no handler catches: \<open>std::terminate\<close>\<close>

type_synonym 'a res = "fault + 'a"

definition res_bind :: "'e + 'a \<Rightarrow> ('a \<Rightarrow> 'e + 'b) \<Rightarrow> 'e + 'b" where
  "res_bind m f = (case m of Inl e \<Rightarrow> Inl e | Inr x \<Rightarrow> f x)"

lemma res_bind_Inl [simp, res_simps]: "res_bind (Inl e) f = Inl e"
  by (simp add: res_bind_def)

lemma res_bind_Inr [simp, res_simps]: "res_bind (Inr x) f = f x"
  by (simp add: res_bind_def)

lemma res_bind_eq_Inr [res_simps]:
  "res_bind m f = Inr y \<longleftrightarrow> (\<exists>x. m = Inr x \<and> f x = Inr y)"
  by (cases m) auto

lemma res_bind_eq_Inl [res_simps]:
  "res_bind m f = Inl e \<longleftrightarrow> m = Inl e \<or> (\<exists>x. m = Inr x \<and> f x = Inl e)"
  by (cases m) auto

lemma res_bindE:
  "res_bind m f = Inr y \<Longrightarrow> (\<And>x. m = Inr x \<Longrightarrow> f x = Inr y \<Longrightarrow> P) \<Longrightarrow> P"
  by (cases m) auto

lemma res_bind_assoc:
  "res_bind (res_bind m f) g = res_bind m (\<lambda>x. res_bind (f x) g)"
  by (cases m) auto

lemma res_bind_cong [fundef_cong]:
  "m = m' \<Longrightarrow> (\<And>x. m' = Inr x \<Longrightarrow> f x = f' x) \<Longrightarrow> res_bind m f = res_bind m' f'"
  by (cases m') auto

text \<open>An indeterminate member is \<open>None\<close>; using its value is a fault.\<close>

definition use_value :: "'a option \<Rightarrow> 'a res" where
  "use_value v = (case v of None \<Rightarrow> Inl Indeterminate | Some x \<Rightarrow> Inr x)"

lemma use_value_simps [simp, res_simps]:
  "use_value None = Inl Indeterminate"
  "use_value (Some x) = Inr x"
  by (simp_all add: use_value_def)

text \<open>\<open>assert(b)\<close> in front of the rest of a function.\<close>

definition asserting :: "bool \<Rightarrow> 'a res \<Rightarrow> 'a res" where
  "asserting b m = (if b then m else Inl AssertionFailed)"

lemma asserting_simps [simp, res_simps]:
  "b \<Longrightarrow> asserting b m = m"
  "\<not> b \<Longrightarrow> asserting b m = Inl AssertionFailed"
  by (simp_all add: asserting_def)

lemma asserting_cong [fundef_cong]:
  "b = b' \<Longrightarrow> (b' \<Longrightarrow> m = m') \<Longrightarrow> asserting b m = asserting b' m'"
  by (simp add: asserting_def)

section \<open>Generic list lemmas\<close>

lemma takeWhile_append_stop [simp]:
  "(\<And>x. x \<in> set xs \<Longrightarrow> P x) \<Longrightarrow> \<not> P y \<Longrightarrow> takeWhile P (xs @ y # ys) = xs"
  by (induction xs) auto

lemma dropWhile_append_stop [simp]:
  "(\<And>x. x \<in> set xs \<Longrightarrow> P x) \<Longrightarrow> \<not> P y \<Longrightarrow> dropWhile P (xs @ y # ys) = y # ys"
  by (induction xs) auto

lemma takeWhile_all [simp]: "(\<And>x. x \<in> set xs \<Longrightarrow> P x) \<Longrightarrow> takeWhile P xs = xs"
  by (induction xs) auto

lemma dropWhile_none: "xs \<noteq> [] \<Longrightarrow> \<not> P (hd xs) \<Longrightarrow> dropWhile P xs = xs"
  by (cases xs) auto

lemma length_takeWhile_less:
  "\<exists>x\<in>set xs. \<not> P x \<Longrightarrow> length (takeWhile P xs) < length xs"
  by (induction xs) auto

section \<open>Interfaces\<close>

text \<open>
  A keyed container: what \<open>std::map\<close> and \<open>std::unordered_map\<close> promise to the classes built on
  them. \<open>find\<close> is the abstraction to a partial function.
\<close>

locale keyed_container =
  fixes cempty :: "'m"
    and find :: "'m \<Rightarrow> 'k \<Rightarrow> 'v option"
    and put :: "'k \<Rightarrow> 'v \<Rightarrow> 'm \<Rightarrow> 'm"
    and erase :: "'k \<Rightarrow> 'm \<Rightarrow> 'm"
    and invar :: "'m \<Rightarrow> bool"
  assumes find_empty: "find cempty = Map.empty"
    and find_put: "invar m \<Longrightarrow> find (put k v m) = (find m)(k \<mapsto> v)"
    and find_erase: "invar m \<Longrightarrow> find (erase k m) = (find m)(k := None)"
    and invar_empty: "invar cempty"
    and invar_put: "invar m \<Longrightarrow> invar (put k v m)"
    and invar_erase: "invar m \<Longrightarrow> invar (erase k m)"
begin

fun put_all :: "('k \<times> 'v) list \<Rightarrow> 'm \<Rightarrow> 'm" where
  "put_all [] m = m"
| "put_all ((k, v) # kvs) m = put_all kvs (put k v m)"

lemma invar_put_all: "invar m \<Longrightarrow> invar (put_all kvs m)"
  by (induction kvs m rule: put_all.induct) (auto simp: invar_put)

lemma find_put_all: "invar m \<Longrightarrow> find (put_all kvs m) = find m ++ map_of (rev kvs)"
proof (induction kvs m rule: put_all.induct)
  case (1 m)
  then show ?case by simp
next
  case (2 k v kvs m)
  then show ?case by (auto simp: invar_put find_put map_add_def fun_eq_iff split: option.splits)
qed

lemma find_put_same: "invar m \<Longrightarrow> find (put k v m) k = Some v"
  by (simp add: find_put)

lemma find_put_other: "invar m \<Longrightarrow> k' \<noteq> k \<Longrightarrow> find (put k v m) k' = find m k'"
  by (simp add: find_put)

lemma find_put_put: "invar m \<Longrightarrow> find (put k v (put k w m)) = find (put k v m)"
  by (simp add: find_put invar_put)

end

text \<open>
  A transition system with an inductive invariant: one proof that every reachable state has it.
\<close>

inductive reach :: "('s \<Rightarrow> bool) \<Rightarrow> ('s \<Rightarrow> 's \<Rightarrow> bool) \<Rightarrow> 's \<Rightarrow> bool"
  for init :: "'s \<Rightarrow> bool" and step :: "'s \<Rightarrow> 's \<Rightarrow> bool" where
  reach_init: "init s \<Longrightarrow> reach init step s"
| reach_step: "reach init step s \<Longrightarrow> step s t \<Longrightarrow> reach init step t"

locale invariant_system =
  fixes init :: "'s \<Rightarrow> bool"
    and step :: "'s \<Rightarrow> 's \<Rightarrow> bool"
    and good :: "'s \<Rightarrow> bool"
  assumes good_init: "init s \<Longrightarrow> good s"
    and good_step: "good s \<Longrightarrow> step s t \<Longrightarrow> good t"
begin

lemma reach_good: "reach init step s \<Longrightarrow> good s"
  by (induction rule: reach.induct) (auto intro: good_init good_step)

lemma steps_good: "step\<^sup>*\<^sup>* s t \<Longrightarrow> good s \<Longrightarrow> good t"
  by (induction rule: rtranclp_induct) (auto intro: good_step)

end

lemma reach_steps: "step\<^sup>*\<^sup>* s t \<Longrightarrow> reach init step s \<Longrightarrow> reach init step t"
  by (induction rule: rtranclp_induct) (auto intro: reach_step)

text \<open>
  A message codec over fixed arrays: what a sender writes, the receiver's parser reads back.
  \<open>wf\<close> says which messages the sender may put in an array of the given size.
\<close>

locale codec =
  fixes wf :: "'m \<Rightarrow> bool"
    and encode :: "'m \<Rightarrow> bytes res"
    and decode :: "bytes \<Rightarrow> 'm res"
  assumes encode_total: "wf m \<Longrightarrow> \<exists>b. encode m = Inr b"
    and decode_encode: "wf m \<Longrightarrow> encode m = Inr b \<Longrightarrow> decode b = Inr m"
begin

lemma round_trip: "wf m \<Longrightarrow> res_bind (encode m) decode = Inr m"
  using encode_total [of m] decode_encode [of m] by auto

lemma encode_inj: "wf m \<Longrightarrow> wf m' \<Longrightarrow> encode m = encode m' \<Longrightarrow> m = m'"
  by (metis round_trip sum.inject(2))

end

end
