(* ===== verification/CLib.thy ===== *)
theory CLib
  imports Prelude
begin

text \<open>
  The part of the C and C++ standard libraries that the sources use, over byte lists.

  An array of \<open>n\<close> bytes is a list of length \<open>n\<close>; a C string in it is what stands before the
  first NUL. A function that would read or write past the array returns a fault. The conversions
  of \<open>sscanf\<close> are interpreted from the format string, so each call below carries the format of
  the source; arithmetic on \<open>size_t\<close> is modulo $2^{64}$.
\<close>

section \<open>C strings in arrays\<close>

definition zeros :: "nat \<Rightarrow> bytes" where
  "zeros n = replicate n NUL"

definition c_str :: "bytes \<Rightarrow> string res" where
  "c_str b = (if NUL \<in> set b then Inr (takeWhile (\<lambda>c. c \<noteq> NUL) b) else Inl OverRead)"

definition nul_free :: "string \<Rightarrow> bool" where
  "nul_free s \<longleftrightarrow> NUL \<notin> set s"

lemma length_zeros [simp, cstr_simps]: "length (zeros n) = n"
  by (simp add: zeros_def)

lemma takeWhile_nul [simp]: "NUL \<notin> set s \<Longrightarrow> takeWhile (\<lambda>c. c \<noteq> NUL) (s @ NUL # r) = s"
  by (induction s) auto

lemma c_str_append [simp, cstr_simps]: "nul_free s \<Longrightarrow> c_str (s @ NUL # r) = Inr s"
  by (auto simp: c_str_def nul_free_def)

lemma c_str_zeros [simp, cstr_simps]: "0 < n \<Longrightarrow> c_str (zeros n) = Inr []"
  by (cases n) (auto simp: c_str_def zeros_def)

lemma c_str_append_zeros [cstr_simps]: "nul_free s \<Longrightarrow> 0 < n \<Longrightarrow> c_str (s @ zeros n) = Inr s"
  by (cases n) (auto simp: zeros_def)

lemma c_str_InrD: "c_str b = Inr s \<Longrightarrow> nul_free s \<and> length s < length b \<and> take (length s) b = s"
proof -
  assume h: "c_str b = Inr s"
  then have nb: "NUL \<in> set b" and s: "s = takeWhile (\<lambda>c. c \<noteq> NUL) b"
    by (simp_all add: c_str_def split: if_splits)
  from nb have "\<exists>x\<in>set b. \<not> x \<noteq> NUL" by blast
  then have "length s < length b"
    unfolding s by (rule length_takeWhile_less)
  moreover have "nul_free s"
    unfolding s nul_free_def by (auto dest: set_takeWhileD)
  moreover have "take (length s) b = s"
    unfolding s by (simp add: takeWhile_eq_take [symmetric])
  ultimately show ?thesis by blast
qed

lemma c_str_Inl_iff: "c_str b = Inl e \<longleftrightarrow> e = OverRead \<and> NUL \<notin> set b"
  by (auto simp: c_str_def)

lemma nul_free_simps [simp, cstr_simps]:
  "nul_free []"
  "nul_free (c # s) \<longleftrightarrow> c \<noteq> NUL \<and> nul_free s"
  "nul_free (s @ t) \<longleftrightarrow> nul_free s \<and> nul_free t"
  by (auto simp: nul_free_def)

lemma nul_free_take: "nul_free s \<Longrightarrow> nul_free (take n s)"
  by (auto simp: nul_free_def dest: in_set_takeD)

lemma nul_free_drop: "nul_free s \<Longrightarrow> nul_free (drop n s)"
  by (auto simp: nul_free_def dest: in_set_dropD)

text \<open>
  \<open>strncmp\<close> compares at most \<open>n\<close> bytes and stops at a NUL. The end of a list counts as a NUL;
  every call in the sources compares at most six bytes of an array of at least fifty.
\<close>

fun strncmp :: "bytes \<Rightarrow> bytes \<Rightarrow> nat \<Rightarrow> int" where
  "strncmp a b 0 = 0"
| "strncmp a b (Suc n) =
     (let x = (case a of [] \<Rightarrow> NUL | c # _ \<Rightarrow> c); y = (case b of [] \<Rightarrow> NUL | c # _ \<Rightarrow> c)
      in if x \<noteq> y then int (of_char x :: nat) - int (of_char y :: nat)
         else if x = NUL then 0 else strncmp (tl a) (tl b) n)"

definition has_prefix :: "bytes \<Rightarrow> string \<Rightarrow> bool" where
  "has_prefix b lit \<longleftrightarrow> strncmp b lit (length lit) = 0"

lemma of_char_eq [simp]: "(of_char x = (of_char y :: nat)) = (x = y)"
  by (metis char_of_char)

lemma of_char_pos: "NUL \<noteq> c \<Longrightarrow> 0 < (of_char c :: nat)"
  using of_char_eq [of c NUL] by (auto simp del: of_char_eq)

lemma strncmp_prefix: "nul_free lit \<Longrightarrow> strncmp b lit (length lit) = 0 \<longleftrightarrow> take (length lit) b = lit"
proof (induction lit arbitrary: b)
  case Nil
  then show ?case by simp
next
  case (Cons c lit)
  then show ?case by (cases b) (auto simp: Let_def of_char_pos)
qed

lemma strncmp_lit: "nul_free lit \<Longrightarrow> length lit = n \<Longrightarrow> strncmp b lit n = 0 \<longleftrightarrow> take n b = lit"
  using strncmp_prefix [of lit b] by simp

lemma has_prefix_iff: "nul_free lit \<Longrightarrow> has_prefix b lit \<longleftrightarrow> take (length lit) b = lit"
  by (simp add: has_prefix_def strncmp_prefix)

lemma has_prefix_append [simp]: "nul_free lit \<Longrightarrow> has_prefix (lit @ r) lit"
  by (simp add: has_prefix_iff)

text \<open>\<open>strncpy\<close> copies at most \<open>n\<close> bytes of a C string and pads with NULs up to \<open>n\<close>.\<close>

definition strncpy :: "bytes \<Rightarrow> string \<Rightarrow> nat \<Rightarrow> bytes res" where
  "strncpy dst s n =
     (if n \<le> length dst then Inr (take n (s @ zeros n) @ drop n dst) else Inl Overflow)"

text \<open>Writing a terminated string into an array: \<open>strcpy\<close>, \<open>sprintf\<close>, and \<open>%s\<close> of \<open>sscanf\<close>.\<close>

definition store_str :: "bytes \<Rightarrow> string \<Rightarrow> bytes res" where
  "store_str dst s =
     (if length s < length dst then Inr (s @ NUL # drop (Suc (length s)) dst) else Inl Overflow)"

lemma store_str_Inl_iff: "store_str dst s = Inl e \<longleftrightarrow> e = Overflow \<and> length dst \<le> length s"
  by (auto simp: store_str_def)

lemma store_str_length: "store_str dst s = Inr b \<Longrightarrow> length b = length dst"
  by (auto simp: store_str_def split: if_splits)

lemma store_str_c_str: "store_str dst s = Inr b \<Longrightarrow> nul_free s \<Longrightarrow> c_str b = Inr s"
  by (auto simp: store_str_def split: if_splits)

lemma store_str_zeros [cstr_simps]:
  "length s < n \<Longrightarrow> store_str (zeros n) s = Inr (s @ zeros (n - length s))"
  by (simp add: store_str_def zeros_def drop_replicate)
    (metis Suc_diff_Suc diff_Suc_Suc replicate_Suc)

lemma strncpy_zeros [cstr_simps]:
  "length s \<le> n \<Longrightarrow> strncpy (zeros n) s (length s) = Inr (s @ zeros (n - length s))"
  by (simp add: strncpy_def zeros_def drop_replicate)

text \<open>A difference of \<open>size_t\<close> values wraps around.\<close>

definition size_sub :: "nat \<Rightarrow> nat \<Rightarrow> nat" where
  "size_sub a b = nat ((int a - int b) mod 2 ^ 64)"

lemma size_sub_le [cstr_simps]: "b \<le> a \<Longrightarrow> a < 2 ^ 64 \<Longrightarrow> size_sub a b = a - b"
  by (simp add: size_sub_def flip: of_nat_diff)

lemma size_sub_wraps: "a < b \<Longrightarrow> b < 2 ^ 64 \<Longrightarrow> size_sub a b = 2 ^ 64 - (b - a)"
proof -
  assume ab: "a < b" "b < 2 ^ 64"
  have "(int a - int b) mod 2 ^ 64 = (int a - int b + 2 ^ 64) mod 2 ^ 64"
    by simp
  also have "\<dots> = int a - int b + 2 ^ 64"
    using ab by (intro mod_pos_pos_trivial) auto
  also have "\<dots> = int (2 ^ 64 - (b - a))"
    using ab by (simp add: of_nat_diff)
  finally show ?thesis by (simp add: size_sub_def)
qed

section \<open>Formatted input and output\<close>

definition isspace :: "char \<Rightarrow> bool" where
  "isspace c \<longleftrightarrow> c \<in> set [CHR 0x20, CHR 0x09, CHR 0x0A, CHR 0x0B, CHR 0x0C, CHR 0x0D]"

definition token :: "string \<Rightarrow> bool" where
  "token s \<longleftrightarrow> s \<noteq> [] \<and> (\<forall>c\<in>set s. \<not> isspace c \<and> c \<noteq> NUL)"

lemma token_nul_free [simp]: "token s \<Longrightarrow> nul_free s"
  by (auto simp: token_def nul_free_def)

lemma isspace_simps [simp]:
  "isspace CHR 0x20" "isspace CHR 0x0A" "\<not> isspace NUL"
  by (simp_all add: isspace_def)

definition isdigit :: "char \<Rightarrow> bool" where
  "isdigit c \<longleftrightarrow> c \<in> set ''0123456789''"

definition digit_val :: "char \<Rightarrow> nat" where
  "digit_val c = of_char c - 48"

definition digits_val :: "string \<Rightarrow> nat" where
  "digits_val ds = foldl (\<lambda>a c. 10 * a + digit_val c) 0 ds"

text \<open>An optional sign and at least one digit, as \<open>strtol\<close> reads it.\<close>

definition scan_int :: "string \<Rightarrow> (int \<times> string) option" where
  "scan_int s =
     (let neg = (s \<noteq> [] \<and> hd s = CHR ''-'');
          s1 = (if s \<noteq> [] \<and> hd s \<in> {CHR ''-'', CHR ''+''} then tl s else s);
          ds = takeWhile isdigit s1
      in if ds = [] then None
         else Some (if neg then - int (digits_val ds) else int (digits_val ds),
                    dropWhile isdigit s1))"

datatype directive = Lit char | WS | PctS | PctD

datatype conv = Str string | Num int

fun parse_fmt :: "string \<Rightarrow> directive list" where
  "parse_fmt [] = []"
| "parse_fmt [c] = (if isspace c then [WS] else [Lit c])"
| "parse_fmt (c # d # f) =
     (if c = CHR ''%'' \<and> d = CHR ''s'' then PctS # parse_fmt f
      else if c = CHR ''%'' \<and> d = CHR ''d'' then PctD # parse_fmt f
      else if isspace c then WS # parse_fmt (d # f)
      else Lit c # parse_fmt (d # f))"

declare parse_fmt.simps [simp del]

fun scan :: "directive list \<Rightarrow> string \<Rightarrow> conv list" where
  "scan [] s = []"
| "scan (WS # f) s = scan f (dropWhile isspace s)"
| "scan (Lit c # f) s = (case s of [] \<Rightarrow> [] | x # xs \<Rightarrow> if x = c then scan f xs else [])"
| "scan (PctS # f) s =
     (let s' = dropWhile isspace s; t = takeWhile (\<lambda>c. \<not> isspace c) s'
      in if t = [] then [] else Str t # scan f (drop (length t) s'))"
| "scan (PctD # f) s =
     (case scan_int (dropWhile isspace s) of
        None \<Rightarrow> []
      | Some (v, rest) \<Rightarrow> Num v # scan f rest)"

definition sscanf :: "string \<Rightarrow> string \<Rightarrow> conv list" where
  "sscanf s fmt = scan (parse_fmt fmt) s"

text \<open>The \<open>i\<close>-th conversion stored into an array, or the array as it was if it did not match.\<close>

definition store_conv :: "bytes \<Rightarrow> conv list \<Rightarrow> nat \<Rightarrow> bytes res" where
  "store_conv dst cs i =
     (if i < length cs then (case cs ! i of Str s \<Rightarrow> store_str dst s | Num _ \<Rightarrow> Inr dst) else Inr dst)"

definition int_fits :: "int \<Rightarrow> bool" where
  "int_fits v \<longleftrightarrow> - (2 ^ 31) \<le> v \<and> v < 2 ^ 31"

text \<open>The \<open>i\<close>-th conversion stored into an \<open>int\<close>; a number that does not fit is undefined.\<close>

definition store_num :: "int \<Rightarrow> conv list \<Rightarrow> nat \<Rightarrow> int res" where
  "store_num dst cs i =
     (if i < length cs then
        (case cs ! i of Num v \<Rightarrow> if int_fits v then Inr v else Inl SignedOverflow | Str _ \<Rightarrow> Inr dst)
      else Inr dst)"

text \<open>\<open>%d\<close> on output.\<close>

definition digit_char :: "nat \<Rightarrow> char" where
  "digit_char d = ''0123456789'' ! d"

fun dec :: "nat \<Rightarrow> string" where
  "dec n = (if n < 10 then [digit_char n] else dec (n div 10) @ [digit_char (n mod 10)])"

declare dec.simps [simp del]

definition show_int :: "int \<Rightarrow> string" where
  "show_int v = (if v < 0 then CHR ''-'' # dec (nat (- v)) else dec (nat v))"

text \<open>\<open>std::stoi\<close>: leading white space, then \<open>strtol\<close>; it throws on no digits and on overflow.\<close>

definition stoi :: "string \<Rightarrow> int res" where
  "stoi s =
     (case scan_int (dropWhile isspace s) of
        None \<Rightarrow> Inl (Uncaught ''std::invalid_argument'')
      | Some (v, _) \<Rightarrow> if int_fits v then Inr v else Inl (Uncaught ''std::out_of_range''))"

text \<open>\<open>atoi\<close>: the same number, \<open>0\<close> where there is none; undefined on overflow.\<close>

definition atoi :: "string \<Rightarrow> int res" where
  "atoi s =
     (case scan_int (dropWhile isspace s) of
        None \<Rightarrow> Inr 0
      | Some (v, _) \<Rightarrow> if int_fits v then Inr v else Inl SignedOverflow)"

section \<open>Scanning what was printed\<close>

lemma scan_literal [cstr_simps]: "scan (map Lit w @ f) (w @ s) = scan f s"
  by (induction w) auto

lemma token_first: "token t \<Longrightarrow> \<exists>c cs. t = c # cs \<and> \<not> isspace c"
  by (cases t) (auto simp: token_def)

lemma dropWhile_space_token [simp]: "token t \<Longrightarrow> dropWhile isspace (t @ r) = t @ r"
  using token_first [of t] by auto

lemma dropWhile_space_token_Nil [simp]: "token t \<Longrightarrow> dropWhile isspace t = t"
  using dropWhile_space_token [of t "[]"] by simp

lemma takeWhile_token_space [simp]:
  "token t \<Longrightarrow> isspace c \<Longrightarrow> takeWhile (\<lambda>c. \<not> isspace c) (t @ c # r) = t"
  by (rule takeWhile_append_stop) (auto simp: token_def)

lemma takeWhile_token [simp]: "token t \<Longrightarrow> takeWhile (\<lambda>c. \<not> isspace c) t = t"
  by (rule takeWhile_all) (auto simp: token_def)

lemma token_ne [simp]: "token t \<Longrightarrow> t \<noteq> []"
  by (auto simp: token_def)

lemma scan_token_last [cstr_simps]: "token t \<Longrightarrow> scan (PctS # f) t = Str t # scan f []"
  by (simp add: Let_def)

lemma scan_token_space [cstr_simps]:
  "token t \<Longrightarrow> isspace c \<Longrightarrow> scan (PctS # f) (t @ c # r) = Str t # scan f (c # r)"
  by (simp add: Let_def)

lemma scan_WS_space [cstr_simps]: "isspace c \<Longrightarrow> scan (WS # f) (c # r) = scan (WS # f) r"
  by simp

lemma scan_WS_token [cstr_simps]:
  "token t \<Longrightarrow> scan (WS # f) (t @ r) = scan f (t @ r)"
  "token t \<Longrightarrow> scan (WS # f) t = scan f t"
  by simp_all

lemma digit_char_simps [simp]:
  "d < 10 \<Longrightarrow> isdigit (digit_char d)"
  "d < 10 \<Longrightarrow> digit_val (digit_char d) = d"
proof -
  have "d < 10 \<Longrightarrow> d \<in> {0, 1, 2, 3, 4, 5, 6, 7, 8, 9}" by auto
  then show "d < 10 \<Longrightarrow> isdigit (digit_char d)" and "d < 10 \<Longrightarrow> digit_val (digit_char d) = d"
    by (auto simp: isdigit_def digit_char_def digit_val_def)
qed

lemma digits_val_snoc [simp]: "digits_val (ds @ [c]) = 10 * digits_val ds + digit_val c"
  by (simp add: digits_val_def)

lemma dec_ne [simp]: "dec n \<noteq> []"
  by (subst dec.simps) simp

lemma dec_isdigit: "c \<in> set (dec n) \<Longrightarrow> isdigit c"
proof (induction n rule: dec.induct)
  case (1 n)
  then show ?case
    by (subst (asm) (2) dec.simps) (auto split: if_splits)
qed

lemma digits_val_dec [simp]: "digits_val (dec n) = n"
proof (induction n rule: dec.induct)
  case (1 n)
  show ?case
  proof (cases "n < 10")
    case True
    then show ?thesis
      by (subst dec.simps) (simp add: digits_val_def)
  next
    case False
    with 1 show ?thesis by (subst dec.simps) simp
  qed
qed

lemma isdigit_not: "isdigit c \<Longrightarrow> c \<noteq> CHR ''-'' \<and> c \<noteq> CHR ''+'' \<and> \<not> isspace c \<and> c \<noteq> NUL"
  by (auto simp: isdigit_def isspace_def)

lemma dec_hd: "isdigit (hd (dec n))"
  by (rule dec_isdigit [of _ n]) simp

lemma token_dec: "token (dec n)"
  by (auto simp: token_def dest!: dec_isdigit isdigit_not)

lemma token_show_int [simp]: "token (show_int v)"
proof -
  have "token (CHR ''-'' # dec m)" for m
    using token_dec [of m] by (auto simp: token_def isspace_def)
  then show ?thesis by (auto simp: show_int_def token_dec)
qed

lemma takeWhile_dec [simp]: "takeWhile isdigit (dec n) = dec n" "dropWhile isdigit (dec n) = []"
  by (auto dest: dec_isdigit)

lemma scan_int_show_int [simp]: "scan_int (show_int v) = Some (v, [])"
proof (cases "v < 0")
  case True
  then show ?thesis by (simp add: scan_int_def show_int_def)
next
  case False
  with isdigit_not [OF dec_hd [of "nat v"]] show ?thesis
    by (simp add: scan_int_def show_int_def)
qed

lemma scan_num_last [cstr_simps]: "scan [PctD] (show_int v) = [Num v]"
  by simp

lemma stoi_show_int: "int_fits v \<Longrightarrow> stoi (show_int v) = Inr v"
  by (simp add: stoi_def)

section \<open>What a scan can yield\<close>

lemma scan_length: "length (scan f s) \<le> length f"
proof (induction f s rule: scan.induct)
  case (5 f s)
  then show ?case by (auto split: option.splits)
qed (auto simp: Let_def le_SucI split: list.splits)

text \<open>The only fault of the two-word commands is a word that does not fit its array.\<close>

lemma store_conv_fault:
  "store_conv (zeros 50) cs i = Inl e \<longleftrightarrow>
     e = Overflow \<and> (\<exists>w. i < length cs \<and> cs ! i = Str w \<and> 50 \<le> length w)"
  by (auto simp: store_conv_def store_str_Inl_iff split: conv.splits)

lemma scan_int_rest: "scan_int s = Some (v, r) \<Longrightarrow> set r \<subseteq> set s"
  by (cases s) (auto simp: scan_int_def Let_def split: if_splits dest!: set_dropWhileD)

lemma scan_nul_free: "nul_free s \<Longrightarrow> Str w \<in> set (scan f s) \<Longrightarrow> nul_free w"
proof (induction f s rule: scan.induct)
  case (2 f s)
  then show ?case by (auto simp: nul_free_def dest: set_dropWhileD)
next
  case (3 c f s)
  then show ?case by (auto split: list.splits if_splits)
next
  case (4 f s)
  have s': "nul_free (dropWhile isspace s)"
    using 4(2) by (auto simp: nul_free_def dest: set_dropWhileD)
  then have "nul_free (takeWhile (\<lambda>c. \<not> isspace c) (dropWhile isspace s))"
    by (auto simp: nul_free_def dest: set_takeWhileD)
  with 4 s' show ?case by (auto simp: Let_def nul_free_drop split: if_splits)
next
  case (5 f s)
  have "nul_free rest" if "scan_int (dropWhile isspace s) = Some (v, rest)" for v rest
    using scan_int_rest [OF that] 5(2) by (auto simp: nul_free_def dest: set_dropWhileD)
  with 5 show ?case by (cases "scan_int (dropWhile isspace s)") auto
qed simp

lemma store_conv_c_str:
  assumes "nul_free m" and "store_conv (zeros 50) (sscanf m fmt) i = Inr a"
  shows "\<exists>w. c_str a = Inr w \<and> length a = 50 \<and> nul_free w \<and> length w < 50"
proof (cases "i < length (sscanf m fmt) \<and> (\<exists>w. sscanf m fmt ! i = Str w)")
  case True
  then obtain w where i: "i < length (sscanf m fmt)" and w: "sscanf m fmt ! i = Str w" by blast
  from i w have "Str w \<in> set (sscanf m fmt)" by (metis nth_mem)
  with assms(1) have "nul_free w" unfolding sscanf_def by (rule scan_nul_free)
  moreover from assms(2) i w have st: "store_str (zeros 50) w = Inr a" by (simp add: store_conv_def)
  ultimately show ?thesis
    using store_str_c_str [OF st] store_str_length [OF st]
    by (auto simp: store_str_def split: if_splits)
next
  case False
  with assms(2) have "a = zeros 50" by (auto simp: store_conv_def split: if_splits conv.splits)
  then show ?thesis by simp
qed

end
