(* ===== verification/Net.thy ===== *)
theory Net
  imports CLib
begin

text \<open>
  The operating system as the programs see it: stream sockets, the calls that may fail, and the
  \<open>running\<close> flag that a SIGINT clears.

  \<^item> \<open>inbox fd\<close> is what the peer of \<open>fd\<close> will deliver, as the segments in which it arrives. A
    \<open>recv\<close> takes at most the size of its buffer from the first segment and leaves the rest, so a
    message longer than the buffer is read in pieces, as on a TCP stream. When the segments are
    used up the peer has shut the connection down and \<open>recv\<close> returns 0. Theorems quantify over
    the inbox: every segmentation and every order of arrival is covered.
  \<^item> \<open>oks\<close> are the outcomes of the calls that succeed or fail for reasons outside the program
    (\<open>socket\<close>, \<open>connect\<close>, \<open>bind\<close>, \<open>listen\<close>, \<open>send\<close> and so on), in call order; once the list is
    used up every call succeeds. A negative descriptor always fails (\<open>EBADF\<close>).
  \<^item> \<open>sigint_in\<close> is the number of loads of \<open>running\<close> after which SIGINT is delivered, if ever.
  \<^item> \<open>events\<close> is the trace of what the program did to its sockets, oldest first.
\<close>

unbundle bit_operations_syntax

section \<open>Addresses and ports\<close>

type_synonym in_port = "16 word"

text \<open>\<open>htons\<close> on a little-endian host swaps the two bytes; its \<open>int\<close> argument is cut to 16 bits.\<close>

definition bswap16 :: "in_port \<Rightarrow> in_port" where
  "bswap16 w = push_bit 8 w OR drop_bit 8 w"

definition htons :: "int \<Rightarrow> in_port" where
  "htons port = bswap16 (word_of_int port)"

lemma bswap16_bswap16 [simp]: "bswap16 (bswap16 w) = w"
  by (rule bit_word_eqI) (auto simp: bswap16_def bit_simps)

lemma htons_inj: "htons p = htons q \<longleftrightarrow> p mod 65536 = q mod 65536"
proof -
  have "htons p = htons q \<longleftrightarrow> (word_of_int p :: in_port) = word_of_int q"
    by (metis htons_def bswap16_bswap16)
  also have "\<dots> \<longleftrightarrow> p mod 65536 = q mod 65536"
    by (simp add: word_of_int_eq_iff take_bit_eq_mod)
  finally show ?thesis .
qed

text \<open>
  \<open>inet_pton(AF_INET, \<dots>)\<close>: four decimal octets without leading zeros. The accumulator holds the
  finished octets, the current one and whether it has a digit.
\<close>

fun pton4 :: "nat list \<Rightarrow> nat \<Rightarrow> bool \<Rightarrow> string \<Rightarrow> nat list option" where
  "pton4 os cur saw [] = (if saw \<and> length os = 3 then Some (os @ [cur]) else None)"
| "pton4 os cur saw (ch # s) =
     (if isdigit ch then
        (if saw \<and> cur = 0 then None
         else if 10 * cur + digit_val ch > 255 then None
         else if \<not> saw \<and> length os \<ge> 4 then None
         else pton4 os (10 * cur + digit_val ch) True s)
      else if ch = CHR ''.'' \<and> saw then
        (if length os \<ge> 3 then None else pton4 (os @ [cur]) 0 False s)
      else None)"

definition inet_pton :: "string \<Rightarrow> nat list option" where
  "inet_pton s = pton4 [] 0 False s"

lemma pton4_octets:
  "pton4 os cur saw s = Some r \<Longrightarrow> (\<forall>x\<in>set os. x < 256) \<Longrightarrow> cur < 256 \<Longrightarrow> length os \<le> 3 \<Longrightarrow>
     length r = 4 \<and> (\<forall>x\<in>set r. x < 256)"
  by (induction os cur saw s rule: pton4.induct) (auto split: if_splits)

lemma inet_pton_octets: "inet_pton s = Some r \<Longrightarrow> length r = 4 \<and> (\<forall>x\<in>set r. x < 256)"
  unfolding inet_pton_def by (drule pton4_octets) auto

section \<open>Sockets\<close>

datatype arrival = Chunk bytes | RecvError

datatype event =
    Sent int bytes                          \<comment> \<open>\<open>send\<close> accepted the bytes\<close>
  | Closed int                              \<comment> \<open>\<open>close\<close>\<close>
  | Connected int "nat list" in_port        \<comment> \<open>\<open>connect\<close> to an address and a port\<close>
  | Bound int in_port                       \<comment> \<open>\<open>bind\<close> and \<open>listen\<close> on a port\<close>

record net =
  inbox :: "int \<Rightarrow> arrival list"
  oks :: "bool list"
  next_fd :: int
  sigint_in :: "nat option"
  running :: bool
  events :: "event list"

definition log_event :: "event \<Rightarrow> 'a net_scheme \<Rightarrow> 'a net_scheme" where
  "log_event e n = n\<lparr>events := events n @ [e]\<rparr>"

definition recv :: "int \<Rightarrow> nat \<Rightarrow> 'a net_scheme \<Rightarrow> int \<times> bytes \<times> 'a net_scheme" where
  "recv fd sz n =
     (if fd < 0 then (-1, [], n)
      else case inbox n fd of
        [] \<Rightarrow> (0, [], n)
      | RecvError # q \<Rightarrow> (-1, [], n\<lparr>inbox := (inbox n)(fd := q)\<rparr>)
      | Chunk b # q \<Rightarrow>
          if length b \<le> sz then (int (length b), b, n\<lparr>inbox := (inbox n)(fd := q)\<rparr>)
          else (int sz, take sz b, n\<lparr>inbox := (inbox n)(fd := Chunk (drop sz b) # q)\<rparr>))"

text \<open>The bytes received are written over the start of the buffer.\<close>

definition fill :: "bytes \<Rightarrow> bytes \<Rightarrow> bytes" where
  "fill buf b = b @ drop (length b) buf"

definition sys_ok :: "'a net_scheme \<Rightarrow> bool \<times> 'a net_scheme" where
  "sys_ok n = (case oks n of [] \<Rightarrow> (True, n) | b # bs \<Rightarrow> (b, n\<lparr>oks := bs\<rparr>))"

definition send :: "int \<Rightarrow> bytes \<Rightarrow> 'a net_scheme \<Rightarrow> int \<times> 'a net_scheme" where
  "send fd b n =
     (if fd < 0 then (-1, n)
      else let (ok, n') = sys_ok n
           in if ok then (int (length b), log_event (Sent fd b) n') else (-1, n'))"

definition close_fd :: "int \<Rightarrow> 'a net_scheme \<Rightarrow> 'a net_scheme" where
  "close_fd fd n = log_event (Closed fd) n"

text \<open>\<open>socket\<close> hands out a fresh descriptor or \<open>-1\<close>.\<close>

definition socket :: "'a net_scheme \<Rightarrow> int \<times> 'a net_scheme" where
  "socket n = (let (ok, n') = sys_ok n
               in if ok then (next_fd n', n'\<lparr>next_fd := next_fd n' + 1\<rparr>) else (-1, n'))"

section \<open>The running flag and SIGINT\<close>

definition SIGINT :: int where
  "SIGINT = 2"

definition signal_handler :: "int \<Rightarrow> 'a net_scheme \<Rightarrow> 'a net_scheme" where
  "signal_handler sig n = (if sig = SIGINT then n\<lparr>running := False\<rparr> else n)"

text \<open>\<open>running.load()\<close>: a pending SIGINT whose time has come is delivered first.\<close>

definition load_running :: "'a net_scheme \<Rightarrow> bool \<times> 'a net_scheme" where
  "load_running n =
     (let n' = (case sigint_in n of
                  None \<Rightarrow> n
                | Some 0 \<Rightarrow> signal_handler SIGINT (n\<lparr>sigint_in := None\<rparr>)
                | Some (Suc k) \<Rightarrow> n\<lparr>sigint_in := Some k\<rparr>)
      in (running n', n'))"

section \<open>Laws\<close>

lemma recv_length: "recv fd sz n = (r, b, n') \<Longrightarrow> length b \<le> sz \<and> (0 < r \<longrightarrow> r = int (length b))"
  by (auto simp: recv_def split: if_splits list.splits arrival.splits)

lemma recv_frame:
  "recv fd sz n = (r, b, n') \<Longrightarrow>
     oks n' = oks n \<and> events n' = events n \<and> running n' = running n \<and> next_fd n' = next_fd n
     \<and> sigint_in n' = sigint_in n \<and> net.more n' = net.more n"
  by (auto simp: recv_def split: if_splits list.splits arrival.splits)

lemma recv_other: "recv fd sz n = (r, b, n') \<Longrightarrow> fd' \<noteq> fd \<Longrightarrow> inbox n' fd' = inbox n fd'"
  by (auto simp: recv_def split: if_splits list.splits arrival.splits)

lemma recv_whole [net_simps]:
  "0 \<le> fd \<Longrightarrow> inbox n fd = Chunk b # q \<Longrightarrow> length b \<le> sz \<Longrightarrow>
     recv fd sz n = (int (length b), b, n\<lparr>inbox := (inbox n)(fd := q)\<rparr>)"
  by (simp add: recv_def)

lemma recv_part [net_simps]:
  "0 \<le> fd \<Longrightarrow> inbox n fd = Chunk b # q \<Longrightarrow> sz < length b \<Longrightarrow>
     recv fd sz n = (int sz, take sz b, n\<lparr>inbox := (inbox n)(fd := Chunk (drop sz b) # q)\<rparr>)"
  by (simp add: recv_def)

lemma recv_end [net_simps]: "inbox n fd = [] \<Longrightarrow> 0 \<le> fd \<Longrightarrow> recv fd sz n = (0, [], n)"
  by (simp add: recv_def)

text \<open>What is still to come on a connection; every successful read makes it smaller.\<close>

fun arrival_size :: "arrival \<Rightarrow> nat" where
  "arrival_size (Chunk b) = Suc (length b)"
| "arrival_size RecvError = 1"

definition pending :: "int \<Rightarrow> 'a net_scheme \<Rightarrow> nat" where
  "pending fd n = sum_list (map arrival_size (inbox n fd))"

lemma recv_pending: "recv fd sz n = (r, b, n') \<Longrightarrow> 0 < r \<Longrightarrow> 0 < sz \<Longrightarrow> pending fd n' < pending fd n"
  by (auto simp: recv_def pending_def split: if_splits list.splits arrival.splits)

lemma recv_pending_le: "recv fd sz n = (r, b, n') \<Longrightarrow> pending fd' n' \<le> pending fd' n"
  by (auto simp: recv_def pending_def split: if_splits list.splits arrival.splits)

lemma sys_ok_frame:
  "sys_ok n = (ok, n') \<Longrightarrow>
     inbox n' = inbox n \<and> events n' = events n \<and> running n' = running n \<and> next_fd n' = next_fd n
     \<and> sigint_in n' = sigint_in n \<and> net.more n' = net.more n"
  by (auto simp: sys_ok_def split: list.splits)

lemma send_frame:
  "send fd b n = (r, n') \<Longrightarrow>
     inbox n' = inbox n \<and> running n' = running n \<and> next_fd n' = next_fd n
     \<and> sigint_in n' = sigint_in n \<and> net.more n' = net.more n"
  by (auto simp: send_def log_event_def Let_def dest: sys_ok_frame split: if_splits prod.splits)

lemma send_events:
  "send fd b n = (r, n') \<Longrightarrow> events n' = events n @ (if r = -1 then [] else [Sent fd b])"
  by (auto simp: send_def log_event_def Let_def dest: sys_ok_frame split: if_splits prod.splits)

lemma send_ok [net_simps]:
  "0 \<le> fd \<Longrightarrow> oks n = [] \<Longrightarrow> send fd b n = (int (length b), log_event (Sent fd b) n)"
  by (simp add: send_def sys_ok_def)

lemma send_bad_fd [net_simps]: "fd < 0 \<Longrightarrow> send fd b n = (-1, n)"
  by (simp add: send_def)

lemma close_frame [simp]:
  "inbox (close_fd fd n) = inbox n" "running (close_fd fd n) = running n"
  "oks (close_fd fd n) = oks n" "next_fd (close_fd fd n) = next_fd n"
  "sigint_in (close_fd fd n) = sigint_in n"
  "net.more (close_fd fd n) = net.more n" "events (close_fd fd n) = events n @ [Closed fd]"
  by (simp_all add: close_fd_def log_event_def)

lemma log_event_frame [simp]:
  "inbox (log_event e n) = inbox n" "running (log_event e n) = running n"
  "oks (log_event e n) = oks n" "next_fd (log_event e n) = next_fd n"
  "sigint_in (log_event e n) = sigint_in n"
  "net.more (log_event e n) = net.more n" "events (log_event e n) = events n @ [e]"
  by (simp_all add: log_event_def)

lemma load_running_frame:
  "load_running n = (r, n') \<Longrightarrow>
     inbox n' = inbox n \<and> events n' = events n \<and> oks n' = oks n \<and> next_fd n' = next_fd n
     \<and> net.more n' = net.more n \<and> r = running n'"
  by (auto simp: load_running_def signal_handler_def SIGINT_def Let_def
      split: option.splits nat.splits)

text \<open>Once the flag is down it stays down.\<close>

lemma load_running_down: "load_running n = (r, n') \<Longrightarrow> \<not> running n \<Longrightarrow> \<not> r \<and> \<not> running n'"
  by (auto simp: load_running_def signal_handler_def SIGINT_def Let_def
      split: option.splits nat.splits)

lemma load_running_quiet [net_simps]:
  "sigint_in n = None \<Longrightarrow> load_running n = (running n, n)"
  by (simp add: load_running_def)

lemma pending_frame [simp]:
  "pending fd (close_fd fd' n) = pending fd n" "pending fd (log_event e n) = pending fd n"
  by (simp_all add: pending_def)

lemma pending_cong: "inbox n = inbox n' \<Longrightarrow> pending fd n = pending fd n'"
  by (simp add: pending_def)

lemma fill_length [simp]: "length b \<le> length buf \<Longrightarrow> length (fill buf b) = length buf"
  by (simp add: fill_def)

lemma fill_zeros [cstr_simps]: "length b \<le> k \<Longrightarrow> fill (zeros k) b = b @ zeros (k - length b)"
  by (simp add: fill_def zeros_def)

end
