(* ===== verification/User.thy ===== *)
theory User
  imports Prelude
begin

text \<open>
  The class \<open>User\<close> of \<open>src/User.cpp\<close>. The default constructor initialises neither \<open>islogin_\<close> nor
  \<open>socket_fd_\<close>: the two members are optional here, \<open>None\<close> being the indeterminate value, and a
  getter hands the value on as it is, so that the code that uses it decides whether the use is
  defined.
\<close>

record user =
  username_v :: string
  password_v :: string
  islogin_v :: "bool option"
  socket_fd_v :: "int option"

definition User4 :: "string \<Rightarrow> string \<Rightarrow> bool \<Rightarrow> int \<Rightarrow> user" where
  "User4 username password islogin socket_fd =
     \<lparr>username_v = username, password_v = password,
      islogin_v = Some islogin, socket_fd_v = Some socket_fd\<rparr>"

definition User_copy :: "user \<Rightarrow> user" where
  "User_copy other =
     \<lparr>username_v = username_v other, password_v = password_v other,
      islogin_v = islogin_v other, socket_fd_v = socket_fd_v other\<rparr>"

definition User0 :: user where
  "User0 = \<lparr>username_v = [], password_v = [], islogin_v = None, socket_fd_v = None\<rparr>"

definition getUsername :: "user \<Rightarrow> string" where
  "getUsername u = username_v u"

definition setUsername :: "string \<Rightarrow> user \<Rightarrow> user" where
  "setUsername username u = u\<lparr>username_v := username\<rparr>"

definition getPassword :: "user \<Rightarrow> string" where
  "getPassword u = password_v u"

definition setPassword :: "string \<Rightarrow> user \<Rightarrow> user" where
  "setPassword password u = u\<lparr>password_v := password\<rparr>"

definition getIslogin :: "user \<Rightarrow> bool option" where
  "getIslogin u = islogin_v u"

definition setIslogin :: "bool option \<Rightarrow> user \<Rightarrow> user" where
  "setIslogin islogin u = u\<lparr>islogin_v := islogin\<rparr>"

definition getSocketFd :: "user \<Rightarrow> int option" where
  "getSocketFd u = socket_fd_v u"

definition setSocketFd :: "int option \<Rightarrow> user \<Rightarrow> user" where
  "setSocketFd socket_fd u = u\<lparr>socket_fd_v := socket_fd\<rparr>"

lemmas user_defs =
  User4_def User_copy_def User0_def getUsername_def setUsername_def getPassword_def
  setPassword_def getIslogin_def setIslogin_def getSocketFd_def setSocketFd_def

lemma User_copy_id [simp]: "User_copy u = u"
  by (simp add: User_copy_def)

end
