(* ===== verification/UserStore.thy ===== *)
theory UserStore
  imports User
begin

text \<open>
  The class \<open>UserStore\<close> of \<open>src/UserStore.cpp\<close>: the accounts of the server, a
  \<open>std::unordered_map\<close> from names to \<open>User\<close> objects behind a mutex.

  \<open>operator[]\<close> inserts a default-constructed \<open>User\<close> for a missing key before it yields the entry;
  \<open>addUser\<close>, \<open>loginUser\<close>, \<open>logOutUser\<close> and \<open>isLogin\<close> are written with it. Every method but
  \<open>logOutUser\<close> holds the mutex, so a method is one atomic step here; what the missing lock of
  \<open>logOutUser\<close> allows is the subject of the theory \<open>StoreLocks\<close>.

  The lemmas give the invariant of the store (\<open>store_inv\<close>), the contract of the store as a
  locale (\<open>account_store\<close>) with its interpretation, and the runs of operations: an entry is
  never removed, whatever the other threads do.
\<close>

type_synonym user_store = "string \<rightharpoonup> user"

section \<open>The container: \<open>std::unordered_map\<close>\<close>

definition um_put :: "'k \<Rightarrow> 'v \<Rightarrow> ('k \<rightharpoonup> 'v) \<Rightarrow> ('k \<rightharpoonup> 'v)" where
  "um_put k v m = m(k \<mapsto> v)"

definition um_erase :: "'k \<Rightarrow> ('k \<rightharpoonup> 'v) \<Rightarrow> ('k \<rightharpoonup> 'v)" where
  "um_erase k m = m(k := None)"

interpretation um: keyed_container Map.empty "\<lambda>m. m" um_put um_erase "\<lambda>m. True"
  by unfold_locales (simp_all add: um_put_def um_erase_def)

text \<open>\<open>users[k]\<close> as the target of a setter \<open>f\<close>: a missing entry is created first.\<close>

definition at_key :: "string \<Rightarrow> (user \<Rightarrow> user) \<Rightarrow> user_store \<Rightarrow> user_store" where
  "at_key k f users = um_put k (f (case users k of None \<Rightarrow> User0 | Some u \<Rightarrow> u)) users"

lemma at_key_same [simp]:
  "at_key k f users k = Some (f (case users k of None \<Rightarrow> User0 | Some u \<Rightarrow> u))"
  by (simp add: at_key_def um.find_put_same)

lemma at_key_other [simp]: "k' \<noteq> k \<Longrightarrow> at_key k f users k' = users k'"
  by (simp add: at_key_def um.find_put_other)

lemma at_key_at_key: "at_key k g (at_key k f users) = at_key k (g \<circ> f) users"
  by (auto simp: fun_eq_iff at_key_def um_put_def)

section \<open>Operations\<close>

definition addUser :: "user \<Rightarrow> user_store \<Rightarrow> user_store" where
  "addUser user users =
     (let users = at_key (getUsername user) (setUsername (getUsername user)) users;
          users = at_key (getUsername user) (setPassword (getPassword user)) users;
          users = at_key (getUsername user) (setIslogin (getIslogin user)) users;
          users = at_key (getUsername user) (setSocketFd (getSocketFd user)) users
      in users)"

definition loginUser :: "string \<Rightarrow> string \<Rightarrow> user_store \<Rightarrow> bool \<times> user_store" where
  "loginUser username password users =
     (case users username of
        Some u \<Rightarrow>
          if getPassword u = password
          then (True, at_key username (setIslogin (Some True)) users)
          else (False, users)
      | None \<Rightarrow> (False, users))"

definition logOutUser :: "string \<Rightarrow> user_store \<Rightarrow> user_store" where
  "logOutUser username users = at_key username (setIslogin (Some False)) users"

definition hasUser :: "string \<Rightarrow> user_store \<Rightarrow> bool" where
  "hasUser username users \<longleftrightarrow> users username \<noteq> None"

definition isLogin :: "string \<Rightarrow> user_store \<Rightarrow> bool res" where
  "isLogin username users =
     (case users username of
        Some u \<Rightarrow> use_value (getIslogin u)
      | None \<Rightarrow> Inr False)"

text \<open>\<open>getUser\<close> returns a copy or throws \<open>std::runtime_error\<close>.\<close>

definition getUser :: "string \<Rightarrow> user_store \<Rightarrow> string + user" where
  "getUser username users =
     (case users username of
        Some u \<Rightarrow> Inr (User_copy u)
      | None \<Rightarrow> Inl ''User not found'')"

section \<open>Functional behaviour\<close>

lemma addUser_lookup:
  "addUser user users =
     users(username_v user \<mapsto> \<lparr>username_v = username_v user, password_v = password_v user,
                              islogin_v = islogin_v user, socket_fd_v = socket_fd_v user\<rparr>)"
  by (auto simp: addUser_def Let_def at_key_def um_put_def user_defs fun_eq_iff
      split: option.splits)

lemma addUser_User4:
  "addUser (User4 n p l fd) users = users(n \<mapsto> User4 n p l fd)"
  by (simp add: addUser_lookup User4_def)

lemma User4_sel [simp]:
  "username_v (User4 n p l fd) = n" "password_v (User4 n p l fd) = p"
  "islogin_v (User4 n p l fd) = Some l" "socket_fd_v (User4 n p l fd) = Some fd"
  by (simp_all add: User4_def)

lemma loginUser_cases:
  "loginUser n p users =
     (if \<exists>u. users n = Some u \<and> password_v u = p
      then (True, users(n \<mapsto> (the (users n))\<lparr>islogin_v := Some True\<rparr>))
      else (False, users))"
  by (auto simp: loginUser_def at_key_def um_put_def user_defs fun_eq_iff split: option.splits)

lemma logOutUser_lookup:
  "logOutUser n users =
     users(n \<mapsto> (case users n of None \<Rightarrow> User0 | Some u \<Rightarrow> u)\<lparr>islogin_v := Some False\<rparr>)"
  by (simp add: logOutUser_def at_key_def um_put_def setIslogin_def)

section \<open>The invariant of the store\<close>

text \<open>
  Every entry knows whether its user is logged in. An entry made by \<open>addUser\<close> carries its own key
  as its name and a descriptor; the only other entries are the ones \<open>logOutUser\<close> creates for an
  unknown name, which have an empty name, an empty password and no descriptor.
\<close>

definition entry_ok :: "string \<Rightarrow> user \<Rightarrow> bool" where
  "entry_ok k u \<longleftrightarrow> islogin_v u \<noteq> None \<and>
     (username_v u = k \<and> socket_fd_v u \<noteq> None
      \<or> username_v u = [] \<and> password_v u = [] \<and> socket_fd_v u = None)"

definition store_inv :: "user_store \<Rightarrow> bool" where
  "store_inv users \<longleftrightarrow> (\<forall>k u. users k = Some u \<longrightarrow> entry_ok k u)"

lemma store_invD: "store_inv users \<Longrightarrow> users k = Some u \<Longrightarrow> entry_ok k u"
  by (simp add: store_inv_def)

lemma store_inv_upd: "store_inv users \<Longrightarrow> entry_ok k u \<Longrightarrow> store_inv (users(k \<mapsto> u))"
  by (simp add: store_inv_def)

lemma store_inv_empty: "store_inv Map.empty"
  by (simp add: store_inv_def)

lemma store_inv_addUser:
  "store_inv users \<Longrightarrow> store_inv (addUser (User4 n p l fd) users)"
  by (simp add: addUser_User4 entry_ok_def store_inv_upd)

lemma store_inv_loginUser: "store_inv users \<Longrightarrow> store_inv (snd (loginUser n p users))"
  by (auto simp: loginUser_cases entry_ok_def intro!: store_inv_upd dest: store_invD)

lemma store_inv_logOutUser: "store_inv users \<Longrightarrow> store_inv (logOutUser n users)"
  by (auto simp: logOutUser_lookup entry_ok_def User0_def intro!: store_inv_upd dest: store_invD
      split: option.splits)

lemmas store_inv_intros =
  store_inv_empty store_inv_addUser store_inv_loginUser store_inv_logOutUser

lemma isLogin_defined: "store_inv users \<Longrightarrow> \<exists>b. isLogin n users = Inr b"
  using store_invD [of users n]
  by (auto simp: isLogin_def getIslogin_def entry_ok_def use_value_def split: option.splits)

lemma isLogin_hasUser: "isLogin n users = Inr True \<Longrightarrow> hasUser n users"
  by (auto simp: isLogin_def hasUser_def split: option.splits)

section \<open>Runs of operations\<close>

text \<open>The calls that other threads may make between two calls of one thread.\<close>

datatype store_op =
    Add string string int       \<comment> \<open>\<open>addUser(User(n, p, false, fd))\<close>\<close>
  | Login string string
  | LogOut string
  | Query                       \<comment> \<open>\<open>hasUser\<close>, \<open>isLogin\<close>, \<open>getUser\<close>: no effect\<close>

fun apply_op :: "store_op \<Rightarrow> user_store \<Rightarrow> user_store" where
  "apply_op (Add n p fd) users = addUser (User4 n p False fd) users"
| "apply_op (Login n p) users = snd (loginUser n p users)"
| "apply_op (LogOut n) users = logOutUser n users"
| "apply_op Query users = users"

definition run_ops :: "store_op list \<Rightarrow> user_store \<Rightarrow> user_store" where
  "run_ops os users = fold apply_op os users"

lemma run_ops_simps [simp]:
  "run_ops [] users = users"
  "run_ops (x # os) users = run_ops os (apply_op x users)"
  by (simp_all add: run_ops_def)

lemma run_ops_append: "run_ops (xs @ ys) users = run_ops ys (run_ops xs users)"
  by (simp add: run_ops_def)

lemma apply_op_inv: "store_inv users \<Longrightarrow> store_inv (apply_op x users)"
  by (cases x) (auto intro: store_inv_intros)

lemma run_ops_inv: "store_inv users \<Longrightarrow> store_inv (run_ops os users)"
  by (induction os arbitrary: users) (auto intro: apply_op_inv)

lemma apply_op_dom: "dom users \<subseteq> dom (apply_op x users)"
  by (cases x) (auto simp: addUser_User4 loginUser_cases logOutUser_lookup)

lemma run_ops_dom: "dom users \<subseteq> dom (run_ops os users)"
proof (induction os arbitrary: users)
  case Nil
  then show ?case by simp
next
  case (Cons x os)
  have "dom users \<subseteq> dom (apply_op x users)" by (rule apply_op_dom)
  also have "\<dots> \<subseteq> dom (run_ops os (apply_op x users))" by (rule Cons.IH)
  finally show ?case by simp
qed

lemma getUser_after:
  "hasUser n users \<Longrightarrow> \<exists>u. getUser n (run_ops os users) = Inr u"
  using run_ops_dom [of users os] by (auto simp: hasUser_def getUser_def split: option.splits)

text \<open>
  Only a sign-up gives an entry a descriptor, and the last one for a name decides it: the password
  and the descriptor of an account are those of its last \<open>addUser\<close>.
\<close>

fun last_add :: "string \<Rightarrow> store_op list \<Rightarrow> (string \<times> int) option" where
  "last_add n [] = None"
| "last_add n (x # os) =
     (case last_add n os of
        Some r \<Rightarrow> Some r
      | None \<Rightarrow> (case x of Add n' p fd \<Rightarrow> if n' = n then Some (p, fd) else None | _ \<Rightarrow> None))"

lemma apply_op_keeps:
  "\<forall>p fd. x \<noteq> Add n p fd \<Longrightarrow> users n = Some u \<Longrightarrow>
     \<exists>l. apply_op x users n = Some (u\<lparr>islogin_v := l\<rparr>)"
  by (cases x) (auto simp: addUser_User4 loginUser_cases logOutUser_lookup intro: exI [of _ "islogin_v u"])

lemma run_ops_credentials_none:
  "last_add n os = None \<Longrightarrow> users n = Some u \<Longrightarrow>
     \<exists>l. run_ops os users n = Some (u\<lparr>islogin_v := l\<rparr>)"
proof (induction os arbitrary: users u)
  case Nil
  then show ?case by (auto intro: exI [of _ "islogin_v u"])
next
  case (Cons x os)
  from Cons.prems have none: "last_add n os = None" and "\<forall>p fd. x \<noteq> Add n p fd"
    by (auto split: option.splits store_op.splits)
  then obtain l where "apply_op x users n = Some (u\<lparr>islogin_v := l\<rparr>)"
    using apply_op_keeps Cons.prems(2) by blast
  with none show ?case
    using Cons.IH [of "apply_op x users" "u\<lparr>islogin_v := l\<rparr>"] by simp
qed

lemma run_ops_credentials:
  "last_add n os = Some (p, fd) \<Longrightarrow> \<exists>l. run_ops os users n = Some ((User4 n p False fd)\<lparr>islogin_v := l\<rparr>)"
proof (induction os arbitrary: users)
  case Nil
  then show ?case by simp
next
  case (Cons x os)
  show ?case
  proof (cases "last_add n os")
    case None
    with Cons.prems have "x = Add n p fd"
      by (auto split: store_op.splits if_splits)
    then have "apply_op x users n = Some (User4 n p False fd)"
      by (simp add: addUser_User4)
    then show ?thesis
      using run_ops_credentials_none [where users = "apply_op x users", OF None] by simp
  next
    case (Some r)
    with Cons show ?thesis by simp
  qed
qed

section \<open>The contract of the store\<close>

text \<open>
  What the server relies on, without the representation: an account is a password and whether its
  owner is logged in.
\<close>

locale account_store =
  fixes account :: "'s \<Rightarrow> string \<Rightarrow> (string \<times> bool) option"
    and signup :: "string \<Rightarrow> string \<Rightarrow> int \<Rightarrow> 's \<Rightarrow> 's"
    and login :: "string \<Rightarrow> string \<Rightarrow> 's \<Rightarrow> bool \<times> 's"
    and logout :: "string \<Rightarrow> 's \<Rightarrow> 's"
    and ok :: "'s \<Rightarrow> bool"
  assumes account_signup: "account (signup n p fd s) = (account s)(n \<mapsto> (p, False))"
    and login_result: "fst (login n p s) \<longleftrightarrow> (\<exists>l. account s n = Some (p, l))"
    and account_login:
      "account (snd (login n p s)) =
         (if fst (login n p s) then (account s)(n \<mapsto> (p, True)) else account s)"
    and account_logout:
      "account (logout n s) =
         (account s)(n \<mapsto> (case account s n of None \<Rightarrow> [] | Some (p, _) \<Rightarrow> p, False))"
    and ok_signup: "ok s \<Longrightarrow> ok (signup n p fd s)"
    and ok_login: "ok s \<Longrightarrow> ok (snd (login n p s))"
    and ok_logout: "ok s \<Longrightarrow> ok (logout n s)"
begin

lemma login_after_signup: "fst (login n p (signup n p fd s))"
  by (auto simp: login_result account_signup)

lemma online_after_login:
  "account (snd (login n p (signup n p fd s))) n = Some (p, True)"
  by (simp add: account_login login_after_signup)

lemma wrong_password: "q \<noteq> p \<Longrightarrow> \<not> fst (login n q (signup n p fd s))"
  by (simp add: login_result account_signup)

lemma failed_login_no_effect: "\<not> fst (login n p s) \<Longrightarrow> account (snd (login n p s)) = account s"
  by (simp add: account_login)

lemma offline_after_logout: "\<exists>p. account (logout n s) n = Some (p, False)"
  by (simp add: account_logout)

lemma others_unchanged:
  "m \<noteq> n \<Longrightarrow> account (signup n p fd s) m = account s m"
  "m \<noteq> n \<Longrightarrow> account (snd (login n p s)) m = account s m"
  "m \<noteq> n \<Longrightarrow> account (logout n s) m = account s m"
  by (simp_all add: account_signup account_login account_logout)

lemma session_round_trip:
  "account (logout n (snd (login n p (signup n p fd s)))) = account (signup n p fd s)"
  by (simp add: account_logout account_login login_after_signup account_signup)

text \<open>A logout of an unknown name creates an account with an empty password.\<close>

lemma logout_creates:
  "account s n = None \<Longrightarrow> fst (login n [] (logout n s))"
  by (auto simp: login_result account_logout)

end

definition account_of :: "user_store \<Rightarrow> string \<Rightarrow> (string \<times> bool) option" where
  "account_of users n = map_option (\<lambda>u. (password_v u, islogin_v u = Some True)) (users n)"

definition signup_user :: "string \<Rightarrow> string \<Rightarrow> int \<Rightarrow> user_store \<Rightarrow> user_store" where
  "signup_user n p fd users = addUser (User4 n p False fd) users"

interpretation us: account_store account_of signup_user loginUser logOutUser store_inv
proof unfold_locales
  show "account_of (signup_user n p fd s) = (account_of s)(n \<mapsto> (p, False))" for n p fd s
    by (simp add: account_of_def signup_user_def addUser_User4 fun_eq_iff)
  show "fst (loginUser n p s) \<longleftrightarrow> (\<exists>l. account_of s n = Some (p, l))" for n p s
    by (auto simp: account_of_def loginUser_cases)
  show "account_of (snd (loginUser n p s)) =
      (if fst (loginUser n p s) then (account_of s)(n \<mapsto> (p, True)) else account_of s)" for n p s
    by (auto simp: account_of_def loginUser_cases fun_eq_iff)
  show "account_of (logOutUser n s) =
      (account_of s)(n \<mapsto> (case account_of s n of None \<Rightarrow> [] | Some (p, _) \<Rightarrow> p, False))" for n s
    by (auto simp: account_of_def logOutUser_lookup User0_def fun_eq_iff split: option.splits)
qed (auto simp: signup_user_def intro: store_inv_intros)

section \<open>Properties of the store\<close>

text \<open>C13. The store implements accounts: signing up sets a password, logging in succeeds exactly with
  the right password and changes nothing otherwise, logging out restores the state after signing
  up, and no operation touches the account of another name.\<close>

theorem store_implements_accounts:
  "account_of (signup_user n p fd s) = (account_of s)(n \<mapsto> (p, False))
   \<and> (fst (loginUser n p s) \<longleftrightarrow> (\<exists>l. account_of s n = Some (p, l)))
   \<and> account_of (snd (loginUser n p s)) =
       (if fst (loginUser n p s) then (account_of s)(n \<mapsto> (p, True)) else account_of s)
   \<and> account_of (logOutUser n (snd (loginUser n p (signup_user n p fd s)))) = account_of (signup_user n p fd s)
   \<and> account_of (logOutUser n s) =
       (account_of s)(n \<mapsto> (case account_of s n of None \<Rightarrow> [] | Some (p, _) \<Rightarrow> p, False))"
  using us.account_signup us.login_result us.account_login us.session_round_trip us.account_logout
  by (intro conjI) metis+

text \<open>The credentials of an account are those of the last sign-up for its name in any sequence of
  calls by any threads: no login or logout ever changes a password or a descriptor.\<close>

theorem last_signup_decides:
  assumes "last_add n os = Some (p, fd)"
  shows "\<exists>u. run_ops os users n = Some u \<and> password_v u = p \<and> socket_fd_v u = Some fd \<and> username_v u = n"
  using run_ops_credentials [OF assms, of users] by auto

theorem last_signup_decides_witness:
  "\<exists>u. run_ops [Add ''ann'' ''pw'' 5, Login ''ann'' ''pw'', Add ''ann'' ''new'' 7, LogOut ''ann'']
      Map.empty ''ann'' = Some u \<and> password_v u = ''new'' \<and> socket_fd_v u = Some 7 \<and> username_v u = ''ann''"
  using last_signup_decides [of "''ann''" "[Add ''ann'' ''pw'' 5, Login ''ann'' ''pw'', Add ''ann'' ''new'' 7,
      LogOut ''ann'']" "''new''" 7 Map.empty] by simp

text \<open>\<open>logOutUser\<close> of a name that has no account creates one, which a login with an empty password
  then opens.\<close>

theorem logout_creates_account:
  assumes "\<not> hasUser n s"
  shows "hasUser n (logOutUser n s) \<and> fst (loginUser n [] (logOutUser n s))
    \<and> use_value (getSocketFd (the (logOutUser n s n))) = Inl Indeterminate"
proof -
  have "s n = None" using assms by (simp add: hasUser_def)
  then have "account_of s n = None" by (simp add: account_of_def)
  from us.logout_creates [OF this] \<open>s n = None\<close> show ?thesis
    by (simp add: hasUser_def logOutUser_lookup getSocketFd_def User0_def)
qed

theorem logout_creates_account_witness:
  "hasUser ''eve'' (logOutUser ''eve'' Map.empty) \<and> fst (loginUser ''eve'' [] (logOutUser ''eve'' Map.empty))"
  using logout_creates_account [of "''eve''" Map.empty] by (simp add: hasUser_def)

end
