(* ===== verification/Server.thy ===== *)
theory Server
  imports Net UserStore
begin

text \<open>
  The signalling server, \<open>src/server.cpp\<close>: the handler thread of a connection (\<open>client_handler\<close>)
  with one definition per command, and the main thread (\<open>main\<close>).

  \<^item> \<open>conn\<close> is the local state of a handler: the descriptor it serves, the address the client
    announced, the descriptor of the connection back to the client, and the name of the last
    SIGNUP or LOGIN.
  \<^item> \<open>server\<close> is what the threads share: the operating system (\<open>net\<close>), and the global \<open>userStore\<close>.
  \<^item> \<open>pc\<close> cuts a handler into steps that touch \<open>userStore\<close> at most once, so that interleaving the
    steps of several handlers (theory \<open>ServerSystem\<close>) interleaves their calls of the store; run
    without interference they are the body of \<open>client_handler\<close>.

  A console print is left out except where it reads a C string, which can run past an array.
\<close>

definition SOCKET_BUFFER_SIZE :: nat where
  "SOCKET_BUFFER_SIZE = 1024"

record conn =
  client_socket :: int
  client_ip_address :: bytes
  client_port_int :: int
  client_socket_fd :: int
  username :: string
  password :: string
  haslogin :: bool

record server = net +
  userStore :: user_store

datatype pc =
    AtLoop                        \<comment> \<open>head of \<open>while(running.load())\<close>\<close>
  | AtHasUser bytes bytes         \<comment> \<open>\<open>isLogin\<close> said yes; name and description of the callee\<close>
  | AtGetUser bytes bytes
  | AtInvite bytes bytes int      \<comment> \<open>the callee's descriptor is known\<close>
  | AtAnswer int                  \<comment> \<open>waiting for the callee\<close>
  | AtEpilogue                    \<comment> \<open>after the loop\<close>
  | Done

definition start_conn :: "int \<Rightarrow> conn" where
  "start_conn fd =
     \<lparr>client_socket = fd, client_ip_address = zeros 15, client_port_int = -1,
      client_socket_fd = -1, username = [], password = [], haslogin = False\<rparr>"

text \<open>\<open>char message[SOCKET_BUFFER_SIZE] = "\<dots>"\<close>: the rest of the array is zero.\<close>

definition message_array :: "string \<Rightarrow> bytes" where
  "message_array s = s @ zeros (SOCKET_BUFFER_SIZE - length s)"

abbreviation nl :: string where
  "nl \<equiv> [CHR 0x0A]"

section \<open>The connection back to the client\<close>

text \<open>The return code, the value left in \<open>*client_socket_fd\<close> and the new state.\<close>

definition connect_to_client ::
  "bytes \<Rightarrow> int \<Rightarrow> 'a net_scheme \<Rightarrow> (int \<times> int \<times> 'a net_scheme) res" where
  "connect_to_client ip_address port n =
     (let (fd, n) = socket n
      in if fd = -1 then Inr (-1, -1, n)
         else res_bind (c_str ip_address) (\<lambda>ip.
           case inet_pton ip of
             None \<Rightarrow> Inr (-1, fd, n)
           | Some addr \<Rightarrow>
               let (ok, n) = sys_ok n
               in if \<not> ok then Inr (-1, fd, n)
                  else Inr (0, fd, log_event (Connected fd addr (htons port)) n)))"

section \<open>The commands\<close>

definition handle_CLIENT :: "bytes \<Rightarrow> conn \<Rightarrow> server \<Rightarrow> (pc \<times> conn \<times> server) res" where
  "handle_CLIENT buffer c s =
     res_bind (c_str buffer) (\<lambda>m.
       let cs = sscanf m ''CLIENT %s %d''
       in res_bind (store_conv (client_ip_address c) cs 0) (\<lambda>ip.
          res_bind (store_num (client_port_int c) cs 1) (\<lambda>port.
          res_bind (c_str ip) (\<lambda>_.
          res_bind (connect_to_client ip port s) (\<lambda>(rc, fd, s).
            let c = c\<lparr>client_ip_address := ip, client_port_int := port, client_socket_fd := fd\<rparr>
            in if rc \<noteq> 0 then Inr (AtEpilogue, c, s)
               else let (_, s) = send fd (message_array (''Hello from new server'' @ nl)) s
                    in Inr (AtLoop, c, s))))))"

text \<open>The two words after a command, through \<open>char[50]\<close> arrays into \<open>std::string\<close>s.\<close>

definition two_words :: "bytes \<Rightarrow> string \<Rightarrow> (string \<times> string) res" where
  "two_words buffer fmt =
     res_bind (c_str buffer) (\<lambda>m.
       let cs = sscanf m fmt
       in res_bind (store_conv (zeros 50) cs 0) (\<lambda>username_char.
          res_bind (store_conv (zeros 50) cs 1) (\<lambda>password_char.
          res_bind (c_str username_char) (\<lambda>u.
          res_bind (c_str password_char) (\<lambda>p. Inr (u, p))))))"

definition handle_SIGNUP :: "bytes \<Rightarrow> conn \<Rightarrow> server \<Rightarrow> (pc \<times> conn \<times> server) res" where
  "handle_SIGNUP buffer c s =
     res_bind (two_words buffer ''SIGNUP %s %s'') (\<lambda>(u, p).
       let c = c\<lparr>username := u, password := p\<rparr>;
           s = s\<lparr>userStore := addUser (User4 u p False (client_socket_fd c)) (userStore s)\<rparr>;
           (_, s) = send (client_socket c) (message_array (''Signup is successful'' @ nl)) s
       in Inr (AtLoop, c, s))"

text \<open>The result of \<open>loginUser\<close> is discarded.\<close>

definition handle_LOGIN :: "bytes \<Rightarrow> conn \<Rightarrow> server \<Rightarrow> (pc \<times> conn \<times> server) res" where
  "handle_LOGIN buffer c s =
     res_bind (two_words buffer ''LOGIN %s %s'') (\<lambda>(u, p).
       let c = c\<lparr>username := u, password := p\<rparr>;
           (_, us) = loginUser u p (userStore s);
           s = s\<lparr>userStore := us\<rparr>;
           (_, s) = send (client_socket c) (message_array (''Login is successful'' @ nl)) s
       in Inr (AtLoop, c, s))"

text \<open>
  The callee's name and the caller's session description. \<open>len\<close> assumes one space on either side
  of the name; the length handed to \<open>strncpy\<close> is a difference of \<open>size_t\<close> values.
\<close>

definition call_len :: "string \<Rightarrow> nat" where
  "call_len r = 4 + 1 + length r + 1"

definition parse_CALL :: "bytes \<Rightarrow> (bytes \<times> bytes) res" where
  "parse_CALL buffer =
     res_bind (c_str buffer) (\<lambda>m.
     res_bind (store_conv (zeros 50) (sscanf m ''CALL %s'') 0) (\<lambda>receiver_username_char.
     res_bind (c_str receiver_username_char) (\<lambda>r.
       let len = call_len r
       in res_bind (strncpy (zeros SOCKET_BUFFER_SIZE) (drop len m) (size_sub (length m) len))
            (\<lambda>first_peer_sdp.
            res_bind (c_str first_peer_sdp) (\<lambda>_. Inr (receiver_username_char, first_peer_sdp))))))"

definition handle_CALL :: "bytes \<Rightarrow> conn \<Rightarrow> server \<Rightarrow> (pc \<times> conn \<times> server) res" where
  "handle_CALL buffer c s =
     res_bind (parse_CALL buffer) (\<lambda>(receiver_username_char, first_peer_sdp).
     res_bind (c_str receiver_username_char) (\<lambda>receiver_username.
     res_bind (isLogin receiver_username (userStore s)) (\<lambda>l.
       Inr (if \<not> l then AtLoop else AtHasUser receiver_username_char first_peer_sdp, c, s))))"

definition call_hasUser ::
  "bytes \<Rightarrow> bytes \<Rightarrow> conn \<Rightarrow> server \<Rightarrow> (pc \<times> conn \<times> server) res" where
  "call_hasUser receiver_username_char first_peer_sdp c s =
     res_bind (c_str receiver_username_char) (\<lambda>receiver_username.
       Inr (if \<not> hasUser receiver_username (userStore s) then AtLoop
            else AtGetUser receiver_username_char first_peer_sdp, c, s))"

text \<open>A \<open>std::runtime_error\<close> of \<open>getUser\<close> is caught and dropped.\<close>

definition call_getUser ::
  "bytes \<Rightarrow> bytes \<Rightarrow> conn \<Rightarrow> server \<Rightarrow> (pc \<times> conn \<times> server) res" where
  "call_getUser receiver_username_char first_peer_sdp c s =
     res_bind (c_str receiver_username_char) (\<lambda>receiver_username.
       case getUser receiver_username (userStore s) of
         Inl err \<Rightarrow> Inr (AtLoop, c, s)
       | Inr receiverUser \<Rightarrow>
           res_bind (use_value (getSocketFd receiverUser)) (\<lambda>receiver_fd.
             Inr (AtInvite receiver_username_char first_peer_sdp receiver_fd, c, s)))"

definition invite_message :: "bytes \<Rightarrow> bytes \<Rightarrow> bytes res" where
  "invite_message receiver_username_char first_peer_sdp =
     res_bind (c_str receiver_username_char) (\<lambda>r.
     res_bind (c_str first_peer_sdp) (\<lambda>sdp.
       store_str (zeros (SOCKET_BUFFER_SIZE * 2)) (''INVITE '' @ r @ '' '' @ sdp)))"

definition call_invite ::
  "bytes \<Rightarrow> bytes \<Rightarrow> int \<Rightarrow> conn \<Rightarrow> server \<Rightarrow> (pc \<times> conn \<times> server) res" where
  "call_invite receiver_username_char first_peer_sdp receiver_fd c s =
     res_bind (invite_message receiver_username_char first_peer_sdp) (\<lambda>message.
       let (_, s) = send receiver_fd message s
       in Inr (AtAnswer receiver_fd, c, s))"

text \<open>The callee's answer is forwarded as it came if its first word starts with ACCEPT.\<close>

definition call_answer :: "int \<Rightarrow> conn \<Rightarrow> server \<Rightarrow> (pc \<times> conn \<times> server) res" where
  "call_answer receiver_fd c s =
     (let (_, b, s) = recv receiver_fd SOCKET_BUFFER_SIZE s;
          incoming_message = fill (zeros SOCKET_BUFFER_SIZE) b
      in res_bind (c_str incoming_message) (\<lambda>m.
         res_bind (store_conv (zeros 50) (sscanf m ''%s'') 0) (\<lambda>accept_command.
           if strncmp accept_command ''ACCEPT'' 6 = 0
           then let (_, s) = send (client_socket_fd c) incoming_message s
                in Inr (AtLoop, c, s)
           else Inr (AtLoop, c, s))))"

definition handle_LOGOUT :: "conn \<Rightarrow> server \<Rightarrow> (pc \<times> conn \<times> server) res" where
  "handle_LOGOUT c s =
     (let s = s\<lparr>userStore := logOutUser (username c) (userStore s)\<rparr>;
          (_, s) = send (client_socket c) (message_array (''Logout is successful'' @ nl)) s
      in Inr (AtLoop, c, s))"

definition handle_EXIT :: "conn \<Rightarrow> server \<Rightarrow> (pc \<times> conn \<times> server) res" where
  "handle_EXIT c s =
     (let (r, s) = send (client_socket c) (message_array (''Exit is succesful'' @ nl)) s
      in if r = -1 then Inr (AtEpilogue, c, s)
         else let (r, s) = send (client_socket_fd c) (''EXIT'' @ [NUL]) s
              in Inr (AtEpilogue, c, s))"

section \<open>The handler\<close>

text \<open>The chain of \<open>strncmp\<close> tests; a message with no known prefix is ignored.\<close>

definition dispatch :: "bytes \<Rightarrow> conn \<Rightarrow> server \<Rightarrow> (pc \<times> conn \<times> server) res" where
  "dispatch buffer c s =
     (if strncmp buffer ''CLIENT'' 6 = 0 then handle_CLIENT buffer c s
      else if strncmp buffer ''SIGNUP'' 6 = 0 then handle_SIGNUP buffer c s
      else if strncmp buffer ''LOGIN'' 5 = 0 then handle_LOGIN buffer c s
      else if strncmp buffer ''CALL'' 4 = 0 then handle_CALL buffer c s
      else if strncmp buffer ''LOGOUT'' 6 = 0 then handle_LOGOUT c s
      else if strncmp buffer ''EXIT'' 4 = 0 then handle_EXIT c s
      else Inr (AtLoop, c, s))"

definition loop_head :: "conn \<Rightarrow> server \<Rightarrow> (pc \<times> conn \<times> server) res" where
  "loop_head c s =
     (let (go, s) = load_running s
      in if \<not> go then Inr (AtEpilogue, c, s)
         else let (num_bytes_received, b, s) = recv (client_socket c) SOCKET_BUFFER_SIZE s
              in if num_bytes_received \<le> 0 then Inr (AtEpilogue, c, s)
                 else let (go, s) = load_running s
                      in if \<not> go then Inr (AtEpilogue, c, s)
                         else let buffer = fill (zeros SOCKET_BUFFER_SIZE) b
                              in res_bind (c_str buffer) (\<lambda>_. dispatch buffer c s))"

text \<open>Both branches close \<open>client_socket\<close>.\<close>

definition epilogue :: "conn \<Rightarrow> server \<Rightarrow> conn \<times> server" where
  "epilogue c s =
     (let s = close_fd (client_socket c) s
      in (c, if client_socket_fd c \<noteq> -1 then close_fd (client_socket c) s else s))"

fun handler_step :: "pc \<Rightarrow> conn \<Rightarrow> server \<Rightarrow> (pc \<times> conn \<times> server) res" where
  "handler_step AtLoop c s = loop_head c s"
| "handler_step (AtHasUser r d) c s = call_hasUser r d c s"
| "handler_step (AtGetUser r d) c s = call_getUser r d c s"
| "handler_step (AtInvite r d fd) c s = call_invite r d fd c s"
| "handler_step (AtAnswer fd) c s = call_answer fd c s"
| "handler_step AtEpilogue c s = (let (c, s) = epilogue c s in Inr (Done, c, s))"
| "handler_step Done c s = Inr (Done, c, s)"

section \<open>Frames\<close>

text \<open>What a command may change: never the descriptor it serves, never a pending arrival.\<close>

lemma userStore_more: "net.more s' = net.more s \<Longrightarrow> userStore s' = userStore (s :: server)"
  by (cases s; cases s') simp

lemma userStore_sys_ok: "sys_ok s = (ok, s') \<Longrightarrow> userStore s' = userStore (s :: server)"
  by (auto dest: sys_ok_frame userStore_more)

lemma userStore_send: "send fd b s = (r, s') \<Longrightarrow> userStore s' = userStore (s :: server)"
  by (auto dest: send_frame userStore_more)

lemma userStore_recv: "recv fd sz s = (r, b, s') \<Longrightarrow> userStore s' = userStore (s :: server)"
  by (auto dest: recv_frame userStore_more)

lemma userStore_load: "load_running s = (r, s') \<Longrightarrow> userStore s' = userStore (s :: server)"
  by (auto dest: load_running_frame userStore_more)

lemma userStore_close [simp]: "userStore (close_fd fd s) = userStore (s :: server)"
  by (rule userStore_more) simp

lemma userStore_log [simp]: "userStore (log_event e s) = userStore (s :: server)"
  by (rule userStore_more) simp

lemma connect_frame:
  "connect_to_client ip port s = Inr (rc, fd, s') \<Longrightarrow>
     inbox s' = inbox s \<and> running s' = running s \<and> net.more s' = net.more s"
  by (auto simp: connect_to_client_def socket_def Let_def res_simps
      dest!: sys_ok_frame split: prod.splits if_splits option.splits)

lemma userStore_connect:
  "connect_to_client ip port s = Inr (rc, fd, s') \<Longrightarrow> userStore s' = userStore (s :: server)"
  by (auto dest: connect_frame userStore_more)

definition frame :: "conn \<Rightarrow> server \<Rightarrow> (pc \<times> conn \<times> server) res \<Rightarrow> bool" where
  "frame c s r \<longleftrightarrow> (\<forall>pc' c' s'. r = Inr (pc', c', s') \<longrightarrow>
     client_socket c' = client_socket c \<and> inbox s' = inbox s)"

lemma frame_bind:
  "(\<And>x. m = Inr x \<Longrightarrow> frame c s (f x)) \<Longrightarrow> frame c s (res_bind m f)"
  unfolding frame_def by (blast elim: res_bindE)

lemma frame_Inr [simp]:
  "frame c s (Inr (pc', c', s')) \<longleftrightarrow> client_socket c' = client_socket c \<and> inbox s' = inbox s"
  by (simp add: frame_def)

lemma frame_CLIENT: "frame c s (handle_CLIENT b c s)"
  unfolding handle_CLIENT_def Let_def
  by (intro frame_bind) (auto dest!: send_frame connect_frame split: prod.splits)

lemma frame_SIGNUP: "frame c s (handle_SIGNUP b c s)"
  unfolding handle_SIGNUP_def Let_def
  by (intro frame_bind) (auto dest: send_frame split: prod.splits)

lemma frame_LOGIN: "frame c s (handle_LOGIN b c s)"
  unfolding handle_LOGIN_def Let_def
  by (intro frame_bind) (auto dest: send_frame split: prod.splits)

lemma frame_CALL: "frame c s (handle_CALL b c s)"
  unfolding handle_CALL_def Let_def
  by (intro frame_bind) (auto simp: frame_def res_simps split: prod.splits)

lemma frame_LOGOUT: "frame c s (handle_LOGOUT c s)"
  unfolding handle_LOGOUT_def Let_def by (auto dest: send_frame split: prod.splits)

lemma frame_EXIT: "frame c s (handle_EXIT c s)"
  unfolding handle_EXIT_def Let_def by (auto dest!: send_frame split: prod.splits)

lemmas frame_commands =
  frame_CLIENT frame_SIGNUP frame_LOGIN frame_CALL frame_LOGOUT frame_EXIT

lemma frame_dispatch: "frame c s (dispatch b c s)"
  unfolding dispatch_def by (simp add: frame_commands)

lemma frame_hasUser: "frame c s (call_hasUser r d c s)"
  unfolding call_hasUser_def by (intro frame_bind) auto

lemma frame_getUser: "frame c s (call_getUser r d c s)"
  unfolding call_getUser_def by (intro frame_bind) (auto split: sum.splits intro!: frame_bind)

lemma frame_invite: "frame c s (call_invite r d fd c s)"
  unfolding call_invite_def Let_def by (intro frame_bind) (auto dest: send_frame split: prod.splits)

section \<open>The loop ends\<close>

fun pc_rank :: "pc \<Rightarrow> nat" where
  "pc_rank AtLoop = 2"
| "pc_rank (AtHasUser r d) = 6"
| "pc_rank (AtGetUser r d) = 5"
| "pc_rank (AtInvite r d fd) = 4"
| "pc_rank (AtAnswer fd) = 3"
| "pc_rank AtEpilogue = 1"
| "pc_rank Done = 0"

definition progress :: "pc \<Rightarrow> conn \<Rightarrow> server \<Rightarrow> pc \<Rightarrow> conn \<Rightarrow> server \<Rightarrow> bool" where
  "progress pc c s pc' c' s' \<longleftrightarrow> client_socket c' = client_socket c \<and>
     (pending (client_socket c) s' < pending (client_socket c) s
      \<or> pending (client_socket c) s' \<le> pending (client_socket c) s \<and> pc_rank pc' < pc_rank pc)"

lemma SOCKET_BUFFER_SIZE_pos [simp]: "0 < SOCKET_BUFFER_SIZE"
  by (simp add: SOCKET_BUFFER_SIZE_def)

lemma loop_head_progress:
  assumes "loop_head c s = Inr (pc', c', s')"
  shows "progress AtLoop c s pc' c' s'"
proof -
  obtain go s1 where l1: "load_running s = (go, s1)" by fastforce
  obtain r b s2 where rc: "recv (client_socket c) SOCKET_BUFFER_SIZE s1 = (r, b, s2)"
    by (metis prod_cases3)
  obtain go' s3 where l2: "load_running s2 = (go', s3)" by fastforce
  have p1: "pending (client_socket c) s1 = pending (client_socket c) s"
    using load_running_frame [OF l1] by (simp add: pending_def)
  have p3: "pending (client_socket c) s3 = pending (client_socket c) s2"
    using load_running_frame [OF l2] by (simp add: pending_def)
  consider "\<not> go" | "go" "r \<le> 0" | "go" "0 < r" "\<not> go'" | "go" "0 < r" "go'" by linarith
  then show ?thesis
  proof cases
    case 1
    with assms l1 p1 show ?thesis by (simp add: loop_head_def progress_def)
  next
    case 2
    with assms l1 rc p1 recv_pending_le [OF rc, of "client_socket c"] show ?thesis
      by (simp add: loop_head_def progress_def)
  next
    case 3
    with assms l1 rc l2 p1 p3 recv_pending [OF rc] show ?thesis
      by (simp add: loop_head_def progress_def)
  next
    case 4
    define buffer where "buffer = fill (zeros SOCKET_BUFFER_SIZE) b"
    have "dispatch buffer c s3 = Inr (pc', c', s')"
      using assms 4 l1 rc l2 by (auto simp: loop_head_def buffer_def Let_def res_bind_eq_Inr)
    with frame_dispatch [of c s3 buffer] have "client_socket c' = client_socket c" "inbox s' = inbox s3"
      by (auto simp: frame_def)
    with 4 p1 p3 recv_pending [OF rc] show ?thesis
      by (simp add: progress_def pending_def)
  qed
qed

lemma call_answer_step:
  assumes "recv fd SOCKET_BUFFER_SIZE s = (n, b, s1)"
  shows "frame c s1 (call_answer fd c s)"
  unfolding call_answer_def Let_def assms prod.case
  by (intro frame_bind) (auto dest: send_frame split: prod.splits)

lemma rank_answer: "call_answer fd c s = Inr (pc', c', s') \<Longrightarrow> pc' = AtLoop"
  by (auto simp: call_answer_def Let_def res_bind_eq_Inr split: prod.splits if_splits)

lemma call_answer_progress:
  assumes "call_answer fd c s = Inr (pc', c', s')"
  shows "progress (AtAnswer fd) c s pc' c' s'"
proof -
  obtain n b s1 where rc: "recv fd SOCKET_BUFFER_SIZE s = (n, b, s1)" by (metis prod_cases3)
  have "client_socket c' = client_socket c" "inbox s' = inbox s1"
    using call_answer_step [OF rc, of c] assms by simp_all
  then show ?thesis
    using recv_pending_le [OF rc, of "client_socket c"] rank_answer [OF assms]
    by (simp add: progress_def pending_def)
qed

lemma rank_hasUser: "call_hasUser r d c s = Inr (pc', c', s') \<Longrightarrow> pc_rank pc' < 6"
  by (auto simp: call_hasUser_def elim!: res_bindE)

lemma rank_getUser: "call_getUser r d c s = Inr (pc', c', s') \<Longrightarrow> pc_rank pc' < 5"
  by (auto simp: call_getUser_def elim!: res_bindE split: sum.splits)

lemma rank_invite: "call_invite r d fd c s = Inr (pc', c', s') \<Longrightarrow> pc_rank pc' < 4"
  by (auto simp: call_invite_def Let_def elim!: res_bindE split: prod.splits)

lemma framed_progress:
  "frame c s r \<Longrightarrow> r = Inr (pc', c', s') \<Longrightarrow> pc_rank pc' < pc_rank pc \<Longrightarrow>
     progress pc c s pc' c' s'"
  by (simp add: progress_def pending_def)

lemma handler_step_progress:
  assumes "handler_step pc c s = Inr (pc', c', s')" and "pc \<noteq> Done"
  shows "progress pc c s pc' c' s'"
proof (cases pc)
  case AtLoop
  with assms show ?thesis by (simp add: loop_head_progress)
next
  case (AtHasUser r d)
  with assms framed_progress [OF frame_hasUser] rank_hasUser show ?thesis by simp
next
  case (AtGetUser r d)
  with assms framed_progress [OF frame_getUser] rank_getUser show ?thesis by simp
next
  case (AtInvite r d fd)
  with assms framed_progress [OF frame_invite] rank_invite show ?thesis by simp
next
  case (AtAnswer fd)
  with assms show ?thesis by (simp add: call_answer_progress)
next
  case AtEpilogue
  with assms show ?thesis by (auto simp: epilogue_def progress_def Let_def split: if_splits)
qed (use assms in simp)

function client_handler_from :: "pc \<Rightarrow> conn \<Rightarrow> server \<Rightarrow> (conn \<times> server) res" where
  "client_handler_from pc c s =
     (if pc = Done then Inr (c, s)
      else res_bind (handler_step pc c s) (\<lambda>(pc', c', s'). client_handler_from pc' c' s'))"
  by pat_completeness auto
termination
  by (relation "measures [\<lambda>(pc, c, s). pending (client_socket c) s, \<lambda>(pc, c, s). pc_rank pc]")
    (auto dest!: handler_step_progress simp: progress_def)

declare client_handler_from.simps [simp del]

definition client_handler :: "int \<Rightarrow> server \<Rightarrow> (conn \<times> server) res" where
  "client_handler fd s = client_handler_from AtLoop (start_conn fd) s"

section \<open>Well-formed messages\<close>

text \<open>
  A message of the clients is a NUL-free text shorter than the buffer, sent as the whole array.
\<close>

definition fits :: "string \<Rightarrow> bool" where
  "fits m \<longleftrightarrow> nul_free m \<and> length m < SOCKET_BUFFER_SIZE"

definition word50 :: "string \<Rightarrow> bool" where
  "word50 w \<longleftrightarrow> token w \<and> length w < 50"

lemma message_array_length [simp]: "length m \<le> SOCKET_BUFFER_SIZE \<Longrightarrow> length (message_array m) = SOCKET_BUFFER_SIZE"
  by (simp add: message_array_def)

lemma c_str_message_array [simp]: "fits m \<Longrightarrow> c_str (message_array m) = Inr m"
  by (simp add: fits_def message_array_def c_str_append_zeros)

lemma fill_message_array [simp]:
  "length m \<le> SOCKET_BUFFER_SIZE \<Longrightarrow>
     fill (zeros SOCKET_BUFFER_SIZE) (message_array m) = message_array m"
  by (simp add: fill_def zeros_def)

lemma fmt_words [frame_simps]:
  "parse_fmt ''SIGNUP %s %s'' = map Lit ''SIGNUP'' @ [WS, PctS, WS, PctS]"
  "parse_fmt ''LOGIN %s %s'' = map Lit ''LOGIN'' @ [WS, PctS, WS, PctS]"
  "parse_fmt ''CALL %s'' = map Lit ''CALL'' @ [WS, PctS]"
  "parse_fmt ''CLIENT %s %d'' = map Lit ''CLIENT'' @ [WS, PctS, WS, PctD]"
  "parse_fmt ''%s'' = [PctS]"
  "parse_fmt ''INVITE %s'' = map Lit ''INVITE'' @ [WS, PctS]"
  by (simp_all add: parse_fmt.simps isspace_def)

lemma scan_two_tokens [frame_simps]:
  "token u \<Longrightarrow> token p \<Longrightarrow>
     scan [WS, PctS, WS, PctS] (CHR 0x20 # u @ CHR 0x20 # p) = [Str u, Str p]"
  by (simp add: Let_def)

lemma scan_one_token [frame_simps]:
  "token u \<Longrightarrow> scan [WS, PctS] (CHR 0x20 # u @ CHR 0x20 # r) = [Str u]"
  "token u \<Longrightarrow> scan [WS, PctS] (CHR 0x20 # u) = [Str u]"
  by (simp_all add: Let_def)

lemma scan_token_num [frame_simps]:
  "token u \<Longrightarrow> scan [WS, PctS, WS, PctD] (CHR 0x20 # u @ CHR 0x20 # show_int v) = [Str u, Num v]"
  by (simp add: Let_def)

lemma two_words_ok:
  assumes "word50 u" and "word50 p" and "fits (kw @ CHR 0x20 # u @ CHR 0x20 # p)"
    and "parse_fmt fmt = map Lit kw @ [WS, PctS, WS, PctS]"
  shows "two_words (message_array (kw @ CHR 0x20 # u @ CHR 0x20 # p)) fmt = Inr (u, p)"
proof -
  have "sscanf (kw @ CHR 0x20 # u @ CHR 0x20 # p) fmt = [Str u, Str p]"
    using assms(1,2,4) by (simp add: sscanf_def scan_literal scan_two_tokens word50_def)
  moreover have "store_str (zeros 50) u = Inr (u @ zeros (50 - length u))"
    "store_str (zeros 50) p = Inr (p @ zeros (50 - length p))"
    using assms(1,2) by (simp_all add: word50_def store_str_zeros)
  ultimately show ?thesis
    using assms(1,2,3)
    by (simp add: two_words_def store_conv_def c_str_append_zeros word50_def)
qed

section \<open>CALL and INVITE\<close>

text \<open>The name \<open>sscanf\<close> finds after CALL; empty if there is none.\<close>

definition callee_name :: "string \<Rightarrow> string" where
  "callee_name m = (case sscanf m ''CALL %s'' of Str w # _ \<Rightarrow> w | _ \<Rightarrow> [])"

lemma scan_CALL_shape: "sscanf m ''CALL %s'' = [] \<or> (\<exists>w. sscanf m ''CALL %s'' = [Str w])"
proof -
  have "scan [PctS] x = [] \<or> (\<exists>w. scan [PctS] x = [Str w])" for x by (simp add: Let_def)
  then have "scan (map Lit w @ [WS, PctS]) x = [] \<or> (\<exists>v. scan (map Lit w @ [WS, PctS]) x = [Str v])"
    for w x by (induction w arbitrary: x) (auto split: list.splits)
  then show ?thesis unfolding sscanf_def fmt_words .
qed

lemma store_callee:
  assumes "nul_free m"
  shows "store_conv (zeros 50) (sscanf m ''CALL %s'') 0 =
    (if length (callee_name m) < 50
     then Inr (callee_name m @ zeros (50 - length (callee_name m))) else Inl Overflow)"
  using scan_CALL_shape [of m]
  by (auto simp: store_conv_def callee_name_def store_str_zeros store_str_Inl_iff)

lemma callee_name_nul_free: "nul_free m \<Longrightarrow> nul_free (callee_name m)"
  using scan_CALL_shape [of m] scan_nul_free [of m _ "parse_fmt ''CALL %s''"]
  by (auto simp: callee_name_def sscanf_def)

lemma strncpy_size_sub:
  assumes "length m < SOCKET_BUFFER_SIZE" and "len < 2 ^ 63"
  shows "strncpy (zeros SOCKET_BUFFER_SIZE) (drop len m) (size_sub (length m) len) =
    (if len \<le> length m then Inr (drop len m @ zeros (SOCKET_BUFFER_SIZE - (length m - len)))
     else Inl Overflow)"
proof (cases "len \<le> length m")
  case True
  moreover have "length m < 2 ^ 64" using assms by (simp add: SOCKET_BUFFER_SIZE_def)
  ultimately have "size_sub (length m) len = length (drop len m)" by (simp add: size_sub_le)
  then show ?thesis using True assms strncpy_zeros [of "drop len m" SOCKET_BUFFER_SIZE] by simp
next
  case False
  then have "size_sub (length m) len = 2 ^ 64 - (len - length m)"
    using assms by (intro size_sub_wraps) auto
  moreover have "SOCKET_BUFFER_SIZE < 2 ^ 64 - (len - length m)"
    using assms by (simp add: SOCKET_BUFFER_SIZE_def)
  ultimately show ?thesis using False by (simp add: strncpy_def)
qed

lemma parse_CALL_cases:
  assumes "c_str buffer = Inr m" and "length m < SOCKET_BUFFER_SIZE"
  defines "r \<equiv> callee_name m"
  shows "parse_CALL buffer =
    (if length r < 50 \<and> call_len r \<le> length m
     then Inr (r @ zeros (50 - length r),
               drop (call_len r) m @ zeros (SOCKET_BUFFER_SIZE - (length m - call_len r)))
     else Inl Overflow)"
proof (cases "length r < 50")
  case True
  have nf: "nul_free m" using assms(1) c_str_InrD by blast
  then have "nul_free r" unfolding r_def by (rule callee_name_nul_free)
  with True have "c_str (r @ zeros (50 - length r)) = Inr r"
    by (simp add: c_str_append_zeros)
  moreover have "c_str (drop (call_len r) m @ zeros (SOCKET_BUFFER_SIZE - (length m - call_len r))) =
      Inr (drop (call_len r) m)"
    using nf assms(2) by (simp add: c_str_append_zeros nul_free_drop)
  moreover have "call_len r < 2 ^ 63" using True by (simp add: call_len_def)
  ultimately show ?thesis
    using True assms(1,2) store_callee [OF nf] strncpy_size_sub [OF assms(2), of "call_len r"]
    by (simp add: parse_CALL_def Let_def r_def [symmetric] del: Nat.diff_diff_right)
next
  case False
  have "nul_free m" using assms(1) c_str_InrD by blast
  with False show ?thesis
    using assms(1) store_callee [of m] by (simp add: parse_CALL_def r_def [symmetric])
qed

lemma callee_name_CALL:
  "token r \<Longrightarrow> callee_name (''CALL '' @ r @ '' '' @ sdp) = r"
  "token r \<Longrightarrow> callee_name (''CALL '' @ r) = r"
  using scan_one_token(1) [of r sdp] scan_one_token(2) [of r]
  by (simp_all add: callee_name_def sscanf_def fmt_words del: scan.simps(2,4))

lemma parse_CALL_shape:
  assumes "parse_CALL buffer = Inr (r, d)"
  shows "\<exists>name sdp. c_str r = Inr name \<and> length name < 50 \<and> nul_free name
    \<and> c_str d = Inr sdp \<and> length sdp < SOCKET_BUFFER_SIZE \<and> nul_free sdp"
proof -
  from assms obtain m where m: "c_str buffer = Inr m"
    and st: "store_conv (zeros 50) (sscanf m ''CALL %s'') 0 = Inr r"
    and d: "\<exists>n x. strncpy (zeros SOCKET_BUFFER_SIZE) x n = Inr d" "\<exists>x. c_str d = Inr x"
    by (auto simp: parse_CALL_def Let_def elim!: res_bindE)
  from m have "nul_free m" using c_str_InrD by blast
  from store_conv_c_str [OF this st] obtain name where
    "c_str r = Inr name" "length name < 50" "nul_free name" by blast
  moreover from d(1) have "length d = SOCKET_BUFFER_SIZE"
    by (auto simp: strncpy_def split: if_splits)
  moreover from d(2) obtain sdp where "c_str d = Inr sdp" by blast
  ultimately show ?thesis using c_str_InrD [of d sdp] by auto
qed

lemma invite_message_ok:
  assumes "c_str r = Inr name" "length name < 50" "c_str d = Inr sdp" "length sdp < SOCKET_BUFFER_SIZE"
  shows "invite_message r d =
    Inr ((''INVITE '' @ name @ '' '' @ sdp) @
         zeros (2 * SOCKET_BUFFER_SIZE - length (''INVITE '' @ name @ '' '' @ sdp)))"
proof -
  have "length (''INVITE '' @ name @ '' '' @ sdp) < SOCKET_BUFFER_SIZE * 2"
    using assms by (simp add: SOCKET_BUFFER_SIZE_def)
  from store_str_zeros [OF this] show ?thesis
    using assms by (simp add: invite_message_def mult.commute)
qed

section \<open>A turn of the loop\<close>

definition quiet :: "'a net_scheme \<Rightarrow> bool" where
  "quiet n \<longleftrightarrow> running n \<and> sigint_in n = None \<and> oks n = []"

lemma loop_head_message:
  assumes "fits m" and "quiet s" and "0 \<le> client_socket c"
    and "inbox s (client_socket c) = Chunk (message_array m) # q"
  shows "loop_head c s =
    dispatch (message_array m) c (s\<lparr>inbox := (inbox s)(client_socket c := q)\<rparr>)"
proof -
  have len: "length (message_array m) = SOCKET_BUFFER_SIZE"
    using assms(1) by (simp add: fits_def)
  have "recv (client_socket c) SOCKET_BUFFER_SIZE s =
      (int SOCKET_BUFFER_SIZE, message_array m, s\<lparr>inbox := (inbox s)(client_socket c := q)\<rparr>)"
    using recv_whole [OF assms(3,4), of SOCKET_BUFFER_SIZE] len by simp
  moreover have "fill (zeros SOCKET_BUFFER_SIZE) (message_array m) = message_array m"
    using assms(1) by (simp add: fits_def)
  ultimately show ?thesis
    using assms(1,2) SOCKET_BUFFER_SIZE_pos
    by (simp add: loop_head_def quiet_def load_running_quiet Let_def del: of_nat_0_less_iff)
      (simp add: SOCKET_BUFFER_SIZE_def)
qed

lemma command_tests:
  "strncmp b ''CLIENT'' 6 = 0 \<longleftrightarrow> take 6 b = ''CLIENT''"
  "strncmp b ''SIGNUP'' 6 = 0 \<longleftrightarrow> take 6 b = ''SIGNUP''"
  "strncmp b ''LOGIN'' 5 = 0 \<longleftrightarrow> take 5 b = ''LOGIN''"
  "strncmp b ''CALL'' 4 = 0 \<longleftrightarrow> take 4 b = ''CALL''"
  "strncmp b ''LOGOUT'' 6 = 0 \<longleftrightarrow> take 6 b = ''LOGOUT''"
  "strncmp b ''EXIT'' 4 = 0 \<longleftrightarrow> take 4 b = ''EXIT''"
  "strncmp b ''ACCEPT'' 6 = 0 \<longleftrightarrow> take 6 b = ''ACCEPT''"
  "strncmp b ''INVITE'' 6 = 0 \<longleftrightarrow> take 6 b = ''INVITE''"
  by (rule strncmp_lit, simp, simp)+

text \<open>The command that a message selects is decided by its first bytes.\<close>

lemma dispatch_SIGNUP: "dispatch (message_array (''SIGNUP '' @ m)) c s = handle_SIGNUP (message_array (''SIGNUP '' @ m)) c s"
  by (simp add: dispatch_def message_array_def command_tests)

lemma dispatch_LOGIN: "dispatch (message_array (''LOGIN '' @ m)) c s = handle_LOGIN (message_array (''LOGIN '' @ m)) c s"
  by (simp add: dispatch_def message_array_def command_tests)

lemma dispatch_CALL: "dispatch (message_array (''CALL '' @ m)) c s = handle_CALL (message_array (''CALL '' @ m)) c s"
  by (simp add: dispatch_def message_array_def command_tests)

lemma dispatch_CLIENT: "dispatch (message_array (''CLIENT '' @ m)) c s = handle_CLIENT (message_array (''CLIENT '' @ m)) c s"
  by (simp add: dispatch_def message_array_def command_tests)

text \<open>A concrete server and connection, on which the properties are exercised.\<close>

definition example_server :: "(int \<Rightarrow> arrival list) \<Rightarrow> user_store \<Rightarrow> server" where
  "example_server inb users =
     \<lparr>inbox = inb, oks = [], next_fd = 9, sigint_in = None, running = True, events = [],
      userStore = users\<rparr>"

definition example_conn :: conn where
  "example_conn = (start_conn 4)\<lparr>client_socket_fd := 5\<rparr>"

definition arrives :: "(int \<times> string) list \<Rightarrow> int \<Rightarrow> arrival list" where
  "arrives ms fd = map (\<lambda>(_, m). Chunk (message_array m)) (filter (\<lambda>(f, _). f = fd) ms)"

lemma example_simps [simp]:
  "quiet (example_server inb users)" "userStore (example_server inb users) = users"
  "inbox (example_server inb users) = inb" "events (example_server inb users) = []"
  "oks (example_server inb users) = []" "next_fd (example_server inb users) = 9"
  "running (example_server inb users)"
  "client_socket example_conn = 4" "client_socket_fd example_conn = 5"
  "client_ip_address example_conn = zeros 15"
  "client_socket (start_conn fd) = fd"
  by (simp_all add: example_server_def quiet_def example_conn_def start_conn_def)

lemma example_words [simp]:
  "word50 ''ann''" "word50 ''bob''" "word50 ''pw''" "token ''10.0.0.7''" "token ''192.168.100.100''"
  by (simp_all add: word50_def token_def isspace_def)

lemma arrives_simps [simp]:
  "arrives [] fd = []"
  "arrives ((f, m) # ms) fd = (if f = fd then Chunk (message_array m) # arrives ms fd else arrives ms fd)"
  by (simp_all add: arrives_def)

section \<open>Properties of the commands\<close>

text \<open>C20. A well-formed SIGNUP creates or replaces exactly the account it names, with the connection
  back to the client as its descriptor, remembers the credentials and confirms.\<close>

theorem signup_creates_account:
  assumes "word50 u" and "word50 p" and "quiet s" and "0 \<le> client_socket c"
    and "inbox s (client_socket c) = Chunk (message_array (''SIGNUP '' @ u @ '' '' @ p)) # q"
  shows "\<exists>s'. handler_step AtLoop c s = Inr (AtLoop, c\<lparr>username := u, password := p\<rparr>, s')
    \<and> userStore s' = (userStore s)(u \<mapsto> User4 u p False (client_socket_fd c))
    \<and> events s' = events s @ [Sent (client_socket c) (message_array (''Signup is successful'' @ nl))]
    \<and> inbox s' = (inbox s)(client_socket c := q)"
proof -
  have fit: "fits (''SIGNUP '' @ u @ '' '' @ p)"
    using assms(1,2) by (simp add: fits_def word50_def SOCKET_BUFFER_SIZE_def)
  have words: "two_words (message_array (''SIGNUP '' @ u @ '' '' @ p)) ''SIGNUP %s %s'' = Inr (u, p)"
    using two_words_ok [OF assms(1,2), of "''SIGNUP''" "''SIGNUP %s %s''"] fit
    by (simp add: fmt_words)
  show ?thesis
    using assms(3,4) loop_head_message [OF fit assms(3,4,5)] words
    by (simp add: dispatch_SIGNUP [simplified] handle_SIGNUP_def Let_def net_simps quiet_def
        addUser_User4)
qed

theorem signup_creates_account_witness:
  "\<exists>s'. handler_step AtLoop example_conn (example_server (arrives [(4, ''SIGNUP ann pw'')]) Map.empty) =
      Inr (AtLoop, example_conn\<lparr>username := ''ann'', password := ''pw''\<rparr>, s')
    \<and> userStore s' = [''ann'' \<mapsto> User4 ''ann'' ''pw'' False 5]
    \<and> events s' = [Sent 4 (message_array (''Signup is successful'' @ nl))]"
  using signup_creates_account [of "''ann''" "''pw''"
      "example_server (arrives [(4, ''SIGNUP ann pw'')]) Map.empty" example_conn "[]"] by auto

lemma login_words:
  assumes "word50 u" and "word50 p"
  shows "fits (''LOGIN '' @ u @ '' '' @ p)"
    and "two_words (message_array (''LOGIN '' @ u @ '' '' @ p)) ''LOGIN %s %s'' = Inr (u, p)"
proof -
  show fit: "fits (''LOGIN '' @ u @ '' '' @ p)"
    using assms by (simp add: fits_def word50_def SOCKET_BUFFER_SIZE_def)
  show "two_words (message_array (''LOGIN '' @ u @ '' '' @ p)) ''LOGIN %s %s'' = Inr (u, p)"
    using two_words_ok [OF assms, of "''LOGIN''" "''LOGIN %s %s''"] fit by (simp add: fmt_words)
qed

lemma login_turn:
  assumes "word50 u" and "word50 p" and "quiet s" and "0 \<le> client_socket c"
    and "inbox s (client_socket c) = Chunk (message_array (''LOGIN '' @ u @ '' '' @ p)) # q"
  shows "handler_step AtLoop c s =
    Inr (AtLoop, c\<lparr>username := u, password := p\<rparr>,
      s\<lparr>inbox := (inbox s)(client_socket c := q), userStore := snd (loginUser u p (userStore s)),
        events := events s @ [Sent (client_socket c) (message_array (''Login is successful'' @ nl))]\<rparr>)"
  using assms(3,4) loop_head_message [OF login_words(1) [OF assms(1,2)] assms(3,4,5)]
    login_words(2) [OF assms(1,2)]
  by (simp add: dispatch_LOGIN [simplified] handle_LOGIN_def Let_def net_simps quiet_def
      log_event_def split: prod.splits)

text \<open>A LOGIN is answered with "Login is successful" whatever the credentials; the user is logged
  in exactly when the account exists and the password is right, and no other account changes.\<close>

theorem login_reply_ignores_result:
  assumes "word50 u" and "word50 p" and "quiet s" and "0 \<le> client_socket c"
    and "inbox s (client_socket c) = Chunk (message_array (''LOGIN '' @ u @ '' '' @ p)) # q"
  shows "\<exists>s'. handler_step AtLoop c s = Inr (AtLoop, c\<lparr>username := u, password := p\<rparr>, s')
    \<and> account_of (userStore s') =
        (if \<exists>l. account_of (userStore s) u = Some (p, l)
         then (account_of (userStore s))(u \<mapsto> (p, True)) else account_of (userStore s))
    \<and> events s' = events s @ [Sent (client_socket c) (message_array (''Login is successful'' @ nl))]"
  using login_turn [OF assms] us.account_login us.login_result by simp


lemma account_of_ann:
  "account_of [''ann'' \<mapsto> User4 ''ann'' ''secret'' False 5] ''ann'' = Some (''secret'', False)"
  by (simp add: account_of_def)

theorem login_reply_ignores_result_witness:
  "\<exists>s'. handler_step AtLoop example_conn
      (example_server (arrives [(4, ''LOGIN ann pw'')]) [''ann'' \<mapsto> User4 ''ann'' ''secret'' False 5]) =
      Inr (AtLoop, example_conn\<lparr>username := ''ann'', password := ''pw''\<rparr>, s')
    \<and> account_of (userStore s') ''ann'' = Some (''secret'', False)
    \<and> events s' = [Sent 4 (message_array (''Login is successful'' @ nl))]"
  using login_reply_ignores_result [of "''ann''" "''pw''"
      "example_server (arrives [(4, ''LOGIN ann pw'')]) [''ann'' \<mapsto> User4 ''ann'' ''secret'' False 5]"
      example_conn "[]"] by (auto simp: account_of_ann)

lemma logout_fits: "fits ''LOGOUT''"
  by (simp add: fits_def SOCKET_BUFFER_SIZE_def)

lemma logout_turn:
  assumes "quiet s" and "0 \<le> client_socket c"
    and "inbox s (client_socket c) = Chunk (message_array ''LOGOUT'') # q"
  shows "handler_step AtLoop c s =
    Inr (AtLoop, c,
      s\<lparr>inbox := (inbox s)(client_socket c := q), userStore := logOutUser (username c) (userStore s),
        events := events s @ [Sent (client_socket c) (message_array (''Logout is successful'' @ nl))]\<rparr>)"
proof -
  have "dispatch (message_array ''LOGOUT'') c s' = handle_LOGOUT c s'" for s'
    by (simp add: dispatch_def message_array_def command_tests)
  then show ?thesis
    using assms(1,2) loop_head_message [OF logout_fits assms]
    by (simp add: handle_LOGOUT_def net_simps quiet_def log_event_def)
qed

lemma parse_CALL_ok:
  assumes "word50 r" and "fits (''CALL '' @ r @ '' '' @ sdp)"
  shows "parse_CALL (message_array (''CALL '' @ r @ '' '' @ sdp)) =
    Inr (r @ zeros (50 - length r), sdp @ zeros (SOCKET_BUFFER_SIZE - length sdp))"
proof -
  have "c_str (message_array (''CALL '' @ r @ '' '' @ sdp)) = Inr (''CALL '' @ r @ '' '' @ sdp)"
    using assms(2) by (rule c_str_message_array)
  moreover have "length (''CALL '' @ r @ '' '' @ sdp) < SOCKET_BUFFER_SIZE"
    using assms(2) by (simp only: fits_def)
  moreover have "drop (call_len r) (''CALL '' @ r @ '' '' @ sdp) = sdp"
    by (simp add: call_len_def numeral_eq_Suc)
  ultimately show ?thesis
    using parse_CALL_cases [of "message_array (''CALL '' @ r @ '' '' @ sdp)" "''CALL '' @ r @ '' '' @ sdp"]
      assms(1) callee_name_CALL(1) [of r sdp]
    by (simp add: call_len_def word50_def del: c_str_message_array)
qed

lemma call_turn:
  assumes "word50 r" and "fits (''CALL '' @ r @ '' '' @ sdp)" and "quiet s" and "0 \<le> client_socket c"
    and "inbox s (client_socket c) = Chunk (message_array (''CALL '' @ r @ '' '' @ sdp)) # q"
    and "isLogin r (userStore s) = Inr l"
  shows "handler_step AtLoop c s =
    Inr (if l then AtHasUser (r @ zeros (50 - length r)) (sdp @ zeros (SOCKET_BUFFER_SIZE - length sdp))
         else AtLoop, c, s\<lparr>inbox := (inbox s)(client_socket c := q)\<rparr>)"
  using loop_head_message [OF assms(2-5)] assms(1,6) parse_CALL_ok [OF assms(1,2)]
  by (simp add: dispatch_CALL [simplified] handle_CALL_def c_str_append_zeros word50_def)

lemma handler_continues:
  "handler_step pc c s = Inr (pc', c', s') \<Longrightarrow> pc \<noteq> Done \<Longrightarrow>
     client_handler_from pc c s = client_handler_from pc' c' s'"
  by (subst client_handler_from.simps) simp

lemma handler_faults:
  "handler_step pc c s = Inl e \<Longrightarrow> pc \<noteq> Done \<Longrightarrow> client_handler_from pc c s = Inl e"
  by (subst client_handler_from.simps) simp

text \<open>A callee that is logged in and has a descriptor: the two checks pass and the INVITE is sent.\<close>

lemma call_to_answer:
  assumes "word50 r" and "nul_free sdp" and "length sdp < SOCKET_BUFFER_SIZE"
    and "userStore s r = Some u" and "socket_fd_v u = Some fd" and "0 \<le> fd" and "oks s = []"
  shows "client_handler_from
      (AtHasUser (r @ zeros (50 - length r)) (sdp @ zeros (SOCKET_BUFFER_SIZE - length sdp))) c s =
    client_handler_from (AtAnswer fd) c
      (log_event (Sent fd ((''INVITE '' @ r @ '' '' @ sdp) @
         zeros (2 * SOCKET_BUFFER_SIZE - length (''INVITE '' @ r @ '' '' @ sdp)))) s)"
    (is "client_handler_from (AtHasUser ?r ?d) c s = _")
proof -
  have r: "c_str ?r = Inr r" and d: "c_str ?d = Inr sdp"
    using assms(1,2,3) by (simp_all add: word50_def c_str_append_zeros)
  have "handler_step (AtHasUser ?r ?d) c s = Inr (AtGetUser ?r ?d, c, s)"
    using r assms(4) by (simp add: call_hasUser_def hasUser_def)
  moreover have "handler_step (AtGetUser ?r ?d) c s = Inr (AtInvite ?r ?d fd, c, s)"
    using r assms(4,5) by (simp add: call_getUser_def getUser_def getSocketFd_def)
  moreover have "handler_step (AtInvite ?r ?d fd) c s = Inr (AtAnswer fd, c,
      log_event (Sent fd ((''INVITE '' @ r @ '' '' @ sdp) @
         zeros (2 * SOCKET_BUFFER_SIZE - length (''INVITE '' @ r @ '' '' @ sdp)))) s)"
    using invite_message_ok [OF r _ d assms(3)] assms(1,6,7)
    by (simp add: call_invite_def send_ok word50_def Let_def)
  ultimately show ?thesis by (simp add: handler_continues)
qed

lemma answer_turn:
  assumes "fits (''ACCEPT '' @ a)" and "0 \<le> fd" and "0 \<le> client_socket_fd c" and "oks s = []"
    and "inbox s fd = Chunk (message_array (''ACCEPT '' @ a)) # q"
  shows "handler_step (AtAnswer fd) c s =
    Inr (AtLoop, c, log_event (Sent (client_socket_fd c) (message_array (''ACCEPT '' @ a)))
           (s\<lparr>inbox := (inbox s)(fd := q)\<rparr>))"
proof -
  have len: "length (message_array (''ACCEPT '' @ a)) = SOCKET_BUFFER_SIZE"
    using assms(1) by (simp add: fits_def)
  have rc: "recv fd SOCKET_BUFFER_SIZE s =
      (int SOCKET_BUFFER_SIZE, message_array (''ACCEPT '' @ a), s\<lparr>inbox := (inbox s)(fd := q)\<rparr>)"
    using recv_whole [OF assms(2,5), of SOCKET_BUFFER_SIZE] len by simp
  have fl: "fill (zeros SOCKET_BUFFER_SIZE) (message_array (''ACCEPT '' @ a)) = message_array (''ACCEPT '' @ a)"
    using assms(1) by (simp add: fits_def)
  have "sscanf (''ACCEPT '' @ a) ''%s'' = [Str ''ACCEPT'']"
    by (simp add: sscanf_def fmt_words isspace_def Let_def)
  then have st: "store_conv (zeros 50) (sscanf (''ACCEPT '' @ a) ''%s'') 0 = Inr (''ACCEPT'' @ zeros 44)"
    using store_str_zeros [of "''ACCEPT''" 50] by (simp add: store_conv_def)
  show ?thesis
    using c_str_message_array [OF assms(1)] st rc fl assms(3,4)
    by (simp add: call_answer_def command_tests send_ok)
qed



text \<open>A CALL with a name and nothing behind it makes the length passed to \<open>strncpy\<close> wrap around:
  the handler writes past its array, whoever is called.\<close>

theorem call_without_description_overflows:
  assumes "word50 r" and "quiet s" and "0 \<le> client_socket c"
    and "inbox s (client_socket c) = Chunk (message_array (''CALL '' @ r)) # q"
  shows "client_handler_from AtLoop c s = Inl Overflow"
proof -
  have fit: "fits (''CALL '' @ r)"
    using assms(1) by (simp add: fits_def word50_def SOCKET_BUFFER_SIZE_def)
  have len: "length (''CALL '' @ r) < SOCKET_BUFFER_SIZE" using fit by (simp only: fits_def)
  have "parse_CALL (message_array (''CALL '' @ r)) = Inl Overflow"
    using parse_CALL_cases [OF c_str_message_array [OF fit] len] callee_name_CALL(2) [of r] assms(1)
    by (simp add: word50_def call_len_def)
  then show ?thesis
    using loop_head_message [OF fit assms(2-4)]
    by (intro handler_faults) (simp_all add: dispatch_CALL [simplified] handle_CALL_def)
qed

theorem call_without_description_overflows_witness:
  "client_handler_from AtLoop example_conn
     (example_server (arrives [(4, ''CALL bob'')]) Map.empty) = Inl Overflow"
  using call_without_description_overflows [of "''bob''"
      "example_server (arrives [(4, ''CALL bob'')]) Map.empty" example_conn "[]"] by simp

lemma client_scan:
  assumes "token ip"
  shows "sscanf (''CLIENT '' @ ip @ '' '' @ show_int port) ''CLIENT %s %d'' = [Str ip, Num port]"
  using scan_token_num [OF assms, of port]
  by (simp add: sscanf_def fmt_words del: scan.simps(2,4,5))

lemma handler_connects_back:
  assumes "token ip" and "length ip < 15" and "inet_pton ip = Some addr" and "int_fits port"
    and "fits (''CLIENT '' @ ip @ '' '' @ show_int port)" and "quiet s" and "0 \<le> client_socket c"
    and "client_ip_address c = zeros 15" and "0 \<le> next_fd s"
    and "inbox s (client_socket c) = Chunk (message_array (''CLIENT '' @ ip @ '' '' @ show_int port)) # q"
  shows "\<exists>c' s'. handler_step AtLoop c s = Inr (AtLoop, c', s')
    \<and> client_socket_fd c' = next_fd s \<and> client_port_int c' = port
    \<and> userStore s' = userStore s
    \<and> events s' = events s @ [Connected (next_fd s) addr (htons port),
                              Sent (next_fd s) (message_array (''Hello from new server'' @ nl))]"
proof -
  have ip: "c_str (ip @ zeros (15 - length ip)) = Inr ip"
    using assms(1,2) by (simp add: c_str_append_zeros)
  have st: "store_conv (zeros 15) (sscanf (''CLIENT '' @ ip @ '' '' @ show_int port) ''CLIENT %s %d'') 0
      = Inr (ip @ zeros (15 - length ip))"
    using client_scan [OF assms(1)] assms(2) by (simp add: store_conv_def store_str_zeros)
  have nm: "store_num p0 (sscanf (''CLIENT '' @ ip @ '' '' @ show_int port) ''CLIENT %s %d'') 1 = Inr port"
    for p0 using client_scan [OF assms(1)] assms(4) by (simp add: store_num_def)
  show ?thesis
    using loop_head_message [OF assms(5-7,10)] c_str_message_array [OF assms(5)] st nm ip assms(3,6,8,9)
    by (simp add: dispatch_CLIENT [simplified] handle_CLIENT_def connect_to_client_def socket_def
        sys_ok_def quiet_def Let_def send_ok)
qed

text \<open>A CLIENT message with an IPv4 address of at most 14 characters makes the server connect back
  to that address, with the port number reduced to 16 bits in network byte order, and greet the
  client there.\<close>

theorem client_connects_back:
  assumes "token ip" and "length ip < 15" and "inet_pton ip = Some addr" and "int_fits port"
    and "fits (''CLIENT '' @ ip @ '' '' @ show_int port)" and "quiet s" and "0 \<le> client_socket c"
    and "client_ip_address c = zeros 15" and "0 \<le> next_fd s"
    and "inbox s (client_socket c) = Chunk (message_array (''CLIENT '' @ ip @ '' '' @ show_int port)) # q"
  shows "\<exists>c' s'. handler_step AtLoop c s = Inr (AtLoop, c', s')
    \<and> client_socket_fd c' = next_fd s \<and> client_port_int c' = port
    \<and> userStore s' = userStore s
    \<and> events s' = events s @ [Connected (next_fd s) addr (htons port),
                              Sent (next_fd s) (message_array (''Hello from new server'' @ nl))]"
  using assms by (rule handler_connects_back)

theorem client_connects_back_witness:
  "\<exists>c' s'. handler_step AtLoop example_conn
      (example_server (arrives [(4, ''CLIENT 10.0.0.7 5000'')]) Map.empty) = Inr (AtLoop, c', s')
    \<and> client_socket_fd c' = 9
    \<and> events s' = [Connected 9 [10, 0, 0, 7] (htons 5000),
                   Sent 9 (message_array (''Hello from new server'' @ nl))]"
proof -
  have port: "show_int 5000 = ''5000''" by (simp add: show_int_def dec.simps digit_char_def)
  have addr: "inet_pton ''10.0.0.7'' = Some [10, 0, 0, 7]"
    by (simp add: inet_pton_def isdigit_def digit_val_def)
  show ?thesis
    using client_connects_back [of "''10.0.0.7''" "[10, 0, 0, 7]" 5000
        "example_server (arrives [(4, ''CLIENT 10.0.0.7 5000'')]) Map.empty" example_conn "[]"]
    by (auto simp: port addr int_fits_def fits_def SOCKET_BUFFER_SIZE_def)
qed

text \<open>An address of 15 characters or more, such as 192.168.100.100, does not fit
  \<open>char client_ip_address[15]\<close>: reading it writes past the array.\<close>

theorem client_long_address_overflows:
  assumes "token ip" and "15 \<le> length ip" and "length (client_ip_address c) = 15"
    and "fits (''CLIENT '' @ ip @ '' '' @ show_int port)" and "quiet s" and "0 \<le> client_socket c"
    and "inbox s (client_socket c) = Chunk (message_array (''CLIENT '' @ ip @ '' '' @ show_int port)) # q"
  shows "client_handler_from AtLoop c s = Inl Overflow"
proof -
  have "store_conv (client_ip_address c)
      (sscanf (''CLIENT '' @ ip @ '' '' @ show_int port) ''CLIENT %s %d'') 0 = Inl Overflow"
    using client_scan [OF assms(1)] assms(2,3) by (simp add: store_conv_def store_str_def)
  then show ?thesis
    using loop_head_message [OF assms(4-7)] c_str_message_array [OF assms(4)]
    by (intro handler_faults) (simp_all add: dispatch_CLIENT [simplified] handle_CLIENT_def)
qed

theorem client_long_address_overflows_witness:
  "client_handler_from AtLoop example_conn
     (example_server (arrives [(4, ''CLIENT 192.168.100.100 5000'')]) Map.empty) = Inl Overflow"
proof -
  have port: "show_int 5000 = ''5000''" by (simp add: show_int_def dec.simps digit_char_def)
  show ?thesis
    using client_long_address_overflows [of "''192.168.100.100''" example_conn 5000
        "example_server (arrives [(4, ''CLIENT 192.168.100.100 5000'')]) Map.empty" "[]"]
    by (simp add: port fits_def SOCKET_BUFFER_SIZE_def)
qed

section \<open>Descriptors\<close>

definition opens_only :: "event list \<Rightarrow> bool" where
  "opens_only es \<longleftrightarrow> (\<forall>x. Closed x \<notin> set es)"

definition grows :: "server \<Rightarrow> server \<Rightarrow> bool" where
  "grows s s' \<longleftrightarrow> (\<exists>es. events s' = events s @ es \<and> opens_only es)"

lemma grows_refl [simp]: "events s' = events s \<Longrightarrow> grows s s'"
  by (simp add: grows_def opens_only_def)

lemma grows_same [simp, intro]: "grows s s"
  by simp

lemma grows_trans: "grows s s' \<Longrightarrow> grows s' s'' \<Longrightarrow> grows s s''"
  by (auto simp: grows_def opens_only_def)

lemma grows_sends: "send fd b s = (r, s') \<Longrightarrow> grows s s'"
  by (auto simp: grows_def opens_only_def dest: send_events)

lemma grows_recv: "recv fd sz s = (r, b, s') \<Longrightarrow> grows s s'"
  by (simp add: recv_frame)

lemma grows_load: "load_running s = (r, s') \<Longrightarrow> grows s s'"
  by (simp add: load_running_frame)

lemma grows_connect:
  "connect_to_client ip port s = Inr (rc, fd, s') \<Longrightarrow> grows s s'"
  by (auto simp: connect_to_client_def socket_def Let_def res_simps grows_def opens_only_def
      dest!: sys_ok_frame split: prod.splits if_splits option.splits)

lemma grows_userStore [simp]:
  "grows (s\<lparr>userStore := us\<rparr>) s' \<longleftrightarrow> grows s s'"
  by (simp add: grows_def)

lemma grows_dispatch: "dispatch b c s = Inr (pc', c', s') \<Longrightarrow> grows s s'"
  unfolding dispatch_def
  by (auto simp: handle_CLIENT_def handle_SIGNUP_def handle_LOGIN_def handle_CALL_def
      handle_LOGOUT_def handle_EXIT_def Let_def elim!: res_bindE
      split: if_splits prod.splits
      dest!: grows_sends grows_connect elim: grows_trans)

lemma grows_step:
  assumes "handler_step pc c s = Inr (pc', c', s')" and "pc \<noteq> AtEpilogue"
  shows "grows s s'"
proof (cases pc)
  case AtLoop
  with assms show ?thesis
    by (auto simp: loop_head_def Let_def elim!: res_bindE split: prod.splits if_splits
        dest!: grows_load grows_recv grows_dispatch intro: grows_trans)
next
  case (AtHasUser r d)
  with assms show ?thesis by (auto simp: call_hasUser_def elim!: res_bindE)
next
  case (AtGetUser r d)
  with assms show ?thesis by (auto simp: call_getUser_def elim!: res_bindE split: sum.splits)
next
  case (AtInvite r d fd)
  with assms show ?thesis
    by (auto simp: call_invite_def Let_def elim!: res_bindE split: prod.splits dest!: grows_sends)
next
  case (AtAnswer fd)
  with assms show ?thesis
    by (auto simp: call_answer_def Let_def elim!: res_bindE split: prod.splits if_splits
        dest!: grows_sends grows_recv intro: grows_trans)
qed (use assms in auto)

lemma dispatch_not_done: "dispatch b c s \<noteq> Inr (Done, c', s')"
  by (auto simp: dispatch_def handle_CLIENT_def handle_SIGNUP_def handle_LOGIN_def handle_CALL_def
      handle_LOGOUT_def handle_EXIT_def Let_def elim!: res_bindE split: if_splits prod.splits)

lemma handler_step_not_done:
  "handler_step pc c s = Inr (Done, c', s') \<Longrightarrow> pc = AtEpilogue \<or> pc = Done"
  by (cases pc) (auto simp: loop_head_def call_hasUser_def call_getUser_def call_invite_def
      Let_def dispatch_not_done dest: rank_answer
      elim!: res_bindE split: prod.splits if_splits sum.splits)

lemma handler_closes_from:
  assumes "client_handler_from pc c s = Inr (c', s')" and "pc \<noteq> Done"
  shows "\<exists>es. opens_only es \<and> client_socket c' = client_socket c \<and>
    events s' = events s @ es @
      (if client_socket_fd c' \<noteq> -1 then [Closed (client_socket c), Closed (client_socket c)]
       else [Closed (client_socket c)])"
  using assms
proof (induction pc c s rule: client_handler_from.induct)
  case (1 pc c s)
  then obtain pc1 c1 s1 where step: "handler_step pc c s = Inr (pc1, c1, s1)"
    and rest: "client_handler_from pc1 c1 s1 = Inr (c', s')"
    by (subst (asm) client_handler_from.simps) (auto elim!: res_bindE)
  show ?case
  proof (cases "pc = AtEpilogue")
    case True
    with step rest show ?thesis
      by (auto simp: epilogue_def Let_def client_handler_from.simps [of Done] opens_only_def
          split: if_splits)
  next
    case False
    have sock: "client_socket c1 = client_socket c"
      using handler_step_progress [OF step] "1.prems"(2) by (simp add: progress_def)
    obtain es where es: "events s1 = events s @ es" "opens_only es"
      using grows_step [OF step False] by (auto simp: grows_def)
    have "pc1 \<noteq> Done"
      using False "1.prems"(2) step handler_step_not_done by blast
    from "1.IH" [OF "1.prems"(2) step refl refl rest this] obtain es' where
      "opens_only es'" "client_socket c' = client_socket c1"
      "events s' = events s1 @ es' @
        (if client_socket_fd c' \<noteq> -1 then [Closed (client_socket c1), Closed (client_socket c1)]
         else [Closed (client_socket c1)])" by blast
    with es sock show ?thesis
      by (intro exI [of _ "es @ es'"]) (simp add: opens_only_def)
  qed
qed



text \<open>C33. Once SIGINT has cleared \<open>running\<close>, a handler at the head of its loop reads and answers nothing
  more: it closes its socket and returns, with the accounts as they were.\<close>

theorem shutdown_stops_handler:
  assumes "\<not> running s"
  shows "\<exists>s'. client_handler_from AtLoop c s = Inr (c, s') \<and> userStore s' = userStore s
    \<and> inbox s' = inbox s
    \<and> events s' = events s @ (if client_socket_fd c \<noteq> -1
        then [Closed (client_socket c), Closed (client_socket c)] else [Closed (client_socket c)])"
proof -
  obtain r s1 where ld: "load_running s = (r, s1)" by fastforce
  with assms have "\<not> r" by (blast dest: load_running_down)
  with ld have "handler_step AtLoop c s = Inr (AtEpilogue, c, s1)" by (simp add: loop_head_def)
  then have "client_handler_from AtLoop c s = Inr (epilogue c s1)"
    by (simp add: handler_continues client_handler_from.simps [of AtEpilogue]
        client_handler_from.simps [of Done] split: prod.splits)
  with load_running_frame [OF ld] userStore_load [OF ld] show ?thesis
    by (simp add: epilogue_def Let_def)
qed

theorem shutdown_stops_handler_witness:
  "\<exists>s'. client_handler_from AtLoop example_conn
      ((example_server (arrives [(4, ''SIGNUP ann pw'')]) Map.empty)\<lparr>running := False\<rparr>) = Inr (example_conn, s')
    \<and> userStore s' = Map.empty \<and> events s' = [Closed 4, Closed 4]"
  using shutdown_stops_handler [of
      "(example_server (arrives [(4, ''SIGNUP ann pw'')]) Map.empty)\<lparr>running := False\<rparr>" example_conn]
  by auto

section \<open>An account nobody signed up for\<close>

lemma login_no_password:
  assumes "word50 u"
  shows "fits (''LOGIN '' @ u)"
    and "two_words (message_array (''LOGIN '' @ u)) ''LOGIN %s %s'' = Inr (u, [])"
proof -
  show fit: "fits (''LOGIN '' @ u)"
    using assms by (simp add: fits_def word50_def SOCKET_BUFFER_SIZE_def)
  have "sscanf (''LOGIN '' @ u) ''LOGIN %s %s'' = [Str u]"
    using assms by (simp add: sscanf_def fmt_words word50_def Let_def)
  then show "two_words (message_array (''LOGIN '' @ u)) ''LOGIN %s %s'' = Inr (u, [])"
    using c_str_message_array [OF fit] assms
    by (simp add: two_words_def store_conv_def store_str_zeros c_str_append_zeros word50_def)
qed

lemma login_no_password_turn:
  assumes "word50 u" and "quiet s" and "0 \<le> client_socket c"
    and "inbox s (client_socket c) = Chunk (message_array (''LOGIN '' @ u)) # q"
  shows "handler_step AtLoop c s =
    Inr (AtLoop, c\<lparr>username := u, password := []\<rparr>,
      s\<lparr>inbox := (inbox s)(client_socket c := q), userStore := snd (loginUser u [] (userStore s)),
        events := events s @ [Sent (client_socket c) (message_array (''Login is successful'' @ nl))]\<rparr>)"
  using assms(2,3) loop_head_message [OF login_no_password(1) [OF assms(1)] assms(2-4)]
    login_no_password(2) [OF assms(1)]
  by (simp add: dispatch_LOGIN [simplified] handle_LOGIN_def Let_def net_simps quiet_def
      log_event_def split: prod.splits)

text \<open>One client can create an account that nobody signed up for and crash the server with it: a
  failed LOGIN followed by LOGOUT leaves an entry with an empty password and no descriptor, LOGIN
  with no password opens it, and a CALL of it uses the descriptor that was never initialised.\<close>

theorem ghost_account_call:
  assumes "word50 g" and "word50 x" and "fits (''CALL '' @ g @ '' '' @ sdp)"
    and "quiet s" and "0 \<le> client_socket c" and "userStore s g = None"
    and "inbox s (client_socket c) =
      [Chunk (message_array (''LOGIN '' @ g @ '' '' @ x)), Chunk (message_array ''LOGOUT''),
       Chunk (message_array (''LOGIN '' @ g)), Chunk (message_array (''CALL '' @ g @ '' '' @ sdp))]"
  shows "client_handler_from AtLoop c s = Inl Indeterminate"
proof -
  have sdp: "nul_free sdp" "length sdp < SOCKET_BUFFER_SIZE" using assms(3) by (auto simp: fits_def)
  define r where "r = g @ zeros (50 - length g)"
  define d where "d = sdp @ zeros (SOCKET_BUFFER_SIZE - length sdp)"
  define ghost where "ghost = User0\<lparr>islogin_v := Some True\<rparr>"
  have r: "c_str r = Inr g" using assms(1) by (simp add: r_def word50_def c_str_append_zeros)
  obtain c1 s1 where 1: "handler_step AtLoop c s = Inr (AtLoop, c1, s1)"
    and c1: "username c1 = g" "client_socket c1 = client_socket c" and q1: "quiet s1"
    and i1: "inbox s1 (client_socket c1) = tl (inbox s (client_socket c))" and u1: "userStore s1 = userStore s"
    using login_turn [OF assms(1,2,4,5), unfolded assms(7), OF refl] assms(4,6,7)
    by (simp add: quiet_def loginUser_cases)
  obtain s2 where 2: "handler_step AtLoop c1 s1 = Inr (AtLoop, c1, s2)" and q2: "quiet s2"
    and i2: "inbox s2 (client_socket c1) = tl (tl (inbox s (client_socket c)))"
    and u2: "userStore s2 = (userStore s)(g \<mapsto> User0\<lparr>islogin_v := Some False\<rparr>)"
    using logout_turn [OF q1, of c1] assms(5,6,7) c1 i1 u1 q1
    by (simp add: quiet_def logOutUser_lookup)
  obtain c3 s3 where 3: "handler_step AtLoop c1 s2 = Inr (AtLoop, c3, s3)" and q3: "quiet s3"
    and c3: "client_socket c3 = client_socket c"
    and i3: "inbox s3 (client_socket c3) = [Chunk (message_array (''CALL '' @ g @ '' '' @ sdp))]"
    and u3: "userStore s3 g = Some ghost"
    using login_no_password_turn [OF assms(1) q2, of c1] assms(5,7) c1 i2 u2 q2
    by (simp add: quiet_def loginUser_cases User0_def ghost_def)
  have "isLogin g (userStore s3) = Inr True"
    using u3 by (simp add: isLogin_def getIslogin_def ghost_def)
  then obtain s4 where 4: "handler_step AtLoop c3 s3 = Inr (AtHasUser r d, c3, s4)" and u4: "userStore s4 g = Some ghost"
    using call_turn [OF assms(1,3) q3, of c3] assms(5) c3 i3 u3 by (simp add: r_def d_def)
  have 5: "handler_step (AtHasUser r d) c3 s4 = Inr (AtGetUser r d, c3, s4)"
    using r u4 by (simp add: call_hasUser_def hasUser_def)
  have "handler_step (AtGetUser r d) c3 s4 = Inl Indeterminate"
    using r u4 by (simp add: call_getUser_def getUser_def getSocketFd_def ghost_def User0_def)
  then show ?thesis using 1 2 3 4 5 by (simp add: handler_continues handler_faults)
qed

theorem ghost_account_call_witness:
  "client_handler_from AtLoop example_conn
     (example_server (arrives [(4, ''LOGIN bob pw''), (4, ''LOGOUT''), (4, ''LOGIN bob''),
        (4, ''CALL bob v=0'')]) Map.empty) = Inl Indeterminate"
  using ghost_account_call [of "''bob''" "''pw''" "''v=0''"
      "example_server (arrives [(4, ''LOGIN bob pw''), (4, ''LOGOUT''), (4, ''LOGIN bob''),
        (4, ''CALL bob v=0'')]) Map.empty" example_conn]
  by (simp add: fits_def SOCKET_BUFFER_SIZE_def)

end
