(* ===== verification/ServerSystem.thy ===== *)
theory ServerSystem
  imports Server
begin

text \<open>
  The whole server process of \<open>src/server.cpp\<close>: \<open>main\<close> with its set-up, accept loop and join, and
  the interleaving of the main thread with the handler threads.

  \<open>sys_step\<close> lets any thread take its next step; a handler step calls the shared store at most
  once, so every interleaving of store calls that the mutex allows is a run of the system. The
  invariant \<open>sys_inv\<close> says what a handler in the middle of a CALL may rely on although other
  threads ran in between.
\<close>

section \<open>The main thread\<close>

text \<open>
  Set-up: \<open>Inl\<close> is the exit code of an early return, \<open>Inr\<close> the listening socket. The calls of
  \<open>setsockopt\<close>, \<open>bind\<close>, \<open>listen\<close> and \<open>sigaction\<close> succeed or fail by \<open>oks\<close>.
\<close>

definition server_setup :: "string list \<Rightarrow> 'a net_scheme \<Rightarrow> ((int + int) \<times> 'a net_scheme) res" where
  "server_setup argv n =
     (if length argv \<noteq> 2 then Inr (Inl 1, n)
      else res_bind (stoi (argv ! 1)) (\<lambda>port.
        let (server_socket, n) = socket n
        in if server_socket = -1 then Inr (Inl 1, n)
           else let (ok, n) = sys_ok n
                in if \<not> ok then Inr (Inl 1, n)
                   else let (ok, n) = sys_ok n
                        in if \<not> ok then Inr (Inl 1, n)
                           else let (ok, n) = sys_ok n
                                in if \<not> ok then Inr (Inl 1, n)
                                   else let n = log_event (Bound server_socket (htons port)) n;
                                            (ok, n) = sys_ok n
                                        in if \<not> ok then Inr (Inl 1, n)
                                           else Inr (Inr server_socket, n)))"

text \<open>One turn of the accept loop: the descriptor to start a handler for, or the end of the loop.\<close>

definition accept_turn :: "'a net_scheme \<Rightarrow> int option \<times> 'a net_scheme" where
  "accept_turn n =
     (let (go, n) = load_running n
      in if \<not> go then (None, n)
         else let (client_socket, n) = socket n;
                  (go, n) = load_running n
              in if \<not> go then (None, n)
                 else if client_socket = -1 then (None, n)
                 else (Some client_socket, n))"

datatype main_pc = Accepting int | Joining int | Exited int

record system =
  srv :: server
  threads :: "(pc \<times> conn) list"
  main_at :: main_pc

inductive sys_step :: "system \<Rightarrow> system \<Rightarrow> bool" where
  accept_some: "main_at y = Accepting ss \<Longrightarrow> accept_turn (srv y) = (Some fd, s') \<Longrightarrow>
     sys_step y (y\<lparr>srv := s', threads := threads y @ [(AtLoop, start_conn fd)]\<rparr>)"
| accept_none: "main_at y = Accepting ss \<Longrightarrow> accept_turn (srv y) = (None, s') \<Longrightarrow>
     sys_step y (y\<lparr>srv := s', main_at := Joining ss\<rparr>)"
| handler: "i < length (threads y) \<Longrightarrow> threads y ! i = (pc, c) \<Longrightarrow> pc \<noteq> Done \<Longrightarrow>
     handler_step pc c (srv y) = Inr (pc', c', s') \<Longrightarrow>
     sys_step y (y\<lparr>srv := s', threads := (threads y)[i := (pc', c')]\<rparr>)"
| join: "main_at y = Joining ss \<Longrightarrow> \<forall>(pc, c)\<in>set (threads y). pc = Done \<Longrightarrow>
     sys_step y (y\<lparr>srv := close_fd ss (srv y), main_at := Exited 0\<rparr>)"

inductive_cases sys_stepE: "sys_step y y'"

text \<open>The state in which \<open>main\<close> enters the accept loop: no account, no thread.\<close>

definition sys_init :: "system \<Rightarrow> bool" where
  "sys_init y \<longleftrightarrow> userStore (srv y) = Map.empty \<and> threads y = [] \<and> (\<exists>ss. main_at y = Accepting ss)"

section \<open>A handler step and the store\<close>

definition evolves :: "server \<Rightarrow> server \<Rightarrow> bool" where
  "evolves s s' \<longleftrightarrow> (\<exists>os. length os \<le> 1 \<and> userStore s' = run_ops os (userStore s))"

lemma evolve_none: "userStore s' = userStore s \<Longrightarrow> evolves s s'"
  unfolding evolves_def by (rule exI [of _ "[]"]) simp

lemma evolve_one: "userStore s' = apply_op x (userStore s) \<Longrightarrow> evolves s s'"
  unfolding evolves_def by (rule exI [of _ "[x]"]) simp

lemma store_CLIENT: "handle_CLIENT b c s = Inr (pc', c', s') \<Longrightarrow> userStore s' = userStore s"
  by (auto simp: handle_CLIENT_def Let_def elim!: res_bindE
      dest!: userStore_send userStore_connect split: prod.splits if_splits)

lemma store_SIGNUP:
  "handle_SIGNUP b c s = Inr (pc', c', s') \<Longrightarrow>
     \<exists>u p. two_words b ''SIGNUP %s %s'' = Inr (u, p)
       \<and> userStore s' = apply_op (Add u p (client_socket_fd c)) (userStore s)"
  by (auto simp: handle_SIGNUP_def Let_def elim!: res_bindE dest!: userStore_send split: prod.splits)

lemma store_LOGIN:
  "handle_LOGIN b c s = Inr (pc', c', s') \<Longrightarrow>
     \<exists>u p. two_words b ''LOGIN %s %s'' = Inr (u, p)
       \<and> userStore s' = apply_op (Login u p) (userStore s)"
  by (auto simp: handle_LOGIN_def Let_def elim!: res_bindE dest!: userStore_send split: prod.splits)

lemma store_CALL: "handle_CALL b c s = Inr (pc', c', s') \<Longrightarrow> s' = s \<and> c' = c"
  by (auto simp: handle_CALL_def elim!: res_bindE)

lemma store_LOGOUT:
  "handle_LOGOUT c s = Inr (pc', c', s') \<Longrightarrow>
     userStore s' = apply_op (LogOut (username c)) (userStore s)"
  by (auto simp: handle_LOGOUT_def Let_def dest!: userStore_send split: prod.splits)

lemma store_EXIT: "handle_EXIT c s = Inr (pc', c', s') \<Longrightarrow> userStore s' = userStore s"
  by (auto simp: handle_EXIT_def Let_def dest!: userStore_send split: prod.splits if_splits)

lemma dispatch_evolves:
  "dispatch b c s = Inr (pc', c', s') \<Longrightarrow> evolves s s'"
  unfolding dispatch_def
  by (auto split: if_splits intro: evolve_none evolve_one simp del: apply_op.simps
      dest: store_CLIENT store_SIGNUP store_LOGIN store_CALL store_LOGOUT store_EXIT)

lemma loop_head_cases:
  assumes "loop_head c s = Inr (pc', c', s')"
  obtains "pc' = AtEpilogue" "c' = c" "userStore s' = userStore s"
  | b s1 where "dispatch b c s1 = Inr (pc', c', s')" "userStore s1 = userStore s"
      "c_str b \<noteq> Inl OverRead"
  using assms
  by (auto simp: loop_head_def Let_def elim!: res_bindE dest!: userStore_load userStore_recv
      split: prod.splits if_splits)

lemma handler_step_evolves:
  assumes "handler_step pc c s = Inr (pc', c', s')"
  shows "evolves s s'"
proof (cases pc)
  case AtLoop
  with assms have "loop_head c s = Inr (pc', c', s')" by simp
  then show ?thesis
  proof (cases rule: loop_head_cases)
    case 1
    then show ?thesis by (intro evolve_none)
  next
    case (2 b s1)
    then show ?thesis using dispatch_evolves [of b c s1] by (simp add: evolves_def)
  qed
next
  case (AtHasUser r d)
  with assms show ?thesis by (intro evolve_none) (auto simp: call_hasUser_def elim!: res_bindE)
next
  case (AtGetUser r d)
  with assms show ?thesis
    by (intro evolve_none) (auto simp: call_getUser_def elim!: res_bindE split: sum.splits)
next
  case (AtInvite r d fd)
  with assms show ?thesis
    by (intro evolve_none) (auto simp: call_invite_def Let_def elim!: res_bindE
        dest!: userStore_send split: prod.splits)
next
  case (AtAnswer fd)
  with assms show ?thesis
    by (intro evolve_none) (auto simp: call_answer_def Let_def elim!: res_bindE
        dest!: userStore_send userStore_recv split: prod.splits if_splits)
next
  case AtEpilogue
  with assms show ?thesis by (intro evolve_none) (auto simp: epilogue_def Let_def split: if_splits)
next
  case Done
  with assms show ?thesis by (intro evolve_none) auto
qed

section \<open>The invariant of the system\<close>

text \<open>The arrays a CALL carries are terminated, and its callee has an account.\<close>

definition call_ok :: "bytes \<Rightarrow> bytes \<Rightarrow> user_store \<Rightarrow> bool" where
  "call_ok r d users \<longleftrightarrow>
     (\<exists>name sdp. c_str r = Inr name \<and> length name < 50 \<and> nul_free name \<and> hasUser name users
        \<and> c_str d = Inr sdp \<and> length sdp < SOCKET_BUFFER_SIZE \<and> nul_free sdp)"

fun pc_ok :: "user_store \<Rightarrow> pc \<Rightarrow> bool" where
  "pc_ok users (AtHasUser r d) = call_ok r d users"
| "pc_ok users (AtGetUser r d) = call_ok r d users"
| "pc_ok users (AtInvite r d fd) = call_ok r d users"
| "pc_ok users _ = True"

definition sys_inv :: "system \<Rightarrow> bool" where
  "sys_inv y \<longleftrightarrow> store_inv (userStore (srv y)) \<and>
     (\<forall>(pc, c)\<in>set (threads y). pc_ok (userStore (srv y)) pc)"

lemma hasUser_mono: "hasUser n users \<Longrightarrow> hasUser n (run_ops os users)"
  using run_ops_dom [of users os] by (auto simp: hasUser_def)

lemma pc_ok_mono: "pc_ok users pc \<Longrightarrow> pc_ok (run_ops os users) pc"
  by (cases pc) (auto simp: call_ok_def intro: hasUser_mono)

lemma handle_CALL_ok:
  assumes "handle_CALL b c s = Inr (pc', c', s')"
  shows "pc_ok (userStore s') pc'"
proof -
  from assms obtain r d name l where p: "parse_CALL b = Inr (r, d)" and n: "c_str r = Inr name"
    and l: "isLogin name (userStore s) = Inr l"
    and pc: "pc' = (if \<not> l then AtLoop else AtHasUser r d)" and s: "s' = s"
    by (auto simp: handle_CALL_def elim!: res_bindE)
  show ?thesis
  proof (cases l)
    case True
    with l have "hasUser name (userStore s)" by (simp add: isLogin_hasUser)
    with parse_CALL_shape [OF p] n pc s True show ?thesis by (auto simp: call_ok_def)
  qed (simp add: pc)
qed

lemma dispatch_pc_ok:
  assumes "dispatch b c s = Inr (pc', c', s')"
  shows "pc_ok (userStore s') pc'"
proof -
  have "handle_CLIENT b c s = Inr (pc', c', s') \<Longrightarrow> ?thesis"
    "handle_SIGNUP b c s = Inr (pc', c', s') \<Longrightarrow> ?thesis"
    "handle_LOGIN b c s = Inr (pc', c', s') \<Longrightarrow> ?thesis"
    "handle_LOGOUT c s = Inr (pc', c', s') \<Longrightarrow> ?thesis"
    "handle_EXIT c s = Inr (pc', c', s') \<Longrightarrow> ?thesis"
    by (auto simp: handle_CLIENT_def handle_SIGNUP_def handle_LOGIN_def handle_LOGOUT_def
        handle_EXIT_def Let_def elim!: res_bindE split: prod.splits if_splits)
  with assms show ?thesis
    unfolding dispatch_def by (auto split: if_splits dest: handle_CALL_ok)
qed

lemma handler_step_pc_ok:
  assumes "handler_step pc c s = Inr (pc', c', s')" and "pc_ok (userStore s) pc"
  shows "pc_ok (userStore s') pc'"
proof (cases pc)
  case AtLoop
  with assms(1) have "loop_head c s = Inr (pc', c', s')" by simp
  then show ?thesis by (cases rule: loop_head_cases) (auto dest: dispatch_pc_ok)
next
  case (AtHasUser r d)
  with assms show ?thesis by (auto simp: call_hasUser_def elim!: res_bindE)
next
  case (AtGetUser r d)
  with assms show ?thesis by (auto simp: call_getUser_def elim!: res_bindE split: sum.splits)
next
  case (AtInvite r d fd)
  with assms show ?thesis by (auto simp: call_invite_def Let_def elim!: res_bindE split: prod.splits)
next
  case (AtAnswer fd)
  with assms rank_answer show ?thesis by fastforce
qed (use assms in \<open>auto simp: Let_def split: prod.splits\<close>)

lemma socket_store: "socket s = (fd, s') \<Longrightarrow> userStore s' = userStore (s :: server)"
  by (rule userStore_more)
    (auto simp: socket_def Let_def dest!: sys_ok_frame split: prod.splits if_splits)

lemma accept_turn_store: "accept_turn s = (r, s') \<Longrightarrow> userStore s' = userStore (s :: server)"
  by (auto simp: accept_turn_def Let_def dest!: userStore_load socket_store
      split: prod.splits if_splits)

lemma sys_step_inv:
  assumes "sys_inv y" and "sys_step y y'"
  shows "sys_inv y'"
  using assms(2)
proof cases
  case (handler i pc c pc' c' s')
  obtain os where os: "userStore s' = run_ops os (userStore (srv y))"
    using handler_step_evolves [OF handler(5)] unfolding evolves_def by blast
  have "(pc, c) \<in> set (threads y)" using handler(2,3) by (metis nth_mem)
  then have "pc_ok (userStore (srv y)) pc" using assms(1) by (auto simp: sys_inv_def)
  then have "pc_ok (userStore s') pc'" by (rule handler_step_pc_ok [OF handler(5)])
  moreover have "\<forall>(pc, c)\<in>set (threads y). pc_ok (userStore s') pc"
    using assms(1) by (auto simp: sys_inv_def os intro: pc_ok_mono)
  ultimately have "\<forall>(pc, c)\<in>set ((threads y)[i := (pc', c')]). pc_ok (userStore s') pc"
    using set_update_subset_insert [of "threads y" i "(pc', c')"] by auto
  then show ?thesis
    using assms(1) run_ops_inv [of "userStore (srv y)" os]
    by (simp add: handler(1) sys_inv_def os)
qed (use assms(1) in \<open>auto simp: sys_inv_def dest!: accept_turn_store\<close>)

interpretation server_sys: invariant_system sys_init sys_step sys_inv
proof unfold_locales
  show "sys_init y \<Longrightarrow> sys_inv y" for y
    by (simp add: sys_init_def sys_inv_def store_inv_empty)
  show "sys_inv y \<Longrightarrow> sys_step y y' \<Longrightarrow> sys_inv y'" for y y'
    by (rule sys_step_inv)
qed

section \<open>Properties of the process\<close>



text \<open>The process ends only after every handler has ended, with code 0.\<close>

definition exit_inv :: "system \<Rightarrow> bool" where
  "exit_inv y \<longleftrightarrow> (\<forall>r. main_at y = Exited r \<longrightarrow> r = 0 \<and> (\<forall>(pc, c)\<in>set (threads y). pc = Done))"

interpretation server_exit: invariant_system sys_init sys_step exit_inv
proof unfold_locales
  show "sys_init y \<Longrightarrow> exit_inv y" for y by (auto simp: sys_init_def exit_inv_def)
  show "exit_inv y \<Longrightarrow> sys_step y y' \<Longrightarrow> exit_inv y'" for y y'
  proof (erule sys_stepE, goal_cases)
    case (3 i pc c pc' c' s')
    then have "(pc, c) \<in> set (threads y)" by (metis nth_mem)
    with 3 show ?case by (fastforce simp: exit_inv_def)
  qed (auto simp: exit_inv_def)
qed


section \<open>Concrete runs\<close>

text \<open>One client that signs up, logs in and calls itself; one client that hangs up before SIGINT.\<close>

definition call_system :: system where
  "call_system =
     \<lparr>srv = example_server (arrives [(9, ''SIGNUP bob pw''), (9, ''LOGIN bob pw''), (9, ''CALL bob v=0'')])
              Map.empty,
      threads = [], main_at = Accepting 3\<rparr>"

definition hangup_system :: system where
  "hangup_system =
     \<lparr>srv = (example_server (arrives []) Map.empty)\<lparr>sigint_in := Some 3\<rparr>,
      threads = [], main_at = Accepting 3\<rparr>"

lemma single_accept:
  assumes "reach sys_init sys_step y" and "main_at y = Accepting ss" and "threads y = []"
    and "accept_turn (srv y) = (Some fd, s')"
  shows "reach sys_init sys_step (y\<lparr>srv := s', threads := [(AtLoop, start_conn fd)]\<rparr>)"
  using reach_step [OF assms(1) accept_some [OF assms(2,4)]] assms(3) by simp

lemma single_handler:
  assumes "reach sys_init sys_step (y\<lparr>srv := s, threads := [(pc, c)]\<rparr>)" and "pc \<noteq> Done"
    and "handler_step pc c s = Inr (pc', c', s')"
  shows "reach sys_init sys_step (y\<lparr>srv := s', threads := [(pc', c')]\<rparr>)"
  using reach_step [OF assms(1) handler [of 0 _ pc c pc' c' s']] assms(2,3) by simp

lemma call_system_run:
  "\<exists>y c. reach sys_init sys_step y \<and> threads y = [(AtHasUser (''bob'' @ zeros 47) (''v=0'' @ zeros 1021), c)]
     \<and> userStore (srv y) = [''bob'' \<mapsto> User4 ''bob'' ''pw'' True (-1)]"
proof -
  have 0: "reach sys_init sys_step call_system"
    by (rule reach_init) (simp add: call_system_def sys_init_def)
  define s1 where "s1 = (srv call_system)\<lparr>next_fd := 10\<rparr>"
  have "accept_turn (srv call_system) = (Some 9, s1)"
    by (simp add: accept_turn_def load_running_def socket_def sys_ok_def call_system_def
        example_server_def s1_def)
  from single_accept [OF 0 _ _ this] have 1: "reach sys_init sys_step
      (call_system\<lparr>srv := s1, threads := [(AtLoop, start_conn 9)]\<rparr>)"
    by (simp add: call_system_def)
  have q1: "quiet s1" "inbox s1 9 = map (Chunk \<circ> message_array)
      [''SIGNUP bob pw'', ''LOGIN bob pw'', ''CALL bob v=0'']"
    by (simp_all add: s1_def call_system_def example_server_def quiet_def)
  have fit: "fits ''SIGNUP bob pw''" by (simp add: fits_def SOCKET_BUFFER_SIZE_def)
  have words: "two_words (message_array ''SIGNUP bob pw'') ''SIGNUP %s %s'' = Inr (''bob'', ''pw'')"
    using two_words_ok [of "''bob''" "''pw''" "''SIGNUP''" "''SIGNUP %s %s''"] fit by (simp add: fmt_words)
  obtain c2 s2 where "handler_step AtLoop (start_conn 9) s1 = Inr (AtLoop, c2, s2)"
    and c2: "client_socket c2 = 9"
    and q2: "quiet s2" "inbox s2 9 = map (Chunk \<circ> message_array) [''LOGIN bob pw'', ''CALL bob v=0'']"
    and u2: "userStore s2 = [''bob'' \<mapsto> User4 ''bob'' ''pw'' False (-1)]"
    using loop_head_message [OF fit q1(1), of "start_conn 9"] q1 words dispatch_SIGNUP [of "''bob pw''"]
    by (simp add: handle_SIGNUP_def Let_def send_ok quiet_def addUser_User4 start_conn_def
        s1_def call_system_def)
  from single_handler [OF 1 _ this(1)] have 2: "reach sys_init sys_step
      (call_system\<lparr>srv := s2, threads := [(AtLoop, c2)]\<rparr>)" by simp
  obtain c3 s3 where "handler_step AtLoop c2 s2 = Inr (AtLoop, c3, s3)"
    and c3: "client_socket c3 = 9"
    and q3: "quiet s3" "inbox s3 9 = [Chunk (message_array ''CALL bob v=0'')]"
    and u3: "userStore s3 = [''bob'' \<mapsto> User4 ''bob'' ''pw'' True (-1)]"
    using login_turn [of "''bob''" "''pw''" s2 c2] q2 c2 u2
    by (simp add: quiet_def loginUser_cases User4_def)
  from single_handler [OF 2 _ this(1)] have 3: "reach sys_init sys_step
      (call_system\<lparr>srv := s3, threads := [(AtLoop, c3)]\<rparr>)" by simp
  obtain s4 where "handler_step AtLoop c3 s3 =
      Inr (AtHasUser (''bob'' @ zeros 47) (''v=0'' @ zeros 1021), c3, s4)" and "userStore s4 = userStore s3"
    using call_turn [of "''bob''" "''v=0''" s3 c3 "[]" True] q3 c3 u3
    by (simp add: fits_def SOCKET_BUFFER_SIZE_def isLogin_def getIslogin_def)
  with single_handler [OF 3 _ this(1)] u3 show ?thesis by fastforce
qed

lemma hangup_system_run:
  "\<exists>y c. reach sys_init sys_step y \<and> threads y = [(Done, c)] \<and> main_at y = Exited 0"
proof -
  define st where "st k n es r = (srv hangup_system)\<lparr>sigint_in := k, next_fd := n, events := es, running := r\<rparr>"
    for k n es r
  have st: "srv hangup_system = st (Some 3) 9 [] True"
    by (simp add: st_def hangup_system_def example_server_def)
  note run = load_running_def socket_def sys_ok_def recv_def signal_handler_def SIGINT_def
    hangup_system_def example_server_def st_def
  have 0: "reach sys_init sys_step hangup_system"
    by (rule reach_init) (simp add: hangup_system_def sys_init_def)
  have "accept_turn (srv hangup_system) = (Some 9, st (Some 1) 10 [] True)"
    by (simp add: accept_turn_def run numeral_eq_Suc)
  from single_accept [OF 0 _ _ this] have 1: "reach sys_init sys_step
      (hangup_system\<lparr>srv := st (Some 1) 10 [] True, threads := [(AtLoop, start_conn 9)]\<rparr>)"
    by (simp add: hangup_system_def)
  have "handler_step AtLoop (start_conn 9) (st (Some 1) 10 [] True) =
      Inr (AtEpilogue, start_conn 9, st (Some 0) 10 [] True)"
    by (simp add: loop_head_def run)
  from single_handler [OF 1 _ this] have 2: "reach sys_init sys_step
      (hangup_system\<lparr>srv := st (Some 0) 10 [] True, threads := [(AtEpilogue, start_conn 9)]\<rparr>)"
    by simp
  have "handler_step AtEpilogue (start_conn 9) (st (Some 0) 10 [] True) =
      Inr (Done, start_conn 9, st (Some 0) 10 [Closed 9] True)"
    by (simp add: epilogue_def start_conn_def close_fd_def log_event_def st_def)
  from single_handler [OF 2 _ this] have 3: "reach sys_init sys_step
      (hangup_system\<lparr>srv := st (Some 0) 10 [Closed 9] True, threads := [(Done, start_conn 9)]\<rparr>)"
    (is "reach _ _ ?y3") by simp
  have "accept_turn (srv ?y3) = (None, st None 10 [Closed 9] False)"
    by (simp add: accept_turn_def run)
  moreover have "main_at ?y3 = Accepting 3" by (simp add: hangup_system_def)
  ultimately have "sys_step ?y3 (?y3\<lparr>srv := st None 10 [Closed 9] False, main_at := Joining 3\<rparr>)"
    (is "sys_step _ ?y4") by (intro accept_none)
  with 3 have 4: "reach sys_init sys_step ?y4" by (rule reach_step)
  let ?y5 = "?y4\<lparr>srv := close_fd 3 (srv ?y4), main_at := Exited 0\<rparr>"
  have "sys_step ?y4 ?y5" by (rule join) auto
  with 4 have "reach sys_init sys_step ?y5" by (rule reach_step)
  moreover have "threads ?y5 = [(Done, start_conn 9)]" "main_at ?y5 = Exited 0" by simp_all
  ultimately show ?thesis by blast
qed




end
