(* ===== verification/StoreLocks.thy ===== *)
theory StoreLocks
  imports UserStore
begin

text \<open>
  The locking of \<open>UserStore\<close> (\<open>src/UserStore.cpp\<close>): which methods take the mutex \<open>mtx\<close>, and what
  that gives when the handler threads of the server call them at the same time.

  A call is two steps: entering the method (a locking one waits until the mutex is free) and
  leaving it, when its effect is visible and the lock guard is destroyed. Two threads that are
  inside at once, one of them in a method that writes, race on the map.
\<close>

datatype meth =
    M_addUser string string int
  | M_loginUser string string
  | M_logOutUser string
  | M_hasUser string
  | M_isLogin string
  | M_getUser string

text \<open>Which bodies begin with a \<open>lock_guard\<close>.\<close>

fun locks :: "meth \<Rightarrow> bool" where
  "locks (M_addUser n p fd) = True"
| "locks (M_loginUser n p) = True"
| "locks (M_logOutUser n) = False"
| "locks (M_hasUser n) = True"
| "locks (M_isLogin n) = True"
| "locks (M_getUser n) = True"

fun writes :: "meth \<Rightarrow> bool" where
  "writes (M_addUser n p fd) = True"
| "writes (M_loginUser n p) = True"
| "writes (M_logOutUser n) = True"
| "writes _ = False"

fun meth_op :: "meth \<Rightarrow> store_op" where
  "meth_op (M_addUser n p fd) = Add n p fd"
| "meth_op (M_loginUser n p) = Login n p"
| "meth_op (M_logOutUser n) = LogOut n"
| "meth_op _ = Query"

record locked_store =
  users :: user_store
  mtx :: "nat option"                   \<comment> \<open>the thread that holds the mutex\<close>
  inside :: "nat \<Rightarrow> meth option"        \<comment> \<open>the method each thread is in\<close>

inductive lock_step :: "locked_store \<Rightarrow> locked_store \<Rightarrow> bool" where
  enter_locked: "inside s t = None \<Longrightarrow> locks m \<Longrightarrow> mtx s = None \<Longrightarrow>
     lock_step s (s\<lparr>mtx := Some t, inside := (inside s)(t \<mapsto> m)\<rparr>)"
| enter_unlocked: "inside s t = None \<Longrightarrow> \<not> locks m \<Longrightarrow>
     lock_step s (s\<lparr>inside := (inside s)(t \<mapsto> m)\<rparr>)"
| leave: "inside s t = Some m \<Longrightarrow>
     lock_step s (s\<lparr>users := apply_op (meth_op m) (users s),
                    mtx := (if locks m then None else mtx s),
                    inside := (inside s)(t := None)\<rparr>)"

inductive_cases lock_stepE: "lock_step s s'"

definition init_locked :: "locked_store \<Rightarrow> bool" where
  "init_locked s \<longleftrightarrow> users s = Map.empty \<and> mtx s = None \<and> inside s = (\<lambda>_. None)"

definition race :: "locked_store \<Rightarrow> nat \<Rightarrow> nat \<Rightarrow> bool" where
  "race s t t' \<longleftrightarrow> t \<noteq> t' \<and>
     (\<exists>m m'. inside s t = Some m \<and> inside s t' = Some m' \<and> (writes m \<or> writes m'))"

definition lock_inv :: "locked_store \<Rightarrow> bool" where
  "lock_inv s \<longleftrightarrow>
     (\<forall>t. mtx s = Some t \<longleftrightarrow> (\<exists>m. inside s t = Some m \<and> locks m)) \<and> store_inv (users s)"

lemma lock_step_inv: "lock_inv s \<Longrightarrow> lock_step s s' \<Longrightarrow> lock_inv s'"
proof (erule lock_stepE, goal_cases)
  case (1 t m)
  then show ?case unfolding lock_inv_def by (auto split: if_splits)
next
  case (2 t m)
  then show ?case unfolding lock_inv_def by (auto split: if_splits)
next
  case (3 t m)
  then show ?case unfolding lock_inv_def by (auto intro: apply_op_inv split: if_splits) (metis option.inject)+
qed

interpretation locked: invariant_system init_locked lock_step lock_inv
proof unfold_locales
  show "init_locked s \<Longrightarrow> lock_inv s" for s
    by (simp add: lock_inv_def init_locked_def store_inv_empty)
  show "lock_inv s \<Longrightarrow> lock_step s t \<Longrightarrow> lock_inv t" for s t
    by (rule lock_step_inv)
qed

lemma locked_exclusive:
  assumes "lock_inv s" and "inside s t = Some m" "locks m" and "inside s t' = Some m'" "locks m'"
  shows "t = t'"
proof -
  from assms(1,2,3) have "mtx s = Some t" unfolding lock_inv_def by blast
  moreover from assms(1,4,5) have "mtx s = Some t'" unfolding lock_inv_def by blast
  ultimately show ?thesis by simp
qed

lemma not_locks_iff: "\<not> locks m \<longleftrightarrow> (\<exists>n. m = M_logOutUser n)"
  by (cases m) auto

section \<open>Properties of the locking\<close>

text \<open>C30. In every reachable state a race on the map of accounts involves a thread inside
  \<open>logOutUser\<close>: the other five methods exclude one another.\<close>

theorem race_needs_logout:
  assumes "reach init_locked lock_step s" and "race s t t'"
  shows "\<exists>n. inside s t = Some (M_logOutUser n) \<or> inside s t' = Some (M_logOutUser n)"
proof -
  have inv: "lock_inv s" using assms(1) by (rule locked.reach_good)
  from assms(2) obtain m m' where m: "inside s t = Some m" "inside s t' = Some m'" "t \<noteq> t'"
    by (auto simp: race_def)
  with locked_exclusive [OF inv m(1) _ m(2)] have "\<not> locks m \<or> \<not> locks m'" by blast
  with m show ?thesis by (auto simp: not_locks_iff)
qed

definition idle_store :: locked_store where
  "idle_store = \<lparr>users = Map.empty, mtx = None, inside = (\<lambda>_. None)\<rparr>"

text \<open>Thread 0 signs a user up while thread 1 logs one out.\<close>

definition racing_store :: locked_store where
  "racing_store = \<lparr>users = Map.empty, mtx = Some 0,
     inside = [0 \<mapsto> M_addUser ''ann'' ''pw'' 5, 1 \<mapsto> M_logOutUser ''bob'']\<rparr>"

lemma racing_reachable: "reach init_locked lock_step racing_store"
proof -
  have "reach init_locked lock_step idle_store"
    by (rule reach_init) (simp add: init_locked_def idle_store_def)
  moreover have "lock_step idle_store
      (idle_store\<lparr>mtx := Some 0, inside := (inside idle_store)(0 \<mapsto> M_addUser ''ann'' ''pw'' 5)\<rparr>)"
    by (rule enter_locked) (simp_all add: idle_store_def)
  ultimately have 1: "reach init_locked lock_step
      (idle_store\<lparr>mtx := Some 0, inside := (inside idle_store)(0 \<mapsto> M_addUser ''ann'' ''pw'' 5)\<rparr>)"
    (is "reach _ _ ?s1") by (rule reach_step)
  have "lock_step ?s1 (?s1\<lparr>inside := (inside ?s1)(1 \<mapsto> M_logOutUser ''bob'')\<rparr>)"
    by (rule enter_unlocked) (simp_all add: idle_store_def)
  with 1 have "reach init_locked lock_step (?s1\<lparr>inside := (inside ?s1)(1 \<mapsto> M_logOutUser ''bob'')\<rparr>)"
    by (rule reach_step)
  then show ?thesis by (simp add: racing_store_def idle_store_def)
qed

theorem race_needs_logout_witness:
  "\<exists>n. inside racing_store 0 = Some (M_logOutUser n) \<or> inside racing_store 1 = Some (M_logOutUser n)"
  using race_needs_logout [OF racing_reachable, of 0 1]
  by (simp add: race_def racing_store_def)


end
