(* ===== verification/StdMap.thy ===== *)
theory StdMap
  imports Prelude "HOL-Library.List_Lexorder" "HOL-Library.Char_ord"
begin

text \<open>
  \<open>std::map\<close>, the ordered associative container of the C++ library. It keeps its entries in key
  order and iterates in that order, so it is an association list with strictly increasing keys;
  for \<open>std::string\<close> keys the order is the lexicographic one on bytes. Used by \<open>ThreadSafeMap\<close> and,
  as the representation of JSON objects, by \<open>Json\<close>.
\<close>

type_synonym ('k, 'v) tsmap = "('k \<times> 'v) list"

fun map_put :: "'k::linorder \<Rightarrow> 'v \<Rightarrow> ('k, 'v) tsmap \<Rightarrow> ('k, 'v) tsmap" where
  "map_put k v [] = [(k, v)]"
| "map_put k v ((a, b) # m) =
     (if k < a then (k, v) # (a, b) # m
      else if k = a then (k, v) # m
      else (a, b) # map_put k v m)"

fun map_erase :: "'k::linorder \<Rightarrow> ('k, 'v) tsmap \<Rightarrow> ('k, 'v) tsmap" where
  "map_erase k [] = []"
| "map_erase k ((a, b) # m) = (if k = a then m else (a, b) # map_erase k m)"

definition keys_sorted :: "('k::linorder, 'v) tsmap \<Rightarrow> bool" where
  "keys_sorted m \<longleftrightarrow> sorted_wrt (<) (map fst m)"

lemma keys_sorted_simps [simp]:
  "keys_sorted []"
  "keys_sorted ((k, v) # m) \<longleftrightarrow> (\<forall>k'\<in>fst ` set m. k < k') \<and> keys_sorted m"
  by (auto simp: keys_sorted_def)

lemma keys_map_put: "fst ` set (map_put k v m) = insert k (fst ` set m)"
  by (induction k v m rule: map_put.induct) auto

lemma keys_map_erase: "fst ` set (map_erase k m) \<subseteq> fst ` set m"
  by (induction k m rule: map_erase.induct) auto

lemma keys_sorted_put: "keys_sorted m \<Longrightarrow> keys_sorted (map_put k v m)"
  by (induction k v m rule: map_put.induct) (auto simp: keys_map_put)

lemma keys_sorted_erase: "keys_sorted m \<Longrightarrow> keys_sorted (map_erase k m)"
proof (induction k m rule: map_erase.induct)
  case (2 k a b m)
  then show ?case using keys_map_erase [of k m] by (auto simp: subset_iff image_iff) force
qed simp

lemma map_of_absent: "(\<forall>k'\<in>fst ` set m. (k::'k::linorder) < k') \<Longrightarrow> map_of m k = None"
  by (induction m) auto

lemma map_of_map_put: "map_of (map_put k v m) = (map_of m)(k \<mapsto> v)"
  by (induction k v m rule: map_put.induct) (auto simp: fun_eq_iff)

lemma map_of_map_erase: "keys_sorted m \<Longrightarrow> map_of (map_erase k m) = (map_of m)(k := None)"
  by (induction k m rule: map_erase.induct) (auto simp: fun_eq_iff map_of_absent)

interpretation tsm: keyed_container "[]" map_of map_put map_erase keys_sorted
  by unfold_locales
    (auto simp: map_of_map_put map_of_map_erase intro: keys_sorted_put keys_sorted_erase)

text \<open>A sorted list is determined by the partial function it stands for.\<close>

lemma keys_sorted_distinct: "keys_sorted m \<Longrightarrow> distinct (map fst m)"
  unfolding keys_sorted_def by (simp add: strict_sorted_iff)

lemma map_put_append:
  "(\<forall>k'\<in>fst ` set m. k' < k) \<Longrightarrow> map_put k v m = m @ [(k, v)]"
  by (induction k v m rule: map_put.induct) auto

lemma put_all_sorted: "keys_sorted (m @ es) \<Longrightarrow> tsm.put_all es m = m @ es"
proof (induction es arbitrary: m)
  case Nil
  then show ?case by simp
next
  case (Cons e es)
  obtain k v where e: "e = (k, v)" by (cases e)
  from Cons.prems have "\<forall>k'\<in>fst ` set m. k' < k"
    by (auto simp: e keys_sorted_def sorted_wrt_append)
  then show ?case using Cons by (simp add: e map_put_append)
qed

end
