(* ===== verification/ThreadSafeMap.thy ===== *)
theory ThreadSafeMap
  imports StdMap
begin

text \<open>
  The class template \<open>ThreadSafeMap\<close> of \<open>src/ThreadSafeMap.cpp\<close> and \<open>include/ThreadSafeMap.hpp\<close>: a
  \<open>std::map\<close> behind a mutex that every operation holds, with a text file format of one
  \<open>key delimiter value\<close> line per entry.

  The member \<open>map_\<close> is the sorted association list of \<open>StdMap\<close>. A default \<open>V()\<close> is passed as \<open>v0\<close>. File access goes through a
  file system (a map from names to contents) and, for writing, whether the file could be opened.

  The lemmas show that the operations implement a partial function (interpretation of
  \<open>keyed_container\<close>), that the key order is an invariant, and which maps survive a save and load.
\<close>

section \<open>Operations\<close>

definition add :: "'k::linorder \<Rightarrow> 'v \<Rightarrow> ('k, 'v) tsmap \<Rightarrow> ('k, 'v) tsmap" where
  "add key value mp = map_put key value mp"

definition edit :: "'k::linorder \<Rightarrow> 'v \<Rightarrow> ('k, 'v) tsmap \<Rightarrow> ('k, 'v) tsmap" where
  "edit key value mp = (if map_of mp key \<noteq> None then map_put key value mp else mp)"

definition remove :: "'k::linorder \<Rightarrow> ('k, 'v) tsmap \<Rightarrow> ('k, 'v) tsmap" where
  "remove key mp = map_erase key mp"

definition get :: "'v \<Rightarrow> 'k::linorder \<Rightarrow> ('k, 'v) tsmap \<Rightarrow> 'v" where
  "get v0 key mp = (case map_of mp key of Some v \<Rightarrow> v | None \<Rightarrow> v0)"

definition contains :: "'k::linorder \<Rightarrow> ('k, 'v) tsmap \<Rightarrow> bool" where
  "contains key mp \<longleftrightarrow> map_of mp key \<noteq> None"

abbreviation newline :: char where
  "newline \<equiv> CHR 0x0A"

type_synonym files = "string \<rightharpoonup> string"

fun write_entries :: "char \<Rightarrow> (string, string) tsmap \<Rightarrow> string" where
  "write_entries d [] = []"
| "write_entries d ((k, v) # m) = k @ [d] @ v @ [newline] @ write_entries d m"

text \<open>An \<open>ofstream\<close> that did not open swallows what is written to it.\<close>

definition writeToFile ::
  "string \<Rightarrow> char \<Rightarrow> bool \<Rightarrow> (string, string) tsmap \<Rightarrow> files \<Rightarrow> files" where
  "writeToFile filename delimiter opened mp fs =
     (if opened then fs(filename \<mapsto> write_entries delimiter mp) else fs)"

text \<open>
  \<open>std::getline\<close> on a stream: nothing is read once the end or a failure has been seen; reaching
  the end sets the end flag; extracting nothing at all is a failure.
\<close>

record istream =
  rest :: string
  eofbit :: bool
  failbit :: bool

definition open_in :: "string \<Rightarrow> istream" where
  "open_in s = \<lparr>rest = s, eofbit = False, failbit = False\<rparr>"

definition getline :: "char \<Rightarrow> istream \<Rightarrow> string \<times> istream" where
  "getline d st =
     (if eofbit st \<or> failbit st then ([], st\<lparr>failbit := True\<rparr>)
      else let line = takeWhile (\<lambda>c. c \<noteq> d) (rest st); r = dropWhile (\<lambda>c. c \<noteq> d) (rest st)
           in if r = [] then (line, st\<lparr>rest := [], eofbit := True, failbit := (line = [])\<rparr>)
              else (line, st\<lparr>rest := tl r\<rparr>))"

text \<open>The body of the loop: split a line at the first delimiter, both parts non-failing.\<close>

definition read_line :: "char \<Rightarrow> string \<Rightarrow> (string, string) tsmap \<Rightarrow> (string, string) tsmap" where
  "read_line delimiter line mp =
     (let (key, iss) = getline delimiter (open_in line)
      in if failbit iss then mp
         else let (value, iss) = getline newline iss
              in if failbit iss then mp else add key value mp)"

function read_loop :: "char \<Rightarrow> istream \<Rightarrow> (string, string) tsmap \<Rightarrow> (string, string) tsmap" where
  "read_loop delimiter infile mp =
     (let (line, infile) = getline newline infile
      in if failbit infile then mp
         else read_loop delimiter infile (read_line delimiter line mp))"
  by pat_completeness auto

lemma getline_consumes:
  "getline d st = (line, st') \<Longrightarrow> \<not> failbit st' \<Longrightarrow> length (rest st') < length (rest st)"
proof -
  assume "getline d st = (line, st')" "\<not> failbit st'"
  moreover have "length (dropWhile (\<lambda>c. c \<noteq> d) (rest st)) \<le> length (rest st)"
    by (rule length_dropWhile_le)
  ultimately show ?thesis
    by (cases "dropWhile (\<lambda>c. c \<noteq> d) (rest st)")
      (auto simp: getline_def Let_def split: if_splits)
qed

termination read_loop
  by (relation "measure (\<lambda>(d, st, m). length (rest st))") (auto dest: getline_consumes [OF sym])

declare read_loop.simps [simp del]

definition readFromFile ::
  "string \<Rightarrow> char \<Rightarrow> files \<Rightarrow> (string, string) tsmap \<Rightarrow> (string, string) tsmap" where
  "readFromFile filename delimiter fs mp =
     (case fs filename of None \<Rightarrow> mp | Some s \<Rightarrow> read_loop delimiter (open_in s) mp)"

fun print_entries :: "(string, string) tsmap \<Rightarrow> string" where
  "print_entries [] = []"
| "print_entries ((k, v) # m) = ''Key: '' @ k @ '' Value: '' @ v @ [newline] @ print_entries m"

section \<open>Correctness of the operations\<close>

lemma add_spec: "map_of (add k v m) = (map_of m)(k \<mapsto> v)"
  by (simp add: add_def map_of_map_put)

lemma edit_spec:
  "map_of (edit k v m) = (if k \<in> dom (map_of m) then (map_of m)(k \<mapsto> v) else map_of m)"
  by (auto simp: edit_def map_of_map_put)

lemma remove_spec: "keys_sorted m \<Longrightarrow> map_of (remove k m) = (map_of m)(k := None)"
  by (simp add: remove_def map_of_map_erase)

lemma get_add: "get v0 k' (add k v m) = (if k' = k then v else get v0 k' m)"
  by (simp add: get_def add_spec)

lemma ops_sorted:
  assumes "keys_sorted m"
  shows "keys_sorted (add k v m)" and "keys_sorted (edit k v m)" and "keys_sorted (remove k m)"
  using assms by (simp_all add: add_def edit_def remove_def keys_sorted_put keys_sorted_erase)

section \<open>Save and load\<close>

definition key_ok :: "char \<Rightarrow> string \<Rightarrow> bool" where
  "key_ok d k \<longleftrightarrow> d \<notin> set k \<and> newline \<notin> set k"

definition value_ok :: "string \<Rightarrow> bool" where
  "value_ok v \<longleftrightarrow> v \<noteq> [] \<and> newline \<notin> set v"

lemma getline_found:
  "d \<notin> set l \<Longrightarrow>
     getline d \<lparr>rest = l @ d # r, eofbit = False, failbit = False\<rparr> =
       (l, \<lparr>rest = r, eofbit = False, failbit = False\<rparr>)"
proof -
  assume d: "d \<notin> set l"
  then have "takeWhile (\<lambda>c. c \<noteq> d) (l @ d # r) = l" "dropWhile (\<lambda>c. c \<noteq> d) (l @ d # r) = d # r"
    by (induction l) auto
  then show ?thesis by (simp add: getline_def)
qed

lemma getline_end:
  "d \<notin> set l \<Longrightarrow> l \<noteq> [] \<Longrightarrow>
     getline d \<lparr>rest = l, eofbit = False, failbit = False\<rparr> =
       (l, \<lparr>rest = [], eofbit = True, failbit = False\<rparr>)"
proof -
  assume d: "d \<notin> set l" "l \<noteq> []"
  then have "takeWhile (\<lambda>c. c \<noteq> d) l = l" "dropWhile (\<lambda>c. c \<noteq> d) l = []"
    by auto
  with d show ?thesis by (simp add: getline_def)
qed

lemma getline_empty:
  "getline d \<lparr>rest = [], eofbit = False, failbit = False\<rparr> =
     ([], \<lparr>rest = [], eofbit = True, failbit = True\<rparr>)"
  by (simp add: getline_def)

lemma read_line_entry:
  "key_ok d k \<Longrightarrow> value_ok v \<Longrightarrow> read_line d (k @ [d] @ v) m = add k v m"
  by (simp add: read_line_def open_in_def key_ok_def value_ok_def getline_found getline_end)

lemma read_line_no_value: "d \<notin> set k \<Longrightarrow> read_line d (k @ [d]) m = m"
  using getline_found [of d k "[]"] by (simp add: read_line_def open_in_def getline_empty)

lemma read_line_no_delimiter: "d \<notin> set l \<Longrightarrow> read_line d l m = m"
proof (cases "l = []")
  case True
  then show ?thesis by (simp add: read_line_def open_in_def getline_empty)
next
  case False
  moreover assume "d \<notin> set l"
  ultimately show ?thesis
    by (simp add: read_line_def open_in_def getline_end) (simp add: getline_def)
qed

lemma read_loop_entries:
  "d \<noteq> newline \<Longrightarrow> \<forall>(k, v)\<in>set es. key_ok d k \<and> value_ok v \<Longrightarrow>
     read_loop d (open_in (write_entries d es)) m = tsm.put_all es m"
proof (induction es arbitrary: m)
  case Nil
  then show ?case by (subst read_loop.simps) (simp add: open_in_def getline_empty)
next
  case (Cons e es)
  obtain k v where e: "e = (k, v)" by (cases e)
  from Cons.prems e have ok: "key_ok d k" "value_ok v" "newline \<notin> set (k @ [d] @ v)"
    by (auto simp: key_ok_def value_ok_def)
  have "getline newline (open_in (write_entries d (e # es))) =
      (k @ [d] @ v, open_in (write_entries d es))"
    using getline_found [OF ok(3), of "write_entries d es"] by (simp add: open_in_def e)
  then have "read_loop d (open_in (write_entries d (e # es))) m =
      read_loop d (open_in (write_entries d es)) (read_line d (k @ [d] @ v) m)"
    by (subst read_loop.simps) (simp add: open_in_def)
  also have "\<dots> = tsm.put_all es (add k v m)"
    using Cons by (simp add: read_line_entry [OF ok(1,2)] del: append.simps append_Cons)
  finally show ?case by (simp add: e add_def)
qed

section \<open>Properties of the map\<close>

text \<open>C38. The map implements a partial function: \<open>add\<close> updates it, \<open>edit\<close> updates only a key that is
  present, \<open>remove\<close> deletes, \<open>get\<close> and \<open>contains\<close> read it, and the key order is kept.\<close>

theorem map_implements_function:
  fixes m :: "('k::linorder, 'v) tsmap"
  assumes "keys_sorted m"
  shows "map_of (add k v m) = (map_of m)(k \<mapsto> v)
    \<and> map_of (edit k v m) = (if contains k m then (map_of m)(k \<mapsto> v) else map_of m)
    \<and> map_of (remove k m) = (map_of m)(k := None)
    \<and> get v0 k (add k v m) = v \<and> get v0 k (remove k m) = v0
    \<and> keys_sorted (add k v m) \<and> keys_sorted (edit k v m) \<and> keys_sorted (remove k m)"
  using ops_sorted [OF assms] add_spec [of k v m] edit_spec [of k v m] remove_spec [OF assms, of k]
  by (auto simp: contains_def get_def)

theorem map_implements_function_witness:
  "map_of (edit (2::nat) ''x'' [(1, ''a'')]) = map_of [(1, ''a'')]
    \<and> map_of (remove (1::nat) [(1, ''a'')]) = Map.empty"
  using map_implements_function [of "[(1::nat, ''a'')]" 2 "''x''" "[]"]
    map_implements_function [of "[(1::nat, ''a'')]" 1 "''x''" "[]"]
  by (simp add: contains_def)

text \<open>A map whose keys contain neither the delimiter nor a newline and whose values are non-empty
  and without newlines survives being written to a file and read back into an empty map.\<close>

theorem file_round_trip:
  assumes "keys_sorted m" and "d \<noteq> newline" and "\<forall>(k, v)\<in>set m. key_ok d k \<and> value_ok v"
  shows "readFromFile f d (writeToFile f d True m fs) [] = m"
  using read_loop_entries [OF assms(2,3), of "[]"] put_all_sorted [of "[]" m] assms(1)
  by (simp add: readFromFile_def writeToFile_def)

theorem file_round_trip_witness:
  "readFromFile ''users.txt'' CHR '':'' (writeToFile ''users.txt'' CHR '':'' True
     [(''ann'', ''pw:1''), (''bob'', ''x'')] Map.empty) [] = [(''ann'', ''pw:1''), (''bob'', ''x'')]"
  using file_round_trip [of "[(''ann'', ''pw:1''), (''bob'', ''x'')]" "CHR '':''" "''users.txt''" Map.empty]
  by (simp add: key_ok_def value_ok_def less_char_def)

text \<open>An entry with an empty value is lost on the way: the line "key delimiter" is skipped when
  the file is read.\<close>

theorem file_loses_empty_value:
  assumes "key_ok d k" and "d \<noteq> newline"
  shows "readFromFile f d (writeToFile f d True [(k, [])] fs) mp = mp"
proof -
  have "newline \<notin> set (k @ [d])" using assms by (auto simp: key_ok_def)
  from getline_found [OF this, of "[]"] have
    "read_loop d (open_in (write_entries d [(k, [])])) mp = read_loop d (open_in []) (read_line d (k @ [d]) mp)"
    by (subst read_loop.simps) (simp add: open_in_def)
  also have "\<dots> = mp"
    using assms(1) read_line_no_value [of d k mp]
    by (subst read_loop.simps) (simp add: open_in_def getline_empty key_ok_def)
  finally show ?thesis by (simp add: readFromFile_def writeToFile_def)
qed

theorem file_loses_empty_value_witness:
  "readFromFile ''f'' CHR '':'' (writeToFile ''f'' CHR '':'' True [(''ann'', [])] Map.empty) [] = []"
  using file_loses_empty_value [of "CHR '':''" "''ann''" "''f''" Map.empty "[]"] by (simp add: key_ok_def)

end
