(* ===== verification/Diyfp.thy ===== *)
theory Diyfp
  imports Complex_Main CLib "HOL-Library.Signed_Division"
begin

text \<open>
  The floating-point numbers with a 64-bit significand of \<open>include/nlohmann/json.hpp\<close> (namespace
  \<open>dtoa_impl\<close>): subtraction, rounded multiplication and normalisation, the boundaries of a double,
  and the table of cached powers of ten.

  \<^item> A double is given by its 64 bits. \<open>JSON_ASSERT\<close> is \<open>assert\<close>: a condition that does not hold is
    the fault \<open>AssertionFailed\<close>.
  \<^item> Significands are 64-bit words, so an overflow would wrap around; exponents are \<open>int\<close>s of the
    program, all below 4000 in absolute value.
\<close>

unbundle bit_operations_syntax

section \<open>Words as natural numbers\<close>

lemma unat_drop: "unat (drop_bit n w) = unat w div 2 ^ n"
  unfolding unat_drop_bit_eq by (rule drop_bit_eq_div)

lemma unat_low:
  fixes w :: "64 word"
  assumes "n \<le> 64"
  shows "unat (w AND mask n) = unat w mod 2 ^ n"
  unfolding take_bit_eq_mask [symmetric] unsigned_take_bit_eq by (simp only: take_bit_eq_mod)

lemma mask32: "(0xFFFFFFFF :: 64 word) = mask 32"
  by (simp add: mask_eq_exp_minus_1)

lemma unat_push:
  fixes w :: "64 word"
  assumes "unat w * 2 ^ n < 2 ^ 64"
  shows "unat (push_bit n w) = unat w * 2 ^ n"
  unfolding unsigned_push_bit_eq using assms
  by (simp only: push_bit_eq_mult take_bit_eq_mod) simp

lemma unat_add64: "unat a + unat b < 2 ^ 64 \<Longrightarrow> unat (a + b :: 64 word) = unat a + unat b"
  by (simp only: unat_word_ariths) simp

lemma unat_mult64: "unat a * unat b < 2 ^ 64 \<Longrightarrow> unat (a * b :: 64 word) = unat a * unat b"
  by (simp only: unat_word_ariths) simp

lemma unat_sub64: "b \<le> a \<Longrightarrow> unat (a - b :: 64 word) = unat a - unat b"
  by (rule unat_sub)

lemma unat_less64: "unat (w :: 64 word) < 2 ^ 64"
  using unsigned_less [of w, where ?'a = nat] by simp

lemma top_bit_clear: "drop_bit 63 w = 0 \<longleftrightarrow> unat (w :: 64 word) < 2 ^ 63"
proof -
  have "drop_bit 63 w = 0 \<longleftrightarrow> unat (drop_bit 63 w) = 0" by (simp only: unat_eq_zero)
  also have "\<dots> \<longleftrightarrow> unat w div 2 ^ 63 = 0" by (simp only: unat_drop)
  finally show ?thesis by (simp only: div_eq_0_iff) simp
qed

section \<open>Arithmetic\<close>

record diyfp =
  df :: "64 word"
  de :: int

definition sub :: "diyfp \<Rightarrow> diyfp \<Rightarrow> diyfp res" where
  "sub x y =
     asserting (de x = de y) (asserting (df y \<le> df x) (Inr \<lparr>df = df x - df y, de = de x\<rparr>))"

definition mul :: "diyfp \<Rightarrow> diyfp \<Rightarrow> diyfp" where
  "mul x y =
     (let u_lo = df x AND 0xFFFFFFFF;
          u_hi = drop_bit 32 (df x);
          v_lo = df y AND 0xFFFFFFFF;
          v_hi = drop_bit 32 (df y);
          p0 = u_lo * v_lo;
          p1 = u_lo * v_hi;
          p2 = u_hi * v_lo;
          p3 = u_hi * v_hi;
          p0_hi = drop_bit 32 p0;
          p1_lo = p1 AND 0xFFFFFFFF;
          p1_hi = drop_bit 32 p1;
          p2_lo = p2 AND 0xFFFFFFFF;
          p2_hi = drop_bit 32 p2;
          Q = p0_hi + p1_lo + p2_lo;
          Q = Q + push_bit (64 - 32 - 1) 1;
          h = p3 + p2_hi + p1_hi + drop_bit 32 Q
      in \<lparr>df = h, de = de x + de y + 64\<rparr>)"

text \<open>The loop of \<open>normalize\<close>; the assertion in front of it keeps zero out.\<close>

function normalize_loop :: "diyfp \<Rightarrow> diyfp" where
  "normalize_loop x =
     (if drop_bit 63 (df x) \<noteq> 0 \<or> df x = 0 then x
      else normalize_loop \<lparr>df = push_bit 1 (df x), de = de x - 1\<rparr>)"
  by pat_completeness auto
termination
proof (relation "measure (\<lambda>x. 2 ^ 64 - unat (df x))")
  fix x :: diyfp
  assume "\<not> (drop_bit 63 (df x) \<noteq> 0 \<or> df x = 0)"
  then have "unat (df x) < 2 ^ 63" and "0 < unat (df x)"
    using top_bit_clear [of "df x"] by (auto simp: unat_gt_0)
  then show "(\<lparr>df = push_bit 1 (df x), de = de x - 1\<rparr>, x) \<in> measure (\<lambda>x. 2 ^ 64 - unat (df x))"
    using unat_push [of "df x" 1] by simp
qed simp

declare normalize_loop.simps [simp del]

definition normalize :: "diyfp \<Rightarrow> diyfp res" where
  "normalize x = asserting (df x \<noteq> 0) (Inr (normalize_loop x))"

definition normalize_to :: "diyfp \<Rightarrow> int \<Rightarrow> diyfp res" where
  "normalize_to x target_exponent =
     (let delta = de x - target_exponent
      in asserting (0 \<le> delta)
        (asserting (drop_bit (nat delta) (push_bit (nat delta) (df x)) = df x)
          (Inr \<lparr>df = push_bit (nat delta) (df x), de = target_exponent\<rparr>)))"

section \<open>Doubles and their boundaries\<close>

type_synonym double = "64 word"

definition kPrecision :: nat where "kPrecision = 53"
definition kBias :: int where "kBias = 1024 - 1 + (int kPrecision - 1)"
definition kMinExp :: int where "kMinExp = 1 - kBias"
definition kHiddenBit :: "64 word" where "kHiddenBit = push_bit (kPrecision - 1) 1"

definition signbit :: "double \<Rightarrow> bool" where
  "signbit bits = bit bits 63"

definition isfinite :: "double \<Rightarrow> bool" where
  "isfinite bits \<longleftrightarrow> drop_bit 52 bits AND 0x7FF \<noteq> 0x7FF"

definition is_positive :: "double \<Rightarrow> bool" where
  "is_positive bits \<longleftrightarrow> \<not> signbit bits \<and> bits \<noteq> 0"

record boundaries =
  b_w :: diyfp
  b_minus :: diyfp
  b_plus :: diyfp

definition compute_boundaries :: "double \<Rightarrow> boundaries res" where
  "compute_boundaries bits =
     asserting (isfinite bits) (asserting (is_positive bits)
       (let E = drop_bit (kPrecision - 1) bits;
            F = bits AND (kHiddenBit - 1);
            is_denormal = (E = 0);
            v = (if is_denormal then \<lparr>df = F, de = kMinExp\<rparr>
                 else \<lparr>df = F + kHiddenBit, de = int (unat E) - kBias\<rparr>);
            lower_boundary_is_closer = (F = 0 \<and> 1 < E);
            m_plus = \<lparr>df = 2 * df v + 1, de = de v - 1\<rparr>;
            m_minus = (if lower_boundary_is_closer then \<lparr>df = 4 * df v - 1, de = de v - 2\<rparr>
                       else \<lparr>df = 2 * df v - 1, de = de v - 1\<rparr>)
        in res_bind (normalize m_plus) (\<lambda>w_plus.
           res_bind (normalize_to m_minus (de w_plus)) (\<lambda>w_minus.
           res_bind (normalize v) (\<lambda>w.
             Inr \<lparr>b_w = w, b_minus = w_minus, b_plus = w_plus\<rparr>)))))"

section \<open>Cached powers of ten\<close>

definition kAlpha :: int where "kAlpha = -60"
definition kGamma :: int where "kGamma = -32"

text \<open>Significand, binary exponent and decimal exponent: \<open>f * 2 ^ e \<approx> 10 ^ k\<close>.\<close>

type_synonym cached_power = "64 word \<times> int \<times> int"

definition kCachedPowers :: "cached_power list" where
  "kCachedPowers =
    [(0xAB70FE17C79AC6CA, -1060, -300), (0xFF77B1FCBEBCDC4F, -1034, -292),
     (0xBE5691EF416BD60C, -1007, -284), (0x8DD01FAD907FFC3C, -980, -276),
     (0xD3515C2831559A83, -954, -268), (0x9D71AC8FADA6C9B5, -927, -260),
     (0xEA9C227723EE8BCB, -901, -252), (0xAECC49914078536D, -874, -244),
     (0x823C12795DB6CE57, -847, -236), (0xC21094364DFB5637, -821, -228),
     (0x9096EA6F3848984F, -794, -220), (0xD77485CB25823AC7, -768, -212),
     (0xA086CFCD97BF97F4, -741, -204), (0xEF340A98172AACE5, -715, -196),
     (0xB23867FB2A35B28E, -688, -188), (0x84C8D4DFD2C63F3B, -661, -180),
     (0xC5DD44271AD3CDBA, -635, -172), (0x936B9FCEBB25C996, -608, -164),
     (0xDBAC6C247D62A584, -582, -156), (0xA3AB66580D5FDAF6, -555, -148),
     (0xF3E2F893DEC3F126, -529, -140), (0xB5B5ADA8AAFF80B8, -502, -132),
     (0x87625F056C7C4A8B, -475, -124), (0xC9BCFF6034C13053, -449, -116),
     (0x964E858C91BA2655, -422, -108), (0xDFF9772470297EBD, -396, -100),
     (0xA6DFBD9FB8E5B88F, -369, -92), (0xF8A95FCF88747D94, -343, -84),
     (0xB94470938FA89BCF, -316, -76), (0x8A08F0F8BF0F156B, -289, -68),
     (0xCDB02555653131B6, -263, -60), (0x993FE2C6D07B7FAC, -236, -52),
     (0xE45C10C42A2B3B06, -210, -44), (0xAA242499697392D3, -183, -36),
     (0xFD87B5F28300CA0E, -157, -28), (0xBCE5086492111AEB, -130, -20),
     (0x8CBCCC096F5088CC, -103, -12), (0xD1B71758E219652C, -77, -4),
     (0x9C40000000000000, -50, 4), (0xE8D4A51000000000, -24, 12),
     (0xAD78EBC5AC620000, 3, 20), (0x813F3978F8940984, 30, 28),
     (0xC097CE7BC90715B3, 56, 36), (0x8F7E32CE7BEA5C70, 83, 44),
     (0xD5D238A4ABE98068, 109, 52), (0x9F4F2726179A2245, 136, 60),
     (0xED63A231D4C4FB27, 162, 68), (0xB0DE65388CC8ADA8, 189, 76),
     (0x83C7088E1AAB65DB, 216, 84), (0xC45D1DF942711D9A, 242, 92),
     (0x924D692CA61BE758, 269, 100), (0xDA01EE641A708DEA, 295, 108),
     (0xA26DA3999AEF774A, 322, 116), (0xF209787BB47D6B85, 348, 124),
     (0xB454E4A179DD1877, 375, 132), (0x865B86925B9BC5C2, 402, 140),
     (0xC83553C5C8965D3D, 428, 148), (0x952AB45CFA97A0B3, 455, 156),
     (0xDE469FBD99A05FE3, 481, 164), (0xA59BC234DB398C25, 508, 172),
     (0xF6C69A72A3989F5C, 534, 180), (0xB7DCBF5354E9BECE, 561, 188),
     (0x88FCF317F22241E2, 588, 196), (0xCC20CE9BD35C78A5, 614, 204),
     (0x98165AF37B2153DF, 641, 212), (0xE2A0B5DC971F303A, 667, 220),
     (0xA8D9D1535CE3B396, 694, 228), (0xFB9B7CD9A4A7443C, 720, 236),
     (0xBB764C4CA7A44410, 747, 244), (0x8BAB8EEFB6409C1A, 774, 252),
     (0xD01FEF10A657842C, 800, 260), (0x9B10A4E5E9913129, 827, 268),
     (0xE7109BFBA19C0C9D, 853, 276), (0xAC2820D9623BF429, 880, 284),
     (0x80444B5E7AA7CF85, 907, 292), (0xBF21E44003ACDD2D, 933, 300),
     (0x8E679C2F5E44FF8F, 960, 308), (0xD433179D9C8CB841, 986, 316),
     (0x9E19DB92B4E31BA9, 1013, 324)]"

text \<open>Division of \<open>int\<close>s rounds towards zero.\<close>

definition get_cached_power_for_binary_exponent :: "int \<Rightarrow> cached_power res" where
  "get_cached_power_for_binary_exponent e =
     asserting (-1500 \<le> e) (asserting (e \<le> 1500)
       (let f = kAlpha - e - 1;
            k = (f * 78913) sdiv 2 ^ 18 + (if 0 < f then 1 else 0);
            index = (300 + k + (8 - 1)) sdiv 8
        in asserting (0 \<le> index) (asserting (nat index < length kCachedPowers)
             (case kCachedPowers ! nat index of (cf, ce, ck) \<Rightarrow>
                asserting (kAlpha \<le> ce + e + 64) (asserting (ce + e + 64 \<le> kGamma)
                  (Inr (cf, ce, ck)))))))"

section \<open>The operations on the significands\<close>

lemma product_halves:
  fixes a b c d B T :: nat
  shows "(a + b * B) * (c + d * B) + B * T =
    B * B * (b * d + a * d div B + b * c div B)
    + (B * (a * c div B + a * d mod B + b * c mod B + T) + a * c mod B)"
proof -
  have s: "x * y = B * (x * y div B) + x * y mod B" for x y by (simp only: mult_div_mod_eq)
  have "(a + b * B) * (c + d * B) + B * T = a * c + B * (a * d) + B * (b * c) + B * B * (b * d) + B * T"
    by (simp add: algebra_simps)
  also have "\<dots> = (B * (a * c div B) + a * c mod B) + B * (B * (a * d div B) + a * d mod B)
      + B * (B * (b * c div B) + b * c mod B) + B * B * (b * d) + B * T"
    by (simp only: s [symmetric])
  also have "\<dots> = B * B * (b * d + a * d div B + b * c div B)
    + (B * (a * c div B + a * d mod B + b * c mod B + T) + a * c mod B)"
    by (simp only: algebra_simps)
  finally show ?thesis .
qed

lemma rounded_product:
  fixes a b c d B T :: nat
  assumes "0 < B"
  shows "((a + b * B) * (c + d * B) + B * T) div (B * B) =
    b * d + b * c div B + a * d div B + (a * c div B + a * d mod B + b * c mod B + T) div B"
proof -
  let ?H = "b * d + a * d div B + b * c div B"
  let ?Q = "a * c div B + a * d mod B + b * c mod B + T"
  have "((a + b * B) * (c + d * B) + B * T) div (B * B) = ?H + (B * ?Q + a * c mod B) div (B * B)"
    using assms by (simp only: product_halves div_mult_self4 mult_eq_0_iff) simp
  also have "(B * ?Q + a * c mod B) div (B * B) = (B * ?Q + a * c mod B) div B div B"
    by (rule div_mult2_eq)
  also have "(B * ?Q + a * c mod B) div B = ?Q"
    using assms by (simp add: div_mult_self4)
  finally show ?thesis by (simp only: ac_simps)
qed

lemma half_product: "(a::nat) < 2 ^ 32 \<Longrightarrow> b < 2 ^ 32 \<Longrightarrow> a * b \<le> (2 ^ 32 - 1) * (2 ^ 32 - 1)"
  by (rule mult_le_mono) simp_all

lemma unat_half_product:
  "unat u < 2 ^ 32 \<Longrightarrow> unat v < 2 ^ 32 \<Longrightarrow> unat (u * v :: 64 word) = unat u * unat v"
  by (rule unat_mult64) (use half_product [of "unat u" "unat v"] in simp)

lemma half_div: "(p::nat) \<le> (2 ^ 32 - 1) * (2 ^ 32 - 1) \<Longrightarrow> p div 2 ^ 32 \<le> 2 ^ 32 - 2"
  by (drule div_le_mono [where k = "2 ^ 32"]) simp

text \<open>The rounded product is exact: the upper 64 bits of the product, rounded half up.\<close>

lemma mul_exact:
  "unat (df (mul x y)) = (unat (df x) * unat (df y) + 2 ^ 63) div 2 ^ 64"
  "de (mul x y) = de x + de y + 64"
proof -
  define B :: nat where "B = 2 ^ 32"
  define a b c d where "a = unat (df x) mod B" and "b = unat (df x) div B"
    and "c = unat (df y) mod B" and "d = unat (df y) div B"
  have lt: "a < B" "b < B" "c < B" "d < B"
    using unat_less64 [of "df x"] unat_less64 [of "df y"]
    by (simp_all add: a_def b_def c_def d_def B_def less_mult_imp_div_less)
  have halves: "unat (df x AND 0xFFFFFFFF) = a" "unat (drop_bit 32 (df x)) = b"
    "unat (df y AND 0xFFFFFFFF) = c" "unat (drop_bit 32 (df y)) = d"
    unfolding mask32 unat_drop by (simp_all only: unat_low a_def b_def c_def d_def B_def)
  define p0 p1 p2 p3 where "p0 = (df x AND 0xFFFFFFFF) * (df y AND 0xFFFFFFFF)"
    and "p1 = (df x AND 0xFFFFFFFF) * drop_bit 32 (df y)"
    and "p2 = drop_bit 32 (df x) * (df y AND 0xFFFFFFFF)"
    and "p3 = drop_bit 32 (df x) * drop_bit 32 (df y)"
  have p: "unat p0 = a * c" "unat p1 = a * d" "unat p2 = b * c" "unat p3 = b * d"
    unfolding p0_def p1_def p2_def p3_def using lt halves by (simp_all only: unat_half_product B_def)
  note bounds = half_product [OF lt(1,3) [unfolded B_def]] half_product [OF lt(1,4) [unfolded B_def]]
    half_product [OF lt(2,3) [unfolded B_def]] half_product [OF lt(2,4) [unfolded B_def]]
  have qs: "unat (drop_bit 32 p0) = a * c div B" "unat (p1 AND 0xFFFFFFFF) = a * d mod B"
    "unat (p2 AND 0xFFFFFFFF) = b * c mod B" "unat (push_bit 31 1 :: 64 word) = 2 ^ 31"
    "unat (drop_bit 32 p1) = a * d div B" "unat (drop_bit 32 p2) = b * c div B"
    unfolding mask32 unat_drop B_def by (simp_all add: unat_low p)
  have small: "a * c div B \<le> 2 ^ 32 - 2" "a * d mod B < 2 ^ 32" "b * c mod B < 2 ^ 32"
    "b * c div B \<le> 2 ^ 32 - 2" "a * d div B \<le> 2 ^ 32 - 2"
    unfolding B_def using bounds by (simp_all only: half_div) simp_all
  define Q where "Q = drop_bit 32 p0 + (p1 AND 0xFFFFFFFF) + (p2 AND 0xFFFFFFFF) + push_bit 31 1"
  have Q: "unat Q = a * c div B + a * d mod B + b * c mod B + 2 ^ 31"
    unfolding Q_def using small by (simp add: unat_add64 qs)
  define q where "q = (a * c div B + a * d mod B + b * c mod B + 2 ^ 31) div B"
  have "unat (drop_bit 32 Q) = q" by (simp only: unat_drop Q B_def q_def)
  have "b * d + b * c div B + a * d div B + q = ((a + b * B) * (c + d * B) + B * 2 ^ 31) div (B * B)"
    unfolding q_def by (rule rounded_product [symmetric]) (simp add: B_def)
  also have "a + b * B = unat (df x)" by (simp only: a_def b_def mod_div_mult_eq)
  also have "c + d * B = unat (df y)" by (simp only: c_def d_def mod_div_mult_eq)
  finally have total: "b * d + b * c div B + a * d div B + q = (unat (df x) * unat (df y) + 2 ^ 63) div 2 ^ 64"
    by (simp add: B_def)
  have "unat (df x) * unat (df y) \<le> (2 ^ 64 - 1) * (2 ^ 64 - 1)"
    using unat_less64 [of "df x"] unat_less64 [of "df y"] by (intro mult_le_mono) simp_all
  then have "(unat (df x) * unat (df y) + 2 ^ 63) div 2 ^ 64 < 2 ^ 64"
    by (intro less_mult_imp_div_less) simp
  with total have "unat (p3 + drop_bit 32 p2 + drop_bit 32 p1 + drop_bit 32 Q) =
      b * d + b * c div B + a * d div B + q"
    using \<open>unat (drop_bit 32 Q) = q\<close> by (simp add: unat_add64 qs p)
  also note total
  finally show "unat (df (mul x y)) = (unat (df x) * unat (df y) + 2 ^ 63) div 2 ^ 64"
    by (simp add: mul_def Let_def p0_def p1_def p2_def p3_def Q_def B_def)
  show "de (mul x y) = de x + de y + 64" by (simp add: mul_def Let_def)
qed

lemma unat_of_nat64: "n < 2 ^ 64 \<Longrightarrow> unat (of_nat n :: 64 word) = n"
  by (simp add: unat_of_nat)

lemma unat_eq_of_nat: "unat w = n \<Longrightarrow> (w :: 64 word) = of_nat n"
  using unat_of_nat64 [of n] unat_less64 [of w] by (simp only: word_unat_eq_iff)

definition normalized :: "nat \<Rightarrow> bool" where
  "normalized n \<longleftrightarrow> 2 ^ 63 \<le> n \<and> n < 2 ^ 64"

lemma normalized_unique:
  assumes "normalized (m * 2 ^ s)" and "normalized (m * 2 ^ t)"
  shows "s = t"
proof -
  have "\<not> s < t" if "normalized (m * 2 ^ s)" "normalized (m * 2 ^ t)" for s t
  proof
    assume "s < t"
    then have "2 * (m * 2 ^ s) \<le> m * 2 ^ t"
      using mult_le_mono2 [OF power_increasing [of "Suc s" t "2::nat"], of m] by (simp add: ac_simps)
    with that show False unfolding normalized_def by simp
  qed
  with assms show ?thesis by (metis linorder_neqE_nat)
qed

lemma normalize_loop_spec:
  "df x \<noteq> 0 \<Longrightarrow> \<exists>s. unat (df (normalize_loop x)) = unat (df x) * 2 ^ s
     \<and> de (normalize_loop x) = de x - int s \<and> normalized (unat (df x) * 2 ^ s)"
proof (induction x rule: normalize_loop.induct)
  case (1 x)
  show ?case
  proof (cases "drop_bit 63 (df x) = 0")
    case True
    define y where "y = \<lparr>df = push_bit 1 (df x), de = de x - 1\<rparr>"
    from True have "unat (df x) < 2 ^ 63" by (simp only: top_bit_clear)
    then have y: "unat (df y) = unat (df x) * 2" using unat_push [of "df x" 1] by (simp add: y_def)
    have "df y \<noteq> 0" using y 1(2) by (metis mult_eq_0_iff unat_eq_zero zero_neq_numeral)
    with 1(1) True 1(2) obtain s where "unat (df (normalize_loop y)) = unat (df y) * 2 ^ s"
      "de (normalize_loop y) = de y - int s" "normalized (unat (df y) * 2 ^ s)" unfolding y_def by blast
    moreover have "normalize_loop x = normalize_loop y"
      using True 1(2) by (subst normalize_loop.simps) (simp add: y_def)
    ultimately show ?thesis using y by (intro exI [of _ "Suc s"]) (simp add: y_def ac_simps)
  next
    case False
    then have "normalize_loop x = x" by (simp add: normalize_loop.simps)
    moreover have "2 ^ 63 \<le> unat (df x)" using False by (simp only: top_bit_clear not_less)
    ultimately show ?thesis
      using unat_less64 [of "df x"] by (intro exI [of _ 0]) (simp add: normalized_def)
  qed
qed

lemma normalize_ok:
  assumes "df x \<noteq> 0"
  obtains s where "normalize x = Inr \<lparr>df = of_nat (unat (df x) * 2 ^ s), de = de x - int s\<rparr>"
    and "normalized (unat (df x) * 2 ^ s)"
proof -
  from normalize_loop_spec [OF assms] obtain s where s: "unat (df (normalize_loop x)) = unat (df x) * 2 ^ s"
    "de (normalize_loop x) = de x - int s" "normalized (unat (df x) * 2 ^ s)" by blast
  from s(1) have "df (normalize_loop x) = of_nat (unat (df x) * 2 ^ s)" by (rule unat_eq_of_nat)
  with s(2) have "normalize_loop x = \<lparr>df = of_nat (unat (df x) * 2 ^ s), de = de x - int s\<rparr>"
    by (cases "normalize_loop x") simp
  with assms s(3) show thesis by (intro that) (simp_all add: normalize_def)
qed

lemma normalize_to_ok:
  assumes "de x - int n = e" and "unat (df x) * 2 ^ n < 2 ^ 64"
  shows "normalize_to x e = Inr \<lparr>df = of_nat (unat (df x) * 2 ^ n), de = e\<rparr>"
proof -
  have d: "nat (de x - e) = n" and "0 \<le> de x - e" using assms(1) by auto
  have p: "unat (push_bit n (df x)) = unat (df x) * 2 ^ n" by (rule unat_push [OF assms(2)])
  then have "unat (drop_bit n (push_bit n (df x))) = unat (df x)" by (simp only: unat_drop) simp
  then have "drop_bit n (push_bit n (df x)) = df x" by (simp only: word_unat_eq_iff)
  moreover from p have "push_bit n (df x) = of_nat (unat (df x) * 2 ^ n)" by (rule unat_eq_of_nat)
  ultimately show ?thesis using \<open>0 \<le> de x - e\<close> by (simp only: normalize_to_def Let_def d asserting_simps)
qed

section \<open>The boundaries of a double\<close>

text \<open>A finite positive double is \<open>sig * 2 ^ expo\<close>.\<close>

definition sig :: "double \<Rightarrow> nat" where
  "sig bits = (if unat bits div 2 ^ 52 = 0 then unat bits mod 2 ^ 52 else unat bits mod 2 ^ 52 + 2 ^ 52)"

definition expo :: "double \<Rightarrow> int" where
  "expo bits = (if unat bits div 2 ^ 52 = 0 then -1074 else int (unat bits div 2 ^ 52) - 1075)"

definition closer :: "double \<Rightarrow> bool" where
  "closer bits \<longleftrightarrow> unat bits mod 2 ^ 52 = 0 \<and> 1 < unat bits div 2 ^ 52"

definition finite_positive :: "double \<Rightarrow> bool" where
  "finite_positive bits \<longleftrightarrow> 0 < unat bits \<and> unat bits < 0x7FF * 2 ^ 52"

lemma signbit_iff: "signbit bits \<longleftrightarrow> 2 ^ 63 \<le> unat bits"
proof -
  have "signbit bits \<longleftrightarrow> drop_bit 63 bits AND 1 = 1"
    by (simp add: signbit_def bit_iff_and_drop_bit_eq_1)
  also have "\<dots> \<longleftrightarrow> unat (drop_bit 63 bits AND mask 1) = 1" by (simp add: word_unat_eq_iff)
  also have "\<dots> \<longleftrightarrow> unat bits div 2 ^ 63 mod 2 = 1" by (simp only: unat_low unat_drop) simp
  also have "\<dots> \<longleftrightarrow> 2 ^ 63 \<le> unat bits"
    using unat_less64 [of bits] by (cases "unat bits < 2 ^ 63") (auto simp: div_nat_eqI)
  finally show ?thesis .
qed

lemma isfinite_iff: "isfinite bits \<longleftrightarrow> unat bits div 2 ^ 52 mod 2 ^ 11 \<noteq> 0x7FF"
proof -
  have m: "(0x7FF :: 64 word) = mask 11" by (simp add: mask_eq_exp_minus_1)
  have "isfinite bits \<longleftrightarrow> unat (drop_bit 52 bits AND mask 11) \<noteq> unat (0x7FF :: 64 word)"
    unfolding isfinite_def m by (simp only: word_unat_eq_iff)
  also have "\<dots> \<longleftrightarrow> unat bits div 2 ^ 52 mod 2 ^ 11 \<noteq> 0x7FF" by (simp only: unat_low unat_drop) simp
  finally show ?thesis .
qed

lemma finite_positive_iff: "finite_positive bits \<longleftrightarrow> isfinite bits \<and> is_positive bits"
proof (cases "unat bits < 2 ^ 63")
  case True
  then have "unat bits div 2 ^ 52 < 2 ^ 11" by (intro less_mult_imp_div_less) simp
  then have "isfinite bits \<longleftrightarrow> unat bits div 2 ^ 52 < 0x7FF" by (auto simp: isfinite_iff)
  also have "\<dots> \<longleftrightarrow> unat bits < 0x7FF * 2 ^ 52" by (rule div_less_iff_less_mult) simp
  finally show ?thesis using True by (auto simp: finite_positive_def is_positive_def signbit_iff unat_gt_0)
next
  case False
  then show ?thesis by (auto simp: finite_positive_def is_positive_def signbit_iff)
qed

lemma sig_bounds:
  assumes "finite_positive bits"
  shows "0 < sig bits" and "sig bits < 2 ^ 53" and "-1074 \<le> expo bits" and "expo bits \<le> 971"
    and "closer bits \<Longrightarrow> sig bits = 2 ^ 52"
proof -
  show "0 < sig bits" using assms
    by (auto simp: sig_def finite_positive_def div_eq_0_iff intro!: gr0I)
  have m: "unat bits mod 2 ^ 52 < 2 ^ 52" by simp
  then show "sig bits < 2 ^ 53" unfolding sig_def by (auto split: if_splits)
  have "unat bits div 2 ^ 52 < 0x7FF"
    using assms by (intro less_mult_imp_div_less) (simp add: finite_positive_def)
  then show "-1074 \<le> expo bits" and "expo bits \<le> 971" by (simp_all add: expo_def)
  show "closer bits \<Longrightarrow> sig bits = 2 ^ 52" by (simp add: closer_def sig_def)
qed

lemma odd_normalized:
  assumes "0 < m" and "normalized ((2 * m + 1) * 2 ^ s)"
  shows "normalized (m * 2 ^ Suc s)"
proof -
  have up: "(2 * m + 1) * 2 ^ s < 2 ^ 64" and lo: "2 ^ 63 \<le> (2 * m + 1) * 2 ^ s"
    using assms(2) unfolding normalized_def by auto
  have "2 ^ s \<le> (2 * m + 1) * (2 ^ s :: nat)" by simp
  with up have "(2 :: nat) ^ s < 2 ^ 64" by (rule le_less_trans [rotated])
  then have "s < 64" by (simp only: power_strict_increasing_iff)
  then have split: "(2 :: nat) ^ 63 = 2 ^ (63 - s) * 2 ^ s" by (simp flip: power_add)
  from lo have "2 ^ (63 - s) * 2 ^ s \<le> (2 * m + 1) * (2 ^ s :: nat)" by (simp only: split)
  then have le: "2 ^ (63 - s) \<le> 2 * m + 1" by (rule mult_right_le_imp_le) simp
  have "2 ^ (63 - s) \<le> 2 * m"
  proof (cases "63 - s")
    case 0
    then show ?thesis using assms(1) by simp
  next
    case (Suc k)
    then have "even ((2::nat) ^ (63 - s))" by simp
    with le show ?thesis by (metis Suc_eq_plus1 dvd_triv_left even_Suc le_SucE)
  qed
  then have "2 ^ (63 - s) * 2 ^ s \<le> 2 * m * (2 ^ s :: nat)" by (rule mult_le_mono1)
  then have "2 ^ 63 \<le> m * 2 ^ Suc s" by (simp only: split) (simp add: ac_simps)
  moreover have "m * 2 ^ Suc s \<le> (2 * m + 1) * 2 ^ s" by simp
  ultimately show ?thesis using up unfolding normalized_def by linarith
qed

text \<open>The significands of the three normalised numbers, over a common exponent.\<close>

definition minus_sig :: "double \<Rightarrow> nat \<Rightarrow> nat" where
  "minus_sig bits s = (if closer bits then (4 * sig bits - 1) * 2 ^ (s - 1) else (2 * sig bits - 1) * 2 ^ s)"

lemma double_parts:
  assumes "finite_positive bits"
  shows "(if drop_bit (kPrecision - 1) bits = 0 then \<lparr>df = bits AND (kHiddenBit - 1), de = kMinExp\<rparr>
      else \<lparr>df = (bits AND (kHiddenBit - 1)) + kHiddenBit, de = int (unat (drop_bit (kPrecision - 1) bits)) - kBias\<rparr>)
    = \<lparr>df = of_nat (sig bits), de = expo bits\<rparr>" (is ?v)
    and "(bits AND (kHiddenBit - 1) = 0 \<and> 1 < drop_bit (kPrecision - 1) bits) = closer bits" (is ?c)
proof -
  have h: "kHiddenBit - 1 = mask 52" by (simp add: kHiddenBit_def kPrecision_def mask_eq_exp_minus_1)
  have k: "kPrecision - 1 = 52" by (simp add: kPrecision_def)
  have u: "unat kHiddenBit = 2 ^ 52" by (simp add: kHiddenBit_def kPrecision_def)
  have F: "unat (bits AND mask 52) = unat bits mod 2 ^ 52" by (rule unat_low) simp
  have E: "unat (drop_bit 52 bits) = unat bits div 2 ^ 52" by (rule unat_drop)
  have E0: "drop_bit 52 bits = 0 \<longleftrightarrow> unat bits div 2 ^ 52 = 0" by (simp only: E [symmetric] unat_eq_zero)
  have "unat bits mod 2 ^ 52 < 2 ^ 52" by (rule mod_less_divisor) simp
  then have FH: "unat ((bits AND mask 52) + kHiddenBit) = unat bits mod 2 ^ 52 + 2 ^ 52"
    using unat_add64 [of "bits AND mask 52" kHiddenBit] by (simp add: F u)
  show ?v
    unfolding h k E using unat_eq_of_nat [OF F] unat_eq_of_nat [OF FH]
    by (simp add: E0 sig_def expo_def kMinExp_def kBias_def kPrecision_def)
  show ?c
    unfolding h k closer_def E [symmetric] F [symmetric] by (simp add: word_less_nat_alt unat_eq_zero)
qed

lemma compute_boundaries_ok:
  assumes "finite_positive bits"
  obtains s where "compute_boundaries bits =
      Inr \<lparr>b_w = \<lparr>df = of_nat (sig bits * 2 ^ Suc s), de = expo bits - 1 - int s\<rparr>,
        b_minus = \<lparr>df = of_nat (minus_sig bits s), de = expo bits - 1 - int s\<rparr>,
        b_plus = \<lparr>df = of_nat ((2 * sig bits + 1) * 2 ^ s), de = expo bits - 1 - int s\<rparr>\<rparr>"
    and "normalized ((2 * sig bits + 1) * 2 ^ s)" and "10 \<le> s" and "s \<le> 62"
proof -
  define m where "m = sig bits"
  define v :: diyfp where "v = \<lparr>df = of_nat m, de = expo bits\<rparr>"
  have m: "0 < m" "m < 2 ^ 53" using sig_bounds [OF assms] by (simp_all add: m_def)
  have um: "unat (of_nat m :: 64 word) = m" using m by (intro unat_of_nat64) simp
  have plus: "unat (2 * df v + 1) = 2 * m + 1"
    using m um unat_mult64 [of 2 "of_nat m"] unat_add64 [of "2 * of_nat m" 1] by (simp add: v_def)
  have minus: "unat (2 * df v - 1) = 2 * m - 1"
  proof -
    have "1 \<le> 2 * df v" using m um unat_mult64 [of 2 "of_nat m"] by (simp add: v_def word_le_nat_alt)
    then show ?thesis using m um unat_mult64 [of 2 "of_nat m"] unat_sub64 [of 1 "2 * df v"] by (simp add: v_def)
  qed
  have minus4: "unat (4 * df v - 1) = 4 * m - 1"
  proof -
    have "1 \<le> 4 * df v" using m um unat_mult64 [of 4 "of_nat m"] by (simp add: v_def word_le_nat_alt)
    then show ?thesis using m um unat_mult64 [of 4 "of_nat m"] unat_sub64 [of 1 "4 * df v"] by (simp add: v_def)
  qed
  obtain s where s: "normalize \<lparr>df = 2 * df v + 1, de = de v - 1\<rparr> =
      Inr \<lparr>df = of_nat ((2 * m + 1) * 2 ^ s), de = de v - 1 - int s\<rparr>" "normalized ((2 * m + 1) * 2 ^ s)"
    using normalize_ok [of "\<lparr>df = 2 * df v + 1, de = de v - 1\<rparr>"] plus by (auto simp flip: unat_eq_zero)
  have "10 \<le> s"
  proof (rule ccontr)
    assume "\<not> 10 \<le> s"
    then have "(2 * m + 1) * 2 ^ s \<le> (2 * m + 1) * 2 ^ 9" by (intro mult_le_mono2 power_increasing) simp_all
    with s(2) m(2) show False by (simp add: normalized_def)
  qed
  have "s \<le> 62"
  proof (rule ccontr)
    assume "\<not> s \<le> 62"
    then have "3 * 2 ^ 63 \<le> (2 * m + 1) * (2::nat) ^ s" using m(1) by (intro mult_le_mono power_increasing) simp_all
    with s(2) show False by (simp add: normalized_def)
  qed
  obtain t where t: "normalize v = Inr \<lparr>df = of_nat (m * 2 ^ t), de = de v - int t\<rparr>" "normalized (m * 2 ^ t)"
    using normalize_ok [of v] um m(1) by (auto simp: v_def simp flip: unat_eq_zero)
  have "t = Suc s" using normalized_unique [OF t(2) odd_normalized [OF m(1) s(2)]] .
  have up: "(2 * m + 1) * 2 ^ s < 2 ^ 64" using s(2) by (simp add: normalized_def)
  define mm where "mm = (if closer bits then \<lparr>df = 4 * df v - 1, de = de v - 2\<rparr> else \<lparr>df = 2 * df v - 1, de = de v - 1\<rparr>)"
  have "normalize_to mm (de v - 1 - int s) = Inr \<lparr>df = of_nat (minus_sig bits s), de = de v - 1 - int s\<rparr>"
  proof (cases "closer bits")
    case True
    have "(4 * m - 1) * 2 ^ (s - 1) \<le> (2 * (2 * m + 1)) * 2 ^ (s - 1)" by (rule mult_le_mono1) simp
    also have "\<dots> = (2 * m + 1) * 2 ^ s" using \<open>10 \<le> s\<close> by (cases s) simp_all
    finally have "(4 * m - 1) * 2 ^ (s - 1) < 2 ^ 64" using up by (rule le_less_trans)
    then show ?thesis
      using normalize_to_ok [of mm "s - 1" "de v - 1 - int s"] True \<open>10 \<le> s\<close> minus4
      by (simp add: mm_def minus_sig_def m_def)
  next
    case False
    have "(2 * m - 1) * 2 ^ s \<le> (2 * m + 1) * 2 ^ s" by (rule mult_le_mono1) simp
    then have "(2 * m - 1) * 2 ^ s < 2 ^ 64" using up by (rule le_less_trans)
    then show ?thesis
      using normalize_to_ok [of mm s "de v - 1 - int s"] False minus by (simp add: mm_def minus_sig_def m_def)
  qed
  moreover have "isfinite bits" "is_positive bits" using assms by (simp_all add: finite_positive_iff)
  ultimately have "compute_boundaries bits =
      Inr \<lparr>b_w = \<lparr>df = of_nat (m * 2 ^ Suc s), de = expo bits - 1 - int s\<rparr>,
        b_minus = \<lparr>df = of_nat (minus_sig bits s), de = expo bits - 1 - int s\<rparr>,
        b_plus = \<lparr>df = of_nat ((2 * m + 1) * 2 ^ s), de = expo bits - 1 - int s\<rparr>\<rparr>"
    using s(1) t(1) unfolding compute_boundaries_def Let_def double_parts [OF assms] m_def [symmetric]
      v_def [symmetric] mm_def [symmetric] \<open>t = Suc s\<close>
    by (simp add: v_def)
  then show thesis using that s(2) \<open>10 \<le> s\<close> \<open>s \<le> 62\<close> unfolding m_def by blast
qed

section \<open>The cached powers are accurate\<close>

text \<open>
  Powers of ten between two 128-bit numbers times a power of two. The brackets of \<open>10 ^ 12\<close>,
  \<open>10 ^ 20\<close> and so on, and of \<open>10 ^ -4\<close>, \<open>10 ^ -12\<close> and so on, each with the step of the binary
  exponent, are checked from one to the next with numbers of that size only.
\<close>

definition bracket :: "nat \<Rightarrow> nat \<Rightarrow> int \<Rightarrow> int \<Rightarrow> bool" where
  "bracket a u x k \<longleftrightarrow> real a * 2 powi x \<le> 10 powi k \<and> 10 powi k \<le> real u * 2 powi x"

fun up_chain :: "nat \<Rightarrow> nat \<Rightarrow> (nat \<times> nat \<times> nat) list \<Rightarrow> bool" where
  "up_chain a u [] \<longleftrightarrow> True"
| "up_chain a u ((a', u', d) # r) \<longleftrightarrow> a' * 2 ^ d \<le> a * 10 ^ 8 \<and> u * 10 ^ 8 \<le> u' * 2 ^ d \<and> up_chain a' u' r"

fun down_chain :: "nat \<Rightarrow> nat \<Rightarrow> (nat \<times> nat \<times> nat) list \<Rightarrow> bool" where
  "down_chain a u [] \<longleftrightarrow> True"
| "down_chain a u ((a', u', d) # r) \<longleftrightarrow> a' * 10 ^ 8 \<le> a * 2 ^ d \<and> u * 2 ^ d \<le> u' * 10 ^ 8 \<and> down_chain a' u' r"

text \<open>An entry of the table against a bracket: off by half a unit at most.\<close>

fun up_table :: "int \<Rightarrow> int \<Rightarrow> (nat \<times> nat \<times> nat) list \<Rightarrow> cached_power list \<Rightarrow> bool" where
  "up_table e k [] [] \<longleftrightarrow> True"
| "up_table e k ((a, u, d) # r) ((f, ce, ck) # t) \<longleftrightarrow>
     ce = e + int d \<and> ck = k + 8 \<and> 2 ^ 63 \<le> unat f
     \<and> unat f * 2 ^ 64 \<le> a + 2 ^ 63 \<and> u \<le> unat f * 2 ^ 64 + 2 ^ 63 \<and> up_table ce ck r t"
| "up_table e k _ _ \<longleftrightarrow> False"

fun down_table :: "int \<Rightarrow> int \<Rightarrow> (nat \<times> nat \<times> nat) list \<Rightarrow> cached_power list \<Rightarrow> bool" where
  "down_table e k [] [] \<longleftrightarrow> True"
| "down_table e k ((a, u, d) # r) ((f, ce, ck) # t) \<longleftrightarrow>
     ce = e - int d \<and> ck = k - 8 \<and> 2 ^ 63 \<le> unat f
     \<and> unat f * 2 ^ 64 \<le> a + 2 ^ 63 \<and> u \<le> unat f * 2 ^ 64 + 2 ^ 63 \<and> down_table ce ck r t"
| "down_table e k _ _ \<longleftrightarrow> False"

definition large_powers :: "(nat \<times> nat \<times> nat) list" where
  "large_powers =
    [(309485009821345068724781056000000000000, 309485009821345068724781056000000000000, 26),
     (230584300921369395200000000000000000000, 230584300921369395200000000000000000000, 27),
     (171798691840000000000000000000000000000, 171798691840000000000000000000000000000, 27),
     (256000000000000000000000000000000000000, 256000000000000000000000000000000000000, 26),
     (190734863281250000000000000000000000000, 190734863281250000000000000000000000000, 27),
     (284217094304040074348449707031250000000, 284217094304040074348449707031250000000, 26),
     (211758236813575084767080625169910490512, 211758236813575084767080625169910490513, 27),
     (315544362088404722164691426113114491868, 315544362088404722164691426113114491870, 26),
     (235098870164457501593747307444449135562, 235098870164457501593747307444449135565, 27),
     (175162308040602133865466197911239516408, 175162308040602133865466197911239516411, 27),
     (261012178719940981068411764370261902225, 261012178719940981068411764370261902230, 26),
     (194469227433160678348252001680628882516, 194469227433160678348252001680628882520, 27),
     (289781730522454795760291817308409336978, 289781730522454795760291817308409336985, 26),
     (215904213877361115634658796570009989275, 215904213877361115634658796570009989281, 27),
     (321722349341751807383684510841980560533, 321722349341751807383684510841980560543, 26),
     (239701829360240554350379489989564240375, 239701829360240554350379489989564240384, 27),
     (178591779887855465971216179422709524910, 178591779887855465971216179422709524918, 27),
     (266122490000509419994378357265456803008, 266122490000509419994378357265456803021, 26),
     (198276706040285095568283168424261214590, 198276706040285095568283168424261214600, 27),
     (295455315769143544984285784399898670002, 295455315769143544984285784399898670018, 26),
     (220131364292758364218686360418721042574, 220131364292758364218686360418721042587, 27),
     (328021294314799255458543241647960309049, 328021294314799255458543241647960309069, 26),
     (244394909079968374564158351457089415974, 244394909079968374564158351457089415990, 27),
     (182088396757817547443627082897044283132, 182088396757817547443627082897044283145, 27),
     (271332855161752622490565602327949230569, 271332855161752622490565602327949230589, 26),
     (202158730597609745331529976671896301633, 202158730597609745331529976671896301649, 27),
     (301239983137860514717593754339063617040, 301239983137860514717593754339063617065, 26),
     (224441277338460471270675774171250773251, 224441277338460471270675774171250773270, 27),
     (334443565217346655235701462881640752033, 334443565217346655235701462881640752063, 26),
     (249179873777439188387767570377618634725, 249179873777439188387767570377618634748, 27),
     (185653473271011701515143789632334288004, 185653473271011701515143789632334288022, 27),
     (276645233140903266541874095249674153333, 276645233140903266541874095249674153361, 26),
     (206116760627108265863265168107803280154, 206116760627108265863265168107803280176, 27),
     (307137907485825219546653580826227784386, 307137907485825219546653580826227784420, 26),
     (228835573409367516299079046268930870582, 228835573409367516299079046268930870608, 27),
     (170495788312977192028670792481996767656, 170495788312977192028670792481996767676, 27),
     (254058522452380049271391022923583936178, 254058522452380049271391022923583936209, 26),
     (189288349786683953755640255602884245051, 189288349786683953755640255602884245075, 27),
     (282061621228879621260822200183397896663, 282061621228879621260822200183397896700, 26),
     (210152284226476863966004699605254751937, 210152284226476863966004699605254751966, 27)]"

definition small_powers :: "(nat \<times> nat \<times> nat) list" where
  "small_powers =
    [(278759314981632789269196478408104518824, 278759314981632789269196478408104518825, 27),
     (187072209578355573530071658587684226515, 187072209578355573530071658587684226517, 26),
     (251084069415467230553431576928306656642, 251084069415467230553431576928306656646, 27),
     (336999333339382997433337688587745383417, 336999333339382997433337688587745383424, 27),
     (226156424291633194186662080095093570023, 226156424291633194186662080095093570029, 26),
     (303542014410270167331165922941174829158, 303542014410270167331165922941174829168, 27),
     (203703597633448608626844568840937816101, 203703597633448608626844568840937816109, 26),
     (273406340597876490546562778389702670663, 273406340597876490546562778389702670675, 27),
     (183479889279205720928865671624166955259, 183479889279205720928865671624166955268, 26),
     (246262538727465495076744000625897586275, 246262538727465495076744000625897586288, 27),
     (330527984395124299475957654016385519905, 330527984395124299475957654016385519923, 27),
     (221813575529665188766273134731446696268, 221813575529665188766273134731446696281, 26),
     (297713141471480582369003031710926657261, 297713141471480582369003031710926657280, 27),
     (199791907220223502808422222706762643561, 199791907220223502808422222706762643574, 26),
     (268156158598851941991480499964116922540, 268156158598851941991480499964116922558, 27),
     (179956551781727855312421540307439274348, 179956551781727855312421540307439274361, 26),
     (241533595188578646543459493183249209009, 241533595188578646543459493183249209028, 27),
     (324180903818827574883781864350871964909, 324180903818827574883781864350871964936, 27),
     (217554121857747803623255329403891149744, 217554121857747803623255329403891149764, 26),
     (291996199527820493993034982764818644779, 291996199527820493993034982764818644807, 27),
     (195955332426293697477914016056065584171, 195955332426293697477914016056065584191, 26),
     (263006795077418675362049494144006433264, 263006795077418675362049494144006433292, 27),
     (176500872419263593559319302637789241450, 176500872419263593559319302637789241470, 26),
     (236895460861314229606472700265884789302, 236895460861314229606472700265884789330, 27),
     (317955705303185189918510999237120523298, 317955705303185189918510999237120523337, 27),
     (213376461852155336770555257303080249496, 213376461852155336770555257303080249523, 26),
     (286389039184749612044187839336748384890, 286389039184749612044187839336748384927, 27),
     (192192430817400325887261637005036975638, 192192430817400325887261637005036975663, 26),
     (257956314031086546070478410603767874261, 257956314031086546070478410603767874295, 27),
     (173111551962534787924734700721444161613, 173111551962534787924734700721444161637, 26),
     (232346391949653603562197265335921962505, 232346391949653603562197265335921962538, 27),
     (311850048364799970571308236412006025927, 311850048364799970571308236412006025972, 27),
     (209279024841067836122739267394531603611, 209279024841067836122739267394531603642, 26),
     (280889552322236860582703936060785114608, 280889552322236860582703936060785114651, 27),
     (188501787658138776526316391973679239894, 188501787658138776526316391973679239924, 26),
     (253002816634138272940619183398646633793, 253002816634138272940619183398646633834, 27),
     (339574632262346462319337857089816694625, 339574632262346462319337857089816694681, 27),
     (227884678143438210606695688214919443445, 227884678143438210606695688214919443483, 26)]"

abbreviation center :: nat where
  "center \<equiv> 0x9C40000000000000 * 2 ^ 64"

lemma large_powers_chain: "up_chain center center large_powers"
  by (simp add: large_powers_def)

lemma small_powers_chain: "down_chain center center small_powers"
  by (simp add: small_powers_def)

lemma large_powers_table: "up_table (-50) 4 large_powers (drop 39 kCachedPowers)"
  by (simp add: large_powers_def kCachedPowers_def)

lemma small_powers_table: "down_table (-50) 4 small_powers (rev (take 38 kCachedPowers))"
  by (simp add: small_powers_def kCachedPowers_def)

section \<open>The choice of the cached power\<close>

definition cached_index :: "int \<Rightarrow> int" where
  "cached_index e =
     (let f = kAlpha - e - 1;
          k = (f * 78913) sdiv 2 ^ 18 + (if 0 < f then 1 else 0)
      in (300 + k + (8 - 1)) sdiv 8)"

text \<open>The exponents from \<open>lo\<close> on, as ranges with one index each, with the binary exponents of the
  table from its last entry on.\<close>

fun covers :: "int \<Rightarrow> int \<Rightarrow> int list \<Rightarrow> int list \<Rightarrow> bool" where
  "covers i lo [] ces \<longleftrightarrow> True"
| "covers i lo (hi # r) [] \<longleftrightarrow> False"
| "covers i lo (hi # r) (ce # ces) \<longleftrightarrow>
     lo \<le> hi \<and> cached_index lo = i \<and> cached_index hi = i
     \<and> kAlpha \<le> ce + lo + 64 \<and> ce + hi + 64 \<le> kGamma \<and> covers (i - 1) (hi + 1) r ces"

definition index_ranges :: "int list" where
  "index_ranges =
    [-1111, -1085, -1058, -1032, -1005, -978, -952, -925, -899, -872, -845, -819, -792, -766, -739, -713,
     -686, -659, -633, -606, -580, -553, -527, -500, -473, -447, -420, -394, -367, -341, -314, -287,
     -261, -234, -208, -181, -155, -128, -101, -75, -48, -22, 5, 32, 58, 85, 111, 138, 164, 191, 218,
     244, 271, 297, 324, 350, 377, 404, 430, 457, 483, 510, 536, 563, 590, 616, 643, 669, 696, 722, 749,
     776, 802, 829, 855, 882, 909, 935, 960]"

definition binary_exponents :: "int list" where
  "binary_exponents = map (\<lambda>(f, e, k). e) (rev kCachedPowers)"

lemma binary_exponents_eq: "binary_exponents =
    [1013, 986, 960, 933, 907, 880, 853, 827, 800, 774, 747, 720, 694, 667, 641, 614, 588, 561, 534, 508,
     481, 455, 428, 402, 375, 348, 322, 295, 269, 242, 216, 189, 162, 136, 109, 83, 56, 30, 3, -24, -50,
     -77, -103, -130, -157, -183, -210, -236, -263, -289, -316, -343, -369, -396, -422, -449, -475, -502,
     -529, -555, -582, -608, -635, -661, -688, -715, -741, -768, -794, -821, -847, -874, -901, -927,
     -954, -980, -1007, -1034, -1060]"
  by (simp add: binary_exponents_def kCachedPowers_def)


lemma index_ranges_cover: "covers 78 (-1137) index_ranges binary_exponents"
  by code_simp

section \<open>What the choice gives\<close>

lemma powi_add: "(x::real) \<noteq> 0 \<Longrightarrow> x powi (a + b) = x powi a * x powi b"
  by (rule power_int_add) simp

lemma ten8: "(10::real) powi (k + 8) = 10 powi k * 10 ^ 8" "(10::real) powi (k - 8) * 10 ^ 8 = 10 powi k"
  by (simp_all add: power_int_add power_int_diff)

lemma real_le: "(m::nat) \<le> n \<Longrightarrow> real m \<le> real n"
  by simp

lemmas real_num = of_nat_mult of_nat_add of_nat_power of_nat_numeral

lemma scale_le:
  fixes a a' y T D K :: real
  assumes "a' * D \<le> a * T" and "a * y \<le> K" and "0 \<le> y" and "0 \<le> T"
  shows "a' * (y * D) \<le> K * T"
proof -
  have "a' * (y * D) = a' * D * y" by simp
  also have "\<dots> \<le> a * T * y" using assms(1,3) by (rule mult_right_mono)
  also have "\<dots> = a * y * T" by simp
  also have "\<dots> \<le> K * T" using assms(2,4) by (rule mult_right_mono)
  finally show ?thesis .
qed

lemma scale_ge:
  fixes u u' y T D K :: real
  assumes "u * T \<le> u' * D" and "K \<le> u * y" and "0 \<le> y" and "0 \<le> T"
  shows "K * T \<le> u' * (y * D)"
  using scale_le [of "- u'" D "- u" T y "- K"] assms by simp

lemma bracket_up:
  assumes "bracket a u x k" and "a' * 2 ^ d \<le> a * 10 ^ 8" and "u * 10 ^ 8 \<le> u' * 2 ^ d"
  shows "bracket a' u' (x + int d) (k + 8)"
proof -
  have e: "(2::real) powi (x + int d) = 2 powi x * 2 ^ d" by (simp add: power_int_add)
  have "real a' * 2 ^ d \<le> real a * 10 ^ 8" "real u * 10 ^ 8 \<le> real u' * 2 ^ d"
    using real_le [OF assms(2)] real_le [OF assms(3)] by (simp_all only: real_num)
  with assms(1) show ?thesis unfolding bracket_def e ten8
    by (intro conjI scale_le [of _ _ "real a"] scale_ge [of "real u"]) (simp_all only: zero_le_power zero_le_numeral zero_le_power_int)
qed

lemma bracket_down:
  assumes "bracket a u (x + int d) k" and "a' * 10 ^ 8 \<le> a * 2 ^ d" and "u * 2 ^ d \<le> u' * 10 ^ 8"
  shows "bracket a' u' x (k - 8)"
proof -
  have e: "(2::real) powi (x + int d) = 2 powi x * 2 ^ d" by (simp add: power_int_add)
  have b: "real a * 2 powi x \<le> 10 powi k / 2 ^ d" "10 powi k / 2 ^ d \<le> real u * 2 powi x"
    using assms(1) unfolding bracket_def e by (simp_all add: field_simps)
  have "real a' * 10 ^ 8 \<le> real a * 2 ^ d" "real u * 2 ^ d \<le> real u' * 10 ^ 8"
    using real_le [OF assms(2)] real_le [OF assms(3)] by (simp_all only: real_num)
  with b have "real a' * (2 powi x * 10 ^ 8) \<le> 10 powi k / 2 ^ d * 2 ^ d"
    "10 powi k / 2 ^ d * 2 ^ d \<le> real u' * (2 powi x * 10 ^ 8)"
    by (intro scale_le [of _ _ "real a"] scale_ge [of "real u"]; simp_all only: zero_le_power zero_le_numeral zero_le_power_int)+
  then show ?thesis unfolding bracket_def using ten8(2) [of k] by simp
qed

text \<open>An entry of the table is within half a unit of its power of ten.\<close>

definition accurate :: "cached_power \<Rightarrow> bool" where
  "accurate c = (case c of (f, e, k) \<Rightarrow>
     2 ^ 63 \<le> unat f \<and> \<bar>real (unat f) * 2 powi e - 10 powi k\<bar> \<le> 2 powi e / 2)"

lemma bracket_accurate:
  assumes "bracket a u (e - 64) k" and "unat f * 2 ^ 64 \<le> a + 2 ^ 63" and "u \<le> unat f * 2 ^ 64 + 2 ^ 63"
    and "2 ^ 63 \<le> unat f"
  shows "accurate (f, e, k)"
proof -
  define y where "y = (2::real) powi (e - 64)"
  have e: "(2::real) powi e = y * 2 ^ 64" by (simp add: y_def power_int_diff)
  have y: "0 < y" by (simp add: y_def)
  have "real (unat f) * 2 ^ 64 \<le> real a + 2 ^ 63" "real u \<le> real (unat f) * 2 ^ 64 + 2 ^ 63"
    using real_le [OF assms(2)] real_le [OF assms(3)] by (simp_all only: real_num)
  then have "real (unat f) * 2 ^ 64 * y \<le> (real a + 2 ^ 63) * y"
    "real u * y \<le> (real (unat f) * 2 ^ 64 + 2 ^ 63) * y"
    using y by (simp_all add: mult_right_mono)
  with assms(1) have "\<bar>real (unat f) * (y * 2 ^ 64) - 10 powi k\<bar> \<le> y * 2 ^ 64 / 2"
    unfolding bracket_def y_def [symmetric] by (auto simp: algebra_simps)
  with assms(4) show ?thesis by (simp add: accurate_def e)
qed

lemma up_table_accurate:
  "up_table e k r t \<Longrightarrow> up_chain a u r \<Longrightarrow> bracket a u (e - 64) k \<Longrightarrow> list_all accurate t"
proof (induction e k r t arbitrary: a u rule: up_table.induct)
  case (2 e k a' u' d r f ce ck t)
  then have b: "bracket a' u' (ce - 64) ck"
    using bracket_up [of a u "e - 64" k a' d u'] by (simp add: algebra_simps)
  with 2 show ?case by (auto intro: bracket_accurate)
qed simp_all

lemma down_table_accurate:
  "down_table e k r t \<Longrightarrow> down_chain a u r \<Longrightarrow> bracket a u (e - 64) k \<Longrightarrow> list_all accurate t"
proof (induction e k r t arbitrary: a u rule: down_table.induct)
  case (2 e k a' u' d r f ce ck t)
  then have b: "bracket a' u' (ce - 64) ck"
    using bracket_down [of a u "ce - 64" d k a' u'] by (auto simp: algebra_simps)
  with 2 show ?case by (auto intro: bracket_accurate)
qed simp_all

lemma center_bracket: "bracket center center (-50 - 64) 4"
  by (simp add: bracket_def power_int_def field_simps)

lemma center_entry: "kCachedPowers ! 38 = (0x9C40000000000000, -50, 4)" "length kCachedPowers = 79"
  by (simp_all add: kCachedPowers_def)

lemma kCachedPowers_accurate: "list_all accurate kCachedPowers"
proof -
  have "list_all accurate (drop 39 kCachedPowers)"
    using up_table_accurate [OF large_powers_table large_powers_chain center_bracket] .
  moreover have "list_all accurate (take 38 kCachedPowers)"
    using down_table_accurate [OF small_powers_table small_powers_chain center_bracket] by simp
  moreover have "accurate (kCachedPowers ! 38)"
    unfolding center_entry by (rule bracket_accurate [OF center_bracket]) simp_all
  moreover have "kCachedPowers = take 38 kCachedPowers @ kCachedPowers ! 38 # drop 39 kCachedPowers"
    using id_take_nth_drop [of 38 kCachedPowers] center_entry(2) by simp
  ultimately show ?thesis by (metis list_all_append list.pred_inject(2))
qed

lemma sdiv_mono:
  fixes a b c :: int
  assumes "a \<le> b" and "0 < c"
  shows "a sdiv c \<le> b sdiv c"
proof -
  have e: "x sdiv c = (if 0 \<le> x then x div c else - (- x div c))" for x
    using assms(2) by (simp add: signed_divide_int_def sgn_if)
  have nn: "0 \<le> x div c" if "0 \<le> x" for x using assms(2) that by (simp add: pos_imp_zdiv_nonneg_iff)
  have "a div c \<le> b div c" "- b div c \<le> - a div c" using assms by (simp_all add: zdiv_mono1)
  with nn [of b] nn [of "- a"] show ?thesis using assms(1) by (cases "0 \<le> a"; cases "0 \<le> b") (simp_all add: e)
qed

lemma cached_index_antimono: "e \<le> e' \<Longrightarrow> cached_index e' \<le> cached_index e"
proof -
  assume "e \<le> e'"
  define f where "f e = kAlpha - e - 1" for e
  define k where "k e = (f e * 78913) sdiv 2 ^ 18 + (if 0 < f e then 1 else 0)" for e
  have f: "f e' \<le> f e" using \<open>e \<le> e'\<close> by (simp add: f_def)
  then have "(f e' * 78913) sdiv 2 ^ 18 \<le> (f e * 78913) sdiv 2 ^ 18" by (intro sdiv_mono) simp_all
  then have "k e' \<le> k e" using f by (simp add: k_def)
  then have "(300 + k e' + (8 - 1)) sdiv 8 \<le> (300 + k e + (8 - 1)) sdiv 8" by (intro sdiv_mono) simp_all
  then show ?thesis by (simp add: cached_index_def Let_def f_def k_def)
qed

lemma covers_index:
  "covers i lo his ces \<Longrightarrow> lo \<le> e \<Longrightarrow> his \<noteq> [] \<Longrightarrow> e \<le> last his \<Longrightarrow>
     \<exists>j<length ces. cached_index e = i - int j \<and> kAlpha \<le> ces ! j + e + 64 \<and> ces ! j + e + 64 \<le> kGamma"
proof (induction i lo his ces rule: covers.induct)
  case (3 i lo hi r ce ces)
  show ?case
  proof (cases "e \<le> hi")
    case True
    have "cached_index e = i"
      using 3(2,3) True cached_index_antimono [of lo e] cached_index_antimono [of e hi] by simp
    then show ?thesis using 3(2,3) True by (intro exI [of _ 0]) auto
  next
    case False
    with 3(5) have "r \<noteq> []" by auto
    with 3 False obtain j where "j < length ces" "cached_index e = i - 1 - int j"
      "kAlpha \<le> ces ! j + e + 64" "ces ! j + e + 64 \<le> kGamma" by auto
    then show ?thesis by (intro exI [of _ "Suc j"]) simp
  qed
qed simp_all

lemma cached_power_ok:
  assumes "-1137 \<le> e" and "e \<le> 960"
  obtains f ce ck where "get_cached_power_for_binary_exponent e = Inr (f, ce, ck)"
    and "kAlpha \<le> ce + e + 64" and "ce + e + 64 \<le> kGamma" and "accurate (f, ce, ck)"
proof -
  have "index_ranges \<noteq> []" "last index_ranges = 960" by (simp_all add: index_ranges_def)
  with covers_index [OF index_ranges_cover] assms obtain j where
    j: "j < length binary_exponents" "cached_index e = 78 - int j"
      "kAlpha \<le> binary_exponents ! j + e + 64" "binary_exponents ! j + e + 64 \<le> kGamma" by auto
  define n where "n = 78 - j"
  have lt: "j < 79" "n < 79" using j(1) by (simp_all add: binary_exponents_def center_entry(2) n_def)
  obtain f ce ck where c: "kCachedPowers ! n = (f, ce, ck)" by (metis prod_cases3)
  have "rev kCachedPowers ! j = kCachedPowers ! n" using lt by (simp add: rev_nth center_entry(2) n_def)
  then have ce: "binary_exponents ! j = ce" using lt c by (simp add: binary_exponents_def center_entry(2))
  have "accurate (f, ce, ck)"
    using kCachedPowers_accurate lt c by (metis center_entry(2) list_all_length)
  moreover have "cached_index e = int n" using j(2) lt by (simp add: n_def)
  then have "get_cached_power_for_binary_exponent e = Inr (f, ce, ck)"
    using assms c lt j(3,4) ce
    by (simp add: get_cached_power_for_binary_exponent_def cached_index_def Let_def center_entry(2))
  ultimately show thesis using that j(3,4) ce by simp
qed

text \<open>\<open>diyfp::mul\<close> computes, with 64-bit operations on halves of the significands and without an overflow, the
  upper half of the exact 128-bit product, rounded to nearest with ties up.\<close>

theorem mul_rounds_product:
  "unat (df (mul x y)) = (unat (df x) * unat (df y) + 2 ^ 63) div 2 ^ 64 \<and> de (mul x y) = de x + de y + 64"
  by (simp only: mul_exact simp_thms)

text \<open>C35. For every binary exponent that a double can have, none of the assertions on the index into the table of
  cached powers fails, the power found brings the exponent of the product into the range of the digit
  generation, and it is within half a unit of the power of ten it stands for.\<close>

theorem cached_power_scales:
  assumes "-1137 \<le> e" and "e \<le> 960"
  shows "\<exists>f ce ck. get_cached_power_for_binary_exponent e = Inr (f, ce, ck)
    \<and> -60 \<le> ce + e + 64 \<and> ce + e + 64 \<le> -32 \<and> 2 ^ 63 \<le> unat f
    \<and> \<bar>real (unat f) * 2 powi ce - 10 powi ck\<bar> \<le> 2 powi ce / 2"
proof -
  obtain f ce ck where "get_cached_power_for_binary_exponent e = Inr (f, ce, ck)"
    "kAlpha \<le> ce + e + 64" "ce + e + 64 \<le> kGamma" "accurate (f, ce, ck)"
    using cached_power_ok [OF assms] .
  then show ?thesis unfolding kAlpha_def kGamma_def accurate_def by auto
qed

theorem cached_power_scales_witness:
  "\<exists>f ce ck. get_cached_power_for_binary_exponent (-63) = Inr (f, ce, ck)
    \<and> -60 \<le> ce + (-63) + 64 \<and> ce + (-63) + 64 \<le> -32 \<and> 2 ^ 63 \<le> unat f
    \<and> \<bar>real (unat f) * 2 powi ce - 10 powi ck\<bar> \<le> 2 powi ce / 2"
  by (rule cached_power_scales) simp_all

end
