(* ===== verification/Json.thy ===== *)
theory Json
  imports StdMap Diyfp
begin

text \<open>
  JSON values of the vendored library \<open>include/nlohmann/json.hpp\<close> as the programs use them:
  the value type, access by key (\<open>operator[]\<close>) and conversion to a string (\<open>get<std::string>()\<close>).

  An object is a \<open>std::map\<close>. A floating-point value is its 64 bits, a binary value its bytes and an optional subtype.
  Discarded values, which only parser callbacks make, are not modelled.
\<close>

datatype json =
    JNull
  | JBool bool
  | JInteger int
  | JUnsigned nat
  | JFloat double
  | JString string
  | JArray "json list"
  | JObject "(string \<times> json) list"
  | JBinary string "nat option"

text \<open>The exceptions of the library by class and id, and the one it lets through from \<open>std::stoull\<close>.\<close>

datatype json_exn =
    Parse_error nat | Type_error nat | Out_of_range nat | Other_error nat | Invalid_iterator nat | Invalid_argument

fun exn_name :: "json_exn \<Rightarrow> string" where
  "exn_name (Parse_error i) = ''nlohmann::parse_error''"
| "exn_name (Type_error i) = ''nlohmann::type_error''"
| "exn_name (Out_of_range i) = ''nlohmann::out_of_range''"
| "exn_name (Other_error i) = ''nlohmann::other_error''"
| "exn_name (Invalid_iterator i) = ''nlohmann::invalid_iterator''"
| "exn_name Invalid_argument = ''std::invalid_argument''"

text \<open>
  The non-const \<open>operator[]\<close>: the referenced element and the value after the call. A null becomes an
  empty object, a missing key is inserted with a null, anything but an object throws 305.
\<close>

definition json_at :: "string \<Rightarrow> json \<Rightarrow> json_exn + (json \<times> json)" where
  "json_at key j =
     (let j = (case j of JNull \<Rightarrow> JObject [] | _ \<Rightarrow> j)
      in case j of
           JObject m \<Rightarrow>
             (case map_of m key of
                Some v \<Rightarrow> Inr (v, j)
              | None \<Rightarrow> Inr (JNull, JObject (map_put key JNull m)))
         | _ \<Rightarrow> Inl (Type_error 305))"

definition get_string :: "json \<Rightarrow> json_exn + string" where
  "get_string j = (case j of JString s \<Rightarrow> Inr s | _ \<Rightarrow> Inl (Type_error 302))"

text \<open>\<open>j[key].get<std::string>()\<close>, as the programs write it.\<close>

definition string_at :: "string \<Rightarrow> json \<Rightarrow> json_exn + string" where
  "string_at key j = (case json_at key j of Inl e \<Rightarrow> Inl e | Inr (v, _) \<Rightarrow> get_string v)"

lemma string_at_object:
  "string_at key (JObject m) =
     (case map_of m key of Some (JString s) \<Rightarrow> Inr s | _ \<Rightarrow> Inl (Type_error 302))"
  by (auto simp: string_at_def json_at_def get_string_def split: option.splits json.splits)

text \<open>Keys of every object in a value are in order, as \<open>std::map\<close> keeps them.\<close>

fun json_wf :: "json \<Rightarrow> bool" where
  "json_wf (JArray xs) = (\<forall>x\<in>set xs. json_wf x)"
| "json_wf (JObject m) = (keys_sorted m \<and> (\<forall>kv\<in>set m. json_wf (snd kv)))"
| "json_wf _ = True"

text \<open>
  A braced list: an object if every element is a pair whose first component is a string, with the
  first of equal keys winning (\<open>emplace\<close>), and an array otherwise.
\<close>

fun as_member :: "json \<Rightarrow> (string \<times> json) option" where
  "as_member (JArray [JString k, v]) = Some (k, v)"
| "as_member _ = None"

definition emplace :: "string \<times> json \<Rightarrow> (string \<times> json) list \<Rightarrow> (string \<times> json) list" where
  "emplace kv m = (case map_of m (fst kv) of None \<Rightarrow> map_put (fst kv) (snd kv) m | Some _ \<Rightarrow> m)"

definition init_list :: "json list \<Rightarrow> json" where
  "init_list xs =
     (if list_all (\<lambda>x. as_member x \<noteq> None) xs
      then JObject (fold (\<lambda>x. emplace (the (as_member x))) xs [])
      else JArray xs)"

lemma init_list_pair: "init_list [JString k, v] = JArray [JString k, v]"
  by (simp add: init_list_def)

end
