(* ===== verification/Grisu.thy ===== *)
theory Grisu
  imports Diyfp
begin

text \<open>
  Grisu2, the conversion of a double to decimal digits in \<open>include/nlohmann/json.hpp\<close>: generation of
  the digits, the last correction, and the choice of the interval.

  \<^item> The digits are bytes in the buffer of the serializer, which has room for \<open>room\<close> of them; a write
    past it is the fault \<open>Overflow\<close>.
  \<^item> A \<open>double\<close> is its 64 bits; \<open>sig * 2 ^ expo\<close> is its value, if it is positive and finite.
\<close>

section \<open>Digits\<close>

text \<open>The number of decimal digits and the highest power of ten.\<close>

definition find_largest_pow10 :: "32 word \<Rightarrow> nat \<times> 32 word" where
  "find_largest_pow10 n =
     (if 1000000000 \<le> n then (10, 1000000000)
      else if 100000000 \<le> n then (9, 100000000)
      else if 10000000 \<le> n then (8, 10000000)
      else if 1000000 \<le> n then (7, 1000000)
      else if 100000 \<le> n then (6, 100000)
      else if 10000 \<le> n then (5, 10000)
      else if 1000 \<le> n then (4, 1000)
      else if 100 \<le> n then (3, 100)
      else if 10 \<le> n then (2, 10)
      else (1, 1))"

text \<open>\<open>buf[len - 1]--\<close> on a byte, and the loop of \<open>grisu2_round\<close> on the last byte.\<close>

definition dec_char :: "char \<Rightarrow> char" where
  "dec_char c = char_of ((of_char c + 255) mod 256 :: nat)"

lemma byte_above_zero:
  "x < 256 \<Longrightarrow> x \<noteq> 48 \<Longrightarrow> ((x + 255) mod 256 + 208) mod 256 < (x + 208 :: nat) mod 256"
  by (cases "x = 0"; cases "x < 48") (simp_all add: mod_if, linarith)

function round_loop :: "64 word \<Rightarrow> 64 word \<Rightarrow> 64 word \<Rightarrow> 64 word \<Rightarrow> char \<Rightarrow> char res" where
  "round_loop dst delta ten_k rest c =
     (if rest < dst \<and> ten_k \<le> delta - rest
         \<and> (rest + ten_k < dst \<or> rest + ten_k - dst < dst - rest)
      then (if c = CHR ''0'' then Inl AssertionFailed
            else round_loop dst delta ten_k (rest + ten_k) (dec_char c))
      else Inr c)"
  by pat_completeness auto
termination
proof (relation "measure (\<lambda>(dst, delta, ten_k, rest, c). (of_char c + 208) mod 256 :: nat)")
  fix dst delta ten_k rest :: "64 word" and c :: char
  assume "c \<noteq> CHR ''0''"
  then have "of_char c \<noteq> (48 :: nat)" using of_char_eq [of c "CHR ''0''"] by simp
  moreover have "of_char c < (256 :: nat)" by (rule nat_of_char_less_256)
  ultimately have "((of_char c + 255) mod 256 + 208) mod 256 < (of_char c + 208 :: nat) mod 256"
    by (intro byte_above_zero)
  then show "((dst, delta, ten_k, rest + ten_k, dec_char c), dst, delta, ten_k, rest, c)
      \<in> measure (\<lambda>(dst, delta, ten_k, rest, c). (of_char c + 208) mod 256)"
    by (simp add: dec_char_def)
qed simp

declare round_loop.simps [simp del]

definition grisu2_round :: "string \<Rightarrow> 64 word \<Rightarrow> 64 word \<Rightarrow> 64 word \<Rightarrow> 64 word \<Rightarrow> string res" where
  "grisu2_round buf dst delta rest ten_k =
     asserting (1 \<le> length buf) (asserting (dst \<le> delta) (asserting (rest \<le> delta) (asserting (0 < ten_k)
       (res_bind (round_loop dst delta ten_k rest (last buf)) (\<lambda>c. Inr (butlast buf @ [c]))))))"

text \<open>\<open>buffer[length++] = '0' + d\<close>\<close>

definition put_digit :: "nat \<Rightarrow> string \<Rightarrow> nat \<Rightarrow> string res" where
  "put_digit room buffer d =
     (if length buffer < room then Inr (buffer @ [char_of (48 + d)]) else Inl Overflow)"

text \<open>
  The digits of the integral part. \<open>Inl\<close> is the finished buffer with the number of digits of the
  integral part that are left, \<open>Inr\<close> the buffer with all of them.
\<close>

fun integral_digits ::
  "nat \<Rightarrow> 64 word \<Rightarrow> 64 word \<Rightarrow> nat \<Rightarrow> 64 word \<Rightarrow> nat \<Rightarrow> 32 word \<Rightarrow> 32 word \<Rightarrow> string
     \<Rightarrow> ((string \<times> nat) + string) res" where
  "integral_digits room dst delta g p2 0 p1 pow10 buffer = Inr (Inr buffer)"
| "integral_digits room dst delta g p2 (Suc n) p1 pow10 buffer =
     (let d = p1 div pow10; r = p1 mod pow10
      in asserting (d \<le> 9)
        (res_bind (put_digit room buffer (unat d)) (\<lambda>buffer.
           let p1 = r; rest = push_bit g (ucast p1) + p2
           in if rest \<le> delta
              then let ten_n = push_bit g (ucast pow10)
                   in res_bind (grisu2_round buffer dst delta rest ten_n) (\<lambda>buffer. Inr (Inl (buffer, n)))
              else integral_digits room dst delta g p2 n p1 (pow10 div 10) buffer)))"

text \<open>The digits of the fraction. The loop ends at the latest when the buffer is full.\<close>

function fraction_digits ::
  "nat \<Rightarrow> 64 word \<Rightarrow> 64 word \<Rightarrow> nat \<Rightarrow> 64 word \<Rightarrow> nat \<Rightarrow> string \<Rightarrow> (string \<times> nat) res" where
  "fraction_digits room dst delta g p2 m buffer =
     asserting (p2 \<le> (2 ^ 64 - 1) div 10)
       (let p2 = p2 * 10;
            d = drop_bit g p2;
            r = p2 AND (push_bit g 1 - 1)
        in asserting (d \<le> 9)
          (res_bind (put_digit room buffer (unat d)) (\<lambda>buffer.
             let p2 = r; m = m + 1; delta = delta * 10; dst = dst * 10
             in if p2 \<le> delta
                then res_bind (grisu2_round buffer dst delta p2 (push_bit g 1)) (\<lambda>buffer. Inr (buffer, m))
                else fraction_digits room dst delta g p2 m buffer)))"
  by pat_completeness auto
termination
  by (relation "measure (\<lambda>(room, dst, delta, g, p2, m, buffer). room - length buffer)")
    (auto simp: put_digit_def split: if_splits)

declare fraction_digits.simps [simp del]

definition grisu2_digit_gen :: "nat \<Rightarrow> int \<Rightarrow> diyfp \<Rightarrow> diyfp \<Rightarrow> diyfp \<Rightarrow> (string \<times> int) res" where
  "grisu2_digit_gen room decimal_exponent M_minus w M_plus =
     asserting (kAlpha \<le> de M_plus) (asserting (de M_plus \<le> kGamma)
       (res_bind (sub M_plus M_minus) (\<lambda>delta.
        res_bind (sub M_plus w) (\<lambda>dst.
          let g = nat (- de M_plus);
              one = push_bit g (1 :: 64 word);
              p1 = ucast (drop_bit g (df M_plus)) :: 32 word;
              p2 = df M_plus AND (one - 1)
          in asserting (0 < p1)
            (let (k, pow10) = find_largest_pow10 p1
             in res_bind (integral_digits room (df dst) (df delta) g p2 k p1 pow10 []) (\<lambda>r.
                  case r of
                    Inl (buffer, n) \<Rightarrow> Inr (buffer, decimal_exponent + int n)
                  | Inr buffer \<Rightarrow>
                      asserting (df delta < p2)
                        (res_bind (fraction_digits room (df dst) (df delta) g p2 0 buffer) (\<lambda>(buffer, m).
                           Inr (buffer, decimal_exponent - int m)))))))))"

section \<open>The interval\<close>

definition grisu2_scaled :: "nat \<Rightarrow> diyfp \<Rightarrow> diyfp \<Rightarrow> diyfp \<Rightarrow> (string \<times> int) res" where
  "grisu2_scaled room m_minus v m_plus =
     asserting (de m_plus = de m_minus) (asserting (de m_plus = de v)
       (res_bind (get_cached_power_for_binary_exponent (de m_plus)) (\<lambda>(cf, ce, ck).
          let c_minus_k = \<lparr>df = cf, de = ce\<rparr>;
              w = mul v c_minus_k;
              w_minus = mul m_minus c_minus_k;
              w_plus = mul m_plus c_minus_k;
              M_minus = \<lparr>df = df w_minus + 1, de = de w_minus\<rparr>;
              M_plus = \<lparr>df = df w_plus - 1, de = de w_plus\<rparr>
          in grisu2_digit_gen room (- ck) M_minus w M_plus)))"

definition grisu2 :: "nat \<Rightarrow> double \<Rightarrow> (string \<times> int) res" where
  "grisu2 room bits =
     asserting (isfinite bits) (asserting (is_positive bits)
       (res_bind (compute_boundaries bits) (\<lambda>w.
          grisu2_scaled room (b_minus w) (b_w w) (b_plus w))))"
section \<open>The digits are those of a number in the interval\<close>

text \<open>A decimal number without leading zeros.\<close>

definition decimal :: "string \<Rightarrow> bool" where
  "decimal ds \<longleftrightarrow> ds \<noteq> [] \<and> list_all isdigit ds \<and> hd ds \<noteq> CHR ''0''"

lemma digit_char_code: "d < 10 \<Longrightarrow> of_char (digit_char d) = 48 + d"
proof -
  assume "d < 10"
  then have "d \<in> {0,1,2,3,4,5,6,7,8,9}" by auto
  then show ?thesis by (auto simp: digit_char_def)
qed

lemma digit_byte: "d < 10 \<Longrightarrow> char_of (48 + d) = digit_char d"
  using char_of_char [of "digit_char d", where ?'a = nat] by (simp only: digit_char_code)

lemma dec_digit: "Suc d < 10 \<Longrightarrow> dec_char (digit_char (Suc d)) = digit_char d"
  using digit_byte [of d] by (simp add: dec_char_def digit_char_code mod_if)

lemma digit_char_zero: "d < 10 \<Longrightarrow> digit_char d = CHR ''0'' \<longleftrightarrow> d = 0"
  by (metis digit_char_simps(2) digit_char_def nth_Cons_0 zero_less_numeral)

lemma decimal_snoc:
  "decimal ds \<Longrightarrow> d < 10 \<Longrightarrow> decimal (ds @ [digit_char d])"
  "0 < d \<Longrightarrow> d < 10 \<Longrightarrow> decimal [digit_char d]"
  by (auto simp: decimal_def digit_char_zero)

lemma decimal_ge: "decimal ds \<Longrightarrow> 10 ^ (length ds - 1) \<le> digits_val ds"
proof (induction ds rule: rev_induct)
  case (snoc c ds)
  show ?case
  proof (cases ds)
    case Nil
    with snoc.prems have "isdigit c" "c \<noteq> CHR ''0''" by (simp_all add: decimal_def)
    then have "0 < digit_val c" by (auto simp: isdigit_def digit_val_def)
    with Nil show ?thesis by (simp add: digits_val_def)
  next
    case (Cons b bs)
    with snoc have "10 ^ (length ds - 1) \<le> digits_val ds" by (simp add: decimal_def)
    then show ?thesis using Cons digits_val_snoc [of "b # bs" c] by simp
  qed
qed (simp add: decimal_def)

lemma find_largest_pow10_ok:
  assumes "0 < n"
  obtains j p where "find_largest_pow10 n = (Suc j, p)" and "unat p = 10 ^ j"
    and "10 ^ j \<le> unat n" and "unat n < 10 ^ Suc j" and "j < 10"
proof -
  have "unat n < 2 ^ 32" using unsigned_less [of n, where ?'a = nat] by simp
  then have "\<exists>j p. find_largest_pow10 n = (Suc j, p) \<and> unat p = 10 ^ j \<and> 10 ^ j \<le> unat n \<and> unat n < 10 ^ Suc j \<and> j < 10"
    using assms unfolding find_largest_pow10_def word_le_nat_alt word_less_nat_alt
    by (auto simp: not_le)
  then show thesis using that by blast
qed
lemma round_loop_ok:
  assumes "unat rest \<le> unat delta" and "unat delta < unat rest + d * unat ten_k" and "d < 10"
  shows "\<exists>e. round_loop dst delta ten_k rest (digit_char d) = Inr (digit_char e) \<and> 0 < e \<and> e \<le> d
    \<and> unat rest + (d - e) * unat ten_k \<le> unat delta"
  using assms
proof (induction d arbitrary: rest)
  case (Suc d)
  show ?case
  proof (cases "rest < dst \<and> ten_k \<le> delta - rest \<and> (rest + ten_k < dst \<or> rest + ten_k - dst < dst - rest)")
    case True
    have "unat ten_k \<le> unat delta - unat rest"
      using True Suc.prems(1) unat_sub64 [of rest delta] by (simp add: word_le_nat_alt)
    then have sum: "unat (rest + ten_k) = unat rest + unat ten_k" "unat rest + unat ten_k \<le> unat delta"
      using Suc.prems(1) unat_less64 [of delta] unat_add64 [of rest ten_k] by simp_all
    obtain e where e: "round_loop dst delta ten_k (rest + ten_k) (digit_char d) = Inr (digit_char e)" "0 < e" "e \<le> d"
      "unat rest + unat ten_k + (d - e) * unat ten_k \<le> unat delta"
      using Suc.IH [of "rest + ten_k"] Suc.prems sum by auto
    moreover have "unat rest + (Suc d - e) * unat ten_k \<le> unat delta" using e(3,4) by (simp add: Suc_diff_le)
    moreover have "digit_char (Suc d) \<noteq> CHR ''0''" using Suc.prems(3) by (simp add: digit_char_zero)
    ultimately show ?thesis
      using True Suc.prems(3) by (subst round_loop.simps) (auto simp: dec_digit)
  next
    case False
    then have "round_loop dst delta ten_k rest (digit_char (Suc d)) = Inr (digit_char (Suc d))"
      by (subst round_loop.simps) (simp only: if_False)
    then show ?thesis using Suc.prems(1) by auto
  qed
qed simp

text \<open>
  \<open>finished M delta u buf\<close>: the digits of \<open>buf\<close>, in units of \<open>u\<close>, are at most \<open>M\<close> and at
  least \<open>M - delta\<close>, and the last of them is not zero.
\<close>

definition finished :: "nat \<Rightarrow> nat \<Rightarrow> nat \<Rightarrow> string \<Rightarrow> bool" where
  "finished M delta u buf \<longleftrightarrow> decimal buf \<and> last buf \<noteq> CHR ''0''
     \<and> digits_val buf * u \<le> M \<and> M \<le> digits_val buf * u + delta"

lemma grisu2_round_ok:
  assumes "decimal (bs @ [digit_char d])" and "d < 10" and "dst \<le> delta" and "rest \<le> delta"
    and "unat delta < unat rest + d * unat ten_k"
    and "M = digits_val (bs @ [digit_char d]) * unat ten_k + unat rest"
  shows "\<exists>buf. grisu2_round (bs @ [digit_char d]) dst delta rest ten_k = Inr buf
    \<and> finished M (unat delta) (unat ten_k) buf \<and> length buf = Suc (length bs)"
proof -
  obtain e where e: "round_loop dst delta ten_k rest (digit_char d) = Inr (digit_char e)" "0 < e" "e \<le> d"
    "unat rest + (d - e) * unat ten_k \<le> unat delta"
    using round_loop_ok [of rest delta d ten_k dst] assms(2,4,5) by (auto simp: word_le_nat_alt)
  have "0 < ten_k" using assms(4,5) by (cases "ten_k = 0") (simp_all add: word_le_nat_alt word_gt_0)
  then have "grisu2_round (bs @ [digit_char d]) dst delta rest ten_k = Inr (bs @ [digit_char e])"
    using e(1) assms(3,4) by (simp add: grisu2_round_def)
  moreover have "decimal (bs @ [digit_char e])"
    using assms(1,2) e(2,3) by (cases bs) (auto simp: decimal_def digit_char_zero)
  moreover have "M = digits_val (bs @ [digit_char e]) * unat ten_k + (unat rest + (d - e) * unat ten_k)"
  proof -
    have "d * unat ten_k = e * unat ten_k + (d - e) * unat ten_k" using e(3) by (simp flip: add_mult_distrib)
    then show ?thesis using assms(2,6) e(3) by (simp add: add_mult_distrib)
  qed
  ultimately show ?thesis
    using e assms(2) by (auto simp: finished_def digit_char_zero)
qed

lemma unat_ucast_up: "unat (ucast (w :: 32 word) :: 64 word) = unat w"
proof -
  have "unat w < 2 ^ 32" using unsigned_less [of w, where ?'a = nat] by simp
  then show ?thesis by (simp add: unsigned_ucast_eq take_bit_nat_eq_self)
qed

lemma put_digit_ok: "d < 10 \<Longrightarrow> length buffer < room \<Longrightarrow> put_digit room buffer d = Inr (buffer @ [digit_char d])"
  by (simp add: put_digit_def digit_byte)

lemma digit_split:
  fixes p q :: nat
  assumes "p < 10 * q"
  shows "p div q < 10" and "p = p div q * q + p mod q"
  using assms by (simp_all add: less_mult_imp_div_less mult.commute)

lemma integral_digits_ok:
  assumes "n \<noteq> 0 \<longrightarrow> unat pow10 = 10 ^ (n - 1)" and "unat p1 < 10 ^ n"
    and "unat p1 * 2 ^ g + unat p2 < 2 ^ 64"
    and "unat delta < unat p1 * 2 ^ g + unat p2" and "dst \<le> delta"
    and "decimal buffer \<or> buffer = [] \<and> n \<noteq> 0 \<and> 10 ^ (n - 1) \<le> unat p1"
    and "length buffer + n \<le> room"
    and "M = (digits_val buffer * 10 ^ n + unat p1) * 2 ^ g + unat p2"
  shows "\<exists>r. integral_digits room dst delta g p2 n p1 pow10 buffer = Inr r \<and>
    (case r of
       Inl (buf, i) \<Rightarrow> finished M (unat delta) (10 ^ i * 2 ^ g) buf \<and> length buf \<le> length buffer + n
     | Inr buf \<Rightarrow> decimal buf \<and> M = digits_val buf * 2 ^ g + unat p2 \<and> unat delta < unat p2
         \<and> length buf = length buffer + n)"
  using assms
proof (induction n arbitrary: p1 pow10 buffer)
  case 0
  then show ?case by simp
next
  case (Suc n)
  define d r where "d = unat p1 div 10 ^ n" and "r = p1 mod pow10"
  have pow: "unat pow10 = 10 ^ n" using Suc.prems(1) by simp
  have ur: "unat r = unat p1 mod 10 ^ n" and ud: "unat (p1 div pow10) = d"
    by (simp_all add: r_def d_def pow unat_mod unat_div)
  have d: "d < 10" and split: "unat p1 = d * 10 ^ n + unat r"
    using digit_split [of "unat p1" "10 ^ n"] Suc.prems(2) by (simp_all add: d_def ur)
  have "unat r < 10 ^ n" by (simp add: ur)
  define rest where "rest = push_bit g (ucast r) + p2"
  have le: "d * (10 ^ n * 2 ^ g) + unat r * 2 ^ g = unat p1 * 2 ^ g" by (simp add: split add_mult_distrib)
  then have rest: "unat rest = unat r * 2 ^ g + unat p2"
    using Suc.prems(3) unat_push [of "ucast r" g] unat_add64 [of "push_bit g (ucast r)" p2]
    unfolding rest_def unat_ucast_up by linarith
  define buf where "buf = buffer @ [digit_char d]"
  have "decimal buf"
    using Suc.prems(6) d decimal_snoc by (auto simp: buf_def d_def div_greater_zero_iff)
  have M: "M = (digits_val buf * 10 ^ n + unat r) * 2 ^ g + unat p2"
    using d by (simp add: Suc.prems(8) buf_def split algebra_simps)
  have put: "put_digit room buffer d = Inr buf"
    using d Suc.prems(7) by (simp add: buf_def put_digit_ok)
  have d9: "p1 div pow10 \<le> 9" using d ud by (simp add: word_le_nat_alt)
  show ?case
  proof (cases "rest \<le> delta")
    case True
    have big: "unat delta < unat rest + d * (10 ^ n * 2 ^ g)" using Suc.prems(4) le rest by linarith
    then have "0 < d" using True by (cases "d = 0") (simp_all add: word_le_nat_alt)
    then have "1 * (10 ^ n * 2 ^ g) \<le> d * (10 ^ n * 2 ^ g)" by (intro mult_le_mono1) simp
    then have ten: "unat (push_bit g (ucast pow10 :: 64 word)) = 10 ^ n * 2 ^ g"
      using le Suc.prems(3) unat_push [of "ucast pow10" g] unfolding unat_ucast_up pow by linarith
    have "M = digits_val buf * (10 ^ n * 2 ^ g) + unat rest" by (simp add: M rest algebra_simps)
    with grisu2_round_ok [of buffer d dst delta rest "push_bit g (ucast pow10)" M] True big \<open>decimal buf\<close> d Suc.prems(5)
    obtain b where "grisu2_round buf dst delta rest (push_bit g (ucast pow10)) = Inr b"
      "finished M (unat delta) (10 ^ n * 2 ^ g) b" "length b = Suc (length buffer)"
      unfolding ten buf_def [symmetric] by blast
    then show ?thesis using True put d9 ud by (simp add: Let_def flip: r_def rest_def)
  next
    case False
    then have "unat delta < unat r * 2 ^ g + unat p2" using rest by (simp add: word_le_nat_alt)
    moreover have "n \<noteq> 0 \<longrightarrow> unat (pow10 div 10) = 10 ^ (n - 1)"
      by (cases n) (simp_all add: unat_div pow)
    moreover have "unat r * 2 ^ g + unat p2 < 2 ^ 64" using le Suc.prems(3) by linarith
    moreover have len: "length buf + n = length buffer + Suc n" by (simp add: buf_def)
    ultimately show ?thesis
      using Suc.IH [of "pow10 div 10" r buf, unfolded len] \<open>unat r < 10 ^ n\<close> Suc.prems(5,7) \<open>decimal buf\<close> M put d9 ud False
      by (simp add: Let_def flip: r_def rest_def)
  qed
qed

lemma unat_one_bit: "g \<le> 60 \<Longrightarrow> unat (push_bit g (1 :: 64 word)) = 2 ^ g"
  using unat_push [of 1 g] power_strict_increasing [of g 64 "2::nat"] by simp

lemma low_bits: "g \<le> 60 \<Longrightarrow> unat ((w :: 64 word) AND (push_bit g 1 - 1)) = unat w mod 2 ^ g"
  using unat_low [of g w] by (simp only: mask_eq_exp_minus_1 push_bit_eq_mult mult_1_left)

lemma fraction_digits_ok:
  assumes "g \<le> 60" and "unat p2 < 2 ^ g" and "unat delta < unat p2" and "dst \<le> delta" and "decimal buffer"
    and "M * 10 ^ m = digits_val buffer * 2 ^ g + unat p2" and "unat delta = D * 10 ^ m"
    and "M < 10 ^ 16 * D" and "17 \<le> room"
  shows "\<exists>buf i. fraction_digits room dst delta g p2 m buffer = Inr (buf, i)
    \<and> finished (M * 10 ^ i) (D * 10 ^ i) (2 ^ g) buf \<and> length buf \<le> 17"
  using assms
proof (induction room dst delta g p2 m buffer rule: fraction_digits.induct)
  case (1 room dst delta g p2 m buffer)
  note prems = "1.prems"
  define p d r where "p = p2 * 10" and "d = unat (drop_bit g p)" and "r = p AND (push_bit g 1 - 1)"
  have g: "(2::nat) ^ g \<le> 2 ^ 60" using prems(1) by (intro power_increasing) simp_all
  have up: "unat p = unat p2 * 10"
    using g prems(2) unat_mult64 [of p2 10] by (simp add: p_def)
  have ud: "d = unat p div 2 ^ g" and ur: "unat r = unat p mod 2 ^ g"
    using low_bits [OF prems(1)] by (simp_all add: d_def r_def unat_drop)
  have d: "d < 10" and split: "unat p = d * 2 ^ g + unat r"
    using digit_split [of "unat p" "2 ^ g"] prems(2) by (simp_all add: ud ur up)
  have "unat r < 2 ^ g" by (simp add: ur)
  have ten: "unat (delta * 10) = D * 10 ^ Suc m" "unat (dst * 10) = unat dst * 10"
    using g prems(2,3,4,7) unat_mult64 [of delta 10] unat_mult64 [of dst 10] by (simp_all add: word_le_nat_alt)
  have le10: "dst * 10 \<le> delta * 10" using prems(4,7) ten by (simp add: word_le_nat_alt)
  define buf where "buf = buffer @ [digit_char d]"
  have "decimal buf" using prems(5) d by (simp add: buf_def decimal_snoc)
  have M: "M * 10 ^ Suc m = digits_val buf * 2 ^ g + unat r"
    using d prems(6) up split by (simp add: buf_def algebra_simps)
  have len: "length buffer \<le> 16"
  proof (rule ccontr)
    assume "\<not> length buffer \<le> 16"
    then have "(10::nat) ^ 16 \<le> 10 ^ (length buffer - 1)" by (intro power_increasing) simp_all
    also have "\<dots> \<le> digits_val buffer" by (rule decimal_ge [OF prems(5)])
    finally have "10 ^ 16 * (D * 10 ^ m) \<le> digits_val buffer * 2 ^ g"
      using prems(2,3,7) by (intro mult_le_mono) simp_all
    also have "\<dots> \<le> M * 10 ^ m" using prems(6) by simp
    finally have "10 ^ 16 * D \<le> M" by simp
    with prems(8) show False by simp
  qed
  have put: "put_digit room buffer d = Inr buf" using d len prems(9) by (simp add: buf_def put_digit_ok)
  have checks: "p2 \<le> (2 ^ 64 - 1) div 10" "drop_bit g p \<le> 9"
    using g prems(2) d by (simp_all add: word_le_nat_alt d_def)
  show ?case
  proof (cases "r \<le> delta * 10")
    case True
    have big: "unat (delta * 10) < unat r + d * unat (push_bit g (1 :: 64 word))"
      using prems(3,7) ten up split by (simp only: unat_one_bit [OF prems(1)]) simp
    have "M * 10 ^ Suc m = digits_val buf * unat (push_bit g (1 :: 64 word)) + unat r"
      using M by (simp only: unat_one_bit [OF prems(1)])
    with grisu2_round_ok [of buffer d "dst * 10" "delta * 10" r "push_bit g 1"] True big le10 d \<open>decimal buf\<close>
    obtain b where b: "grisu2_round buf (dst * 10) (delta * 10) r (push_bit g 1) = Inr b"
      "finished (M * 10 ^ Suc m) (D * 10 ^ Suc m) (2 ^ g) b" "length b = Suc (length buffer)"
      unfolding unat_one_bit [OF prems(1)] ten(1) buf_def [symmetric] by blast
    have "fraction_digits room dst delta g p2 m buffer = Inr (b, m + 1)"
      using True checks put b(1)
      by (subst fraction_digits.simps) (simp only: Let_def asserting_simps res_bind_Inr p_def [symmetric]
        d_def [symmetric] r_def [symmetric] if_True sum.case)
    then show ?thesis using b(2,3) len by fastforce
  next
    case False
    have "fraction_digits room dst delta g p2 m buffer = fraction_digits room (dst * 10) (delta * 10) g r (m + 1) buf"
      using False checks put
      by (subst fraction_digits.simps) (simp only: Let_def asserting_simps res_bind_Inr p_def [symmetric]
        d_def [symmetric] r_def [symmetric] if_False)
    moreover have "unat (delta * 10) < unat r" using False by (simp add: word_le_nat_alt)
    ultimately show ?thesis
      using "1.IH" [OF checks(1) p_def refl r_def] checks(2) put [unfolded d_def] prems(1,8,9) \<open>unat r < 2 ^ g\<close> le10 \<open>decimal buf\<close> M ten(1) False
      by simp
  qed
qed

lemma finished_powi:
  assumes "finished (M * 10 ^ i) (D * 10 ^ i) (10 ^ j * 2 ^ g) buf" and "D \<le> M"
  shows "real (M - D) \<le> real (digits_val buf) * 10 powi (int j - int i) * 2 ^ g"
    and "real (digits_val buf) * 10 powi (int j - int i) * 2 ^ g \<le> real M"
proof -
  define V where "V = digits_val buf"
  have p: "(10::real) powi (int j - int i) * 10 ^ i = 10 ^ j"
    using power_int_add [of "10::real" "int j - int i" "int i"] by simp
  have "V * (10 ^ j * 2 ^ g) \<le> M * 10 ^ i" and "M * 10 ^ i \<le> V * (10 ^ j * 2 ^ g) + D * 10 ^ i"
    using assms(1) by (simp_all add: finished_def V_def)
  then have "real V * (10 ^ j * 2 ^ g) \<le> real M * 10 ^ i" and "real M * 10 ^ i \<le> real V * (10 ^ j * 2 ^ g) + real D * 10 ^ i"
    by (auto dest!: real_le simp only: real_num)
  then have "(real V * 10 powi (int j - int i) * 2 ^ g) * 10 ^ i \<le> real M * 10 ^ i"
    and "(real M - real D) * 10 ^ i \<le> (real V * 10 powi (int j - int i) * 2 ^ g) * 10 ^ i"
    unfolding p [symmetric] by (simp_all add: algebra_simps)
  then show "real (M - D) \<le> real (digits_val buf) * 10 powi (int j - int i) * 2 ^ g"
    and "real (digits_val buf) * 10 powi (int j - int i) * 2 ^ g \<le> real M"
    using assms(2) by (simp_all add: V_def of_nat_diff)
qed

lemma grisu2_digit_gen_ok:
  assumes e: "de M_minus = de M_plus" "de w = de M_plus" "de M_plus = - int g" and g: "32 \<le> g" "g \<le> 60"
    and order: "0 < df M_minus" "df M_minus \<le> df w" "df w \<le> df M_plus"
    and big: "2 ^ g \<le> unat (df M_plus)" "unat (df M_plus) < 10 ^ 16 * (unat (df M_plus) - unat (df M_minus))"
    and room: "17 \<le> room"
  shows "\<exists>buf i. grisu2_digit_gen room k M_minus w M_plus = Inr (buf, k + i) \<and> decimal buf \<and> last buf \<noteq> CHR ''0''
    \<and> length buf \<le> 17 \<and> real (unat (df M_minus)) \<le> real (digits_val buf) * 10 powi i * 2 ^ g
    \<and> real (digits_val buf) * 10 powi i * 2 ^ g \<le> real (unat (df M_plus))"
proof -
  define M D delta dst where "M = unat (df M_plus)" and "D = unat (df M_plus) - unat (df M_minus)"
    and "delta = df M_plus - df M_minus" and "dst = df M_plus - df w"
  define p1 :: "32 word" where "p1 = ucast (drop_bit g (df M_plus))"
  define p2 where "p2 = df M_plus AND (push_bit g 1 - 1)"
  have le: "unat (df M_minus) \<le> unat (df w)" "unat (df w) \<le> M" "0 < unat (df M_minus)" "df M_minus \<le> df M_plus"
    using order by (auto simp: M_def word_le_nat_alt word_less_nat_alt)
  have ud: "unat delta = D" "dst \<le> delta" and DM: "D < M" "M - D = unat (df M_minus)"
    using le order unat_sub64 [of "df w" "df M_plus"] unat_sub64 [of "df M_minus" "df M_plus"]
    by (auto simp: delta_def dst_def D_def M_def word_le_nat_alt)
  have "M < 2 ^ 64" unfolding M_def by (rule unat_less64)
  have up2: "unat p2 = M mod 2 ^ g" using low_bits [OF g(2)] by (simp add: p2_def M_def)
  have "M div 2 ^ g < 2 ^ 32"
  proof -
    have "2 ^ 64 = (2::nat) ^ 32 * 2 ^ 32" by simp
    also have "\<dots> \<le> 2 ^ 32 * 2 ^ g" using g(1) by (intro mult_le_mono2 power_increasing) simp_all
    finally show ?thesis using \<open>M < 2 ^ 64\<close> by (intro less_mult_imp_div_less) simp
  qed
  then have up1: "unat p1 = M div 2 ^ g"
    by (simp only: p1_def unsigned_ucast_eq unat_drop M_def [symmetric]) (simp add: take_bit_nat_eq_self)
  have "0 < p1" using big(1) by (simp add: word_less_nat_alt up1 div_greater_zero_iff M_def)
  then obtain j q where j: "find_largest_pow10 p1 = (Suc j, q)" "unat q = 10 ^ j" "10 ^ j \<le> unat p1"
    "unat p1 < 10 ^ Suc j" "j < 10" by (rule find_largest_pow10_ok)
  have M: "M = unat p1 * 2 ^ g + unat p2" by (simp only: up1 up2 div_mult_mod_eq)
  have gen: "grisu2_digit_gen room k M_minus w M_plus =
      res_bind (integral_digits room dst delta g p2 (Suc j) p1 q []) (\<lambda>r. case r of
          Inl (buffer, n) \<Rightarrow> Inr (buffer, k + int n)
        | Inr buffer \<Rightarrow> asserting (delta < p2)
            (res_bind (fraction_digits room dst delta g p2 0 buffer) (\<lambda>(buffer, m). Inr (buffer, k - int m))))"
    using e g j(1) \<open>0 < p1\<close> order(3) le(4)
    unfolding grisu2_digit_gen_def sub_def delta_def dst_def p1_def p2_def push_bit_of_1
    by (simp add: kAlpha_def kGamma_def Let_def del: integral_digits.simps)
  obtain r where r: "integral_digits room dst delta g p2 (Suc j) p1 q [] = Inr r"
    "case r of Inl (buf, i) \<Rightarrow> finished M (unat delta) (10 ^ i * 2 ^ g) buf \<and> length buf \<le> 0 + Suc j
     | Inr buf \<Rightarrow> decimal buf \<and> M = digits_val buf * 2 ^ g + unat p2 \<and> unat delta < unat p2 \<and> length buf = 0 + Suc j"
    using integral_digits_ok [of "Suc j" q p1 g p2 delta dst "[]" room M, unfolded list.size(3)]
      j M DM(1) ud room \<open>M < 2 ^ 64\<close>
    by (simp add: digits_val_def del: integral_digits.simps) blast
  show ?thesis
  proof (cases r)
    case (Inl x)
    then obtain buf i where x: "r = Inl (buf, i)" by (cases x) simp
    then have "finished (M * 10 ^ 0) (D * 10 ^ 0) (10 ^ i * 2 ^ g) buf" "length buf \<le> 17"
      using r(2) j(5) ud(1) by simp_all
    with finished_powi [OF this(1) less_imp_le [OF DM(1)], unfolded DM(2)] show ?thesis
      unfolding gen r(1) x by (auto simp: finished_def M_def)
  next
    case (Inr buffer)
    then have b: "decimal buffer" "M = digits_val buffer * 2 ^ g + unat p2" "unat delta < unat p2" using r(2) by simp_all
    have "unat p2 < 2 ^ g" by (simp add: up2)
    with fraction_digits_ok [of g p2 delta dst buffer M 0 D room] b ud g(2) big(2) room
    obtain buf i where f: "fraction_digits room dst delta g p2 0 buffer = Inr (buf, i)"
      "finished (M * 10 ^ i) (D * 10 ^ i) (10 ^ 0 * 2 ^ g) buf" "length buf \<le> 17"
      by (auto simp: M_def D_def)
    then have "grisu2_digit_gen room k M_minus w M_plus = Inr (buf, k + - int i)"
      unfolding gen r(1) Inr using b(3) by (simp add: word_less_nat_alt)
    with finished_powi [OF f(2) less_imp_le [OF DM(1)], unfolded DM(2)] f show ?thesis
      by (intro exI [of _ buf] exI [of _ "- int i"]) (simp add: finished_def M_def)
  qed
qed

section \<open>The interval is inside that of the double\<close>

text \<open>The significand of a product, as a function of the significands.\<close>

definition rounded :: "nat \<Rightarrow> nat \<Rightarrow> nat" where
  "rounded c x = (x * c + 2 ^ 63) div 2 ^ 64"

lemma rounded_gap:
  assumes "x + t \<le> y" and "j * 2 ^ 64 \<le> t * c"
  shows "rounded c x + j \<le> rounded c y"
proof -
  have "rounded c x + j = (x * c + 2 ^ 63 + j * 2 ^ 64) div 2 ^ 64"
    using div_mult_self1 [of "2 ^ 64" "x * c + 2 ^ 63" j] unfolding rounded_def by simp
  also have "\<dots> \<le> rounded c y"
  proof -
    have "(x + t) * c \<le> y * c" using assms(1) by (rule mult_le_mono1)
    then show ?thesis unfolding rounded_def using assms(2) by (intro div_le_mono) (simp add: add_mult_distrib)
  qed
  finally show ?thesis .
qed

lemma rounded_bounds:
  "rounded c x * 2 ^ 64 \<le> x * c + 2 ^ 63" "x * c + 2 ^ 63 < (rounded c x + 1) * 2 ^ 64"
proof -
  have "(x * c + 2 ^ 63) div 2 ^ 64 * 2 ^ 64 \<le> x * c + 2 ^ 63" by (rule div_times_less_eq_dividend)
  then show "rounded c x * 2 ^ 64 \<le> x * c + 2 ^ 63" by (simp only: rounded_def)
  have "x * c + 2 ^ 63 < 2 ^ 64 + (x * c + 2 ^ 63) div 2 ^ 64 * 2 ^ 64" by (rule dividend_less_div_times) simp
  then show "x * c + 2 ^ 63 < (rounded c x + 1) * 2 ^ 64" unfolding rounded_def by (simp only: add_mult_distrib mult_1_left add.commute)
qed

lemma rounded_less: "x < 2 ^ 64 \<Longrightarrow> c < 2 ^ 64 \<Longrightarrow> rounded c x < 2 ^ 64"
proof -
  assume "x < 2 ^ 64" "c < 2 ^ 64"
  then have "x * c \<le> (2 ^ 64 - 1) * (2 ^ 64 - 1)" by (intro mult_le_mono) simp_all
  then have "x * c + 2 ^ 63 < 2 ^ 64 * 2 ^ 64" by simp
  then show ?thesis unfolding rounded_def by (rule less_mult_imp_div_less)
qed

lemma cancel64: "(r::nat) * 2 ^ 64 < k * 2 ^ 64 + 2 ^ 63 \<Longrightarrow> r \<le> k"
  by simp

lemma minus_sig_gap:
  assumes "finite_positive bits" and "10 \<le> s"
  shows "minus_sig bits s + 2 ^ (s - 1) \<le> sig bits * 2 ^ Suc s"
    and "minus_sig bits s + (if closer bits then 3 else 4) * 2 ^ (s - 1) = (2 * sig bits + 1) * 2 ^ s"
proof -
  obtain t where s: "s = Suc t" using assms(2) by (cases s) simp_all
  obtain m where "sig bits = Suc m" using sig_bounds [OF assms(1)] by (cases "sig bits") simp_all
  then show "minus_sig bits s + 2 ^ (s - 1) \<le> sig bits * 2 ^ Suc s"
    and "minus_sig bits s + (if closer bits then 3 else 4) * 2 ^ (s - 1) = (2 * sig bits + 1) * 2 ^ s"
    by (simp_all add: minus_sig_def s algebra_simps)
qed

lemma scaled_ratio:
  assumes "finite_positive bits" and "10 \<le> s" and "2 ^ 63 \<le> c" 
  shows "rounded c ((2 * sig bits + 1) * 2 ^ s) - 1
    < 10 ^ 16 * (rounded c ((2 * sig bits + 1) * 2 ^ s) - 1 - (rounded c (minus_sig bits s) + 1))"
proof -
  define m t x R S where "m = sig bits" and "t = (2::nat) ^ (s - 1)" and "x = t * c div 2 ^ 64"
    and "R = rounded c ((2 * m + 1) * 2 ^ s)" and "S = rounded c (minus_sig bits s)"
  define q :: nat where "q = (if closer bits then 3 else 4)"
  have "(2::nat) ^ 9 * 2 ^ 63 \<le> t * c" unfolding t_def using assms(2,3) by (intro mult_le_mono power_increasing) simp_all
  then have x: "256 \<le> x" using div_le_mono [of "2 ^ 9 * 2 ^ 63" "t * c" "2 ^ 64"] by (simp add: x_def)
  have "x * 2 ^ 64 \<le> t * c" unfolding x_def by (rule div_times_less_eq_dividend)
  then have "q * x * 2 ^ 64 \<le> q * t * c" by (simp only: mult.assoc mult_le_mono2)
  moreover have "minus_sig bits s + q * t \<le> (2 * m + 1) * 2 ^ s"
    using minus_sig_gap(2) [OF assms(1,2)] unfolding q_def t_def m_def by simp
  ultimately have lower: "S + q * x \<le> R" unfolding R_def S_def by (intro rounded_gap)
  have "t * c < (x + 1) * 2 ^ 64" using dividend_less_div_times [of "2 ^ 64" "t * c"] by (simp add: x_def)
  then have "(4 * m + 2) * (t * c) < (4 * m + 2) * ((x + 1) * 2 ^ 64)" by (intro mult_strict_left_mono) simp_all
  moreover have "(2 * m + 1) * 2 ^ s * c = (4 * m + 2) * (t * c)"
    using assms(2) by (cases s) (simp_all add: t_def algebra_simps)
  ultimately have "R * 2 ^ 64 < (4 * m + 2) * (x + 1) * 2 ^ 64 + 2 ^ 63"
    using rounded_bounds(1) [of c "(2 * m + 1) * 2 ^ s"] unfolding R_def mult.assoc [of "4 * m + 2"] by linarith
  then have upper: "R \<le> (4 * m + 2) * (x + 1)" by (rule cancel64)
  have m: "m < 2 ^ 53" "closer bits \<Longrightarrow> m = 2 ^ 52"
    using sig_bounds [OF assms(1)] by (auto simp: m_def sig_def closer_def)
  have "R - 1 < 10 ^ 16 * (R - 1 - (S + 1))"
  proof (cases "closer bits")
    case True
    then have "R \<le> (2 ^ 54 + 2) * (x + 1)" using upper m(2) by simp
    then show ?thesis using lower x True by (simp add: q_def)
  next
    case False
    have "(4 * m + 2) * (x + 1) \<le> 2 ^ 55 * (x + 1)" using m(1) by (intro mult_le_mono1) simp
    then have "R \<le> 2 ^ 55 * (x + 1)" using upper by simp
    then show ?thesis using lower x False by (simp add: q_def)
  qed
  then show ?thesis by (simp only: R_def S_def m_def)
qed

text \<open>The value of a double, and the limits between which a number is nearest to it.\<close>

definition real_of :: "double \<Rightarrow> real" where
  "real_of bits = real (sig bits) * 2 powi expo bits"

definition upper :: "double \<Rightarrow> real" where
  "upper bits = (2 * real (sig bits) + 1) * 2 powi (expo bits - 1)"

definition lower :: "double \<Rightarrow> real" where
  "lower bits =
     (if closer bits then (4 * real (sig bits) - 1) * 2 powi (expo bits - 2)
      else (2 * real (sig bits) - 1) * 2 powi (expo bits - 1))"

lemma limits_scaled:
  assumes "finite_positive bits" and "10 \<le> s"
  shows "upper bits = real ((2 * sig bits + 1) * 2 ^ s) * 2 powi (expo bits - 1 - int s)"
    and "lower bits = real (minus_sig bits s) * 2 powi (expo bits - 1 - int s)"
proof -
  have p: "(2::real) powi (k - int n) * 2 ^ n = 2 powi k" for k n
    using powi_add [of 2 "k - int n" "int n"] by simp
  show "upper bits = real ((2 * sig bits + 1) * 2 ^ s) * 2 powi (expo bits - 1 - int s)"
    unfolding upper_def p [of "expo bits - 1" s, symmetric] by (simp add: algebra_simps)
  have "expo bits - 1 - int s = expo bits - 2 - int (s - 1)" using assms(2) by simp
  then show "lower bits = real (minus_sig bits s) * 2 powi (expo bits - 1 - int s)"
    using sig_bounds [OF assms(1)]
    unfolding lower_def p [of "expo bits - 1" s, symmetric] p [of "expo bits - 2" "s - 1", symmetric]
    by (auto simp: minus_sig_def of_nat_diff algebra_simps)
qed

lemma accurate_bounds:
  assumes "accurate (f, ce, ck)"
  shows "real (unat f) * 2 powi ce \<le> 10 powi ck + 2 powi ce / 2"
    and "10 powi ck - 2 powi ce / 2 \<le> real (unat f) * 2 powi ce"
proof -
  have "\<bar>real (unat f) * 2 powi ce - 10 powi ck\<bar> \<le> 2 powi ce / 2" using assms by (simp only: accurate_def split)
  then show "real (unat f) * 2 powi ce \<le> 10 powi ck + 2 powi ce / 2"
    and "10 powi ck - 2 powi ce / 2 \<le> real (unat f) * 2 powi ce" by linarith+
qed

lemma scale64: "(r::real) * 2 powi (k + 64) = r * 2 ^ 64 * 2 powi k"
  using powi_add [of 2 k 64] by simp

lemma scaled_below:
  fixes V :: real
  assumes acc: "accurate (f, ce, ck)" and x: "x < 2 ^ 64"
    and V: "V \<le> (real (rounded (unat f) x) - 1) * 2 powi (ce + e + 64)"
  shows "V < real x * 2 powi e * 10 powi ck"
proof -
  define c where "c = real (unat f)"
  have "real (rounded (unat f) x) * 2 ^ 64 \<le> real x * c + 2 ^ 63"
    using real_le [OF rounded_bounds(1) [of "unat f" x]] by (simp only: real_num c_def)
  then have "(real (rounded (unat f) x) - 1) * 2 ^ 64 \<le> real x * c - 2 ^ 63" by simp
  then have "(real (rounded (unat f) x) - 1) * 2 ^ 64 * 2 powi (ce + e) \<le> (real x * c - 2 ^ 63) * 2 powi (ce + e)"
    by (rule mult_right_mono) simp
  then have "V \<le> (real x * c - 2 ^ 63) * 2 powi (ce + e)" using V unfolding scale64 by linarith
  also have "\<dots> = real x * (c * 2 powi ce) * 2 powi e - 2 ^ 63 * 2 powi ce * 2 powi e"
    using powi_add [of 2 ce e] by (simp add: algebra_simps)
  also have "\<dots> \<le> real x * (10 powi ck + 2 powi ce / 2) * 2 powi e - 2 ^ 63 * 2 powi ce * 2 powi e"
    unfolding c_def by (intro diff_right_mono mult_right_mono mult_left_mono accurate_bounds [OF acc]) simp_all
  also have "\<dots> = real x * 10 powi ck * 2 powi e - (2 ^ 64 - real x) * (2 powi ce * 2 powi e / 2)"
    by (simp add: algebra_simps)
  also have "\<dots> < real x * 10 powi ck * 2 powi e"
  proof -
    have "real x < 2 ^ 64" using x by (simp only: of_nat_less_iff [symmetric, where ?'a = real]) simp
    then show ?thesis by simp
  qed
  finally show ?thesis by (simp add: ac_simps)
qed

lemma scaled_above:
  fixes V :: real
  assumes acc: "accurate (f, ce, ck)" and x: "x < 2 ^ 64"
    and V: "(real (rounded (unat f) x) + 1) * 2 powi (ce + e + 64) \<le> V"
  shows "real x * 2 powi e * 10 powi ck < V"
proof -
  define c where "c = real (unat f)"
  have "real x * c + 2 ^ 63 \<le> (real (rounded (unat f) x) + 1) * 2 ^ 64"
    using real_le [OF less_imp_le [OF rounded_bounds(2) [of x "unat f"]]] by (simp only: real_num of_nat_1 c_def)
  then have "(real x * c + 2 ^ 63) * 2 powi (ce + e) \<le> (real (rounded (unat f) x) + 1) * 2 ^ 64 * 2 powi (ce + e)"
    by (rule mult_right_mono) simp
  then have up: "(real x * c + 2 ^ 63) * 2 powi (ce + e) \<le> V" using V unfolding scale64 by linarith
  have "real x * 10 powi ck * 2 powi e
      < real x * 10 powi ck * 2 powi e + (2 ^ 64 - real x) * (2 powi ce * 2 powi e / 2)"
  proof -
    have "real x < 2 ^ 64" using x by (simp only: of_nat_less_iff [symmetric, where ?'a = real]) simp
    then show ?thesis by simp
  qed
  also have "\<dots> = real x * (10 powi ck - 2 powi ce / 2) * 2 powi e + 2 ^ 63 * 2 powi ce * 2 powi e"
    by (simp add: algebra_simps)
  also have "\<dots> \<le> real x * (c * 2 powi ce) * 2 powi e + 2 ^ 63 * 2 powi ce * 2 powi e"
    unfolding c_def by (intro add_right_mono mult_right_mono mult_left_mono accurate_bounds [OF acc]) simp_all
  also have "\<dots> = (real x * c + 2 ^ 63) * 2 powi (ce + e)"
    using powi_add [of 2 ce e] by (simp add: algebra_simps)
  finally show ?thesis using up by (simp add: ac_simps)
qed

text \<open>The interval from which the digits are taken, with the significands as numbers.\<close>

lemma scaled_interval:
  assumes fin: "finite_positive bits" and s: "10 \<le> s" and c: "2 ^ 63 \<le> c" "c < 2 ^ 64"
    and norm: "normalized ((2 * sig bits + 1) * 2 ^ s)"
  defines "N \<equiv> rounded c (minus_sig bits s)" and "W \<equiv> rounded c (sig bits * 2 ^ Suc s)"
    and "P \<equiv> rounded c ((2 * sig bits + 1) * 2 ^ s)"
  shows "N + 1 \<le> W" and "W + 1 \<le> P" and "P < 2 ^ 64" and "2 ^ 60 + 1 \<le> P"
proof -
  have t: "256 * 2 ^ 64 \<le> 2 ^ (s - 1) * c"
  proof -
    have "(2::nat) ^ 9 * 2 ^ 63 \<le> 2 ^ (s - 1) * c" using s c(1) by (intro mult_le_mono power_increasing) simp_all
    then show ?thesis by simp
  qed
  have "N + 256 \<le> W" unfolding N_def W_def by (rule rounded_gap [OF minus_sig_gap(1) [OF fin s] t])
  then show "N + 1 \<le> W" by simp
  have "sig bits * 2 ^ Suc s + 2 ^ (s - 1) \<le> (2 * sig bits + 1) * 2 ^ s"
    using power_increasing [of "s - 1" s "2::nat"] by (simp add: algebra_simps)
  then have "W + 256 \<le> P" unfolding W_def P_def using t by (rule rounded_gap)
  then show "W + 1 \<le> P" by simp
  show "P < 2 ^ 64" unfolding P_def using norm c(2) by (intro rounded_less) (simp_all add: normalized_def)
  have "2 ^ 63 * 2 ^ 63 \<le> (2 * sig bits + 1) * 2 ^ s * c" using norm c(1) by (intro mult_le_mono) (simp_all add: normalized_def)
  then have "rounded c 0 + 2 ^ 62 \<le> P"
    unfolding P_def by (intro rounded_gap [of 0 "(2 * sig bits + 1) * 2 ^ s"]) simp_all
  then show "2 ^ 60 + 1 \<le> P" by simp
qed

lemma grisu2_scaled_ok:
  assumes cp: "get_cached_power_for_binary_exponent e = Inr (f, ce, ck)"
    and range: "kAlpha \<le> ce + e + 64" "ce + e + 64 \<le> kGamma" and acc: "accurate (f, ce, ck)"
    and lt: "N < 2 ^ 64" "W < 2 ^ 64" "P < 2 ^ 64"
    and iv: "rounded (unat f) N + 1 \<le> rounded (unat f) W" "rounded (unat f) W + 1 \<le> rounded (unat f) P"
      "2 ^ 60 + 1 \<le> rounded (unat f) P" "rounded (unat f) P < 2 ^ 64"
    and ratio: "rounded (unat f) P - 1 < 10 ^ 16 * (rounded (unat f) P - 1 - (rounded (unat f) N + 1))"
    and room: "17 \<le> room"
  shows "\<exists>buf k. grisu2_scaled room \<lparr>df = of_nat N, de = e\<rparr> \<lparr>df = of_nat W, de = e\<rparr> \<lparr>df = of_nat P, de = e\<rparr> = Inr (buf, k)
    \<and> decimal buf \<and> last buf \<noteq> CHR ''0'' \<and> length buf \<le> 17
    \<and> real N * 2 powi e < real (digits_val buf) * 10 powi k \<and> real (digits_val buf) * 10 powi k < real P * 2 powi e"
proof -
  define g where "g = nat (- (ce + e + 64))"
  have g: "ce + e + 64 = - int g" "32 \<le> g" "g \<le> 60" using range by (simp_all add: g_def kAlpha_def kGamma_def)
  define m where "m x = mul \<lparr>df = of_nat x, de = e\<rparr> \<lparr>df = f, de = ce\<rparr>" for x
  define Mm Mp where "Mm = \<lparr>df = df (m N) + 1, de = de (m N)\<rparr>" and "Mp = \<lparr>df = df (m P) - 1, de = de (m P)\<rparr>"
  have um: "unat (df (m x)) = rounded (unat f) x" "de (m x) = - int g" if "x < 2 ^ 64" for x
    using that g(1) by (simp_all add: m_def mul_exact rounded_def unat_of_nat64 add.commute)
  have de: "de Mm = de Mp" "de (m W) = de Mp" "de Mp = - int g" using um(2) lt by (simp_all add: Mm_def Mp_def)
  have uN: "unat (df Mm) = rounded (unat f) N + 1"
    using unat_add64 [of "df (m N)" 1] um(1) [OF lt(1)] iv by (simp add: Mm_def)
  have "1 \<le> df (m P)" using um(1) [OF lt(3)] iv(2) by (simp add: word_le_nat_alt)
  then have uP: "unat (df Mp) = rounded (unat f) P - 1"
    using unat_sub64 [of 1 "df (m P)"] um(1) [OF lt(3)] by (simp add: Mp_def)
  have order: "0 < df Mm" "df Mm \<le> df (m W)" "df (m W) \<le> df Mp"
    using uN uP um(1) [OF lt(2)] iv(1,2) by (simp_all add: word_le_nat_alt word_less_nat_alt)
  have "(2::nat) ^ g \<le> 2 ^ 60" using g(3) by (intro power_increasing) simp_all
  then have "2 ^ g \<le> unat (df Mp)" using uP iv(3) by linarith
  moreover have "unat (df Mp) < 10 ^ 16 * (unat (df Mp) - unat (df Mm))" using ratio by (simp only: uN uP)
  ultimately obtain buf i where r: "grisu2_digit_gen room (- ck) Mm (m W) Mp = Inr (buf, - ck + i)"
    "decimal buf" "last buf \<noteq> CHR ''0''" "length buf \<le> 17"
    "real (rounded (unat f) N + 1) \<le> real (digits_val buf) * 10 powi i * 2 ^ g"
    "real (digits_val buf) * 10 powi i * 2 ^ g \<le> real (rounded (unat f) P - 1)"
    using grisu2_digit_gen_ok [OF de g(2,3) order _ _ room, of "- ck"] unfolding uN uP by blast
  define V where "V = real (digits_val buf) * 10 powi i"
  define u where "u = (2::real) powi (ce + e + 64)"
  have u: "0 \<le> u" "V * 2 ^ g * u = V" unfolding u_def g(1) by (simp_all add: power_int_minus)
  have "(real (rounded (unat f) N) + 1) * u \<le> V"
    using mult_right_mono [OF r(5) u(1)] by (simp add: u(2) add.commute flip: V_def)
  moreover have "V \<le> (real (rounded (unat f) P) - 1) * u"
    using mult_right_mono [OF r(6) u(1)] iv(3) by (simp add: u(2) of_nat_diff flip: V_def)
  ultimately have "real N * 2 powi e * 10 powi ck < V" "V < real P * 2 powi e * 10 powi ck"
    using scaled_above [OF acc lt(1)] scaled_below [OF acc lt(3)] unfolding u_def by blast+
  moreover have "V = real (digits_val buf) * 10 powi (- ck + i) * 10 powi ck"
    using powi_add [of 10 "- ck + i" ck] by (simp add: V_def)
  ultimately have "real N * 2 powi e < real (digits_val buf) * 10 powi (- ck + i)"
    "real (digits_val buf) * 10 powi (- ck + i) < real P * 2 powi e" by simp_all
  moreover have "grisu2_scaled room \<lparr>df = of_nat N, de = e\<rparr> \<lparr>df = of_nat W, de = e\<rparr> \<lparr>df = of_nat P, de = e\<rparr> = Inr (buf, - ck + i)"
    using cp r(1) by (simp add: grisu2_scaled_def Let_def Mm_def Mp_def m_def)
  ultimately show ?thesis using r(2-4) by blast
qed

lemma grisu2_interval:
  assumes fin: "finite_positive bits" and room: "17 \<le> room"
  shows "\<exists>buf k. grisu2 room bits = Inr (buf, k) \<and> decimal buf \<and> last buf \<noteq> CHR ''0'' \<and> length buf \<le> 17
    \<and> lower bits < real (digits_val buf) * 10 powi k \<and> real (digits_val buf) * 10 powi k < upper bits"
proof -
  obtain s where b: "compute_boundaries bits =
      Inr \<lparr>b_w = \<lparr>df = of_nat (sig bits * 2 ^ Suc s), de = expo bits - 1 - int s\<rparr>,
        b_minus = \<lparr>df = of_nat (minus_sig bits s), de = expo bits - 1 - int s\<rparr>,
        b_plus = \<lparr>df = of_nat ((2 * sig bits + 1) * 2 ^ s), de = expo bits - 1 - int s\<rparr>\<rparr>"
    and norm: "normalized ((2 * sig bits + 1) * 2 ^ s)" and s: "10 \<le> s" "s \<le> 62"
    using compute_boundaries_ok [OF fin] .
  define e where "e = expo bits - 1 - int s"
  have e: "-1137 \<le> e" "e \<le> 960" using sig_bounds(3,4) [OF fin] s by (simp_all add: e_def)
  obtain f ce ck where cp: "get_cached_power_for_binary_exponent e = Inr (f, ce, ck)"
    and range: "kAlpha \<le> ce + e + 64" "ce + e + 64 \<le> kGamma" and acc: "accurate (f, ce, ck)"
    using cached_power_ok [OF e] .
  have c: "2 ^ 63 \<le> unat f" "unat f < 2 ^ 64" using acc unat_less64 [of f] by (simp_all only: accurate_def split)
  define N W P where "N = minus_sig bits s" and "W = sig bits * 2 ^ Suc s" and "P = (2 * sig bits + 1) * 2 ^ s"
  have "N \<le> P" "W \<le> P" "P < 2 ^ 64"
    using minus_sig_gap(2) [OF fin s(1)] norm by (simp_all add: N_def W_def P_def normalized_def)
  then have lt: "N < 2 ^ 64" "W < 2 ^ 64" "P < 2 ^ 64" by linarith+
  note iv = scaled_interval [OF fin s(1) c norm, folded N_def W_def P_def]
  note ratio = scaled_ratio [OF fin s(1) c(1), folded N_def P_def]
  have "grisu2 room bits = grisu2_scaled room \<lparr>df = of_nat N, de = e\<rparr> \<lparr>df = of_nat W, de = e\<rparr> \<lparr>df = of_nat P, de = e\<rparr>"
    using fin unfolding finite_positive_iff grisu2_def b N_def W_def P_def e_def by simp
  then show ?thesis
    using grisu2_scaled_ok [OF cp range acc lt iv(1,2,4,3) ratio room] limits_scaled [OF fin s(1)]
    by (simp only: e_def N_def P_def)
qed

section \<open>The decimal number is nearest to the double\<close>

text \<open>The values of the doubles in the order of their bits: each is a unit of the last place above the one before.\<close>

definition place_value :: "nat \<Rightarrow> nat \<Rightarrow> real" where
  "place_value q r =
     (if q = 0 then real r * 2 powi (-1074) else (real r + 2 ^ 52) * 2 powi (int q - 1075))"

definition ordinal_value :: "nat \<Rightarrow> real" where
  "ordinal_value n = place_value (n div 2 ^ 52) (n mod 2 ^ 52)"

definition ulp :: "nat \<Rightarrow> real" where
  "ulp n = (if n div 2 ^ 52 = 0 then 2 powi (-1074) else 2 powi (int (n div 2 ^ 52) - 1075))"

lemma real_of_ordinal: "real_of bits = ordinal_value (unat bits)"
  by (simp add: real_of_def sig_def expo_def ordinal_value_def place_value_def)

lemma place_value_step: "place_value q (Suc r) = place_value q r + (if q = 0 then 2 powi (-1074) else 2 powi (int q - 1075))"
  by (simp add: place_value_def distrib_right)

lemma place_value_carry: "place_value (Suc q) 0 = place_value q (2 ^ 52 - 1) + (if q = 0 then 2 powi (-1074) else 2 powi (int q - 1075))"
proof -
  have r: "real (2 ^ 52 - 1) = 2 ^ 52 - 1" by (simp add: of_nat_diff)
  have "(2::real) powi (int q - 1075 + 1) = 2 powi (int q - 1075) * 2" using powi_add [of 2 "int q - 1075" 1] by simp
  then have "2 ^ 52 * (2::real) powi (int q - 1075 + 1) = (2 ^ 52 - 1 + 2 ^ 52) * 2 powi (int q - 1075) + 2 powi (int q - 1075)"
    by (simp add: algebra_simps)
  moreover have "2 ^ 52 * z = (2 ^ 52 - 1) * z + z" for z :: real by (simp add: algebra_simps)
  ultimately show ?thesis unfolding place_value_def r by (cases "q = 0") (simp_all add: algebra_simps)
qed

lemma ordinal_value_Suc: "ordinal_value (Suc n) = ordinal_value n + ulp n"
proof -
  define q r where "q = n div 2 ^ 52" and "r = n mod 2 ^ 52"
  have n: "n = q * 2 ^ 52 + r" unfolding q_def r_def by (simp only: div_mult_mod_eq)
  have r: "r < 2 ^ 52" by (simp add: r_def)
  show ?thesis
  proof (cases "Suc r = 2 ^ 52")
    case False
    then have "Suc r < 2 ^ 52" using r by linarith
    then have "Suc n div 2 ^ 52 = q" "Suc n mod 2 ^ 52 = Suc r" by (simp_all add: n)
    then show ?thesis
      unfolding ordinal_value_def ulp_def q_def [symmetric] r_def [symmetric] by (simp only: place_value_step)
  next
    case True
    then have S: "Suc n = (q + 1) * 2 ^ 52" by (simp add: n)
    then have "Suc n div 2 ^ 52 = Suc q" "Suc n mod 2 ^ 52 = 0" by simp_all
    moreover have "r = 2 ^ 52 - 1" using True by simp
    ultimately show ?thesis
      unfolding ordinal_value_def ulp_def q_def [symmetric] r_def [symmetric] by (simp only: place_value_carry)
  qed
qed

lemma ulp_pos: "0 < ulp n"
  by (simp add: ulp_def)

lemma ordinal_value_mono: "m \<le> n \<Longrightarrow> ordinal_value m \<le> ordinal_value n"
proof (induction n rule: dec_induct)
  case (step k)
  then show ?case using ulp_pos [of k] ordinal_value_Suc [of k] by linarith
qed simp

lemma upper_midpoint: "upper bits = ordinal_value (unat bits) + ulp (unat bits) / 2"
proof -
  have "(2::real) powi (k - 1) * 2 = 2 powi k" for k using powi_add [of 2 "k - 1" 1] by simp
  from this [of "expo bits"] have "upper bits = real (sig bits) * 2 powi expo bits + 2 powi expo bits / 2"
    unfolding upper_def by (simp add: algebra_simps)
  moreover have "2 powi expo bits = ulp (unat bits)" by (simp add: expo_def ulp_def)
  ultimately show ?thesis by (simp only: real_of_ordinal [symmetric] real_of_def)
qed

lemma lower_midpoint:
  assumes "finite_positive bits"
  shows "lower bits = ordinal_value (unat bits) - ulp (unat bits - 1) / 2"
proof -
  have p: "(2::real) powi (k - 1) * 2 = 2 powi k" for k using powi_add [of 2 "k - 1" 1] by simp
  have p2: "2 powi (expo bits - 1) = 2 powi (expo bits - 2) * (2::real)" using p [of "expo bits - 1"] by simp
  have *: "lower bits = real (sig bits) * 2 powi expo bits - (if closer bits then 2 powi (expo bits - 1) else 2 powi expo bits) / 2"
    unfolding lower_def p [of "expo bits", symmetric] p2 by (simp add: algebra_simps)
  define n where "n = unat bits"
  have "0 < n" using assms by (simp add: n_def finite_positive_def)
  define q r where "q = n div 2 ^ 52" and "r = n mod 2 ^ 52"
  have n: "n = q * 2 ^ 52 + r" unfolding q_def r_def by (simp only: div_mult_mod_eq)
  have r: "r < 2 ^ 52" by (simp add: r_def)
  have c: "closer bits \<longleftrightarrow> r = 0 \<and> 1 < q" by (simp only: closer_def n_def q_def r_def)
  have e: "expo bits = (if q = 0 then -1074 else int q - 1075)" by (simp only: expo_def n_def q_def)
  have "ulp (n - 1) = (if closer bits then 2 powi (expo bits - 1) else 2 powi expo bits)"
  proof (cases "r = 0")
    case True
    then obtain k where k: "q = Suc k" using \<open>0 < n\<close> n by (cases q) simp_all
    then have "n - 1 = k * 2 ^ 52 + (2 ^ 52 - 1)" using True n by simp
    then have "(n - 1) div 2 ^ 52 = k" by simp
    then show ?thesis unfolding ulp_def c e using True k by (cases k) simp_all
  next
    case False
    then have "n - 1 = q * 2 ^ 52 + (r - 1)" using n by simp
    then have "(n - 1) div 2 ^ 52 = q" using r by simp
    then show ?thesis unfolding ulp_def c e using False by simp
  qed
  then show ?thesis unfolding * by (simp only: real_of_ordinal [symmetric] real_of_def n_def)
qed

lemma interval_nearest:
  assumes fin: "finite_positive bits" and V: "lower bits < V" "V < upper bits" and ne: "x \<noteq> bits"
  shows "\<bar>V - real_of bits\<bar> < \<bar>V - real_of x\<bar>"
proof -
  define n m where "n = unat bits" and "m = unat x"
  obtain k where k: "n = Suc k" using fin by (cases n) (simp_all add: n_def finite_positive_def)
  have lo: "(ordinal_value k + ordinal_value n) / 2 < V" "ordinal_value k < ordinal_value n"
    using V(1) ulp_pos [of k] ordinal_value_Suc [of k] unfolding lower_midpoint [OF fin] n_def [symmetric] k by simp_all
  have hi: "V < (ordinal_value n + ordinal_value (Suc n)) / 2" "ordinal_value n < ordinal_value (Suc n)"
    using V(2) ulp_pos [of n] ordinal_value_Suc [of n] unfolding upper_midpoint n_def [symmetric] by simp_all
  have "m \<noteq> n" using ne by (simp add: n_def m_def word_unat_eq_iff)
  then have "m \<le> k \<or> Suc n \<le> m" using k by linarith
  then have "ordinal_value m \<le> ordinal_value k \<or> ordinal_value (Suc n) \<le> ordinal_value m"
    using ordinal_value_mono by blast
  then show ?thesis
    unfolding real_of_ordinal n_def [symmetric] m_def [symmetric] using lo hi by (elim disjE) (simp_all add: abs_if)
qed

text \<open>C6. Grisu2 on every finite positive double: no assertion fails and no write leaves the buffer; the result has
  at most 17 digits, the first and the last of them not zero; and the decimal number is strictly nearer to
  that double than to every other, so that reading it with correct rounding gives the double back.\<close>

theorem grisu2_nearest:
  assumes "isfinite x" and "is_positive x" and "17 \<le> room"
  shows "\<exists>buf k. grisu2 room x = Inr (buf, k)
    \<and> 1 \<le> length buf \<and> length buf \<le> 17 \<and> list_all isdigit buf \<and> hd buf \<noteq> CHR ''0'' \<and> last buf \<noteq> CHR ''0''
    \<and> (\<forall>y. isfinite y \<and> \<not> signbit y \<and> y \<noteq> x \<longrightarrow>
         \<bar>real (digits_val buf) * 10 powi k - real_of x\<bar> < \<bar>real (digits_val buf) * 10 powi k - real_of y\<bar>)"
proof -
  have fin: "finite_positive x" using assms by (simp add: finite_positive_iff)
  obtain buf k where g: "grisu2 room x = Inr (buf, k)" "decimal buf" "last buf \<noteq> CHR ''0''" "length buf \<le> 17"
    "lower x < real (digits_val buf) * 10 powi k" "real (digits_val buf) * 10 powi k < upper x"
    using grisu2_interval [OF fin assms(3)] by blast
  have "1 \<le> length buf" "list_all isdigit buf" "hd buf \<noteq> CHR ''0''" using g(2) by (auto simp: decimal_def Suc_le_eq)
  then show ?thesis using g interval_nearest [OF fin g(5,6)] by blast
qed

theorem grisu2_nearest_witness:
  "\<exists>buf k. grisu2 64 0x3FB999999999999A = Inr (buf, k)
    \<and> 1 \<le> length buf \<and> length buf \<le> 17 \<and> list_all isdigit buf \<and> hd buf \<noteq> CHR ''0'' \<and> last buf \<noteq> CHR ''0''
    \<and> (\<forall>y. isfinite y \<and> \<not> signbit y \<and> y \<noteq> 0x3FB999999999999A \<longrightarrow>
         \<bar>real (digits_val buf) * 10 powi k - real_of 0x3FB999999999999A\<bar>
         < \<bar>real (digits_val buf) * 10 powi k - real_of y\<bar>)"
  by (rule grisu2_nearest) (code_simp+)

end
