(* ===== verification/JsonFloat.thy ===== *)
theory JsonFloat
  imports Grisu "HOL-Library.Log_Nat"
begin

text \<open>
  Floating-point numbers in JSON texts: \<open>to_chars\<close> and \<open>dump_float\<close> of \<open>include/nlohmann/json.hpp\<close>,
  which print the digits of Grisu2, and \<open>strtod\<close> of the C library, with which the lexer reads a number.

  \<^item> The buffer is the text written so far; \<open>room\<close> is the space from the first digit to its end.
  \<^item> \<open>strtod\<close> rounds to the nearest double, to the even one of two that are equally near.

  The lemmas show that printing never fails an assertion or leaves its buffer, that the text has the
  form of a JSON number with a fraction or an exponent, and that reading it gives the double back.
\<close>

section \<open>Printing\<close>

definition fit :: "nat \<Rightarrow> string \<Rightarrow> string res" where
  "fit room s = (if length s \<le> room then Inr s else Inl Overflow)"

definition append_exponent :: "int \<Rightarrow> string res" where
  "append_exponent e =
     asserting (-1000 < e) (asserting (e < 1000)
       (let sign = (if e < 0 then CHR ''-'' else CHR ''+'');
            k = nat (if e < 0 then - e else e)
        in Inr (sign #
             (if k < 10 then [CHR ''0'', char_of (48 + k)]
              else if k < 100 then [char_of (48 + k div 10), char_of (48 + k mod 10)]
              else [char_of (48 + k div 100), char_of (48 + k mod 100 div 10), char_of (48 + k mod 100 mod 10)]))))"

definition format_buffer :: "nat \<Rightarrow> string \<Rightarrow> int \<Rightarrow> int \<Rightarrow> int \<Rightarrow> string res" where
  "format_buffer room buf decimal_exponent min_exp max_exp =
     asserting (min_exp < 0) (asserting (0 < max_exp)
       (let k = int (length buf); n = k + decimal_exponent
        in if k \<le> n \<and> n \<le> max_exp then fit room (buf @ replicate (nat (n - k)) (CHR ''0'') @ ''.0'')
           else if 0 < n \<and> n \<le> max_exp then
             asserting (n < k) (fit room (take (nat n) buf @ ''.'' @ drop (nat n) buf))
           else if min_exp < n \<and> n \<le> 0 then fit room (''0.'' @ replicate (nat (- n)) (CHR ''0'') @ buf)
           else let buf = (if k = 1 then buf else take 1 buf @ ''.'' @ drop 1 buf)
                in res_bind (append_exponent (n - 1)) (\<lambda>ex. fit room (buf @ ''e'' @ ex))))"

definition to_chars :: "nat \<Rightarrow> double \<Rightarrow> string res" where
  "to_chars room value =
     asserting (isfinite value)
       (let (first, value) = (if signbit value then (''-'', value XOR push_bit 63 1) else ([], value));
            room = room - length first
        in if value = 0 then res_bind (fit room ''0.0'') (\<lambda>s. Inr (first @ s))
           else asserting (17 \<le> room)
             (res_bind (grisu2 room value) (\<lambda>(buf, decimal_exponent).
               asserting (length buf \<le> 17)
               (asserting (15 + 2 \<le> room) (asserting (2 + (4 - 1) + 17 \<le> room) (asserting (17 + 6 \<le> room)
                 (res_bind (format_buffer room buf decimal_exponent (-4) 15) (\<lambda>s. Inr (first @ s)))))))))"

definition NUMBER_BUFFER :: nat where "NUMBER_BUFFER = 64"

definition dump_float :: "double \<Rightarrow> string res" where
  "dump_float x = (if \<not> isfinite x then Inr ''null'' else to_chars NUMBER_BUFFER x)"

section \<open>Reading\<close>

text \<open>Significand and decimal exponent of a number token.\<close>

definition float_parts :: "string \<Rightarrow> nat \<times> int" where
  "float_parts s =
     (let s1 = (case s of c # r \<Rightarrow> if c = CHR ''-'' then r else s | [] \<Rightarrow> s);
          ip = takeWhile isdigit s1;
          r1 = dropWhile isdigit s1;
          fp = (case r1 of c # r \<Rightarrow> if c = CHR ''.'' then takeWhile isdigit r else [] | [] \<Rightarrow> []);
          r2 = (case r1 of c # r \<Rightarrow> if c = CHR ''.'' then dropWhile isdigit r else r1 | [] \<Rightarrow> r1);
          ex = (case r2 of [] \<Rightarrow> 0 | _ # r \<Rightarrow> (case scan_int r of Some (v, _) \<Rightarrow> v | None \<Rightarrow> 0))
      in (digits_val (ip @ fp), ex - int (length fp)))"

definition round_half_even :: "nat \<Rightarrow> nat \<Rightarrow> nat" where
  "round_half_even a b =
     (let q = a div b; r = a mod b
      in if 2 * r < b \<or> 2 * r = b \<and> even q then q else q + 1)"

text \<open>\<open>num / den < 2 ^ x\<close>\<close>

definition below_power :: "nat \<Rightarrow> nat \<Rightarrow> int \<Rightarrow> bool" where
  "below_power num den x \<longleftrightarrow> num * 2 ^ nat (- x) < den * 2 ^ nat x"

text \<open>The exponent of the unit in the last place for \<open>num / den\<close>.\<close>

definition unit_exponent :: "nat \<Rightarrow> nat \<Rightarrow> int" where
  "unit_exponent num den =
     (let E = max (-1074) (bitlen (int num) - bitlen (int den) - 53)
      in if below_power num den (53 + E) then E else E + 1)"

definition nearest_bits :: "nat \<Rightarrow> nat \<Rightarrow> nat" where
  "nearest_bits num den =
     (let E = unit_exponent num den
      in if 971 < E then 0x7FF * 2 ^ 52
         else nat (E + 1074) * 2 ^ 52 + round_half_even (num * 2 ^ nat (- E)) (den * 2 ^ nat E))"

definition strtod :: "string \<Rightarrow> double" where
  "strtod s =
     (let (m, e) = float_parts s;
          n = (if m = 0 then 0 else nearest_bits (m * 10 ^ nat e) (10 ^ nat (- e)))
      in of_nat n + (if s \<noteq> [] \<and> hd s = CHR ''-'' then push_bit 63 1 else 0))"

section \<open>Reading a number near a double\<close>

lemma powi_quot: "(2::real) powi x = 2 ^ nat x / 2 ^ nat (- x)"
  by (cases "0 \<le> x") (simp_all add: power_int_def inverse_eq_divide power_one_over)

lemma below_power_iff:
  assumes "0 < den"
  shows "below_power num den x \<longleftrightarrow> real num / real den < 2 powi x"
proof -
  have quot: "a / d < q / p \<longleftrightarrow> a * p < d * q" if "0 < d" "0 < p" for a d p q :: real
    using that by (simp add: field_simps)
  have "below_power num den x \<longleftrightarrow> real (num * 2 ^ nat (- x)) < real (den * 2 ^ nat x)"
    unfolding below_power_def by (simp only: of_nat_less_iff)
  also have "\<dots> \<longleftrightarrow> real num / real den < 2 powi x"
    using assms by (simp add: powi_quot quot)
  finally show ?thesis .
qed

lemma bitlen_real:
  assumes "0 < n"
  shows "2 powi (bitlen (int n) - 1) \<le> real n" and "real n < 2 powi bitlen (int n)" and "1 \<le> bitlen (int n)"
proof -
  have b: "2 ^ nat (bitlen (int n) - 1) \<le> int n" "int n < 2 ^ nat (bitlen (int n))"
    using bitlen_bounds [of "int n"] assms by simp_all
  show l: "1 \<le> bitlen (int n)" using assms bitlen_nonneg [of "int n"] bitlen_eq_zero_iff [of "int n"] by simp
  have "real_of_int (2 ^ nat (bitlen (int n) - 1)) \<le> real_of_int (int n)" "real_of_int (int n) < real_of_int (2 ^ nat (bitlen (int n)))"
    using b by (simp_all only: of_int_le_iff of_int_less_iff)
  then show "2 powi (bitlen (int n) - 1) \<le> real n" and "real n < 2 powi bitlen (int n)"
    using l by (simp_all add: power_int_def)
qed

lemma unit_exponent_spec:
  fixes x :: real
  assumes "0 < num" and "0 < den" and x: "x = real num / real den"
  defines "E \<equiv> unit_exponent num den"
  shows "-1074 \<le> E" and "x < 2 powi (53 + E)" and "E \<noteq> -1074 \<Longrightarrow> 2 powi (52 + E) \<le> x"
proof -
  define bn bd F where "bn = bitlen (int num)" and "bd = bitlen (int den)" and "F = max (-1074) (bn - bd - 53)"
  have E: "E = (if x < 2 powi (53 + F) then F else F + 1)"
    by (simp add: E_def unit_exponent_def Let_def F_def bn_def bd_def x below_power_iff [OF assms(2)])
  have n: "2 powi (bn - 1) \<le> real num" "real num < 2 powi bn" and d: "2 powi (bd - 1) \<le> real den" "real den < 2 powi bd"
    using bitlen_real [OF assms(1)] bitlen_real [OF assms(2)] by (simp_all add: bn_def bd_def)
  have "x < 2 powi bn / 2 powi (bd - 1)"
    unfolding x using n(2) d(1) assms by (intro frac_less) simp_all
  also have "\<dots> = 2 powi (bn - bd + 1)" by (simp add: power_int_diff [symmetric] algebra_simps)
  also have "\<dots> \<le> 2 powi (53 + (F + 1))" by (rule power_int_increasing) (simp_all add: F_def)
  finally have up: "x < 2 powi (53 + (F + 1))" .
  have "2 powi (bn - 1) / 2 powi bd < x"
    unfolding x using n(1) d(2) assms by (intro frac_less2) simp_all
  then have lo: "2 powi (bn - bd - 1) \<le> x" by (simp add: power_int_diff [symmetric] algebra_simps)
  have "-1074 \<le> F" by (simp add: F_def)
  then show "-1074 \<le> E" by (simp add: E)
  show "x < 2 powi (53 + E)" using up by (simp add: E)
  show "2 powi (52 + E) \<le> x" if "E \<noteq> -1074"
  proof (cases "x < 2 powi (53 + F)")
    case True
    then have "F = bn - bd - 53" using that by (simp add: E F_def max_def split: if_splits)
    then have "bn - bd - 1 = 52 + E" using True by (simp add: E)
    then show ?thesis using lo by simp
  next
    case False
    then show ?thesis by (simp add: E algebra_simps)
  qed
qed

lemma round_half_even_near:
  assumes "2 * k * b < 2 * a + b" and "2 * a < 2 * k * b + b"
  shows "round_half_even a b = k"
proof (cases "k * b \<le> a")
  case True
  then obtain r where r: "a = k * b + r" by (metis le_add_diff_inverse)
  then have "2 * r < b" using assms(2) by simp
  then have "a div b = k" "a mod b = r" using r by simp_all
  then show ?thesis using \<open>2 * r < b\<close> by (simp add: round_half_even_def)
next
  case False
  then obtain j where j: "k = Suc j" by (cases k) simp_all
  have "b < 2 * (a - j * b)" "j * b \<le> a" "a < j * b + b" using False assms(1) by (simp_all add: j)
  then obtain r where r: "a = j * b + r" "b < 2 * r" "r < b" by (metis add_diff_cancel_left' add_less_cancel_left le_add_diff_inverse)
  then have "a div b = j" "a mod b = r" by simp_all
  then show ?thesis using r j by (simp add: round_half_even_def)
qed

lemma round_half_even_real:
  assumes "0 < b" and "\<bar>real a / real b - real k\<bar> < 1 / 2"
  shows "round_half_even a b = k"
proof (rule round_half_even_near)
  have "real k - 1 / 2 < real a / real b" "real a / real b < real k + 1 / 2" using assms(2) by linarith+
  then have "(real k - 1 / 2) * real b < real a" "real a < (real k + 1 / 2) * real b"
    using assms(1) by (simp_all only: less_divide_eq divide_less_eq of_nat_0_less_iff if_True)
  then have "real (2 * k * b) < real (2 * a + b)" "real (2 * a) < real (2 * k * b + b)" by (simp_all add: algebra_simps)
  then show "2 * k * b < 2 * a + b" "2 * a < 2 * k * b + b" by (simp_all only: of_nat_less_iff)
qed

lemma unat_parts:
  assumes "finite_positive bits"
  shows "unat bits = nat (expo bits + 1074) * 2 ^ 52 + sig bits"
proof -
  define q r where "q = unat bits div 2 ^ 52" and "r = unat bits mod 2 ^ 52"
  have n: "unat bits = q * 2 ^ 52 + r" unfolding q_def r_def by (simp only: div_mult_mod_eq)
  have "sig bits = (if q = 0 then r else r + 2 ^ 52)" by (simp only: sig_def q_def r_def)
  moreover have "expo bits = (if q = 0 then -1074 else int q - 1075)" by (simp only: expo_def q_def)
  ultimately show ?thesis using n by (cases q) simp_all
qed

lemma round_scaled:
  assumes "0 < den" and "x = real num / real den" and "\<bar>x / 2 powi E - real k\<bar> < 1 / 2"
  shows "round_half_even (num * 2 ^ nat (- E)) (den * 2 ^ nat E) = k"
proof (rule round_half_even_real)
  have "real (num * 2 ^ nat (- E)) / real (den * 2 ^ nat E) = x / 2 powi E"
    by (simp add: assms(2) powi_quot)
  then show "\<bar>real (num * 2 ^ nat (- E)) / real (den * 2 ^ nat E) - real k\<bar> < 1 / 2" using assms(3) by simp
qed (use assms(1) in simp)

lemma near_quotient:
  fixes p x k :: real
  assumes "0 < p" and "(k - 1 / 2) * p < x" and "x < (k + 1 / 2) * p"
  shows "\<bar>x / p - k\<bar> < 1 / 2"
proof -
  have "k - 1 / 2 < x / p" and "x / p < k + 1 / 2" using assms by (simp_all only: less_divide_eq divide_less_eq if_True)
  then show ?thesis by linarith
qed

lemma interval_units:
  assumes "finite_positive bits" and "lower bits < x" and "x < upper bits"
  shows "(real (sig bits) - 1 / 2) * 2 powi expo bits < x" and "x < (real (sig bits) + 1 / 2) * 2 powi expo bits"
    and "closer bits \<Longrightarrow> (2 ^ 52 - 1 / 4) * 2 powi expo bits < x"
proof -
  define y where "y = (2::real) powi (expo bits - 2)"
  have y: "0 < y" "2 powi (expo bits - 1) = 2 * y" "2 powi expo bits = 4 * y"
    using powi_add [of 2 "expo bits - 2" 1] powi_add [of 2 "expo bits - 2" 2] by (simp_all add: y_def)
  show "(real (sig bits) - 1 / 2) * 2 powi expo bits < x"
    using assms(2) y(1) unfolding lower_def y y_def [symmetric] by (auto simp: algebra_simps split: if_splits)
  show "x < (real (sig bits) + 1 / 2) * 2 powi expo bits"
    using assms(3) unfolding upper_def y by (simp add: algebra_simps)
  show "(2 ^ 52 - 1 / 4) * 2 powi expo bits < x" if "closer bits"
    using assms(2) that sig_bounds(5) [OF assms(1) that] unfolding lower_def y y_def [symmetric] by (simp add: algebra_simps)
qed

lemma nearest_bits_interval:
  assumes fin: "finite_positive bits" and pos: "0 < num" "0 < den" and x: "x = real num / real den"
    and V: "lower bits < x" "x < upper bits"
  shows "nearest_bits num den = unat bits"
proof -
  define E e P where "E = unit_exponent num den" and "e = expo bits" and "P = (2::real) powi e"
  have "0 < P" by (simp add: P_def)
  have shift: "(2::real) powi (k + e) = 2 powi k * P" for k by (simp add: P_def powi_add)
  note E = unit_exponent_spec [OF pos x, folded E_def]
  note iv = interval_units [OF fin V, folded e_def, folded P_def]
  have "real (sig bits) \<le> real (2 ^ 53 - 1)" using sig_bounds(2) [OF fin] by (intro of_nat_mono) simp
  then have s: "real (sig bits) \<le> 2 ^ 53 - 1" by simp
  have "E \<le> e"
  proof (rule ccontr)
    assume "\<not> E \<le> e"
    then have "2 powi (53 + e) \<le> (2::real) powi (52 + E)" by (intro power_int_increasing) simp_all
    also have "\<dots> \<le> x" using E(3) sig_bounds(3) [OF fin] \<open>\<not> E \<le> e\<close> by (simp add: e_def)
    finally have "2 ^ 53 * P \<le> x" unfolding shift by simp
    moreover have "(real (sig bits) + 1 / 2) * P \<le> 2 ^ 53 * P" using s \<open>0 < P\<close> by (intro mult_right_mono) simp_all
    ultimately show False using iv(2) by linarith
  qed
  show ?thesis
  proof (cases "E = e")
    case True
    have "\<bar>x / P - real (sig bits)\<bar> < 1 / 2"  by (rule near_quotient [OF \<open>0 < P\<close> iv(1,2)])
    then have "round_half_even (num * 2 ^ nat (- E)) (den * 2 ^ nat E) = sig bits"
      using True by (intro round_scaled [OF pos(2) x]) (simp add: P_def)
    then show ?thesis
      using True sig_bounds(4) [OF fin] unat_parts [OF fin] by (simp add: nearest_bits_def e_def flip: E_def)
  next
    case False
    then have "E < e" using \<open>E \<le> e\<close> by simp
    have "x < 2 powi (53 + E)" by (rule E(2))
    also have "\<dots> \<le> 2 powi (52 + e)" using \<open>E < e\<close> by (intro power_int_increasing) simp_all
    finally have less: "x < 2 ^ 52 * P" unfolding shift by simp
    then have "(real (sig bits) - 1 / 2) * P < 2 ^ 52 * P" using iv(1) by linarith
    then have "real (sig bits) < real (2 ^ 52 + 1)" using \<open>0 < P\<close> by simp
    then have "sig bits < 2 ^ 52 + 1" by (simp only: of_nat_less_iff)
    then have "closer bits" using E(1) \<open>E < e\<close> by (auto simp: closer_def sig_def e_def expo_def split: if_splits)
    then have near: "(2 ^ 52 - 1 / 4) * P < x" by (rule iv(3))
    have "E = e - 1"
    proof (rule ccontr)
      assume "E \<noteq> e - 1"
      then have "2 powi (53 + E) \<le> (2::real) powi (51 + e)" using \<open>E < e\<close> by (intro power_int_increasing) simp_all
      then have "x < 2 ^ 51 * P" using E(2) unfolding shift by simp
      then show False using near \<open>0 < P\<close> by simp
    qed
    have "2 powi E = P / 2" unfolding \<open>E = e - 1\<close> using shift [of "-1"] by simp
    then have "\<bar>x / 2 powi E - real (2 ^ 53)\<bar> < 1 / 2"
      using near less \<open>0 < P\<close> by (intro near_quotient) (simp_all add: algebra_simps)
    then have "round_half_even (num * 2 ^ nat (- E)) (den * 2 ^ nat E) = 2 ^ 53"
      by (rule round_scaled [OF pos(2) x])
    moreover have "nat (E + 1074) * 2 ^ 52 + 2 ^ 53 = unat bits"
      using \<open>E = e - 1\<close> E(1) sig_bounds(5) [OF fin \<open>closer bits\<close>] unfolding unat_parts [OF fin] e_def [symmetric]
      by (simp add: nat_add_distrib nat_diff_distrib)
    ultimately show ?thesis
      using \<open>E < e\<close> sig_bounds(4) [OF fin] by (simp add: nearest_bits_def e_def flip: E_def)
  qed
qed

section \<open>The form of the text\<close>

text \<open>An integral part, a fraction and an exponent, of which the last two may be missing, but not both.\<close>

definition number_text :: "string \<Rightarrow> string \<Rightarrow> (char \<times> string) option \<Rightarrow> string" where
  "number_text ip fp ex =
     ip @ (if fp = [] then [] else CHR ''.'' # fp)
        @ (case ex of None \<Rightarrow> [] | Some (sg, ds) \<Rightarrow> CHR ''e'' # sg # ds)"

definition number_ok :: "string \<Rightarrow> string \<Rightarrow> (char \<times> string) option \<Rightarrow> bool" where
  "number_ok ip fp ex \<longleftrightarrow>
     ip \<noteq> [] \<and> (hd ip = CHR ''0'' \<longrightarrow> ip = ''0'') \<and> (\<forall>c\<in>set (ip @ fp). isdigit c) \<and> (fp \<noteq> [] \<or> ex \<noteq> None)
     \<and> (case ex of None \<Rightarrow> True | Some (sg, ds) \<Rightarrow> (sg = CHR ''+'' \<or> sg = CHR ''-'') \<and> ds \<noteq> [] \<and> (\<forall>c\<in>set ds. isdigit c))"

definition exponent_val :: "(char \<times> string) option \<Rightarrow> int" where
  "exponent_val ex =
     (case ex of None \<Rightarrow> 0 | Some (sg, ds) \<Rightarrow> if sg = CHR ''-'' then - int (digits_val ds) else int (digits_val ds))"

lemma digit_simps [simp]: "isdigit CHR ''0''" "\<not> isdigit CHR ''.''" "\<not> isdigit CHR ''e''" "\<not> isdigit CHR ''-''" "\<not> isdigit CHR ''+''"
  by (simp_all add: isdigit_def)

lemma float_parts_text:
  assumes "number_ok ip fp ex"
  shows "float_parts (number_text ip fp ex) = (digits_val (ip @ fp), exponent_val ex - int (length fp))"
    and "float_parts (CHR ''-'' # number_text ip fp ex) = (digits_val (ip @ fp), exponent_val ex - int (length fp))"
proof -
  define t where "t = (case ex of None \<Rightarrow> [] | Some (sg, ds) \<Rightarrow> CHR ''e'' # sg # ds)"
  have digits: "\<And>c. c \<in> set ip \<Longrightarrow> isdigit c" "\<And>c. c \<in> set fp \<Longrightarrow> isdigit c" "ip \<noteq> []" using assms by (auto simp: number_ok_def)
  have shape: "number_text ip fp ex = ip @ (if fp = [] then [] else CHR ''.'' # fp) @ t" by (simp add: number_text_def t_def)
  have t: "takeWhile isdigit t = []" "dropWhile isdigit t = t" "t = [] \<or> hd t = CHR ''e''"
    by (auto simp: t_def split: option.splits)
  have ex: "(case t of [] \<Rightarrow> 0 | _ # r \<Rightarrow> (case scan_int r of Some (v, _) \<Rightarrow> v | None \<Rightarrow> 0)) = exponent_val ex"
    using assms by (auto simp: t_def number_ok_def exponent_val_def scan_int_def Let_def split: option.splits)
  have split: "takeWhile isdigit (ip @ u) = ip @ takeWhile isdigit u" "dropWhile isdigit (ip @ u) = dropWhile isdigit u"
    "takeWhile isdigit (fp @ u) = fp @ takeWhile isdigit u" "dropWhile isdigit (fp @ u) = dropWhile isdigit u" for u
    using digits by simp_all
  have whole: "takeWhile isdigit ip = ip" "dropWhile isdigit ip = []" "takeWhile isdigit fp = fp" "dropWhile isdigit fp = []"
    using split [of "[]"] by simp_all
  obtain c cs where c: "ip = c # cs" using digits(3) by (cases ip) simp_all
  then have "c \<noteq> CHR ''-''" using digits(1) [of c] by auto
  then have "float_parts (number_text ip fp ex) = float_parts (CHR ''-'' # number_text ip fp ex)"
    unfolding float_parts_def number_text_def c by simp
  moreover have "float_parts (CHR ''-'' # number_text ip fp ex) = (digits_val (ip @ fp), exponent_val ex - int (length fp))"
    unfolding float_parts_def shape using t(3) ex
    by (cases t) (auto simp: Let_def split whole t)
  ultimately show "float_parts (number_text ip fp ex) = (digits_val (ip @ fp), exponent_val ex - int (length fp))"
    and "float_parts (CHR ''-'' # number_text ip fp ex) = (digits_val (ip @ fp), exponent_val ex - int (length fp))" by simp_all
qed

lemma digits_val_append: "digits_val (a @ b) = digits_val a * 10 ^ length b + digits_val b"
proof (induction b rule: rev_induct)
  case (snoc c b)
  have "digits_val ((a @ b) @ [c]) = digits_val a * 10 ^ length (b @ [c]) + digits_val (b @ [c])"
    unfolding digits_val_snoc snoc.IH by (simp add: algebra_simps)
  then show ?case by simp
qed (simp add: digits_val_def)

lemma digits_val_zeros: "digits_val (replicate n (CHR ''0'')) = 0"
  by (induction n) (simp_all add: digits_val_def digit_val_def)

lemma append_exponent_ok:
  assumes "-1000 < e" and "e < 1000"
  shows "\<exists>sg ds. append_exponent e = Inr (sg # ds) \<and> (sg = CHR ''+'' \<or> sg = CHR ''-'') \<and> ds \<noteq> []
    \<and> (\<forall>c\<in>set ds. isdigit c) \<and> length ds \<le> 3 \<and> exponent_val (Some (sg, ds)) = e"
proof -
  define k where "k = nat \<bar>e\<bar>"
  define ds where "ds = (if k < 10 then [CHR ''0'', digit_char k]
    else if k < 100 then [digit_char (k div 10), digit_char (k mod 10)]
    else [digit_char (k div 100), digit_char (k mod 100 div 10), digit_char (k mod 100 mod 10)])"
  have k: "k < 1000" "nat (if e < 0 then - e else e) = k" using assms by (auto simp: k_def)
  have zero: "digit_val CHR ''0'' = 0" by (simp add: digit_val_def)
  have lt: "k div 100 < 10" "k mod 100 div 10 < 10" "k mod 100 mod 10 < 10" "k mod 10 < 10" "k < 100 \<Longrightarrow> k div 10 < 10"
    using k(1) by linarith+
  have "append_exponent e = Inr ((if e < 0 then CHR ''-'' else CHR ''+'') # ds)"
    using assms k(2) unfolding append_exponent_def Let_def ds_def by (simp only: asserting_simps digit_byte lt cong: if_cong)
  moreover have "digits_val ds = k"
  proof -
    have sum: "digits_val [a, b] = 10 * digit_val a + digit_val b"
      "digits_val [a, b, c] = 100 * digit_val a + (10 * digit_val b + digit_val c)" for a b c
      by (simp_all add: digits_val_def)
    consider "k < 10" | "\<not> k < 10" "k < 100" | "\<not> k < 10" "\<not> k < 100" by linarith
    then show ?thesis
      by cases (simp_all only: ds_def sum zero digit_char_simps(2) lt mult_div_mod_eq mult_0_right add_0 if_True if_False)
  qed
  moreover have "\<forall>c\<in>set ds. isdigit c" using lt by (auto simp: ds_def simp del: mod_mod_trivial)
  moreover have "ds \<noteq> []" "length ds \<le> 3" by (simp_all add: ds_def)
  moreover have "exponent_val (Some (if e < 0 then CHR ''-'' else CHR ''+'', ds)) = e"
    unfolding exponent_val_def \<open>digits_val ds = k\<close> option.case prod.case by (simp add: k_def)
  ultimately show ?thesis by (intro exI [of _ "if e < 0 then CHR ''-'' else CHR ''+''"] exI [of _ ds]) simp
qed

lemma decimal_digits: "decimal buf \<Longrightarrow> c \<in> set buf \<Longrightarrow> isdigit c"
  by (auto simp: decimal_def list_all_iff)

text \<open>The text is a number of at most 23 characters and has the value \<open>v\<close>.\<close>

definition prints :: "string \<Rightarrow> real \<Rightarrow> bool" where
  "prints t v \<longleftrightarrow> (\<exists>ip fp ex. t = number_text ip fp ex \<and> number_ok ip fp ex \<and> length t \<le> 23
     \<and> real (digits_val (ip @ fp)) * 10 powi (exponent_val ex - int (length fp)) = v)"

lemma printsI:
  "t = number_text ip fp ex \<Longrightarrow> number_ok ip fp ex \<Longrightarrow> length t \<le> 23
    \<Longrightarrow> real (digits_val (ip @ fp)) * 10 powi (exponent_val ex - int (length fp)) = v \<Longrightarrow> prints t v"
  unfolding prints_def by blast

lemma prints_fixed:
  assumes "decimal buf" and "length buf + z \<le> 15"
  shows "prints (buf @ replicate z (CHR ''0'') @ ''.0'') (real (digits_val buf) * 10 powi int z)"
proof (rule printsI [of _ "buf @ replicate z (CHR ''0'')" "''0''" None])
  show "number_ok (buf @ replicate z CHR ''0'') ''0'' None"
    using assms(1) decimal_digits [OF assms(1)] by (auto simp: number_ok_def decimal_def)
  have "digits_val ((buf @ replicate z CHR ''0'') @ ''0'') = digits_val buf * 10 ^ Suc z"
    using digits_val_zeros [of 1] by (simp add: digits_val_append digits_val_zeros)
  moreover have "(10::real) ^ Suc z * 10 powi (-1) = 10 powi int z" by (simp add: power_int_minus)
  ultimately show "real (digits_val ((buf @ replicate z CHR ''0'') @ ''0'')) * 10 powi (exponent_val None - int (length ''0''))
      = real (digits_val buf) * 10 powi int z"
    by (simp add: exponent_val_def)
qed (use assms in \<open>simp_all add: number_text_def\<close>)

lemma prints_point:
  assumes "decimal buf" and "length buf \<le> 17" and "0 < n" and "n < length buf"
  shows "prints (take n buf @ ''.'' @ drop n buf) (real (digits_val buf) * 10 powi (int n - int (length buf)))"
proof (rule printsI [of _ "take n buf" "drop n buf" None])
  show "number_ok (take n buf) (drop n buf) None"
    using assms decimal_digits [OF assms(1)] by (auto simp: number_ok_def decimal_def dest: in_set_takeD in_set_dropD)
qed (use assms in \<open>simp_all add: number_text_def exponent_val_def of_nat_diff\<close>)

lemma prints_small:
  assumes "decimal buf" and "length buf \<le> 17" and "z < 4"
  shows "prints (''0.'' @ replicate z (CHR ''0'') @ buf) (real (digits_val buf) * 10 powi (- int z - int (length buf)))"
proof (rule printsI [of _ "''0''" "replicate z (CHR ''0'') @ buf" None])
  show "number_ok ''0'' (replicate z CHR ''0'' @ buf) None"
    using assms(1) decimal_digits [OF assms(1)] by (auto simp: number_ok_def decimal_def)
  have "digits_val (''0'' @ replicate z CHR ''0'' @ buf) = digits_val buf"
    using digits_val_zeros [of "Suc z"] digits_val_append [of "replicate (Suc z) CHR ''0''" buf] by simp
  then show "real (digits_val (''0'' @ replicate z CHR ''0'' @ buf)) * 10 powi (exponent_val None - int (length (replicate z CHR ''0'' @ buf)))
      = real (digits_val buf) * 10 powi (- int z - int (length buf))"
    by (simp add: exponent_val_def)
qed (use assms in \<open>auto simp: number_text_def decimal_def\<close>)

lemma prints_exponent:
  assumes "decimal buf" and "length buf \<le> 17" and "append_exponent e = Inr x" and "-1000 < e" and "e < 1000"
  shows "prints ((if length buf = 1 then buf else take 1 buf @ ''.'' @ drop 1 buf) @ ''e'' @ x)
    (real (digits_val buf) * 10 powi (e + 1 - int (length buf)))"
proof -
  obtain sg ds where x: "x = sg # ds" "sg = CHR ''+'' \<or> sg = CHR ''-''" "ds \<noteq> []" "\<forall>c\<in>set ds. isdigit c"
    "length ds \<le> 3" "exponent_val (Some (sg, ds)) = e"
    using append_exponent_ok [OF assms(4,5)] assms(3) by auto
  obtain b bs where b: "buf = b # bs" using assms(1) by (cases buf) (simp_all add: decimal_def)
  show ?thesis
  proof (rule printsI [of _ "[b]" bs "Some (sg, ds)"])
    show "number_ok [b] bs (Some (sg, ds))"
      using x decimal_digits [OF assms(1)] by (auto simp: number_ok_def b)
    show "real (digits_val ([b] @ bs)) * 10 powi (exponent_val (Some (sg, ds)) - int (length bs))
        = real (digits_val buf) * 10 powi (e + 1 - int (length buf))"
      by (simp add: x(6) b)
  qed (use assms(2) x(5) in \<open>auto simp: number_text_def b x(1)\<close>)
qed

lemma format_buffer_ok:
  assumes buf: "decimal buf" "length buf \<le> 17" and room: "23 \<le> room"
    and e: "-1000 < int (length buf) + x - 1" "int (length buf) + x - 1 < 1000"
  shows "\<exists>t. format_buffer room buf x (-4) 15 = Inr t \<and> prints t (real (digits_val buf) * 10 powi x)"
proof -
  have fits: "fit room t = Inr t" if "prints t v" for t v
    using that room by (auto simp: prints_def fit_def)
  define n where "n = int (length buf) + x"
  have k: "1 \<le> length buf" using buf(1) by (cases buf) (simp_all add: decimal_def)
  obtain d where d: "append_exponent (n - 1) = Inr d"
    using append_exponent_ok [of "n - 1"] e by (auto simp: n_def)
  consider "int (length buf) \<le> n" "n \<le> 15" | "0 < n" "n < int (length buf)" "n \<le> 15" | "-4 < n" "n \<le> 0"
    | "\<not> (0 < n \<and> n \<le> 15)" "\<not> (-4 < n \<and> n \<le> 0)" by linarith
  then show ?thesis
  proof cases
    case 1
    then have "length buf + nat x \<le> 15" "0 \<le> x" unfolding n_def by linarith+
    with 1 show ?thesis using prints_fixed [OF buf(1), of "nat x"] fits
      by (auto simp: format_buffer_def Let_def n_def)
  next
    case 2
    then have "nat n < length buf" by linarith
    with 2 show ?thesis using prints_point [OF buf, of "nat n"] fits
      by (auto simp: format_buffer_def Let_def n_def)
  next
    case 3
    then have "nat (- n) < 4" by linarith
    with 3 show ?thesis using prints_small [OF buf, of "nat (- n)"] fits k
      by (auto simp: format_buffer_def Let_def n_def)
  next
    case 4
    then show ?thesis using prints_exponent [OF buf d] fits d k e
      by (auto simp: format_buffer_def Let_def n_def)
  qed
qed

section \<open>Reading undoes printing\<close>

lemma number_value:
  assumes "number_ok ip fp ex" and "0 < m" and "m = digits_val (ip @ fp)" and "e = exponent_val ex - int (length fp)"
    and "finite_positive bits" and "lower bits < real m * 10 powi e" and "real m * 10 powi e < upper bits"
  shows "strtod (number_text ip fp ex) = bits" and "strtod (CHR ''-'' # number_text ip fp ex) = bits + push_bit 63 1"
proof -
  have "real m * 10 powi e = real (m * 10 ^ nat e) / real (10 ^ nat (- e))"
    by (cases "0 \<le> e") (simp_all add: power_int_def inverse_eq_divide power_one_over)
  then have n: "nearest_bits (m * 10 ^ nat e) (10 ^ nat (- e)) = unat bits"
    using assms(2,5-7) by (intro nearest_bits_interval) simp_all
  have "number_text ip fp ex \<noteq> [] \<and> hd (number_text ip fp ex) \<noteq> CHR ''-''"
    using assms(1) by (cases ip) (auto simp: number_ok_def number_text_def)
  then show "strtod (number_text ip fp ex) = bits"
    using n assms(2) float_parts_text(1) [OF assms(1)] by (simp add: strtod_def Let_def flip: assms(3,4))
  show "strtod (CHR ''-'' # number_text ip fp ex) = bits + push_bit 63 1"
    using n assms(2) float_parts_text(2) [OF assms(1)] by (simp add: strtod_def Let_def flip: assms(3,4))
qed

lemma negated:
  assumes "signbit bits"
  defines "v \<equiv> bits XOR push_bit 63 1"
  shows "bits = v + push_bit 63 1" and "\<not> signbit v" and "isfinite v = isfinite bits"
proof -
  have b: "bit bits 63" using assms(1) by (simp add: signbit_def)
  define M :: "64 word" where "M = push_bit 63 1"
  have m: "bit M n \<longleftrightarrow> n = 63" for n unfolding M_def bit_push_bit_iff bit_1_iff by auto
  have v: "bit v n \<longleftrightarrow> bit bits n \<noteq> (n = 63)" for n unfolding v_def bit_xor_iff M_def [symmetric] m by blast
  have "v + M = v OR M" using b by (intro disjunctive_add) (auto simp: v m)
  also have "\<dots> = bits" by (rule bit_eqI) (use b in \<open>auto simp: bit_or_iff v m\<close>)
  finally show eq: "bits = v + push_bit 63 1" by (simp only: M_def)
  show neg: "\<not> signbit v" using b by (simp add: signbit_def v)
  have "unat (push_bit 63 1 :: 64 word) = 2 ^ 63" using unat_push [of 1 63] by simp
  moreover have "unat v < 2 ^ 63" using neg by (simp add: signbit_iff)
  ultimately have "unat bits = unat v + 2 ^ 11 * 2 ^ 52"
    using unat_add64 [of v "push_bit 63 1"] eq by simp
  then have "unat bits div 2 ^ 52 = 2 ^ 11 + unat v div 2 ^ 52"
    using div_mult_self1 [of "2 ^ 52" "unat v" "2 ^ 11"] by simp
  then have "unat bits div 2 ^ 52 mod 2 ^ 11 = unat v div 2 ^ 52 mod 2 ^ 11" by (simp only: mod_add_self1)
  then show "isfinite v = isfinite bits" by (simp only: isfinite_iff)
qed

lemma decimal_less: "decimal buf \<Longrightarrow> digits_val buf < 10 ^ length buf"
proof -
  have "list_all isdigit ds \<Longrightarrow> digits_val ds < 10 ^ length ds" for ds
  proof (induction ds rule: rev_induct)
    case (snoc c ds)
    then have "digit_val c < 10" "digits_val ds < 10 ^ length ds" by (auto simp: isdigit_def digit_val_def)
    then show ?case by (simp add: digits_val_snoc)
  qed (simp add: digits_val_def)
  then show "decimal buf \<Longrightarrow> digits_val buf < 10 ^ length buf" by (simp add: decimal_def)
qed

lemma limit_range:
  assumes "finite_positive bits"
  shows "2 powi (-1075) \<le> lower bits" and "upper bits \<le> 2 powi 1024"
proof -
  note b = sig_bounds [OF assms]
  have "real (sig bits) \<le> real (2 ^ 53 - 1)" using b(2) by (intro of_nat_mono) simp
  then have "upper bits \<le> 2 ^ 54 * 2 powi (expo bits - 1)"
    unfolding upper_def by (intro mult_right_mono) simp_all
  also have "\<dots> = 2 powi (54 + (expo bits - 1))" using powi_add [of 2 54 "expo bits - 1"] by simp
  also have "\<dots> \<le> 2 powi 1024" using b(4) by (intro power_int_increasing) simp_all
  finally show "upper bits \<le> 2 powi 1024" .
  have "1 \<le> real (sig bits)" using b(1) by simp
  show "2 powi (-1075) \<le> lower bits"
  proof (cases "closer bits")
    case True
    have "2 powi (-1075) \<le> (2::real) powi (1 + (expo bits - 2))" using b(3) by (intro power_int_increasing) simp_all
    also have "\<dots> = 2 * 2 powi (expo bits - 2)" using powi_add [of 2 1 "expo bits - 2"] by simp
    also have "\<dots> \<le> lower bits" unfolding lower_def using True \<open>1 \<le> real (sig bits)\<close> by simp
    finally show ?thesis .
  next
    case False
    have "2 powi (-1075) \<le> (2::real) powi (expo bits - 1)" using b(3) by (intro power_int_increasing) simp_all
    also have "\<dots> \<le> lower bits" unfolding lower_def using False \<open>1 \<le> real (sig bits)\<close> by simp
    finally show ?thesis .
  qed
qed

lemma two_ten: "(2::real) ^ 1075 \<le> 10 ^ 999"
proof -
  have "(2::real) ^ 1075 \<le> 2 ^ (3 * 999)" by (rule power_increasing) simp_all
  also have "\<dots> = (2 ^ 3) ^ 999" by (rule power_mult)
  also have "\<dots> \<le> 10 ^ 999" by (rule power_mono) simp_all
  finally show ?thesis .
qed

lemma ten_powi_less: "10 powi k < (10::real) ^ c \<Longrightarrow> k < int c"
  using power_int_increasing [of "int c" k "10::real"] by (cases "int c \<le> k") simp_all

lemma ten_powi_greater: "inverse ((10::real) ^ c) < 10 powi k \<Longrightarrow> - int c < k"
  using power_int_increasing [of k "- int c" "10::real"] by (cases "k \<le> - int c") (simp_all add: power_int_minus)

lemma exponent_range:
  assumes fin: "finite_positive bits" and buf: "decimal buf"
    and V: "lower bits < real (digits_val buf) * 10 powi x" "real (digits_val buf) * 10 powi x < upper bits"
  shows "-1000 < int (length buf) + x - 1" and "int (length buf) + x - 1 < 1000"
proof -
  define n where "n = int (length buf) + x"
  obtain j where j: "length buf = Suc j" using buf by (cases buf) (simp_all add: decimal_def)
  have "real (10 ^ (length buf - 1)) \<le> real (digits_val buf)" using decimal_ge [OF buf] by (rule real_le)
  then have "10 ^ (length buf - 1) * 10 powi x \<le> real (digits_val buf) * 10 powi x" by (intro mult_right_mono) simp_all
  moreover have "(10::real) ^ (length buf - 1) * 10 powi x = 10 powi (n - 1)"
    using powi_add [of 10 "int j" x] by (simp add: n_def j)
  ultimately have "10 powi (n - 1) < (2::real) powi 1024" using V(2) limit_range(2) [OF fin] by linarith
  also have "\<dots> = 2 ^ 1024" by (rule power_int_numeral)
  also have "\<dots> \<le> 2 ^ 1075" by (rule power_increasing) simp_all
  finally have "10 powi (n - 1) < (10::real) ^ 999" using two_ten by (rule less_le_trans)
  then have "n - 1 < int 999" by (rule ten_powi_less)
  then show "int (length buf) + x - 1 < 1000" by (simp add: n_def)
  have "real (digits_val buf) \<le> real (10 ^ length buf)" using decimal_less [OF buf] by (intro real_le) simp
  then have "real (digits_val buf) * 10 powi x \<le> 10 ^ length buf * 10 powi x" by (intro mult_right_mono) simp_all
  also have "\<dots> = 10 powi n" using powi_add [of 10 "int (length buf)" x] by (simp add: n_def)
  finally have "2 powi (-1075) < (10::real) powi n" using V(1) limit_range(1) [OF fin] by linarith
  moreover have "inverse ((10::real) ^ 999) \<le> inverse (2 ^ 1075)" by (rule le_imp_inverse_le [OF two_ten]) simp
  moreover have "(2::real) powi (-1075) = inverse (2 ^ 1075)" by (simp only: power_int_minus power_int_numeral)
  ultimately have "inverse ((10::real) ^ 999) < 10 powi n" by linarith
  then have "- int 999 < n" by (rule ten_powi_greater)
  then show "-1000 < int (length buf) + x - 1" by (simp add: n_def)
qed

lemma finite_positiveI: "isfinite bits \<Longrightarrow> \<not> signbit bits \<Longrightarrow> bits \<noteq> 0 \<Longrightarrow> finite_positive bits"
  by (simp add: finite_positive_iff is_positive_def)

lemma number_text_long: "number_ok ip fp ex \<Longrightarrow> 3 \<le> length (number_text ip fp ex)"
  by (cases ip; cases fp) (auto simp: number_ok_def number_text_def Suc_le_eq split: option.splits)

text \<open>The text of a double that is not negative, and what is read from it.\<close>

definition text_of :: "string \<Rightarrow> double \<Rightarrow> bool" where
  "text_of t bits \<longleftrightarrow> (\<exists>ip fp ex. t = number_text ip fp ex \<and> number_ok ip fp ex \<and> length t \<le> 23)
     \<and> strtod t = bits \<and> strtod (CHR ''-'' # t) = bits + push_bit 63 1"

lemma positive_text:
  assumes fin: "finite_positive bits" and room: "23 \<le> room"
  shows "\<exists>buf x t. grisu2 room bits = Inr (buf, x) \<and> length buf \<le> 17 \<and> format_buffer room buf x (-4) 15 = Inr t \<and> text_of t bits"
proof -
  obtain buf x where g: "grisu2 room bits = Inr (buf, x)" "decimal buf" "length buf \<le> 17"
    "lower bits < real (digits_val buf) * 10 powi x" "real (digits_val buf) * 10 powi x < upper bits"
    using grisu2_interval [OF fin, of room] room by auto
  obtain t where t: "format_buffer room buf x (-4) 15 = Inr t" "prints t (real (digits_val buf) * 10 powi x)"
    using format_buffer_ok [OF g(2,3) room exponent_range [OF fin g(2,4,5)]] by blast
  then obtain ip fp ex where n: "t = number_text ip fp ex" "number_ok ip fp ex" "length t \<le> 23"
    "real (digits_val (ip @ fp)) * 10 powi (exponent_val ex - int (length fp)) = real (digits_val buf) * 10 powi x"
    by (auto simp: prints_def)
  have "(2::real) powi (-1075) \<le> lower bits" by (rule limit_range(1) [OF fin])
  moreover have "(0::real) < 2 powi (-1075)" by (rule zero_less_power_int) simp
  ultimately have "0 < digits_val (ip @ fp)" using g(4) n(4) by (cases "digits_val (ip @ fp) = 0") simp_all
  then have "text_of t bits"
    unfolding text_of_def using number_value [OF n(2) _ refl refl fin] g(4,5) n by auto
  then show ?thesis using g t by blast
qed

lemma zero_text: "text_of ''0.0'' 0"
proof -
  have ok: "number_ok ''0'' ''0'' None" and eq: "number_text ''0'' ''0'' None = ''0.0''"
    by (simp_all add: number_ok_def number_text_def)
  have "float_parts ''0.0'' = (0, -1)" "float_parts (CHR ''-'' # ''0.0'') = (0, -1)"
    using float_parts_text [OF ok] unfolding eq by (simp_all add: digits_val_def digit_val_def exponent_val_def)
  then have "strtod ''0.0'' = 0" "strtod (CHR ''-'' # ''0.0'') = 0 + push_bit 63 1" by (simp_all add: strtod_def)
  moreover have "length ''0.0'' \<le> 23" by simp
  ultimately show ?thesis unfolding text_of_def using ok eq by metis
qed

lemma dump_float_ok:
  assumes "isfinite bits"
  shows "\<exists>s t b. dump_float bits = Inr (s @ t) \<and> (s = [] \<and> b = bits \<or> s = ''-'' \<and> bits = b + push_bit 63 1) \<and> text_of t b"
proof -
  define b where "b = (if signbit bits then bits XOR push_bit 63 1 else bits)"
  define s where "s = (if signbit bits then ''-'' else [])"
  have b: "isfinite b" "\<not> signbit b" "s = [] \<and> b = bits \<or> s = ''-'' \<and> bits = b + push_bit 63 1"
    using negated [of bits] assms by (auto simp: b_def s_def)
  have room: "23 \<le> NUMBER_BUFFER - length s" by (simp add: NUMBER_BUFFER_def s_def)
  have pair: "(if signbit bits then (''-'', bits XOR push_bit 63 1) else ([], bits)) = (s, b)" by (simp add: s_def b_def)
  have "\<exists>t. to_chars NUMBER_BUFFER bits = Inr (s @ t) \<and> text_of t b"
  proof (cases "b = 0")
    case True
    then have "to_chars NUMBER_BUFFER bits = Inr (s @ ''0.0'')"
      using assms room unfolding to_chars_def pair Let_def split by (simp add: fit_def)
    then show ?thesis using zero_text True by auto
  next
    case False
    from positive_text [OF finite_positiveI [OF b(1,2) this] room] obtain buf x t where
      "grisu2 (NUMBER_BUFFER - length s) b = Inr (buf, x)" "length buf \<le> 17"
      "format_buffer (NUMBER_BUFFER - length s) buf x (-4) 15 = Inr t" "text_of t b" by blast
    then show ?thesis
      using assms room False unfolding to_chars_def pair Let_def split by simp
  qed
  then show ?thesis using assms b(3) by (auto simp: dump_float_def)
qed

interpretation float_codec: codec isfinite dump_float "\<lambda>t. Inr (strtod t)"
proof unfold_locales
  fix x :: double
  assume "isfinite x"
  then obtain t where "dump_float x = Inr t" "strtod t = x"
    using dump_float_ok [of x] by (auto simp: text_of_def)
  then show "\<exists>t. dump_float x = Inr t" and "dump_float x = Inr t' \<Longrightarrow> Inr (strtod t') = Inr x" for t' by simp_all
qed

text \<open>C5. Printing a double and reading the text with \<open>strtod\<close> gives the same 64 bits, for every finite double:
  zeros with their sign, subnormal numbers and the largest numbers included.\<close>

theorem float_round_trip:
  assumes "isfinite x"
  shows "\<exists>t. dump_float x = Inr t \<and> strtod t = x"
  using float_codec.encode_total [OF assms] float_codec.decode_encode [OF assms] by auto

theorem float_round_trip_witness:
  "\<exists>t. dump_float 1 = Inr t \<and> strtod t = 1"
  by (rule float_round_trip) code_simp

text \<open>C36. Printing any double, finite or not, fails no assertion and uses at most 24 of the 64 bytes of the number
  buffer.\<close>

theorem dump_float_fits: "\<exists>t. dump_float x = Inr t \<and> 3 \<le> length t \<and> length t \<le> 24"
proof (cases "isfinite x")
  case True
  then obtain s t b where d: "dump_float x = Inr (s @ t)" "s = [] \<or> s = ''-''" "text_of t b"
    using dump_float_ok [of x] by blast
  then have "3 \<le> length t" "length t \<le> 23"
    using number_text_long by (auto simp: text_of_def)
  then show ?thesis using d by auto
qed (simp add: dump_float_def)

end
