(* ===== verification/JsonLexer.thy ===== *)
theory JsonLexer
  imports Json JsonFloat
begin

text \<open>
  The scanner of \<open>include/nlohmann/json.hpp\<close> (class \<open>lexer\<close>): strings with escapes and UTF-8
  validation, numbers by the state machine of RFC 8259, literals, white space and the byte order
  mark.

  The input adapter is the list of the bytes not read yet; \<open>get()\<close> takes the first one and at the
  end yields EOF again and again; \<open>unget()\<close> leaves it. A token carries its value; an error carries
  the lexer's \<open>error_message\<close>. The decimal point is the one of the "C" locale, which the programs
  never change.
\<close>

unbundle bit_operations_syntax

datatype token =
    T_true | T_false | T_null
  | T_string string
  | T_unsigned nat
  | T_integer int
  | T_float double
  | T_begin_array | T_end_array | T_begin_object | T_end_object
  | T_name_separator | T_value_separator
  | T_end
  | T_error string

abbreviation quote :: char where "quote \<equiv> CHR 0x22"
abbreviation backslash :: char where "backslash \<equiv> CHR 0x5C"

abbreviation byte_of :: "char \<Rightarrow> nat" where "byte_of c \<equiv> of_char c"

section \<open>Strings\<close>

definition hex_val :: "char \<Rightarrow> nat option" where
  "hex_val c =
     (let b = byte_of c
      in if 0x30 \<le> b \<and> b \<le> 0x39 then Some (b - 0x30)
         else if 0x41 \<le> b \<and> b \<le> 0x46 then Some (b - 0x37)
         else if 0x61 \<le> b \<and> b \<le> 0x66 then Some (b - 0x57)
         else None)"

text \<open>Four hex digits, most significant first; \<open>None\<close> is the \<open>-1\<close> of the code.\<close>

fun hex_digits :: "nat list \<Rightarrow> nat \<Rightarrow> string \<Rightarrow> (nat \<times> string) option" where
  "hex_digits [] cp inp = Some (cp, inp)"
| "hex_digits (f # fs) cp inp =
     (case inp of
        [] \<Rightarrow> None
      | c # r \<Rightarrow> (case hex_val c of None \<Rightarrow> None | Some v \<Rightarrow> hex_digits fs (cp + push_bit f v) r))"

definition get_codepoint :: "string \<Rightarrow> (nat \<times> string) option" where
  "get_codepoint inp = hex_digits [12, 8, 4, 0] 0 inp"

text \<open>The bytes of a code point.\<close>

definition utf8_bytes :: "nat \<Rightarrow> string" where
  "utf8_bytes cp =
     (if cp < 0x80 then [char_of cp]
      else if cp \<le> 0x7FF then
        [char_of (0xC0 OR drop_bit 6 cp), char_of (0x80 OR (cp AND 0x3F))]
      else if cp \<le> 0xFFFF then
        [char_of (0xE0 OR drop_bit 12 cp), char_of (0x80 OR (drop_bit 6 cp AND 0x3F)),
         char_of (0x80 OR (cp AND 0x3F))]
      else
        [char_of (0xF0 OR drop_bit 18 cp), char_of (0x80 OR (drop_bit 12 cp AND 0x3F)),
         char_of (0x80 OR (drop_bit 6 cp AND 0x3F)), char_of (0x80 OR (cp AND 0x3F))])"

definition msg_hex :: string where
  "msg_hex = ''invalid string: '' @ [CHR 0x27, backslash, CHR ''u'', CHR 0x27]
     @ '' must be followed by 4 hex digits''"

definition msg_high :: string where
  "msg_high = ''invalid string: surrogate U+D800..U+DBFF must be followed by U+DC00..U+DFFF''"

definition msg_low :: string where
  "msg_low = ''invalid string: surrogate U+DC00..U+DFFF must follow U+D800..U+DBFF''"

text \<open>What follows \<open>\u\<close>: the bytes it stands for and the rest, or an error.\<close>

definition unicode_escape :: "string \<Rightarrow> string + (string \<times> string)" where
  "unicode_escape inp =
     (case get_codepoint inp of
        None \<Rightarrow> Inl msg_hex
      | Some (cp1, r) \<Rightarrow>
          if 0xD800 \<le> cp1 \<and> cp1 \<le> 0xDBFF then
            (case r of
               b # u # r' \<Rightarrow>
                 if b = backslash \<and> u = CHR ''u'' then
                   (case get_codepoint r' of
                      None \<Rightarrow> Inl msg_hex
                    | Some (cp2, r'') \<Rightarrow>
                        if 0xDC00 \<le> cp2 \<and> cp2 \<le> 0xDFFF
                        then Inr (utf8_bytes (push_bit 10 cp1 + cp2 - 0x35FDC00), r'')
                        else Inl msg_high)
                 else Inl msg_high
             | _ \<Rightarrow> Inl msg_high)
          else if 0xDC00 \<le> cp1 \<and> cp1 \<le> 0xDFFF then Inl msg_low
          else Inr (utf8_bytes cp1, r))"

definition simple_escape :: "char \<Rightarrow> char option" where
  "simple_escape c =
     (if c = quote then Some quote
      else if c = backslash then Some backslash
      else if c = CHR ''/'' then Some (CHR ''/'')
      else if c = CHR ''b'' then Some (CHR 0x08)
      else if c = CHR ''f'' then Some (CHR 0x0C)
      else if c = CHR ''n'' then Some (CHR 0x0A)
      else if c = CHR ''r'' then Some (CHR 0x0D)
      else if c = CHR ''t'' then Some (CHR 0x09)
      else None)"

text \<open>For a lead byte, the ranges of the bytes that must follow it.\<close>

definition lead_ranges :: "nat \<Rightarrow> (nat \<times> nat) list option" where
  "lead_ranges b =
     (if 0xC2 \<le> b \<and> b \<le> 0xDF then Some [(0x80, 0xBF)]
      else if b = 0xE0 then Some [(0xA0, 0xBF), (0x80, 0xBF)]
      else if 0xE1 \<le> b \<and> b \<le> 0xEC \<or> b = 0xEE \<or> b = 0xEF then Some [(0x80, 0xBF), (0x80, 0xBF)]
      else if b = 0xED then Some [(0x80, 0x9F), (0x80, 0xBF)]
      else if b = 0xF0 then Some [(0x90, 0xBF), (0x80, 0xBF), (0x80, 0xBF)]
      else if 0xF1 \<le> b \<and> b \<le> 0xF3 then Some [(0x80, 0xBF), (0x80, 0xBF), (0x80, 0xBF)]
      else if b = 0xF4 then Some [(0x80, 0x8F), (0x80, 0xBF), (0x80, 0xBF)]
      else None)"

fun next_byte_in_range :: "(nat \<times> nat) list \<Rightarrow> string \<Rightarrow> (string \<times> string) option" where
  "next_byte_in_range [] inp = Some ([], inp)"
| "next_byte_in_range ((lo, hi) # rs) inp =
     (case inp of
        [] \<Rightarrow> None
      | c # r \<Rightarrow>
          if lo \<le> byte_of c \<and> byte_of c \<le> hi
          then map_option (\<lambda>(bs, r'). (c # bs, r')) (next_byte_in_range rs r)
          else None)"

definition control_name :: "nat \<Rightarrow> string" where
  "control_name b =
     [''NUL'', ''SOH'', ''STX'', ''ETX'', ''EOT'', ''ENQ'', ''ACK'', ''BEL'', ''BS'', ''HT'', ''LF'',
      ''VT'', ''FF'', ''CR'', ''SO'', ''SI'', ''DLE'', ''DC1'', ''DC2'', ''DC3'', ''DC4'', ''NAK'',
      ''SYN'', ''ETB'', ''CAN'', ''EM'', ''SUB'', ''ESC'', ''FS'', ''GS'', ''RS'', ''US''] ! b"

definition hex_digit_upper :: "nat \<Rightarrow> char" where
  "hex_digit_upper d = ''0123456789ABCDEF'' ! d"

text \<open>The short escape that the message of five of the control characters also names.\<close>

definition control_alternative :: "nat \<Rightarrow> string" where
  "control_alternative b =
     (if b = 0x08 then '' or '' @ [backslash, CHR ''b'']
      else if b = 0x09 then '' or '' @ [backslash, CHR ''t'']
      else if b = 0x0A then '' or '' @ [backslash, CHR ''n'']
      else if b = 0x0C then '' or '' @ [backslash, CHR ''f'']
      else if b = 0x0D then '' or '' @ [backslash, CHR ''r'']
      else [])"

definition msg_control :: "nat \<Rightarrow> string" where
  "msg_control b =
     (let xx = [hex_digit_upper (b div 16), hex_digit_upper (b mod 16)]
      in ''invalid string: control character U+00'' @ xx @ '' ('' @ control_name b
         @ '') must be escaped to '' @ [backslash] @ ''u00'' @ xx @ control_alternative b)"

definition msg_utf8 :: string where
  "msg_utf8 = ''invalid string: ill-formed UTF-8 byte''"

definition msg_quote :: string where
  "msg_quote = ''invalid string: missing closing quote''"

definition msg_escape :: string where
  "msg_escape = ''invalid string: forbidden character after backslash''"

lemma next_byte_length: "next_byte_in_range rs inp = Some (bs, r) \<Longrightarrow> length r \<le> length inp"
  by (induction rs inp arbitrary: bs r rule: next_byte_in_range.induct)
    (auto split: list.splits if_splits dest: le_SucI)

lemma hex_digits_length: "hex_digits fs cp inp = Some (v, r) \<Longrightarrow> length r \<le> length inp"
proof (induction fs cp inp rule: hex_digits.induct)
  case (2 f fs cp inp)
  then show ?case by (fastforce split: list.splits option.splits)
qed simp

lemma get_codepoint_length: "get_codepoint inp = Some (v, r) \<Longrightarrow> length r \<le> length inp"
  unfolding get_codepoint_def by (rule hex_digits_length)

lemma unicode_escape_length:
  assumes "unicode_escape inp = Inr (bs, r)"
  shows "length r \<le> length inp"
  using assms unfolding unicode_escape_def
  by (auto split: option.splits list.splits if_splits dest!: get_codepoint_length)

text \<open>The loop of \<open>scan_string\<close>: the buffer so far and the bytes after the opening quote.\<close>

function scan_string :: "string \<Rightarrow> string \<Rightarrow> token \<times> string" where
  "scan_string buf inp =
     (case inp of
        [] \<Rightarrow> (T_error msg_quote, [])
      | c # r \<Rightarrow>
          if c = quote then (T_string buf, r)
          else if c = backslash then
            (case r of
               [] \<Rightarrow> (T_error msg_escape, [])
             | e # r' \<Rightarrow>
                 if e = CHR ''u'' then
                   (case unicode_escape r' of
                      Inl m \<Rightarrow> (T_error m, r')
                    | Inr (bs, r'') \<Rightarrow> scan_string (buf @ bs) r'')
                 else
                   (case simple_escape e of
                      None \<Rightarrow> (T_error msg_escape, r')
                    | Some x \<Rightarrow> scan_string (buf @ [x]) r'))
          else if byte_of c < 0x20 then (T_error (msg_control (byte_of c)), r)
          else if byte_of c \<le> 0x7F then scan_string (buf @ [c]) r
          else
            (case lead_ranges (byte_of c) of
               None \<Rightarrow> (T_error msg_utf8, r)
             | Some rs \<Rightarrow>
                 (case next_byte_in_range rs r of
                    None \<Rightarrow> (T_error msg_utf8, r)
                  | Some (bs, r') \<Rightarrow> scan_string (buf @ c # bs) r')))"
  by pat_completeness auto
termination
  by (relation "measure (\<lambda>(buf, inp). length inp)")
    (auto dest!: unicode_escape_length [OF sym, simplified] next_byte_length [OF sym, simplified]
       unicode_escape_length next_byte_length)

declare scan_string.simps [simp del]

section \<open>Numbers\<close>

datatype num_type = Num_unsigned | Num_integer | Num_float

datatype num_state =
  N_minus | N_zero | N_any1 | N_decimal1 | N_decimal2 | N_exponent | N_sign | N_any2

text \<open>
  \<open>scan_number_done\<close>: \<open>strtoull\<close> and \<open>strtoll\<close> report a value out of range through \<open>errno\<close>, and the
  number is then read as a floating-point one.
\<close>

definition number_done :: "num_type \<Rightarrow> string \<Rightarrow> token" where
  "number_done ty buf =
     (case ty of
        Num_unsigned \<Rightarrow> if digits_val buf < 2 ^ 64 then T_unsigned (digits_val buf) else T_float (strtod buf)
      | Num_integer \<Rightarrow>
          if digits_val (tl buf) \<le> 2 ^ 63 then T_integer (- int (digits_val (tl buf))) else T_float (strtod buf)
      | Num_float \<Rightarrow> T_float (strtod buf))"

text \<open>
  One label of \<open>scan_number\<close> and the next byte: the next label, with the number type it sets, the
  end of the number, or an error.
\<close>

datatype num_next = Goto num_state num_type | NumDone | NumError string

definition digit19 :: "char \<Rightarrow> bool" where
  "digit19 c \<longleftrightarrow> isdigit c \<and> c \<noteq> CHR ''0''"

definition opt_char :: "(char \<Rightarrow> bool) \<Rightarrow> char option \<Rightarrow> bool" where
  "opt_char P c \<longleftrightarrow> (case c of Some d \<Rightarrow> P d | None \<Rightarrow> False)"

fun num_step :: "num_state \<Rightarrow> num_type \<Rightarrow> char option \<Rightarrow> num_next" where
  "num_step N_minus ty c =
     (if c = Some (CHR ''0'') then Goto N_zero ty
      else if opt_char digit19 c then Goto N_any1 ty
      else NumError (''invalid number; expected digit after '' @ [CHR 0x27, CHR ''-'', CHR 0x27]))"
| "num_step N_zero ty c =
     (if c = Some (CHR ''.'') then Goto N_decimal1 Num_float
      else if c = Some (CHR ''e'') \<or> c = Some (CHR ''E'') then Goto N_exponent Num_float
      else NumDone)"
| "num_step N_any1 ty c =
     (if opt_char isdigit c then Goto N_any1 ty
      else if c = Some (CHR ''.'') then Goto N_decimal1 Num_float
      else if c = Some (CHR ''e'') \<or> c = Some (CHR ''E'') then Goto N_exponent Num_float
      else NumDone)"
| "num_step N_decimal1 ty c =
     (if opt_char isdigit c then Goto N_decimal2 ty
      else NumError (''invalid number; expected digit after '' @ [CHR 0x27, CHR ''.'', CHR 0x27]))"
| "num_step N_decimal2 ty c =
     (if opt_char isdigit c then Goto N_decimal2 ty
      else if c = Some (CHR ''e'') \<or> c = Some (CHR ''E'') then Goto N_exponent Num_float
      else NumDone)"
| "num_step N_exponent ty c =
     (if c = Some (CHR ''+'') \<or> c = Some (CHR ''-'') then Goto N_sign ty
      else if opt_char isdigit c then Goto N_any2 ty
      else NumError ''invalid number; expected '+', '-', or digit after exponent'')"
| "num_step N_sign ty c =
     (if opt_char isdigit c then Goto N_any2 ty
      else NumError ''invalid number; expected digit after exponent sign'')"
| "num_step N_any2 ty c =
     (if opt_char isdigit c then Goto N_any2 ty else NumDone)"

fun scan_number_from :: "num_state \<Rightarrow> num_type \<Rightarrow> string \<Rightarrow> string \<Rightarrow> token \<times> string" where
  "scan_number_from st ty buf [] =
     (case num_step st ty None of
        NumError m \<Rightarrow> (T_error m, [])
      | _ \<Rightarrow> (number_done ty buf, []))"
| "scan_number_from st ty buf (c # r) =
     (case num_step st ty (Some c) of
        Goto st' ty' \<Rightarrow> scan_number_from st' ty' (buf @ [c]) r
      | NumDone \<Rightarrow> (number_done ty buf, c # r)
      | NumError m \<Rightarrow> (T_error m, r))"

text \<open>Entered with a first byte that is a minus or a digit.\<close>

definition scan_number :: "char \<Rightarrow> string \<Rightarrow> token \<times> string" where
  "scan_number c r =
     (if c = CHR ''-'' then scan_number_from N_minus Num_integer [c] r
      else if c = CHR ''0'' then scan_number_from N_zero Num_unsigned [c] r
      else scan_number_from N_any1 Num_unsigned [c] r)"

section \<open>Tokens\<close>

fun scan_literal :: "string \<Rightarrow> token \<Rightarrow> string \<Rightarrow> token \<times> string" where
  "scan_literal [] tok inp = (tok, inp)"
| "scan_literal (l # ls) tok inp =
     (case inp of
        [] \<Rightarrow> (T_error ''invalid literal'', [])
      | c # r \<Rightarrow> if c = l then scan_literal ls tok r else (T_error ''invalid literal'', r))"

definition json_space :: "char \<Rightarrow> bool" where
  "json_space c \<longleftrightarrow> c = CHR 0x20 \<or> c = CHR 0x09 \<or> c = CHR 0x0A \<or> c = CHR 0x0D"

definition skip_whitespace :: "string \<Rightarrow> string" where
  "skip_whitespace inp = dropWhile json_space inp"

definition skip_bom :: "string \<Rightarrow> string option" where
  "skip_bom inp =
     (case inp of
        c # r \<Rightarrow>
          if c = CHR 0xEF then
            (case r of
               d # e # r' \<Rightarrow> if d = CHR 0xBB \<and> e = CHR 0xBF then Some r' else None
             | _ \<Rightarrow> None)
          else Some inp
      | [] \<Rightarrow> Some [])"

definition json_scan :: "string \<Rightarrow> token \<times> string" where
  "json_scan inp =
     (case skip_whitespace inp of
        [] \<Rightarrow> (T_end, [])
      | c # r \<Rightarrow>
          if c = CHR 0x5B then (T_begin_array, r)
          else if c = CHR 0x5D then (T_end_array, r)
          else if c = CHR 0x7B then (T_begin_object, r)
          else if c = CHR 0x7D then (T_end_object, r)
          else if c = CHR '':'' then (T_name_separator, r)
          else if c = CHR '','' then (T_value_separator, r)
          else if c = CHR ''t'' then scan_literal ''rue'' T_true r
          else if c = CHR ''f'' then scan_literal ''alse'' T_false r
          else if c = CHR ''n'' then scan_literal ''ull'' T_null r
          else if c = quote then scan_string [] r
          else if c = CHR ''-'' \<or> isdigit c then scan_number c r
          else if c = NUL then (T_end, r)
          else (T_error ''invalid literal'', r))"

text \<open>The first call also skips the byte order mark.\<close>

definition scan_first :: "string \<Rightarrow> token \<times> string" where
  "scan_first inp =
     (case skip_bom inp of
        None \<Rightarrow> (T_error ''invalid BOM; must be 0xEF 0xBB 0xBF if given'', [])
      | Some inp' \<Rightarrow> json_scan inp')"

section \<open>A token consumes input\<close>

fun is_error :: "token \<Rightarrow> bool" where
  "is_error (T_error m) = True"
| "is_error _ = False"

text \<open>The loop, one case for each kind of byte.\<close>

lemma scan_string_Nil: "scan_string buf [] = (T_error msg_quote, [])"
  by (subst scan_string.simps) simp

lemma scan_string_quote: "scan_string buf (quote # r) = (T_string buf, r)"
  by (subst scan_string.simps) simp

lemma scan_string_backslash_end: "scan_string buf [backslash] = (T_error msg_escape, [])"
  by (subst scan_string.simps) simp

lemma scan_string_unicode:
  "scan_string buf (backslash # CHR ''u'' # r) =
     (case unicode_escape r of
        Inl m \<Rightarrow> (T_error m, r)
      | Inr (bs, r') \<Rightarrow> scan_string (buf @ bs) r')"
  by (subst scan_string.simps) simp

lemma scan_string_escape:
  "e \<noteq> CHR ''u'' \<Longrightarrow>
   scan_string buf (backslash # e # r) =
     (case simple_escape e of
        None \<Rightarrow> (T_error msg_escape, r)
      | Some x \<Rightarrow> scan_string (buf @ [x]) r)"
  by (subst scan_string.simps) simp

lemma scan_string_control:
  "byte_of c < 0x20 \<Longrightarrow> scan_string buf (c # r) = (T_error (msg_control (byte_of c)), r)"
  by (subst scan_string.simps) auto

lemma scan_string_plain:
  "0x20 \<le> byte_of c \<Longrightarrow> byte_of c \<le> 0x7F \<Longrightarrow> c \<noteq> quote \<Longrightarrow> c \<noteq> backslash \<Longrightarrow>
   scan_string buf (c # r) = scan_string (buf @ [c]) r"
  by (subst scan_string.simps) simp

lemma scan_string_multi:
  "0x7F < byte_of c \<Longrightarrow>
   scan_string buf (c # r) =
     (case lead_ranges (byte_of c) of
        None \<Rightarrow> (T_error msg_utf8, r)
      | Some rs \<Rightarrow>
          (case next_byte_in_range rs r of
             None \<Rightarrow> (T_error msg_utf8, r)
           | Some (bs, r') \<Rightarrow> scan_string (buf @ c # bs) r'))"
  by (subst scan_string.simps) auto

lemmas scan_string_cases =
  scan_string_Nil scan_string_quote scan_string_backslash_end scan_string_unicode
  scan_string_escape scan_string_control scan_string_plain scan_string_multi

lemma string_byte_cases:
  obtains (quote) "c = quote" | (backslash) "c = backslash" | (control) "byte_of c < (0x20::nat)"
  | (plain) "0x20 \<le> byte_of c" "byte_of c \<le> (0x7F::nat)" "c \<noteq> quote" "c \<noteq> backslash"
  | (multi) "(0x7F::nat) < byte_of c"
  by fastforce

lemma scan_string_length: "scan_string buf inp = (tok, r) \<Longrightarrow> length r \<le> length inp"
proof (induction "length inp" arbitrary: buf inp tok r rule: less_induct)
  case less
  show ?case
  proof (cases inp)
    case Nil
    with less.prems show ?thesis by (simp add: scan_string_Nil)
  next
    case (Cons c r1)
    note ih = less.hyps [unfolded Cons]
    show ?thesis
    proof (cases c rule: string_byte_cases)
      case backslash
      then show ?thesis
      proof (cases r1)
        case (Cons e r2)
        then show ?thesis
        proof (cases "e = CHR ''u''")
          case True
          with less.prems Cons \<open>inp = c # r1\<close> backslash show ?thesis
            by (auto simp: scan_string_cases split: sum.splits
                dest!: unicode_escape_length dest: ih [rotated])
        next
          case False
          with less.prems Cons \<open>inp = c # r1\<close> backslash show ?thesis
            by (auto simp: scan_string_cases split: option.splits dest: ih [rotated])
        qed
      qed (use less.prems Cons in \<open>simp add: scan_string_cases\<close>)
    next
      case multi
      with less.prems Cons show ?thesis
        by (auto simp: scan_string_cases split: option.splits
            dest!: next_byte_length dest: ih [rotated])
    qed (use less.prems Cons in \<open>auto simp: scan_string_cases dest: ih [rotated]\<close>)
  qed
qed

lemma scan_number_from_length: "scan_number_from st ty buf inp = (tok, r) \<Longrightarrow> length r \<le> length inp"
  by (induction st ty buf inp rule: scan_number_from.induct)
    (auto split: num_next.splits)

lemma scan_literal_length: "scan_literal ls tok inp = (t, r) \<Longrightarrow> length r \<le> length inp"
  by (induction ls tok inp rule: scan_literal.induct) (auto split: list.splits if_splits)

lemma json_scan_length: "json_scan inp = (tok, r) \<Longrightarrow> inp \<noteq> [] \<Longrightarrow> tok \<noteq> T_end \<Longrightarrow> length r < length inp"
proof -
  assume h: "json_scan inp = (tok, r)" "inp \<noteq> []" "tok \<noteq> T_end"
  have le: "length (skip_whitespace inp) \<le> length inp"
    unfolding skip_whitespace_def by (rule length_dropWhile_le)
  show ?thesis
  proof (cases "skip_whitespace inp")
    case Nil
    with h show ?thesis by (simp add: json_scan_def)
  next
    case (Cons c r1)
    with h le show ?thesis
      by (auto simp: json_scan_def scan_number_def simp del: scan_literal.simps split: if_splits
          dest!: scan_string_length scan_number_from_length scan_literal_length)
  qed
qed

lemma json_scan_Nil [simp]: "json_scan [] = (T_end, [])"
  by (simp add: json_scan_def skip_whitespace_def)

lemma json_scan_shorter: "json_scan inp = (tok, r) \<Longrightarrow> tok \<noteq> T_end \<Longrightarrow> length r < length inp"
  using json_scan_length by (cases inp) fastforce+

lemma json_scan_le: "json_scan inp = (tok, r) \<Longrightarrow> length r \<le> length inp"
proof (cases "tok = T_end")
  case True
  moreover assume "json_scan inp = (tok, r)"
  moreover have "length (skip_whitespace inp) \<le> length inp"
    unfolding skip_whitespace_def by (rule length_dropWhile_le)
  ultimately show ?thesis
    by (cases "skip_whitespace inp")
      (auto simp: json_scan_def scan_number_def simp del: scan_literal.simps split: if_splits
        dest!: scan_string_length scan_number_from_length scan_literal_length)
qed (use json_scan_shorter in fastforce)

end
