(* ===== verification/JsonParser.thy ===== *)
theory JsonParser
  imports JsonLexer
begin

text \<open>
  The parser of \<open>include/nlohmann/json.hpp\<close>: \<open>sax_parse_internal\<close> driving the DOM builder
  \<open>json_sax_dom_parser\<close>, and \<open>json::parse\<close> on top of it.

  \<^item> A \<open>frame\<close> is an entry of the parser's \<open>states\<close> stack with the container of the builder's
    \<open>ref_stack\<close> it belongs to: the elements so far of an array, or the members so far of an object
    with the key whose value is being read.
  \<^item> \<open>parse_value\<close> is the loop entered at its top, with the last token; \<open>after_value\<close> is the loop
    entered at the evaluation of the state, after a value was parsed. Every round consumes input,
    which is why the loop ends.
  \<^item> A floating-point number is out of range if \<open>strtod\<close> returned infinity.
\<close>

section \<open>The builder\<close>

datatype frame =
    FArray "json list"
  | FObject "(string \<times> json) list" string

text \<open>A finished value goes into the container on top of the stack (\<open>handle_value\<close>).\<close>

fun handle_value :: "json \<Rightarrow> frame \<Rightarrow> frame" where
  "handle_value v (FArray xs) = FArray (xs @ [v])"
| "handle_value v (FObject m k) = FObject (map_put k v m) k"

text \<open>\<open>end_array\<close> and \<open>end_object\<close>: the container itself is the finished value.\<close>

fun frame_value :: "frame \<Rightarrow> json" where
  "frame_value (FArray xs) = JArray xs"
| "frame_value (FObject m k) = JObject m"

section \<open>The loop\<close>

text \<open>What a token that is a value by itself stands for.\<close>

fun scalar :: "token \<Rightarrow> json option" where
  "scalar T_true = Some (JBool True)"
| "scalar T_false = Some (JBool False)"
| "scalar T_null = Some JNull"
| "scalar (T_string s) = Some (JString s)"
| "scalar (T_unsigned n) = Some (JUnsigned n)"
| "scalar (T_integer i) = Some (JInteger i)"
| "scalar _ = None"

text \<open>A key and its colon, and the first token of the value behind them.\<close>

definition member_head :: "token \<Rightarrow> string \<Rightarrow> json_exn + (string \<times> token \<times> string)" where
  "member_head tok r =
     (case tok of
        T_string k \<Rightarrow>
          (case json_scan r of
             (T_name_separator, r1) \<Rightarrow> (case json_scan r1 of (t, r2) \<Rightarrow> Inr (k, t, r2))
           | _ \<Rightarrow> Inl (Parse_error 101))
      | _ \<Rightarrow> Inl (Parse_error 101))"

lemma member_head_length: "member_head tok r = Inr (k, t, r') \<Longrightarrow> length r' < length r"
proof -
  assume "member_head tok r = Inr (k, t, r')"
  then obtain r1 where "json_scan r = (T_name_separator, r1)" "json_scan r1 = (t, r')"
    by (auto simp: member_head_def split: token.splits prod.splits)
  then show ?thesis using json_scan_shorter [of r T_name_separator r1] json_scan_le [of r1 t r'] by simp
qed

definition parse_measure ::
  "(frame list \<times> token \<times> string) + (frame list \<times> json \<times> string) \<Rightarrow> nat" where
  "parse_measure x =
     (case x of
        Inl (fs, tok, r) \<Rightarrow> 3 * length r + (if tok = T_end then 0 else 2)
      | Inr (fs, v, r) \<Rightarrow> 3 * length r + 1)"

lemma json_scan_bound:
  "json_scan r = (t, r1) \<Longrightarrow> length r1 \<le> length r \<and> (t = T_end \<or> length r1 < length r)"
  using json_scan_le [of r t r1] json_scan_shorter [of r t r1] by auto

lemma scalar_not_end: "scalar tok = Some v \<Longrightarrow> tok \<noteq> T_end"
  by (cases tok) auto

function parse_value :: "frame list \<Rightarrow> token \<Rightarrow> string \<Rightarrow> json_exn + (json \<times> string)"
  and after_value :: "frame list \<Rightarrow> json \<Rightarrow> string \<Rightarrow> json_exn + (json \<times> string)" where
  "parse_value fs tok r =
     (case tok of
        T_begin_object \<Rightarrow>
          (case json_scan r of (t, r1) \<Rightarrow>
             if t = T_end_object then after_value fs (JObject []) r1
             else res_bind (member_head t r1) (\<lambda>(k, t', r2). parse_value (FObject [] k # fs) t' r2))
      | T_begin_array \<Rightarrow>
          (case json_scan r of (t, r1) \<Rightarrow>
             if t = T_end_array then after_value fs (JArray []) r1
             else parse_value (FArray [] # fs) t r1)
      | T_float x \<Rightarrow>
          if isfinite x then after_value fs (JFloat x) r else Inl (Out_of_range 406)
      | _ \<Rightarrow> (case scalar tok of Some v \<Rightarrow> after_value fs v r | None \<Rightarrow> Inl (Parse_error 101)))"
| "after_value [] v r = Inr (v, r)"
| "after_value (FArray xs # fs) v r =
     (case json_scan r of (t, r1) \<Rightarrow>
        if t = T_value_separator then
          (case json_scan r1 of (t', r2) \<Rightarrow> parse_value (handle_value v (FArray xs) # fs) t' r2)
        else if t = T_end_array then after_value fs (frame_value (handle_value v (FArray xs))) r1
        else Inl (Parse_error 101))"
| "after_value (FObject m key # fs) v r =
     (case json_scan r of (t, r1) \<Rightarrow>
        if t = T_value_separator then
          (case json_scan r1 of (t', r2) \<Rightarrow>
             res_bind (member_head t' r2) (\<lambda>(k, t'', r3).
               parse_value (FObject (map_put key v m) k # fs) t'' r3))
        else if t = T_end_object then after_value fs (frame_value (handle_value v (FObject m key))) r1
        else Inl (Parse_error 101))"
  by pat_completeness auto
termination
  apply (relation "measure parse_measure")
  apply (auto simp: parse_measure_def
      dest!: sym [of _ "json_scan _"] member_head_length dest: scalar_not_end)
  apply (auto dest!: json_scan_bound)
  done

declare parse_value.simps [simp del] after_value.simps [simp del]

section \<open>\<open>json::parse\<close>\<close>

text \<open>The whole input must be one value (strict mode); an error is thrown.\<close>

definition json_parse :: "string \<Rightarrow> json_exn + json" where
  "json_parse s =
     (case scan_first s of (t, r) \<Rightarrow>
        res_bind (parse_value [] t r) (\<lambda>(v, r').
          if fst (json_scan r') = T_end then Inr v else Inl (Parse_error 101)))"

section \<open>Parsed values are well-formed\<close>

fun frame_wf :: "frame \<Rightarrow> bool" where
  "frame_wf (FArray xs) = (\<forall>x\<in>set xs. json_wf x)"
| "frame_wf (FObject m k) = json_wf (JObject m)"

lemma set_map_put: "set (map_put k v m) \<subseteq> insert (k, v) (set m)"
  by (induction k v m rule: map_put.induct) auto

lemma handle_value_wf: "frame_wf f \<Longrightarrow> json_wf v \<Longrightarrow> frame_wf (handle_value v f)"
  using set_map_put by (cases f) (fastforce simp: keys_sorted_put)+

lemma frame_value_wf: "frame_wf f \<Longrightarrow> json_wf (frame_value f)"
  by (cases f) auto

lemma scalar_wf: "scalar tok = Some v \<Longrightarrow> json_wf v"
  by (cases tok) auto

lemma parse_wf:
  "parse_value fs tok r = Inr (v, r') \<Longrightarrow> (\<forall>f\<in>set fs. frame_wf f) \<Longrightarrow> json_wf v"
  "after_value gs w q = Inr (v, r') \<Longrightarrow> (\<forall>f\<in>set gs. frame_wf f) \<Longrightarrow> json_wf w \<Longrightarrow> json_wf v"
proof (induction fs tok r and gs w q rule: parse_value_after_value.induct)
  case (1 fs tok r)
  obtain t r1 where sc: "json_scan r = (t, r1)" by fastforce
  show ?case
  proof (cases tok)
    case T_begin_object
    then show ?thesis
      using "1.IH" [unfolded sc, unfolded T_begin_object, simplified] sc "1.prems"
      by (auto simp: parse_value.simps [of _ T_begin_object] elim!: res_bindE split: if_splits)
  next
    case T_begin_array
    then show ?thesis
      using "1.IH" [unfolded sc, unfolded T_begin_array, simplified] sc "1.prems"
      by (auto simp: parse_value.simps [of _ T_begin_array] split: if_splits)
  next
    case (T_float s)
    then show ?thesis
      using "1.IH" [unfolded T_float, simplified] "1.prems"
      by (auto simp: parse_value.simps [of _ "T_float s"] split: if_splits)
  qed (use "1.IH" "1.prems" in \<open>auto simp: parse_value.simps [of fs _ r]\<close>)
next
  case (2 v r)
  then show ?case by (simp add: after_value.simps)
next
  case (3 xs fs v r)
  then show ?case
    using handle_value_wf [of "FArray xs" v]
    by (auto simp: after_value.simps split: prod.splits if_splits)
next
  case (4 m key fs v r)
  then show ?case
    using handle_value_wf [of "FObject m key" v]
    by (auto simp: after_value.simps elim!: res_bindE split: prod.splits if_splits)
qed

text \<open>Every value that \<open>json::parse\<close> yields is well-formed: the members of each object in it are in
  strictly increasing key order, so no key occurs twice, whatever the text repeats.\<close>

theorem json_parse_wf:
  assumes "json_parse s = Inr v"
  shows "json_wf v"
  using assms parse_wf(1) [of "[]"]
  by (auto simp: json_parse_def elim!: res_bindE split: prod.splits if_splits)

text \<open>What evaluates a parse of a concrete text.\<close>

lemmas json_eval =
  json_parse_def scan_first_def skip_bom_def json_scan_def skip_whitespace_def json_space_def
  scan_string_cases parse_value.simps after_value.simps member_head_def scan_number_def
  isdigit_def opt_char_def number_done_def digits_val_def digit_val_def less_char_def

lemma example_object:
  "json_parse [CHR 0x7B, quote, CHR ''b'', quote, CHR '':'', CHR ''1'', CHR '','', CHR '' '',
     quote, CHR ''a'', quote, CHR '':'', CHR ''t'', CHR ''r'', CHR ''u'', CHR ''e'', CHR 0x7D] =
   Inr (JObject [(''a'', JBool True), (''b'', JUnsigned 1)])"
  by (simp add: json_eval)

theorem json_parse_wf_witness: "json_wf (JObject [(''a'', JBool True), (''b'', JUnsigned 1)])"
  by (rule json_parse_wf [OF example_object])

end
