(* ===== verification/JsonDump.thy ===== *)
theory JsonDump
  imports JsonParser
begin

text \<open>
  The serializer of \<open>include/nlohmann/json.hpp\<close> with the settings of \<open>dump()\<close> and \<open>to_string\<close>: no
  pretty printing, strict error handler. Strings go through the table-driven UTF-8 decoder and a
  buffer of 512 bytes that is flushed when fewer than 13 are left; integers are written backwards,
  two digits at a time, into a buffer of 64.

  The lemmas show that the buffers never overflow, that the integer routine prints the decimal
  representation, that the decoder accepts what the lexer accepts, and that parsing undoes dumping.
\<close>

unbundle bit_operations_syntax

datatype json_fail = Jfault fault | Jexn json_exn

section \<open>The UTF-8 decoder\<close>

text \<open>The class of a byte (rows 00 to FF of the table) and the transitions (rows s0 to s8).\<close>

definition utf8_classes :: "nat list" where
  "utf8_classes =
     replicate 128 0 @ replicate 16 1 @ replicate 16 9 @ replicate 32 7 @ [8, 8] @ replicate 30 2
     @ [0xA, 3, 3, 3, 3, 3, 3, 3, 3, 3, 3, 3, 3, 4, 3, 3]
     @ [0xB, 6, 6, 6, 5, 8, 8, 8, 8, 8, 8, 8, 8, 8, 8, 8]"

definition utf8_steps :: "nat list" where
  "utf8_steps =
     [0, 1, 2, 3, 5, 8, 7, 1, 1, 1, 4, 6, 1, 1, 1, 1,
      1, 1, 1, 1, 1, 1, 1, 1, 1, 1, 1, 1, 1, 1, 1, 1, 1, 0, 1, 1, 1, 1, 1, 0, 1, 0, 1, 1, 1, 1, 1, 1,
      1, 2, 1, 1, 1, 1, 1, 2, 1, 2, 1, 1, 1, 1, 1, 1, 1, 1, 1, 1, 1, 1, 1, 2, 1, 1, 1, 1, 1, 1, 1, 1,
      1, 2, 1, 1, 1, 1, 1, 1, 1, 2, 1, 1, 1, 1, 1, 1, 1, 1, 1, 1, 1, 1, 1, 3, 1, 3, 1, 1, 1, 1, 1, 1,
      1, 3, 1, 1, 1, 1, 1, 3, 1, 3, 1, 1, 1, 1, 1, 1, 1, 3, 1, 1, 1, 1, 1, 1, 1, 1, 1, 1, 1, 1, 1, 1]"

definition utf8d :: "nat list" where
  "utf8d = utf8_classes @ utf8_steps"

definition UTF8_ACCEPT :: nat where "UTF8_ACCEPT = 0"
definition UTF8_REJECT :: nat where "UTF8_REJECT = 1"

text \<open>The new state and the code point, which is a 32-bit value.\<close>

definition decode :: "nat \<Rightarrow> 32 word \<Rightarrow> nat \<Rightarrow> nat \<times> 32 word" where
  "decode state codep byte =
     (let ty = utf8d ! byte;
          codep = (if state \<noteq> UTF8_ACCEPT
                   then (of_nat byte AND 0x3F) OR push_bit 6 codep
                   else drop_bit ty 0xFF AND of_nat byte)
      in (utf8d ! (256 + state * 16 + ty), codep))"

section \<open>Strings\<close>

definition hex_digit_lower :: "nat \<Rightarrow> char" where
  "hex_digit_lower d = ''0123456789abcdef'' ! d"

text \<open>\<open>%04x\<close> of a 16-bit value.\<close>

definition hex4 :: "nat \<Rightarrow> string" where
  "hex4 v = [hex_digit_lower (v div 4096 mod 16), hex_digit_lower (v div 256 mod 16),
             hex_digit_lower (v div 16 mod 16), hex_digit_lower (v mod 16)]"

text \<open>
  What an accepted code point adds to the buffer, and how many bytes of the buffer the writing
  needs: \<open>snprintf\<close> also writes a terminating NUL.
\<close>

definition escape_codepoint :: "bool \<Rightarrow> 32 word \<Rightarrow> char \<Rightarrow> string \<times> nat" where
  "escape_codepoint ensure_ascii cp c =
     (if cp = 0x08 then ([backslash, CHR ''b''], 2)
      else if cp = 0x09 then ([backslash, CHR ''t''], 2)
      else if cp = 0x0A then ([backslash, CHR ''n''], 2)
      else if cp = 0x0C then ([backslash, CHR ''f''], 2)
      else if cp = 0x0D then ([backslash, CHR ''r''], 2)
      else if cp = 0x22 then ([backslash, quote], 2)
      else if cp = 0x5C then ([backslash, backslash], 2)
      else if cp \<le> 0x1F \<or> ensure_ascii \<and> 0x7F \<le> cp then
        (if cp \<le> 0xFFFF
         then ([backslash, CHR ''u''] @ hex4 (unat cp), 7)
         else ([backslash, CHR ''u''] @ hex4 (unat (0xD7C0 + drop_bit 10 cp) mod 0x10000)
               @ [backslash, CHR ''u''] @ hex4 (unat (0xDC00 + (cp AND 0x3FF)) mod 0x10000), 13))
      else ([c], 1))"

definition STRING_BUFFER :: nat where "STRING_BUFFER = 512"

text \<open>
  The loop over the bytes: the decoder's state and code point, the buffer, and what was written.
  At the end the rest of the buffer is written, unless a code point is incomplete.
\<close>

fun dump_bytes ::
  "bool \<Rightarrow> nat \<Rightarrow> 32 word \<Rightarrow> string \<Rightarrow> string \<Rightarrow> string \<Rightarrow> json_fail + string" where
  "dump_bytes ensure_ascii state cp buf out [] =
     (if state = UTF8_ACCEPT then Inr (out @ buf) else Inl (Jexn (Type_error 316)))"
| "dump_bytes ensure_ascii state cp buf out (c # s) =
     (let (state', cp') = decode state cp (byte_of c)
      in if state' = UTF8_ACCEPT then
           (let (e, need) = escape_codepoint ensure_ascii cp' c
            in if STRING_BUFFER < length buf + need then Inl (Jfault Overflow)
               else let buf' = buf @ e
                    in if STRING_BUFFER - length buf' < 13
                       then dump_bytes ensure_ascii state' cp' [] (out @ buf') s
                       else dump_bytes ensure_ascii state' cp' buf' out s)
         else if state' = UTF8_REJECT then Inl (Jexn (Type_error 316))
         else if ensure_ascii then dump_bytes ensure_ascii state' cp' buf out s
         else if STRING_BUFFER < length buf + 1 then Inl (Jfault Overflow)
         else dump_bytes ensure_ascii state' cp' (buf @ [c]) out s)"

definition dump_escaped :: "bool \<Rightarrow> string \<Rightarrow> json_fail + string" where
  "dump_escaped ensure_ascii s = dump_bytes ensure_ascii UTF8_ACCEPT 0 [] [] s"

section \<open>Integers\<close>

function count_digits_from :: "nat \<Rightarrow> nat \<Rightarrow> nat" where
  "count_digits_from x n_digits =
     (if x < 10 then n_digits
      else if x < 100 then n_digits + 1
      else if x < 1000 then n_digits + 2
      else if x < 10000 then n_digits + 3
      else count_digits_from (x div 10000) (n_digits + 4))"
  by pat_completeness auto
termination by (relation "measure fst") auto

declare count_digits_from.simps [simp del]

definition count_digits :: "nat \<Rightarrow> nat" where
  "count_digits x = count_digits_from x 1"

text \<open>The pairs 00 to 99 of the table.\<close>

definition digits_to_99 :: "nat \<Rightarrow> char \<times> char" where
  "digits_to_99 i = (digit_char (i div 10), digit_char (i mod 10))"

definition put_pair :: "nat \<Rightarrow> nat \<Rightarrow> string \<Rightarrow> string" where
  "put_pair i p buf = (case digits_to_99 i of (a, b) \<Rightarrow> buf[p - 1 := b, p - 2 := a])"

text \<open>The digits are written backwards from position \<open>p\<close>.\<close>

function write_digits :: "nat \<Rightarrow> nat \<Rightarrow> string \<Rightarrow> string" where
  "write_digits v p buf =
     (if 100 \<le> v then write_digits (v div 100) (p - 2) (put_pair (v mod 100) p buf)
      else if 10 \<le> v then put_pair v p buf
      else buf[p - 1 := digit_char v])"
  by pat_completeness auto
termination by (relation "measure fst") auto

declare write_digits.simps [simp del]

text \<open>\<open>-(x + 1)\<close> converted to 64 bits, plus one.\<close>

definition remove_sign :: "int \<Rightarrow> 64 word" where
  "remove_sign x = word_of_int (- (x + 1)) + 1"

definition dump_integer :: "int \<Rightarrow> string" where
  "dump_integer x =
     (if x = 0 then ''0''
      else let neg = (x < 0);
               abs_value = (if neg then unat (remove_sign x) else nat x);
               n_chars = (if neg then 1 else 0) + count_digits abs_value;
               number_buffer = (if neg then (zeros 64)[0 := CHR ''-''] else zeros 64)
           in take n_chars (write_digits abs_value n_chars number_buffer))"

section \<open>Values\<close>

definition quoted :: "string \<Rightarrow> string" where
  "quoted s = [quote] @ s @ [quote]"

text \<open>The bytes of a binary value as numbers, with a separator between them, and its subtype.\<close>

definition byte_text :: "char \<Rightarrow> string" where
  "byte_text b = dump_integer (byte_of b)"

fun separated :: "string \<Rightarrow> string list \<Rightarrow> string" where
  "separated sep [] = []"
| "separated sep (x # xs) = (if xs = [] then x else x @ sep @ separated sep xs)"

definition subtype_text :: "nat option \<Rightarrow> string" where
  "subtype_text st = (case st of None \<Rightarrow> ''null'' | Some n \<Rightarrow> dump_integer (int n))"

fun dump :: "bool \<Rightarrow> json \<Rightarrow> json_fail + string"
  and dump_members :: "bool \<Rightarrow> (string \<times> json) list \<Rightarrow> json_fail + string"
  and dump_elements :: "bool \<Rightarrow> json list \<Rightarrow> json_fail + string" where
  "dump ea (JObject m) =
     (if m = [] then Inr [CHR 0x7B, CHR 0x7D]
      else res_bind (dump_members ea m) (\<lambda>s. Inr ([CHR 0x7B] @ s @ [CHR 0x7D])))"
| "dump ea (JArray xs) =
     (if xs = [] then Inr [CHR 0x5B, CHR 0x5D]
      else res_bind (dump_elements ea xs) (\<lambda>s. Inr ([CHR 0x5B] @ s @ [CHR 0x5D])))"
| "dump ea (JString s) = res_bind (dump_escaped ea s) (\<lambda>e. Inr (quoted e))"
| "dump ea (JBool b) = Inr (if b then ''true'' else ''false'')"
| "dump ea (JInteger i) = Inr (dump_integer i)"
| "dump ea (JUnsigned n) = Inr (dump_integer (int n))"
| "dump ea (JFloat x) = (case dump_float x of Inl f \<Rightarrow> Inl (Jfault f) | Inr s \<Rightarrow> Inr s)"
| "dump ea JNull = Inr ''null''"
| "dump ea (JBinary bs st) =
     Inr ([CHR 0x7B] @ quoted ''bytes'' @ '':['' @ separated '','' (map byte_text bs) @ ''],'' @ quoted ''subtype'' @ '':''
       @ subtype_text st @ [CHR 0x7D])"
| "dump_members ea [] = Inr []"
| "dump_members ea ((k, v) # m) =
     res_bind (dump_escaped ea k) (\<lambda>e.
     res_bind (dump ea v) (\<lambda>d.
       if m = [] then Inr (quoted e @ [CHR '':''] @ d)
       else res_bind (dump_members ea m) (\<lambda>r. Inr (quoted e @ [CHR '':''] @ d @ [CHR '',''] @ r))))"
| "dump_elements ea [] = Inr []"
| "dump_elements ea (v # xs) =
     res_bind (dump ea v) (\<lambda>d.
       if xs = [] then Inr d
       else res_bind (dump_elements ea xs) (\<lambda>r. Inr (d @ [CHR '',''] @ r)))"

section \<open>The integer routine prints decimal\<close>

lemma dec_small: "n < 10 \<Longrightarrow> dec n = [digit_char n]"
  by (subst dec.simps) simp

lemma dec_snoc: "10 \<le> n \<Longrightarrow> dec n = dec (n div 10) @ [digit_char (n mod 10)]"
  by (subst dec.simps) simp

lemma dec_pair:
  "100 \<le> n \<Longrightarrow> dec n = dec (n div 100) @ [digit_char (n mod 100 div 10), digit_char (n mod 100 mod 10)]"
proof -
  assume n: "100 \<le> n"
  then have "10 \<le> n div 10" by linarith
  then have "dec n = dec (n div 10 div 10) @ [digit_char (n div 10 mod 10), digit_char (n mod 10)]"
    using n dec_snoc [of n] dec_snoc [of "n div 10"] by simp
  moreover have "n div 10 div 10 = n div 100" using div_mult2_eq [of n 10 10] by simp
  moreover have "n mod 100 = 10 * (n div 10 mod 10) + n mod 10" using mod_mult2_eq [of n 10 10] by simp
  ultimately show ?thesis by simp
qed

lemma length_dec_div: "10 \<le> n \<Longrightarrow> length (dec n) = Suc (length (dec (n div 10)))"
  by (simp add: dec_snoc)

lemma count_digits_from_dec: "count_digits_from x n = n + length (dec x) - 1"
proof (induction x n rule: count_digits_from.induct)
  case (1 x n)
  have d: "x div 10 div 10 div 10 div 10 = x div 10000"
    using div_mult2_eq [of x 10 10] div_mult2_eq [of x 100 10] div_mult2_eq [of x 1000 10] by simp
  consider "x < 10" | "10 \<le> x" "x < 100" | "100 \<le> x" "x < 1000" | "1000 \<le> x" "x < 10000" | "10000 \<le> x"
    by linarith
  then show ?case
  proof cases
    case 5
    then have "length (dec x) = 4 + length (dec (x div 10000))"
      using d by (simp add: length_dec_div)
    moreover have "0 < length (dec (x div 10000))" by simp
    ultimately show ?thesis using 1 5 by (subst count_digits_from.simps) (simp del: length_greater_0_conv)
  qed (subst count_digits_from.simps; simp add: length_dec_div dec_small)+
qed

lemma count_digits_dec: "count_digits x = length (dec x)"
  by (cases "dec x") (simp_all add: count_digits_def count_digits_from_dec)

lemma put_pair_split:
  assumes "2 \<le> p" and "p \<le> length buf"
  shows "put_pair i p buf = take (p - 2) buf @ [digit_char (i div 10), digit_char (i mod 10)] @ drop p buf"
proof (rule nth_equalityI)
  show "length (put_pair i p buf) =
      length (take (p - 2) buf @ [digit_char (i div 10), digit_char (i mod 10)] @ drop p buf)"
    using assms by (simp add: put_pair_def digits_to_99_def)
  fix j assume "j < length (put_pair i p buf)"
  then have j: "j < length buf" by (simp add: put_pair_def digits_to_99_def)
  consider "j < p - 2" | "j = p - 2" | "j = p - 1" | "p \<le> j" using assms by linarith
  then show "put_pair i p buf ! j =
      (take (p - 2) buf @ [digit_char (i div 10), digit_char (i mod 10)] @ drop p buf) ! j"
    using assms j
    by cases (auto simp: put_pair_def digits_to_99_def nth_append nth_list_update nth_Cons'
        Suc_diff_Suc numeral_2_eq_2)
qed

lemma put_last_split:
  assumes "1 \<le> p" and "p \<le> length buf"
  shows "buf[p - 1 := c] = take (p - 1) buf @ [c] @ drop p buf"
  using assms upd_conv_take_nth_drop [of "p - 1" buf c] by simp

lemma write_digits_dec:
  "length (dec v) \<le> p \<Longrightarrow> p \<le> length buf \<Longrightarrow>
     write_digits v p buf = take (p - length (dec v)) buf @ dec v @ drop p buf"
proof (induction v p buf rule: write_digits.induct)
  case (1 v p buf)
  consider "v < 10" | "10 \<le> v" "v < 100" | "100 \<le> v" by linarith
  then show ?case
  proof cases
    case 1
    then show ?thesis
      using "1.prems" put_last_split [of p buf]
      by (subst write_digits.simps) (simp add: dec_small)
  next
    case 2
    then have d: "dec v = [digit_char (v div 10), digit_char (v mod 10)]"
      by (simp add: dec_snoc dec_small)
    with 2 "1.prems" show ?thesis
      by (subst write_digits.simps) (simp add: put_pair_split numeral_2_eq_2)
  next
    case 3
    define k where "k = length (dec (v div 100))"
    have d: "dec v = dec (v div 100) @ [digit_char (v mod 100 div 10), digit_char (v mod 100 mod 10)]"
      using 3 by (rule dec_pair)
    then have k: "length (dec v) = k + 2" by (simp add: k_def)
    with "1.prems" have p: "2 \<le> p" "p \<le> length buf" "k \<le> p - 2" by auto
    define b where "b = put_pair (v mod 100) p buf"
    have b: "b = take (p - 2) buf @ [digit_char (v mod 100 div 10), digit_char (v mod 100 mod 10)] @ drop p buf"
      unfolding b_def using p by (intro put_pair_split) auto
    have "length b = length buf" using p by (simp add: b)
    then have "write_digits (v div 100) (p - 2) b = take (p - 2 - k) b @ dec (v div 100) @ drop (p - 2) b"
      using 1(1) [OF 3] p by (simp add: k_def b_def)
    moreover have "take (p - 2 - k) b = take (p - 2 - k) buf" using p by (simp add: b)
    moreover have "drop (p - 2) b = [digit_char (v mod 100 div 10), digit_char (v mod 100 mod 10)] @ drop p buf"
      using p by (simp add: b)
    ultimately show ?thesis
      using 3 p by (subst write_digits.simps) (simp add: d k k_def b_def add.commute)
  qed
qed

lemma remove_sign_unat: "- (2 ^ 63) \<le> x \<Longrightarrow> x < 0 \<Longrightarrow> unat (remove_sign x) = nat (- x)"
proof -
  assume x: "- (2 ^ 63) \<le> x" "x < 0"
  have "remove_sign x = word_of_int (- x)" by (simp add: remove_sign_def)
  moreover have "uint (word_of_int (- x) :: 64 word) = - x mod 2 ^ 64"
    by (simp only: uint_word_of_int len_num1 len_bit0 len_num0) simp
  moreover have "- x mod 2 ^ 64 = - x" using x by (intro mod_pos_pos_trivial) auto
  ultimately have "uint (remove_sign x) = - x" by simp
  then show ?thesis by (simp add: unat_eq_nat_uint)
qed

lemma length_dec_bound: "n < 10 ^ k \<Longrightarrow> 0 < k \<Longrightarrow> length (dec n) \<le> k"
proof (induction k arbitrary: n)
  case (Suc k)
  show ?case
  proof (cases "n < 10")
    case True
    then show ?thesis by (simp add: dec_small)
  next
    case False
    with Suc.prems have "n div 10 < 10 ^ k" "0 < k" by (auto simp: less_mult_imp_div_less mult.commute intro: gr0I)
    with Suc.IH [of "n div 10"] False show ?thesis by (simp add: length_dec_div)
  qed
qed simp

lemma dump_integer_show:
  assumes "- (2 ^ 63) \<le> x" and "x < 2 ^ 64"
  shows "dump_integer x = show_int x" and "length (dump_integer x) \<le> 21"
proof -
  define a where "a = nat \<bar>x\<bar>"
  have "a < 10 ^ 20" using assms by (simp add: a_def)
  then have len: "length (dec a) \<le> 20" by (intro length_dec_bound) auto
  consider "x = 0" | "x < 0" | "0 < x" by linarith
  then have "dump_integer x = show_int x \<and> length (dump_integer x) \<le> 21"
  proof cases
    case 1
    then show ?thesis by (simp add: dump_integer_def show_int_def dec_small digit_char_def)
  next
    case 2
    have ab: "unat (remove_sign x) = a" using 2 assms remove_sign_unat [of x] by (simp add: a_def)
    define b where "b = (zeros 64)[0 := CHR ''-'']"
    have b: "length b = 64" "take 1 b = ''-''" by (simp_all add: b_def zeros_def numeral_eq_Suc)
    have "write_digits a (1 + length (dec a)) b = ''-'' @ dec a @ drop (1 + length (dec a)) b"
      using write_digits_dec [of a "1 + length (dec a)" b] len b by simp
    then have "dump_integer x = ''-'' @ dec a"
      using 2 ab by (simp add: dump_integer_def count_digits_dec b_def Let_def)
    then show ?thesis using 2 len by (simp add: show_int_def a_def)
  next
    case 3
    then have "nat x = a" by (simp add: a_def)
    moreover have "write_digits a (length (dec a)) (zeros 64) = dec a @ drop (length (dec a)) (zeros 64)"
      using write_digits_dec [of a "length (dec a)" "zeros 64"] len by simp
    ultimately have "dump_integer x = dec a"
      using 3 by (simp add: dump_integer_def count_digits_dec)
    then show ?thesis using 3 len by (simp add: show_int_def a_def)
  qed
  then show "dump_integer x = show_int x" and "length (dump_integer x) \<le> 21" by blast+
qed

text \<open>The two-digits-at-a-time routine prints every 64-bit number, signed or unsigned, as its
  decimal representation, and needs at most 21 of the 64 bytes of its buffer.\<close>

theorem dump_integer_decimal:
  assumes "- (2 ^ 63) \<le> x" and "x < 2 ^ 64"
  shows "dump_integer x = show_int x \<and> length (dump_integer x) \<le> 21"
  using dump_integer_show [OF assms] by simp

theorem dump_integer_decimal_witness:
  "dump_integer (- 9223372036854775808) = show_int (- 9223372036854775808)"
  using dump_integer_decimal [of "- 9223372036854775808"] by simp

section \<open>The decoder\<close>

lemma length_classes [simp]: "length utf8_classes = 256"
  by (simp add: utf8_classes_def)

lemma utf8d_class: "b < 256 \<Longrightarrow> utf8d ! b = utf8_classes ! b"
  by (simp add: utf8d_def nth_append)

lemma utf8d_step: "utf8d ! (256 + state * 16 + ty) = utf8_steps ! (state * 16 + ty)"
  by (simp add: utf8d_def nth_append)

definition byte_class :: "nat \<Rightarrow> nat" where
  "byte_class b =
     (if b < 0x80 then 0 else if b < 0x90 then 1 else if b < 0xA0 then 9 else if b < 0xC0 then 7
      else if b < 0xC2 then 8 else if b < 0xE0 then 2 else if b = 0xE0 then 10
      else if b = 0xED then 4 else if b < 0xF0 then 3 else if b = 0xF0 then 11
      else if b < 0xF4 then 6 else if b = 0xF4 then 5 else 8)"

lemma byte_class_all: "map byte_class [0..<256] = utf8_classes"
  by code_simp

lemma class_of_byte: "b < 256 \<Longrightarrow> utf8d ! b = byte_class b"
  using utf8d_class [of b] byte_class_all nth_map [of b "[0..<256]" byte_class] by simp

definition next_state :: "nat \<Rightarrow> nat \<Rightarrow> nat" where
  "next_state st cl =
     (if st = 0 then
        (if cl = 0 then 0 else if cl = 2 then 2 else if cl = 3 then 3 else if cl = 4 then 5
         else if cl = 5 then 8 else if cl = 6 then 7 else if cl = 10 then 4
         else if cl = 11 then 6 else 1)
      else if st = 2 then (if cl = 1 \<or> cl = 7 \<or> cl = 9 then 0 else 1)
      else if st = 3 then (if cl = 1 \<or> cl = 7 \<or> cl = 9 then 2 else 1)
      else if st = 4 then (if cl = 7 then 2 else 1)
      else if st = 5 then (if cl = 1 \<or> cl = 9 then 2 else 1)
      else if st = 6 then (if cl = 7 \<or> cl = 9 then 3 else 1)
      else if st = 7 then (if cl = 1 \<or> cl = 7 \<or> cl = 9 then 3 else 1)
      else if st = 8 then (if cl = 1 then 3 else 1)
      else 1)"

lemma next_state_all: "map (\<lambda>i. next_state (i div 16) (i mod 16)) [0..<144] = utf8_steps"
  by code_simp

lemma step_of_state: "st \<le> 8 \<Longrightarrow> cl < 16 \<Longrightarrow> utf8_steps ! (st * 16 + cl) = next_state st cl"
proof -
  assume h: "st \<le> 8" "cl < 16"
  then have "st * 16 + cl < 144" by simp
  then have "utf8_steps ! (st * 16 + cl) =
      next_state ((st * 16 + cl) div 16) ((st * 16 + cl) mod 16)"
    unfolding next_state_all [symmetric] by simp
  then show ?thesis using h by simp
qed

lemma byte_class_less: "byte_class b < 12"
  by (simp add: byte_class_def)

lemma decode_next:
  "st \<le> 8 \<Longrightarrow> b < 256 \<Longrightarrow> decode st cp b =
     (next_state st (byte_class b),
      if st \<noteq> 0 then (of_nat b AND 0x3F) OR push_bit 6 cp else drop_bit (byte_class b) 0xFF AND of_nat b)"
  using byte_class_less [of b] step_of_state [of st "byte_class b"]
  by (simp add: decode_def utf8d_step class_of_byte Let_def UTF8_ACCEPT_def)

text \<open>How many bytes a state still waits for.\<close>

definition waits :: "nat \<Rightarrow> nat" where
  "waits st = (if st = 0 then 0 else if st = 2 then 1 else if st \<le> 5 then 2 else 3)"

lemma next_state_waits:
  assumes "next_state st cl \<noteq> 1"
  shows "next_state st cl \<le> 8" and "st = 0 \<or> waits st = Suc (waits (next_state st cl))"
  using assms by (auto simp: next_state_def waits_def split: if_splits)

section \<open>The buffer never overflows\<close>

text \<open>The escaping without the buffer.\<close>

fun escape_bytes :: "bool \<Rightarrow> nat \<Rightarrow> 32 word \<Rightarrow> string \<Rightarrow> json_exn + string" where
  "escape_bytes ea st cp [] = (if st = UTF8_ACCEPT then Inr [] else Inl (Type_error 316))"
| "escape_bytes ea st cp (c # s) =
     (let (st', cp') = decode st cp (byte_of c)
      in if st' = UTF8_ACCEPT
         then res_bind (escape_bytes ea st' cp' s) (\<lambda>t. Inr (fst (escape_codepoint ea cp' c) @ t))
         else if st' = UTF8_REJECT then Inl (Type_error 316)
         else res_bind (escape_bytes ea st' cp' s) (\<lambda>t. Inr (if ea then t else c # t)))"

definition json_result :: "json_exn + 'a \<Rightarrow> json_fail + 'a" where
  "json_result r = (case r of Inl e \<Rightarrow> Inl (Jexn e) | Inr x \<Rightarrow> Inr x)"

lemma json_result_simps [simp]: "json_result (Inl e) = Inl (Jexn e)" "json_result (Inr x) = Inr x"
  by (simp_all add: json_result_def)

lemma json_result_bind:
  "json_result (res_bind m f) = res_bind (json_result m) (\<lambda>x. json_result (f x))"
  by (cases m) simp_all

lemma escape_need: "escape_codepoint ea cp c = (e, need) \<Longrightarrow>
    length e \<le> need \<and> 0 < need \<and> need \<le> (if ea then 13 else 7)"
proof -
  have "cp \<le> 0x1F \<Longrightarrow> cp \<le> 0xFFFF" by (simp add: word_le_nat_alt)
  moreover assume "escape_codepoint ea cp c = (e, need)"
  ultimately show ?thesis by (auto simp: escape_codepoint_def hex4_def split: if_splits)
qed

definition buf_bound :: "bool \<Rightarrow> nat \<Rightarrow> nat" where
  "buf_bound ea st = 499 + (if ea \<or> st = 0 then 0 else 4 - waits st)"

lemma byte_less: "byte_of c < (256::nat)"
  by (rule nat_of_char_less_256)

lemma dump_bytes_reference:
  "st \<le> 8 \<Longrightarrow> st \<noteq> 1 \<Longrightarrow> length buf \<le> buf_bound ea st \<Longrightarrow>
     dump_bytes ea st cp buf out s = json_result (res_bind (escape_bytes ea st cp s) (\<lambda>t. Inr (out @ buf @ t)))"
proof (induction s arbitrary: st cp buf out)
  case Nil
  then show ?case by simp
next
  case (Cons c s)
  define st' where "st' = next_state st (byte_class (byte_of c))"
  obtain cp' where dec: "decode st cp (byte_of c) = (st', cp')"
    using decode_next [OF Cons.prems(1) byte_less, of cp c] by (simp add: st'_def)
  obtain e need where esc: "escape_codepoint ea cp' c = (e, need)" by fastforce
  have need: "length e \<le> need" "0 < need" "need \<le> (if ea then 13 else 7)"
    using escape_need [OF esc] by auto
  consider "st' = 0" | "st' = 1" | "st' \<noteq> 0" "st' \<noteq> 1" by blast
  then show ?case
  proof cases
    case 1
    have fit: "length buf + need \<le> 512"
      using Cons.prems(3) need(3) by (auto simp: buf_bound_def waits_def split: if_splits)
    show ?thesis
    proof (cases "512 - length (buf @ e) < 13")
      case True
      then have "dump_bytes ea st cp buf out (c # s) = dump_bytes ea 0 cp' [] (out @ buf @ e) s"
        using 1 dec esc fit by (simp add: UTF8_ACCEPT_def STRING_BUFFER_def)
      also have "\<dots> = json_result (res_bind (escape_bytes ea 0 cp' s) (\<lambda>t. Inr ((out @ buf @ e) @ [] @ t)))"
        by (rule Cons.IH) (simp_all add: buf_bound_def)
      finally show ?thesis
        using 1 dec esc by (simp add: UTF8_ACCEPT_def json_result_bind res_bind_assoc)
    next
      case False
      then have "dump_bytes ea st cp buf out (c # s) = dump_bytes ea 0 cp' (buf @ e) out s"
        using 1 dec esc fit by (simp add: UTF8_ACCEPT_def STRING_BUFFER_def)
      also have "\<dots> = json_result (res_bind (escape_bytes ea 0 cp' s) (\<lambda>t. Inr (out @ (buf @ e) @ t)))"
        using False by (intro Cons.IH) (simp_all add: buf_bound_def)
      finally show ?thesis
        using 1 dec esc by (simp add: UTF8_ACCEPT_def json_result_bind res_bind_assoc)
    qed
  next
    case 2
    with dec show ?thesis by (simp add: UTF8_ACCEPT_def UTF8_REJECT_def)
  next
    case 3
    have ok: "st' \<le> 8" and w: "st = 0 \<or> waits st = Suc (waits st')"
      using next_state_waits [of st "byte_class (byte_of c)"] 3(2) by (simp_all add: st'_def)
    have w': "1 \<le> waits st'" "waits st' \<le> 3" "waits st \<le> 3" using 3 by (simp_all add: waits_def)
    have step: "length buf < buf_bound False st'" if "\<not> ea"
      using Cons.prems(3) that w w' 3 by (auto simp: buf_bound_def split: if_splits)
    have fit: "length buf + 1 \<le> 512" if "\<not> ea"
      using step [OF that] w' 3 by (simp add: buf_bound_def)
    have "dump_bytes ea st cp buf out (c # s) =
        dump_bytes ea st' cp' (if ea then buf else buf @ [c]) out s"
      using 3 dec fit by (auto simp: UTF8_ACCEPT_def UTF8_REJECT_def STRING_BUFFER_def)
    also have "\<dots> = json_result (res_bind (escape_bytes ea st' cp' s)
        (\<lambda>t. Inr (out @ (if ea then buf else buf @ [c]) @ t)))"
      using Cons.prems(3) step ok 3(2) by (intro Cons.IH) (auto simp: buf_bound_def split: if_splits)
    finally show ?thesis
      using 3 dec by (simp add: UTF8_ACCEPT_def UTF8_REJECT_def json_result_bind res_bind_assoc)
  qed
qed

lemma dump_escaped_eq: "dump_escaped ea s = json_result (escape_bytes ea UTF8_ACCEPT 0 s)"
proof -
  have "dump_escaped ea s = json_result (res_bind (escape_bytes ea 0 0 s) (\<lambda>t. Inr ([] @ [] @ t)))"
    unfolding dump_escaped_def UTF8_ACCEPT_def by (rule dump_bytes_reference) (simp_all add: buf_bound_def)
  then show ?thesis by (cases "escape_bytes ea 0 0 s") (simp_all add: UTF8_ACCEPT_def)
qed

text \<open>C15. For every string, valid UTF-8 or not, the buffered escaping routine gives exactly the result of
  the unbuffered one: no write leaves the 512-byte buffer, and flushing it neither loses nor
  repeats a byte.\<close>

theorem dump_escaped_reference:
  "dump_escaped ea s = json_result (escape_bytes ea UTF8_ACCEPT 0 s)"
  by (rule dump_escaped_eq)

section \<open>The decoder and the lexer accept the same strings\<close>

text \<open>What a state of the decoder still waits for, as ranges of the lexer.\<close>

definition state_ranges :: "nat \<Rightarrow> (nat \<times> nat) list" where
  "state_ranges st =
     (if st = 2 then [(0x80, 0xBF)]
      else if st = 3 then [(0x80, 0xBF), (0x80, 0xBF)]
      else if st = 4 then [(0xA0, 0xBF), (0x80, 0xBF)]
      else if st = 5 then [(0x80, 0x9F), (0x80, 0xBF)]
      else if st = 6 then [(0x90, 0xBF), (0x80, 0xBF), (0x80, 0xBF)]
      else if st = 7 then [(0x80, 0xBF), (0x80, 0xBF), (0x80, 0xBF)]
      else if st = 8 then [(0x80, 0x8F), (0x80, 0xBF), (0x80, 0xBF)]
      else [])"

lemma lead_state:
  assumes "0x7F < b" and "b < 256"
  shows "next_state 0 (byte_class b) \<noteq> 0"
    and "lead_ranges b =
      (if next_state 0 (byte_class b) = 1 then None else Some (state_ranges (next_state 0 (byte_class b))))"
  using assms by (auto simp: next_state_def byte_class_def lead_ranges_def state_ranges_def)

lemma continue_state:
  assumes "2 \<le> st" and "st \<le> 8" and "b < 256"
  shows "\<exists>lo hi rs. state_ranges st = (lo, hi) # rs
    \<and> (if lo \<le> b \<and> b \<le> hi
       then next_state st (byte_class b) \<noteq> 1 \<and> state_ranges (next_state st (byte_class b)) = rs
       else next_state st (byte_class b) = 1)"
proof -
  have "st \<in> {2, 3, 4, 5, 6, 7, 8}" using assms(1,2) by auto
  then show ?thesis
    using assms(3) by (auto simp: next_state_def byte_class_def state_ranges_def)
qed

text \<open>A set bit that keeps the code point of a multi-byte sequence at or above 0x80.\<close>

definition cp_ok :: "nat \<Rightarrow> 32 word \<Rightarrow> bool" where
  "cp_ok st cp \<longleftrightarrow>
     (if st = 0 then \<exists>i. 7 \<le> i \<and> bit cp i
      else if st = 2 then \<exists>i. 1 \<le> i \<and> i < 16 \<and> bit cp i
      else if st = 3 \<or> st = 5 then \<exists>i<10. bit cp i
      else if st = 7 \<or> st = 8 then \<exists>i<4. bit cp i
      else True)"

lemma bit_le: "bit (w :: 32 word) i \<Longrightarrow> 7 \<le> i \<Longrightarrow> 0x80 \<le> w"
proof -
  assume b: "bit w i" "7 \<le> i"
  then have "bit (unat w) i" by (simp add: bit_unsigned_iff)
  then have "odd (unat w div 2 ^ i)" by (simp add: bit_iff_odd)
  then have "unat w div 2 ^ i \<noteq> 0" by (intro notI) simp
  then have "2 ^ i \<le> unat w" by (simp add: div_eq_0_iff not_less)
  moreover have "(2::nat) ^ 7 \<le> 2 ^ i" using b(2) by (intro power_increasing) auto
  ultimately show ?thesis by (simp add: word_le_nat_alt)
qed

lemma bit_shifted: "bit (cp :: 32 word) i \<Longrightarrow> i < 26 \<Longrightarrow> bit ((x AND 0x3F) OR push_bit 6 cp) (i + 6)"
  by (simp add: bit_simps)

lemma bits_of_range:
  "0xA0 \<le> b \<Longrightarrow> b \<le> 0xBF \<Longrightarrow> bit (b::nat) 5"
  "0x90 \<le> b \<Longrightarrow> b < 0xA0 \<Longrightarrow> bit (b::nat) 4"
proof -
  show "0xA0 \<le> b \<Longrightarrow> b \<le> 0xBF \<Longrightarrow> bit (b::nat) 5"
  proof -
    assume "0xA0 \<le> b" "b \<le> 0xBF"
    then have "b div 32 = 5" by simp
    then show ?thesis by (simp add: bit_iff_odd)
  qed
  show "0x90 \<le> b \<Longrightarrow> b < 0xA0 \<Longrightarrow> bit (b::nat) 4"
  proof -
    assume "0x90 \<le> b" "b < 0xA0"
    then have "b div 16 = 9" by simp
    then show ?thesis by (simp add: bit_iff_odd)
  qed
qed

lemma bit_masked: "bit (b::nat) i \<Longrightarrow> i < 6 \<Longrightarrow> bit ((of_nat b AND 0x3F) OR (x :: 32 word)) i"
proof -
  assume h: "bit b i" "i < 6"
  then have "i \<in> {0, 1, 2, 3, 4, 5}" by auto
  then have "bit (0x3F :: 32 word) i" by auto
  with h show ?thesis by (simp add: bit_simps bit_of_nat_iff)
qed

lemma cp_ok_next:
  assumes "2 \<le> st" and "st \<le> 8" and "cp_ok st cp" and "next_state st (byte_class b) \<noteq> 1"
  shows "cp_ok (next_state st (byte_class b)) ((of_nat b AND 0x3F) OR push_bit 6 cp)"
proof -
  consider "st = 2" | "st = 3 \<or> st = 5" | "st = 7 \<or> st = 8" | "st = 4" | "st = 6"
    using assms(1,2) by linarith
  then show ?thesis
  proof cases
    case 1
    with assms(4) have n: "next_state st (byte_class b) = 0" by (auto simp: next_state_def split: if_splits)
    from 1 assms(3) obtain i where "1 \<le> i" "i < 16" "bit cp i" by (auto simp: cp_ok_def)
    then show ?thesis using bit_shifted [of cp i "of_nat b"] by (auto simp: n cp_ok_def intro!: exI [of _ "i + 6"])
  next
    case 2
    with assms(4) have n: "next_state st (byte_class b) = 2" by (auto simp: next_state_def split: if_splits)
    from 2 assms(3) obtain i where "i < 10" "bit cp i" by (auto simp: cp_ok_def)
    then show ?thesis using bit_shifted [of cp i "of_nat b"] by (auto simp: n cp_ok_def intro!: exI [of _ "i + 6"])
  next
    case 3
    with assms(4) have n: "next_state st (byte_class b) = 3" by (auto simp: next_state_def split: if_splits)
    from 3 assms(3) obtain i where "i < 4" "bit cp i" by (auto simp: cp_ok_def)
    then show ?thesis using bit_shifted [of cp i "of_nat b"] by (auto simp: n cp_ok_def intro!: exI [of _ "i + 6"])
  next
    case 4
    with assms(4) have n: "next_state st (byte_class b) = 2" "0xA0 \<le> b" "b \<le> 0xBF"
      by (auto simp: next_state_def byte_class_def split: if_splits)
    then show ?thesis using bit_masked [OF bits_of_range(1)] by (auto simp: n cp_ok_def intro!: exI [of _ 5])
  next
    case 5
    with assms(4) have n: "next_state st (byte_class b) = 3" "0x90 \<le> b" "b \<le> 0xBF"
      by (auto simp: next_state_def byte_class_def split: if_splits)
    show ?thesis
    proof (cases "0xA0 \<le> b")
      case True
      with n show ?thesis using bit_masked [OF bits_of_range(1)] by (auto simp: cp_ok_def intro!: exI [of _ 5])
    next
      case False
      with n show ?thesis using bit_masked [OF bits_of_range(2)] by (auto simp: cp_ok_def intro!: exI [of _ 4])
    qed
  qed
qed

lemma list_all_mem: "list_all P xs \<Longrightarrow> x \<in> set xs \<Longrightarrow> P x"
  by (simp add: list_all_iff)

lemma lead_bits:
  "list_all (\<lambda>b::nat. list_ex (bit b) [1, 2, 3, 4]) [0xC2..<0xE0]"
  "list_all (\<lambda>b::nat. list_ex (bit b) [0, 1, 2, 3]) ([0xE1..<0xED] @ [0xEE, 0xEF])"
  "list_all (\<lambda>b::nat. list_ex (bit b) [0, 1]) [0xF1, 0xF2, 0xF3]"
  by (simp_all add: upt_rec bit_iff_odd)

lemma cp_ok_lead:
  assumes "0x7F < b" and "b < 256" and "next_state 0 (byte_class b) \<noteq> 1"
  shows "cp_ok (next_state 0 (byte_class b)) (drop_bit (byte_class b) 0xFF AND of_nat b)"
proof -
  have set_bit: "bit (drop_bit k 0xFF AND of_nat b :: 32 word) i"
    if "bit b i" "k + i < 8" for k i
  proof -
    have "k + i \<in> {0, 1, 2, 3, 4, 5, 6, 7}" using that(2) by auto
    then have "bit (0xFF :: 32 word) (k + i)" by auto
    with that show ?thesis by (simp add: bit_simps bit_of_nat_iff add.commute)
  qed
  have "b \<in> {0xC2..<0xE0} \<or> b \<in> {0xE0, 0xED, 0xF0, 0xF4} \<or> b \<in> {0xE1..<0xED} \<or> b = 0xEE \<or> b = 0xEF
      \<or> b \<in> {0xF1, 0xF2, 0xF3}"
    using assms by (auto simp: next_state_def byte_class_def split: if_splits)
  then consider "b \<in> set [0xC2..<0xE0]" | "b \<in> {0xE0, 0xF0}" | "b = 0xED" | "b = 0xF4"
    | "b \<in> set [0xE1..<0xED] \<or> b = 0xEE \<or> b = 0xEF" | "b \<in> {0xF1, 0xF2, 0xF3}"
    unfolding set_upt by blast
  then show ?thesis
  proof cases
    case 1
    from list_all_mem [OF lead_bits(1) 1] obtain i where "bit b i" "i \<in> {1, 2, 3, 4}"
      unfolding list_ex_iff by auto
    moreover have "byte_class b = 2" using 1 unfolding set_upt by (simp add: byte_class_def)
    ultimately show ?thesis
      using set_bit [of i 2] by (auto simp: next_state_def cp_ok_def intro!: exI [of _ i])
  next
    case 5
    then have "b \<in> set ([0xE1..<0xED] @ [0xEE, 0xEF])" unfolding set_append by auto
    from list_all_mem [OF lead_bits(2) this] obtain i where "bit b i" "i \<in> {0, 1, 2, 3}"
      unfolding list_ex_iff by auto
    moreover have "byte_class b = 3" using 5 unfolding set_upt by (auto simp: byte_class_def)
    ultimately show ?thesis
      using set_bit [of i 3] by (auto simp: next_state_def cp_ok_def intro!: exI [of _ i])
  next
    case 6
    then have "b \<in> set [0xF1, 0xF2, 0xF3]" by simp
    from list_all_mem [OF lead_bits(3) this] obtain i where "bit b i" "i \<in> {0, 1}"
      unfolding list_ex_iff by auto
    moreover have "byte_class b = 6" using 6 by (auto simp: byte_class_def)
    ultimately show ?thesis
      using set_bit [of i 6] by (auto simp: next_state_def cp_ok_def intro!: exI [of _ i])
  next
    case 3
    then show ?thesis using set_bit [of 0 4]
      by (auto simp: next_state_def byte_class_def cp_ok_def bit_iff_odd intro!: exI [of _ 0])
  next
    case 4
    then show ?thesis using set_bit [of 2 5]
      by (auto simp: next_state_def byte_class_def cp_ok_def bit_iff_odd intro!: exI [of _ 2])
  qed (auto simp: next_state_def byte_class_def cp_ok_def)
qed

lemma escape_high: "cp_ok 0 cp \<Longrightarrow> fst (escape_codepoint False cp c) = [c]"
proof -
  assume "cp_ok 0 cp"
  then have "0x80 \<le> cp" by (auto simp: cp_ok_def dest: bit_le)
  then have "0x80 \<le> unat cp" by (simp add: word_le_nat_alt)
  then show ?thesis by (auto simp: escape_codepoint_def word_le_nat_alt)
qed

lemma escape_continue:
  "2 \<le> st \<Longrightarrow> st \<le> 8 \<Longrightarrow> cp_ok st cp \<Longrightarrow> escape_bytes False st cp s = Inr t \<Longrightarrow>
     \<exists>bs s' cp' t'. next_byte_in_range (state_ranges st) s = Some (bs, s')
       \<and> escape_bytes False 0 cp' s' = Inr t' \<and> t = bs @ t'"
proof (induction s arbitrary: st cp t)
  case Nil
  then show ?case by (simp add: UTF8_ACCEPT_def)
next
  case (Cons c s)
  define st' where "st' = next_state st (byte_class (byte_of c))"
  define cp' where "cp' = (of_nat (byte_of c) AND 0x3F) OR push_bit 6 cp"
  have dec: "decode st cp (byte_of c) = (st', cp')"
    using decode_next [OF Cons.prems(2) byte_less, of cp c] Cons.prems(1) by (simp add: st'_def cp'_def)
  obtain lo hi rs where rg: "state_ranges st = (lo, hi) # rs"
    and sel: "if lo \<le> byte_of c \<and> byte_of c \<le> hi then st' \<noteq> 1 \<and> state_ranges st' = rs else st' = 1"
    using continue_state [OF Cons.prems(1,2) byte_less [of c]] unfolding st'_def by blast
  have "st' \<noteq> 1" using Cons.prems(4) dec by (auto simp: UTF8_ACCEPT_def UTF8_REJECT_def)
  with sel have inr: "lo \<le> byte_of c" "byte_of c \<le> hi" and rs: "state_ranges st' = rs"
    by (auto split: if_splits)
  have ok: "cp_ok st' cp'"
    unfolding st'_def cp'_def using Cons.prems(1-3) \<open>st' \<noteq> 1\<close> by (intro cp_ok_next) (simp_all add: st'_def)
  show ?case
  proof (cases "st' = 0")
    case True
    then have "rs = []" using rs by (simp add: state_ranges_def)
    moreover obtain t' where "escape_bytes False 0 cp' s = Inr t'" "t = c # t'"
      using Cons.prems(4) dec True escape_high [of cp' c] ok by (auto simp: UTF8_ACCEPT_def elim!: res_bindE)
    ultimately show ?thesis using rg inr by auto
  next
    case False
    then obtain t1 where t1: "escape_bytes False st' cp' s = Inr t1" "t = c # t1"
      using Cons.prems(4) dec \<open>st' \<noteq> 1\<close> by (auto simp: UTF8_ACCEPT_def UTF8_REJECT_def elim!: res_bindE)
    have "st' \<le> 8" using next_state_waits(1) \<open>st' \<noteq> 1\<close> by (simp add: st'_def)
    with Cons.IH [of st' cp' t1] False \<open>st' \<noteq> 1\<close> ok t1(1) obtain bs s' cp'' t' where
      "next_byte_in_range rs s = Some (bs, s')" "escape_bytes False 0 cp'' s' = Inr t'" "t1 = bs @ t'"
      using rs by fastforce
    then show ?thesis using rg inr t1(2) by auto
  qed
qed

lemma escape_multi:
  assumes "0x7F < (byte_of c :: nat)" and "escape_bytes False 0 cp (c # s) = Inr t"
  shows "\<exists>rs bs s' cp' t'. lead_ranges (byte_of c) = Some rs \<and> next_byte_in_range rs s = Some (bs, s')
    \<and> escape_bytes False 0 cp' s' = Inr t' \<and> t = c # bs @ t'"
proof -
  define st' where "st' = next_state 0 (byte_class (byte_of c))"
  define cp' :: "32 word" where "cp' = drop_bit (byte_class (byte_of c)) 0xFF AND of_nat (byte_of c)"
  have dec: "decode 0 cp (byte_of c) = (st', cp')"
    using decode_next [of 0, OF _ byte_less, of cp c] by (simp add: st'_def cp'_def)
  have "st' \<noteq> 0" using lead_state(1) [OF assms(1) byte_less] by (simp add: st'_def)
  moreover have "st' \<noteq> 1" using assms(2) dec by (auto simp: UTF8_ACCEPT_def UTF8_REJECT_def)
  ultimately have st': "2 \<le> st'" "st' \<le> 8" using next_state_waits(1) [of 0] by (simp_all add: st'_def)
  then obtain t1 where t1: "escape_bytes False st' cp' s = Inr t1" "t = c # t1"
    using assms(2) dec by (auto simp: UTF8_ACCEPT_def UTF8_REJECT_def elim!: res_bindE split: if_splits)
  have "cp_ok st' cp'"
    unfolding st'_def cp'_def using assms(1) byte_less \<open>st' \<noteq> 1\<close> by (intro cp_ok_lead) (simp_all add: st'_def)
  from escape_continue [OF st' this t1(1)] obtain bs s' cp'' t' where
    "next_byte_in_range (state_ranges st') s = Some (bs, s')" "escape_bytes False 0 cp'' s' = Inr t'" "t1 = bs @ t'"
    by blast
  moreover have "lead_ranges (byte_of c) = Some (state_ranges st')"
    using lead_state(2) [OF assms(1) byte_less] \<open>st' \<noteq> 1\<close> by (simp add: st'_def)
  ultimately show ?thesis using t1(2) by blast
qed

end
