(* ===== verification/JsonRoundTrip.thy ===== *)
theory JsonRoundTrip
  imports JsonDump
begin

text \<open>
  Parsing undoes dumping: the lexer and the parser of \<open>include/nlohmann/json.hpp\<close> read back, byte
  for byte, the strings, numbers and values that its serializer writes.

  \<open>canonical\<close> values are those a parse can yield: object members in key order, integers in 64 bits, the
  signed alternative only for negative ones, finite floating-point numbers.
\<close>

section \<open>Strings\<close>

lemma hex_val_all: "list_all (\<lambda>d. hex_val (hex_digit_lower d) = Some d) [0..<16]"
  by (simp add: upt_rec hex_digit_lower_def hex_val_def)

lemma hex_val_lower: "d < 16 \<Longrightarrow> hex_val (hex_digit_lower d) = Some d"
  by (rule list_all_mem [OF hex_val_all]) simp

lemma get_codepoint_hex4: "v < 0x10000 \<Longrightarrow> get_codepoint (hex4 v @ r) = Some (v, r)"
proof -
  assume v: "v < 0x10000"
  then have d: "v div 4096 mod 16 = v div 4096" by simp
  have "v = v div 16 * 16 + v mod 16" by simp
  moreover have "v div 16 = v div 256 * 16 + v div 16 mod 16"
    using div_mult2_eq [of v 16 16] by (simp add: mult.commute)
  moreover have "v div 256 = v div 4096 * 16 + v div 256 mod 16"
    using div_mult2_eq [of v 256 16] by (simp add: mult.commute)
  ultimately have "v div 4096 * 4096 + v div 256 mod 16 * 256 + v div 16 mod 16 * 16 + v mod 16 = v"
    by linarith
  with v show ?thesis
    by (simp add: get_codepoint_def hex4_def hex_val_lower push_bit_eq_mult d)
qed

lemma char_byteI: "byte_of c = (byte_of d :: nat) \<Longrightarrow> c = d"
  by simp

text \<open>An ASCII character, escaped or not, is read back.\<close>

lemma ascii_cp:
  assumes "byte_of c < (0x80::nat)"
  shows "decode 0 cp (byte_of c) = (0, of_nat (byte_of c))"
    and "unat (of_nat (byte_of c) :: 32 word) = byte_of c"
proof -
  show u: "unat (of_nat (byte_of c) :: 32 word) = byte_of c"
    using less_trans [OF byte_less [of c], of 4294967296] by (simp add: unat_of_nat)
  have "byte_class (byte_of c) = 0" using assms by (simp add: byte_class_def)
  moreover have "(0xFF AND of_nat (byte_of c) :: 32 word) = of_nat (byte_of c)"
  proof (rule bit_word_eqI)
    fix n assume "n < LENGTH(32)"
    show "bit (0xFF AND of_nat (byte_of c) :: 32 word) n = bit (of_nat (byte_of c) :: 32 word) n"
    proof (cases "n < 8")
      case True
      then have "n \<in> {0, 1, 2, 3, 4, 5, 6, 7}" by auto
      then have "bit (0xFF :: 32 word) n" by auto
      then show ?thesis by (simp add: bit_simps)
    next
      case False
      then have "(2::nat) ^ 8 \<le> 2 ^ n" by (intro power_increasing) auto
      then have "byte_of c < (2::nat) ^ n" using less_le_trans [OF byte_less [of c], of "2 ^ n"] by simp
      then have "\<not> bit (byte_of c :: nat) n" by (simp add: bit_iff_odd)
      then show ?thesis by (simp add: bit_simps bit_of_nat_iff)
    qed
  qed
  ultimately show "decode 0 cp (byte_of c) = (0, of_nat (byte_of c))"
    using decode_next [of 0, OF _ byte_less, of cp c] by (simp add: next_state_def)
qed

lemma scan_ascii:
  assumes "byte_of c < (0x80::nat)"
  shows "scan_string buf (fst (escape_codepoint False (of_nat (byte_of c)) c) @ r) = scan_string (buf @ [c]) r"
proof -
  define w :: "32 word" where "w = of_nat (byte_of c)"
  have u: "unat w = byte_of c" using ascii_cp(2) [OF assms] by (simp add: w_def)
  have eqs: "w = 0x08 \<longleftrightarrow> c = CHR 0x08" "w = 0x09 \<longleftrightarrow> c = CHR 0x09" "w = 0x0A \<longleftrightarrow> c = CHR 0x0A"
    "w = 0x0C \<longleftrightarrow> c = CHR 0x0C" "w = 0x0D \<longleftrightarrow> c = CHR 0x0D" "w = 0x22 \<longleftrightarrow> c = quote"
    "w = 0x5C \<longleftrightarrow> c = backslash"
    using u by (auto simp: word_unat_eq_iff intro!: char_byteI)
  have le: "w \<le> 0x1F \<longleftrightarrow> byte_of c \<le> (0x1F::nat)" "w \<le> 0xFFFF"
    using u assms by (simp_all add: word_le_nat_alt)
  consider "c \<in> {CHR 0x08, CHR 0x09, CHR 0x0A, CHR 0x0C, CHR 0x0D, quote, backslash}"
    | "c \<notin> {CHR 0x08, CHR 0x09, CHR 0x0A, CHR 0x0C, CHR 0x0D, quote, backslash}" "byte_of c \<le> (0x1F::nat)"
    | "c \<notin> {CHR 0x08, CHR 0x09, CHR 0x0A, CHR 0x0C, CHR 0x0D, quote, backslash}" "(0x20::nat) \<le> byte_of c"
    by fastforce
  then show ?thesis
  proof cases
    case 1
    then show ?thesis
      unfolding w_def [symmetric]
      by (auto simp: escape_codepoint_def eqs [simplified] scan_string_escape simple_escape_def)
  next
    case 2
    then have e: "fst (escape_codepoint False w c) = [backslash, CHR ''u''] @ hex4 (byte_of c)"
      using u le by (simp add: escape_codepoint_def eqs [simplified])
    have "unicode_escape (hex4 (byte_of c) @ r) = Inr ([c], r)"
      using 2 by (simp add: unicode_escape_def get_codepoint_hex4 utf8_bytes_def)
    then show ?thesis using e unfolding w_def [symmetric] by (simp add: scan_string_unicode)
  next
    case 3
    then have "fst (escape_codepoint False w c) = [c]"
      using u le by (simp add: escape_codepoint_def eqs [simplified])
    then show ?thesis unfolding w_def [symmetric] using 3 assms by (simp add: scan_string_plain)
  qed
qed

text \<open>The bytes matched by the ranges are the bytes skipped, whatever follows.\<close>

lemma next_byte_append: "next_byte_in_range rs s = Some (bs, s') \<Longrightarrow> s = bs @ s'"
  by (induction rs s arbitrary: bs rule: next_byte_in_range.induct) (auto split: list.splits if_splits)

lemma next_byte_replay:
  "next_byte_in_range rs s = Some (bs, s') \<Longrightarrow> next_byte_in_range rs (bs @ r) = Some (bs, r)"
  by (induction rs s arbitrary: bs rule: next_byte_in_range.induct) (auto split: list.splits if_splits)

lemma scan_escaped:
  "escape_bytes False 0 cp s = Inr t \<Longrightarrow> scan_string buf (t @ quote # r) = (T_string (buf @ s), r)"
proof (induction "length s" arbitrary: buf cp s t rule: less_induct)
  case less
  show ?case
  proof (cases s)
    case Nil
    with less.prems show ?thesis by (simp add: UTF8_ACCEPT_def scan_string_quote)
  next
    case (Cons c s1)
    show ?thesis
    proof (cases "byte_of c < (0x80::nat)")
      case True
      then obtain t1 where t1: "escape_bytes False 0 (of_nat (byte_of c)) s1 = Inr t1"
        "t = fst (escape_codepoint False (of_nat (byte_of c)) c) @ t1"
        using less.prems Cons ascii_cp(1) [OF True, of cp] by (auto simp: UTF8_ACCEPT_def elim!: res_bindE)
      with less.hyps [of s1 _ t1 "buf @ [c]"] Cons show ?thesis
        using scan_ascii [OF True, of buf "t1 @ quote # r"] by simp
    next
      case False
      then have big: "(0x7F::nat) < byte_of c" by simp
      from escape_multi [OF this less.prems [unfolded Cons]] obtain rs bs s' cp' t' where
        m: "lead_ranges (byte_of c) = Some rs" "next_byte_in_range rs s1 = Some (bs, s')"
          "escape_bytes False 0 cp' s' = Inr t'" "t = c # bs @ t'" by blast
      have s1: "s1 = bs @ s'" using m(2) by (rule next_byte_append)
      have "next_byte_in_range rs (bs @ t' @ quote # r) = Some (bs, t' @ quote # r)"
        using m(2) by (rule next_byte_replay)
      with m(1,4) big have "scan_string buf (t @ quote # r) = scan_string (buf @ c # bs) (t' @ quote # r)"
        by (simp add: scan_string_multi)
      also have "\<dots> = (T_string (buf @ s), r)"
        using less.hyps [of s' cp' t' "buf @ c # bs"] m(3) Cons s1 by simp
      finally show ?thesis .
    qed
  qed
qed

section \<open>Tokens of the other values\<close>

text \<open>What may follow a number without becoming part of it.\<close>

definition number_stops :: "string \<Rightarrow> bool" where
  "number_stops r \<longleftrightarrow> (r = [] \<or> hd r \<in> {CHR '','', CHR 0x5D, CHR 0x7D, NUL} \<or> json_space (hd r))"

lemma number_stops_step: "number_stops r \<Longrightarrow> r = c # r' \<Longrightarrow>
    num_step N_any1 ty (Some c) = NumDone \<and> num_step N_zero ty (Some c) = NumDone"
  by (auto simp: number_stops_def opt_char_def isdigit_def json_space_def)

lemma scan_digits:
  "\<forall>c\<in>set ds. isdigit c \<Longrightarrow> number_stops r \<Longrightarrow>
     scan_number_from N_any1 ty buf (ds @ r) = (number_done ty (buf @ ds), r)"
proof (induction ds arbitrary: buf)
  case Nil
  then show ?case using number_stops_step [of r] by (cases r) (auto simp: opt_char_def)
next
  case (Cons d ds)
  then show ?case by (simp add: opt_char_def)
qed

lemma dec_zero_first: "hd (dec n) = CHR ''0'' \<Longrightarrow> n = 0"
proof (induction n rule: dec.induct)
  case (1 n)
  show ?case
  proof (cases "n < 10")
    case True
    then have "n \<in> {0, 1, 2, 3, 4, 5, 6, 7, 8, 9}" by auto
    with True "1.prems" show ?thesis by (auto simp: dec_small digit_char_def)
  next
    case False
    then have "hd (dec n) = hd (dec (n div 10))" by (simp add: dec_snoc)
    with 1 False show ?thesis by auto
  qed
qed

lemma dec_cases:
  obtains (zero) "n = 0" "dec n = ''0''" | (pos) d ds where "0 < n" "dec n = d # ds" "digit19 d" "\<forall>c\<in>set ds. isdigit c"
proof (cases "n = 0")
  case True
  then show ?thesis using zero by (simp add: dec_small digit_char_def)
next
  case False
  obtain d ds where d: "dec n = d # ds" by (cases "dec n") auto
  have "isdigit d" "\<forall>c\<in>set ds. isdigit c" using dec_isdigit [of _ n] d by auto
  moreover have "d \<noteq> CHR ''0''" using dec_zero_first [of n] False d by auto
  ultimately show ?thesis using pos d False by (auto simp: digit19_def)
qed

lemma digits_val_Cons_dec: "dec n = d # ds \<Longrightarrow> digits_val (d # ds) = n"
  using digits_val_dec [of n] by simp

lemma scan_unsigned:
  assumes "n < 2 ^ 64" and "number_stops r"
  shows "\<exists>d ds. dec n = d # ds \<and> isdigit d \<and> scan_number d (ds @ r) = (T_unsigned n, r)"
proof (cases n rule: dec_cases)
  case zero
  have "scan_number_from N_zero Num_unsigned ''0'' r = (number_done Num_unsigned ''0'', r)"
    using number_stops_step [OF assms(2)] by (cases r) auto
  with zero show ?thesis
    by (simp add: scan_number_def isdigit_def number_done_def digits_val_def digit_val_def)
next
  case (pos d ds)
  then have "scan_number d (ds @ r) = (number_done Num_unsigned (d # ds), r)"
    using scan_digits [OF pos(4) assms(2), of Num_unsigned "[d]"]
    by (auto simp: scan_number_def digit19_def isdigit_def)
  with pos assms(1) digits_val_Cons_dec [OF pos(2)] show ?thesis
    by (auto simp: number_done_def digit19_def)
qed

lemma scan_negative:
  assumes "0 < n" and "n \<le> 2 ^ 63" and "number_stops r"
  shows "scan_number CHR ''-'' (dec n @ r) = (T_integer (- int n), r)"
proof (cases n rule: dec_cases)
  case zero
  with assms(1) show ?thesis by simp
next
  case (pos d ds)
  then have "scan_number CHR ''-'' (dec n @ r) = (number_done Num_integer (''-'' @ d # ds), r)"
    using scan_digits [OF pos(4) assms(3), of Num_integer "''-'' @ [d]"]
    by (auto simp: scan_number_def digit19_def opt_char_def)
  with pos assms(2) digits_val_Cons_dec [OF pos(2)] show ?thesis by (simp add: number_done_def)
qed

lemma json_scan_plain:
  "\<not> json_space c \<Longrightarrow> skip_whitespace (c # r) = c # r"
  by (simp add: skip_whitespace_def)

lemma digit_not: "isdigit c \<Longrightarrow> \<not> json_space c \<and> c \<notin> {CHR 0x5B, CHR 0x5D, CHR 0x7B, CHR 0x7D, CHR '':'', CHR '','',
    CHR ''t'', CHR ''f'', CHR ''n'', quote, CHR ''-''}"
  by (auto simp: isdigit_def json_space_def)

lemma json_scan_number:
  "isdigit c \<or> c = CHR ''-'' \<Longrightarrow> json_scan (c # r) = scan_number c r"
  using digit_not [of c] by (auto simp: json_scan_def json_scan_plain json_space_def)

text \<open>The number with a fraction or an exponent, as the serializer prints it.\<close>

lemma scan_digit_run:
  assumes "\<And>c buf r ty. isdigit c \<Longrightarrow> scan_number_from st ty buf (c # r) = scan_number_from st ty (buf @ [c]) r"
    and "\<forall>c\<in>set ds. isdigit c"
  shows "scan_number_from st ty buf (ds @ r) = scan_number_from st ty (buf @ ds) r"
  using assms(2) by (induction ds arbitrary: buf) (simp_all add: assms(1) del: scan_number_from.simps)

lemma scan_digit_states:
  "isdigit c \<Longrightarrow> scan_number_from N_any1 ty buf (c # r) = scan_number_from N_any1 ty (buf @ [c]) r"
  "isdigit c \<Longrightarrow> scan_number_from N_decimal1 ty buf (c # r) = scan_number_from N_decimal2 ty (buf @ [c]) r"
  "isdigit c \<Longrightarrow> scan_number_from N_decimal2 ty buf (c # r) = scan_number_from N_decimal2 ty (buf @ [c]) r"
  "isdigit c \<Longrightarrow> scan_number_from N_sign ty buf (c # r) = scan_number_from N_any2 ty (buf @ [c]) r"
  "isdigit c \<Longrightarrow> scan_number_from N_any2 ty buf (c # r) = scan_number_from N_any2 ty (buf @ [c]) r"
  by (simp_all add: opt_char_def)

lemma scan_stop:
  assumes "number_stops r" and "st = N_decimal2 \<or> st = N_any2"
  shows "scan_number_from st ty buf r = (number_done ty buf, r)"
  using assms by (cases r) (auto simp: number_stops_def opt_char_def isdigit_def json_space_def)

definition exponent_text :: "(char \<times> string) option \<Rightarrow> string" where
  "exponent_text ex = (case ex of None \<Rightarrow> [] | Some (sg, ds) \<Rightarrow> CHR ''e'' # sg # ds)"

lemma scan_exponent:
  assumes "number_ok ip fp (Some (sg, ds))" and "number_stops r" and "st = N_zero \<or> st = N_any1 \<or> st = N_decimal2"
  shows "scan_number_from st ty buf (CHR ''e'' # sg # ds @ r) = (number_done Num_float (buf @ CHR ''e'' # sg # ds), r)"
proof -
  obtain d ds' where d: "ds = d # ds'" "isdigit d" "\<forall>c\<in>set ds'. isdigit c"
    using assms(1) by (cases ds) (auto simp: number_ok_def)
  have sg: "sg = CHR ''+'' \<or> sg = CHR ''-''" using assms(1) by (simp add: number_ok_def)
  have "scan_number_from st ty buf (CHR ''e'' # sg # ds @ r)
      = scan_number_from N_sign Num_float (buf @ [CHR ''e'', sg]) (d # ds' @ r)"
    using assms(3) sg by (auto simp: opt_char_def isdigit_def d(1))
  also have "\<dots> = scan_number_from N_any2 Num_float (buf @ [CHR ''e'', sg, d] @ ds') r"
    using scan_digit_run [OF scan_digit_states(5) d(3)] scan_digit_states(4) [OF d(2)] by simp
  finally show ?thesis using scan_stop [OF assms(2), of N_any2] d(1) by simp
qed

lemma scan_fraction:
  assumes ok: "number_ok ip fp ex" and r: "number_stops r" and st: "st = N_zero \<or> st = N_any1"
  shows "scan_number_from st ty buf ((if fp = [] then [] else CHR ''.'' # fp) @ exponent_text ex @ r)
    = (T_float (strtod (buf @ (if fp = [] then [] else CHR ''.'' # fp) @ exponent_text ex)), r)"
proof (cases fp)
  case Nil
  then obtain sg ds where "ex = Some (sg, ds)" using ok by (cases ex) (auto simp: number_ok_def)
  then show ?thesis using scan_exponent [of ip fp sg ds r st] ok r st Nil
    by (auto simp: exponent_text_def number_done_def simp del: scan_number_from.simps)
next
  case (Cons c cs)
  then have c: "isdigit c" "\<forall>d\<in>set cs. isdigit d" using ok by (auto simp: number_ok_def)
  have "scan_number_from st ty buf (CHR ''.'' # fp @ exponent_text ex @ r)
      = scan_number_from N_decimal1 Num_float (buf @ [CHR ''.'']) (c # cs @ exponent_text ex @ r)"
    using st by (auto simp: Cons opt_char_def isdigit_def)
  also have "\<dots> = scan_number_from N_decimal2 Num_float (buf @ CHR ''.'' # fp) (exponent_text ex @ r)"
    using scan_digit_run [OF scan_digit_states(3) c(2)] scan_digit_states(2) [OF c(1)] by (simp add: Cons)
  also have "\<dots> = (number_done Num_float (buf @ CHR ''.'' # fp @ exponent_text ex), r)"
    using scan_exponent [of ip fp _ _ r N_decimal2] ok r scan_stop [OF r, of N_decimal2]
    by (cases ex) (auto simp: exponent_text_def simp del: scan_number_from.simps)
  finally show ?thesis using Cons by (simp add: number_done_def)
qed

lemma scan_float:
  assumes ok: "number_ok ip fp ex" and r: "number_stops r"
  shows "json_scan (number_text ip fp ex @ r) = (T_float (strtod (number_text ip fp ex)), r)"
    and "json_scan (CHR ''-'' # number_text ip fp ex @ r) = (T_float (strtod (CHR ''-'' # number_text ip fp ex)), r)"
proof -
  obtain d ds where ip: "ip = d # ds" "isdigit d" "\<forall>c\<in>set ds. isdigit c" "d = CHR ''0'' \<Longrightarrow> ds = []"
    using ok by (cases ip) (auto simp: number_ok_def)
  have shape: "number_text ip fp ex = ip @ (if fp = [] then [] else CHR ''.'' # fp) @ exponent_text ex"
    by (simp only: number_text_def exponent_text_def)
  define st where "st = (if d = CHR ''0'' then N_zero else N_any1)"
  have st: "st = N_zero \<or> st = N_any1" by (simp add: st_def)
  have run: "scan_number_from st ty (b @ [d]) (ds @ u) = scan_number_from st ty (b @ ip) u" for ty b u
    using scan_digit_run [OF scan_digit_states(1) ip(3)] ip(1,4) by (auto simp: st_def simp del: scan_number_from.simps)
  have "scan_number d (ds @ u) = scan_number_from st Num_unsigned [d] (ds @ u)" for u
    using ip(2) by (auto simp: scan_number_def st_def isdigit_def simp del: scan_number_from.simps)
  then show "json_scan (number_text ip fp ex @ r) = (T_float (strtod (number_text ip fp ex)), r)"
    using scan_fraction [OF ok r st, of Num_unsigned ip] run [of Num_unsigned "[]"] ip(1,2)
    unfolding shape by (simp add: json_scan_number del: scan_number_from.simps)
  have "scan_number CHR ''-'' (d # u) = scan_number_from st Num_integer [CHR ''-'', d] u" for u
    using ip(2) by (auto simp: scan_number_def st_def digit19_def opt_char_def)
  then show "json_scan (CHR ''-'' # number_text ip fp ex @ r) = (T_float (strtod (CHR ''-'' # number_text ip fp ex)), r)"
    using scan_fraction [OF ok r st, of Num_integer "CHR ''-'' # ip"] run [of Num_integer "''-''"] ip(1)
    unfolding shape by (simp add: json_scan_number del: scan_number_from.simps)
qed

lemma json_scan_quote: "json_scan (quote # r) = scan_string [] r"
  by (simp add: json_scan_def json_scan_plain json_space_def)

lemma json_scan_punct:
  "json_scan (CHR 0x5B # r) = (T_begin_array, r)" "json_scan (CHR 0x5D # r) = (T_end_array, r)"
  "json_scan (CHR 0x7B # r) = (T_begin_object, r)" "json_scan (CHR 0x7D # r) = (T_end_object, r)"
  "json_scan (CHR '':'' # r) = (T_name_separator, r)" "json_scan (CHR '','' # r) = (T_value_separator, r)"
  by (simp_all add: json_scan_def json_scan_plain json_space_def)

lemma json_scan_literals:
  "json_scan (''true'' @ r) = (T_true, r)" "json_scan (''false'' @ r) = (T_false, r)"
  "json_scan (''null'' @ r) = (T_null, r)"
  by (simp_all add: json_scan_def json_scan_plain json_space_def)

lemma json_scan_quoted:
  "dump_escaped False s = Inr e \<Longrightarrow> json_scan (quoted e @ r) = (T_string s, r)"
  using scan_escaped [of 0 s e "[]" r]
  by (cases "escape_bytes False 0 0 s") (auto simp: dump_escaped_eq UTF8_ACCEPT_def quoted_def json_scan_quote)

section \<open>Values\<close>

fun canonical :: "json \<Rightarrow> bool" where
  "canonical (JInteger i) = (- (2 ^ 63) \<le> i \<and> i < 0)"
| "canonical (JUnsigned n) = (n < 2 ^ 64)"
| "canonical (JFloat x) = isfinite x"
| "canonical (JArray xs) = (\<forall>x\<in>set xs. canonical x)"
| "canonical (JObject m) = (keys_sorted m \<and> (\<forall>kv\<in>set m. canonical (snd kv)))"
| "canonical (JBinary bs st) = False"
| "canonical _ = True"

lemma parse_scalar: "scalar tok = Some v \<Longrightarrow> parse_value fs tok r = after_value fs v r"
  by (cases tok) (auto simp: parse_value.simps [of fs _ r])

text \<open>White space in front of a token is skipped.\<close>

definition spaces :: "string \<Rightarrow> bool" where
  "spaces ws \<longleftrightarrow> (\<forall>c\<in>set ws. json_space c)"

lemma spaces_simps [simp]: "spaces []" "spaces (a @ b) \<longleftrightarrow> spaces a \<and> spaces b" "spaces (c # ws) \<longleftrightarrow> json_space c \<and> spaces ws"
  by (auto simp: spaces_def)

lemma json_scan_spaces: "spaces ws \<Longrightarrow> json_scan (ws @ r) = json_scan r"
  by (simp add: json_scan_def skip_whitespace_def spaces_def)

lemma after_value_spaces: "spaces ws \<Longrightarrow> after_value (f # fs) v (ws @ r) = after_value (f # fs) v r"
  by (cases f) (simp_all add: after_value.simps json_scan_spaces)

text \<open>The text of a value is read as that value, in any context. The text of the elements of an array, or of
  the members of an object, may be followed by white space.\<close>

definition reads :: "string \<Rightarrow> json \<Rightarrow> bool" where
  "reads e j \<longleftrightarrow> (\<forall>fs r. number_stops r \<longrightarrow>
     (\<exists>t r1. json_scan (e @ r) = (t, r1) \<and> t \<noteq> T_end_array \<and> t \<noteq> T_end_object
        \<and> parse_value fs t r1 = after_value fs j r))"

definition reads_elements :: "string \<Rightarrow> json list \<Rightarrow> bool" where
  "reads_elements e xs \<longleftrightarrow> (\<forall>acc fs ws r. spaces ws \<longrightarrow>
     (\<exists>t r1. json_scan (e @ ws @ CHR 0x5D # r) = (t, r1) \<and> t \<noteq> T_end_array
        \<and> parse_value (FArray acc # fs) t r1 = after_value fs (JArray (acc @ xs)) r))"

definition reads_members :: "string \<Rightarrow> (string \<times> json) list \<Rightarrow> bool" where
  "reads_members e m \<longleftrightarrow> (\<forall>acc fs ws r. spaces ws \<longrightarrow>
     (\<exists>t r1. json_scan (e @ ws @ CHR 0x7D # r) = (t, r1) \<and> t \<noteq> T_end_object
        \<and> res_bind (member_head t r1) (\<lambda>(k, t', r2). parse_value (FObject acc k # fs) t' r2) =
            after_value fs (JObject (tsm.put_all m acc)) r))"

lemma reads_scalar:
  "(\<And>r. number_stops r \<Longrightarrow> json_scan (e @ r) = (t, r)) \<Longrightarrow> scalar t = Some j \<Longrightarrow> reads e j"
  unfolding reads_def by (auto simp: parse_scalar)

lemma reads_integer:
  assumes "canonical (JInteger i)"
  shows "reads (dump_integer i) (JInteger i)"
proof (rule reads_scalar)
  fix r assume r: "number_stops r"
  have "dump_integer i = CHR ''-'' # dec (nat (- i))"
    using assms dump_integer_show [of i] by (simp add: show_int_def)
  then show "json_scan (dump_integer i @ r) = (T_integer i, r)"
    using assms r scan_negative [of "nat (- i)" r] nat_mono [of "- i" "2 ^ 63"]
    by (simp add: json_scan_number)
qed simp

lemma reads_unsigned:
  assumes "canonical (JUnsigned n)"
  shows "reads (dump_integer (int n)) (JUnsigned n)"
proof (rule reads_scalar)
  fix r assume "number_stops r"
  with assms scan_unsigned [of n r] obtain d ds where
    "dec n = d # ds" "isdigit d" "scan_number d (ds @ r) = (T_unsigned n, r)" by auto
  moreover have "dump_integer (int n) = dec n"
    using assms dump_integer_show [of "int n"] by (simp add: show_int_def)
  ultimately show "json_scan (dump_integer (int n) @ r) = (T_unsigned n, r)"
    by (simp add: json_scan_number)
qed simp

lemma dump_float_scanned:
  assumes "isfinite x" and "dump_float x = Inr e" and "number_stops r"
  shows "json_scan (e @ r) = (T_float x, r)"
proof -
  obtain s t b where d: "e = s @ t" "s = [] \<and> b = x \<or> s = ''-'' \<and> x = b + push_bit 63 1" "text_of t b"
    using dump_float_ok [OF assms(1)] assms(2) by auto
  then obtain ip fp ex where t: "t = number_text ip fp ex" "number_ok ip fp ex" by (auto simp: text_of_def)
  have "strtod e = x" using d by (auto simp: text_of_def)
  then show ?thesis using d(1,2) t(1) scan_float [OF t(2) assms(3)] by auto
qed

lemma reads_float: "isfinite x \<Longrightarrow> dump_float x = Inr e \<Longrightarrow> reads e (JFloat x)"
  unfolding reads_def by (auto simp: dump_float_scanned parse_value.simps)

lemma reads_array:
  assumes "reads_elements e xs" and "spaces ws"
  shows "reads ([CHR 0x5B] @ e @ ws @ [CHR 0x5D]) (JArray xs)"
  unfolding reads_def
proof (intro allI impI)
  fix fs r
  from assms obtain t r1 where "json_scan (e @ ws @ CHR 0x5D # r) = (t, r1)" "t \<noteq> T_end_array"
    "parse_value (FArray [] # fs) t r1 = after_value fs (JArray xs) r"
    unfolding reads_elements_def using assms(2) by (metis append_Nil)
  then have "parse_value fs T_begin_array (e @ ws @ CHR 0x5D # r) = after_value fs (JArray xs) r"
    by (simp add: parse_value.simps [of fs T_begin_array])
  then show "\<exists>t r1. json_scan (([CHR 0x5B] @ e @ ws @ [CHR 0x5D]) @ r) = (t, r1) \<and> t \<noteq> T_end_array
      \<and> t \<noteq> T_end_object \<and> parse_value fs t r1 = after_value fs (JArray xs) r"
    by (simp add: json_scan_punct)
qed

lemma reads_object:
  assumes "reads_members e m" and "keys_sorted m" and "spaces ws"
  shows "reads ([CHR 0x7B] @ e @ ws @ [CHR 0x7D]) (JObject m)"
  unfolding reads_def
proof (intro allI impI)
  fix fs r
  have "tsm.put_all m [] = m" using put_all_sorted [of "[]" m] assms(2) by simp
  with assms(1) obtain t r1 where "json_scan (e @ ws @ CHR 0x7D # r) = (t, r1)" "t \<noteq> T_end_object"
    "res_bind (member_head t r1) (\<lambda>(k, t', r2). parse_value (FObject [] k # fs) t' r2) =
       after_value fs (JObject m) r"
    unfolding reads_members_def using assms(3) by metis
  then have "parse_value fs T_begin_object (e @ ws @ CHR 0x7D # r) = after_value fs (JObject m) r"
    by (simp add: parse_value.simps [of fs T_begin_object])
  then show "\<exists>t r1. json_scan (([CHR 0x7B] @ e @ ws @ [CHR 0x7D]) @ r) = (t, r1) \<and> t \<noteq> T_end_array
      \<and> t \<noteq> T_end_object \<and> parse_value fs t r1 = after_value fs (JObject m) r"
    by (simp add: json_scan_punct)
qed

lemma number_stops_punct [simp]:
  "number_stops (CHR '','' # r)" "number_stops (CHR 0x5D # r)" "number_stops (CHR 0x7D # r)"
  by (simp_all add: number_stops_def)

lemma number_stops_spaces: "spaces ws \<Longrightarrow> number_stops r \<Longrightarrow> number_stops (ws @ r)"
  by (cases ws) (simp_all add: number_stops_def)

lemma readsD:
  assumes "reads e j" and "number_stops r"
  obtains t r1 where "json_scan (e @ r) = (t, r1)" "t \<noteq> T_end_array" "t \<noteq> T_end_object"
    "\<And>gs. parse_value gs t r1 = after_value gs j r"
  using assms unfolding reads_def by (metis prod.inject)

lemma reads_elements_one: "reads d v \<Longrightarrow> reads_elements d [v]"
  unfolding reads_elements_def
proof (intro allI impI)
  fix acc fs ws r
  assume "reads d v" and ws: "spaces ws"
  from readsD [OF this(1), of "ws @ CHR 0x5D # r"] obtain t r1 where
    "json_scan (d @ ws @ CHR 0x5D # r) = (t, r1)" "t \<noteq> T_end_array"
    "parse_value (FArray acc # fs) t r1 = after_value (FArray acc # fs) v (ws @ CHR 0x5D # r)"
    by (metis number_stops_punct(2) number_stops_spaces ws)
  then show "\<exists>t r1. json_scan (d @ ws @ CHR 0x5D # r) = (t, r1) \<and> t \<noteq> T_end_array \<and>
      parse_value (FArray acc # fs) t r1 = after_value fs (JArray (acc @ [v])) r"
    by (simp add: after_value_spaces [OF ws]) (simp add: after_value.simps json_scan_punct)
qed

lemma reads_elements_Cons:
  assumes "reads d v" and "reads_elements e xs"
  shows "reads_elements (d @ [CHR '',''] @ e) (v # xs)"
  unfolding reads_elements_def
proof (intro allI impI)
  fix acc fs ws r
  assume ws: "spaces ws"
  from readsD [OF assms(1), of "CHR '','' # e @ ws @ CHR 0x5D # r"] obtain t r1 where 1:
    "json_scan (d @ CHR '','' # e @ ws @ CHR 0x5D # r) = (t, r1)" "t \<noteq> T_end_array"
    "parse_value (FArray acc # fs) t r1 = after_value (FArray acc # fs) v (CHR '','' # e @ ws @ CHR 0x5D # r)"
    by (metis number_stops_punct(1))
  from assms(2) obtain t' r2 where 2: "json_scan (e @ ws @ CHR 0x5D # r) = (t', r2)"
    "parse_value (FArray (acc @ [v]) # fs) t' r2 = after_value fs (JArray ((acc @ [v]) @ xs)) r"
    unfolding reads_elements_def using ws by metis
  have "after_value (FArray acc # fs) v (CHR '','' # e @ ws @ CHR 0x5D # r) = after_value fs (JArray (acc @ v # xs)) r"
    using 2 by (simp add: after_value.simps(2) json_scan_punct)
  with 1 show "\<exists>t r1. json_scan ((d @ [CHR '',''] @ e) @ ws @ CHR 0x5D # r) = (t, r1) \<and> t \<noteq> T_end_array \<and>
      parse_value (FArray acc # fs) t r1 = after_value fs (JArray (acc @ v # xs)) r"
    by simp
qed

text \<open>A key with its colon leaves the parser at the value.\<close>

lemma member_head_quoted:
  assumes "dump_escaped False k = Inr e" and "json_scan (d @ r) = (t, r1)"
  shows "json_scan (quoted e @ CHR '':'' # d @ r) = (T_string k, CHR '':'' # d @ r)"
    and "member_head (T_string k) (CHR '':'' # d @ r) = Inr (k, t, r1)"
  using assms json_scan_quoted [OF assms(1)] by (simp_all add: member_head_def json_scan_punct)

lemma reads_members_one:
  assumes "dump_escaped False k = Inr e" and "reads d v"
  shows "reads_members (quoted e @ [CHR '':''] @ d) [(k, v)]"
  unfolding reads_members_def
proof (intro allI impI)
  fix acc fs ws r
  assume ws: "spaces ws"
  from readsD [OF assms(2), of "ws @ CHR 0x7D # r"] obtain t r1 where 1:
    "json_scan (d @ ws @ CHR 0x7D # r) = (t, r1)"
    "parse_value (FObject acc k # fs) t r1 = after_value (FObject acc k # fs) v (ws @ CHR 0x7D # r)"
    by (metis number_stops_punct(3) number_stops_spaces ws)
  have "after_value (FObject acc k # fs) v (ws @ CHR 0x7D # r) = after_value fs (JObject (map_put k v acc)) r"
    by (simp add: after_value_spaces [OF ws]) (simp add: after_value.simps json_scan_punct)
  with 1 member_head_quoted [OF assms(1) 1(1)]
  show "\<exists>t r1. json_scan ((quoted e @ [CHR '':''] @ d) @ ws @ CHR 0x7D # r) = (t, r1) \<and> t \<noteq> T_end_object \<and>
      res_bind (member_head t r1) (\<lambda>(k, t', r2). parse_value (FObject acc k # fs) t' r2) =
      after_value fs (JObject (tsm.put_all [(k, v)] acc)) r"
    by simp
qed

lemma reads_members_Cons:
  assumes "dump_escaped False k = Inr e" and "reads d v" and "reads_members e' m"
  shows "reads_members (quoted e @ [CHR '':''] @ d @ [CHR '',''] @ e') ((k, v) # m)"
  unfolding reads_members_def
proof (intro allI impI)
  fix acc fs ws r
  assume ws: "spaces ws"
  from readsD [OF assms(2), of "CHR '','' # e' @ ws @ CHR 0x7D # r"] obtain t r1 where 1:
    "json_scan (d @ CHR '','' # e' @ ws @ CHR 0x7D # r) = (t, r1)"
    "parse_value (FObject acc k # fs) t r1 =
       after_value (FObject acc k # fs) v (CHR '','' # e' @ ws @ CHR 0x7D # r)"
    by (metis number_stops_punct(1))
  from assms(3) obtain t' r2 where 2: "json_scan (e' @ ws @ CHR 0x7D # r) = (t', r2)"
    "res_bind (member_head t' r2) (\<lambda>(k', t', r2). parse_value (FObject (map_put k v acc) k' # fs) t' r2) =
       after_value fs (JObject (tsm.put_all m (map_put k v acc))) r"
    unfolding reads_members_def using ws by metis
  have "after_value (FObject acc k # fs) v (CHR '','' # e' @ ws @ CHR 0x7D # r) =
      after_value fs (JObject (tsm.put_all m (map_put k v acc))) r"
    using 2 by (simp add: after_value.simps(3) json_scan_punct)
  with 1 member_head_quoted [OF assms(1) 1(1)]
  show "\<exists>t r1. json_scan ((quoted e @ [CHR '':''] @ d @ [CHR '',''] @ e') @ ws @ CHR 0x7D # r) = (t, r1) \<and>
      t \<noteq> T_end_object \<and>
      res_bind (member_head t r1) (\<lambda>(k, t', r2). parse_value (FObject acc k # fs) t' r2) =
      after_value fs (JObject (tsm.put_all ((k, v) # m) acc)) r"
    by simp
qed

lemma reads_literals: "reads ''true'' (JBool True)" "reads ''false'' (JBool False)" "reads ''null'' JNull"
  by (rule reads_scalar [OF json_scan_literals(1)] reads_scalar [OF json_scan_literals(2)]
      reads_scalar [OF json_scan_literals(3)], simp)+

text \<open>At the top a text may be followed by NULs: the lexer takes a NUL for the end of the input.\<close>

lemma number_stops_zeros [simp]: "number_stops (zeros n)"
  by (cases n) (simp_all add: number_stops_def zeros_def)

lemma json_scan_zeros: "fst (json_scan (zeros n)) = T_end"
  by (cases n) (simp_all add: zeros_def json_scan_def skip_whitespace_def json_space_def isdigit_def)

lemma reads_top:
  "reads e j \<Longrightarrow> \<exists>t r. json_scan (e @ zeros n) = (t, r) \<and> parse_value [] t r = after_value [] j (zeros n)"
  unfolding reads_def using number_stops_zeros by blast

lemma dump_reads:
  "ea = False \<Longrightarrow> canonical j \<Longrightarrow> dump ea j = Inr e \<Longrightarrow> reads e j"
  "eb = False \<Longrightarrow> m \<noteq> [] \<Longrightarrow> (\<forall>kv\<in>set m. canonical (snd kv)) \<Longrightarrow> dump_members eb m = Inr e \<Longrightarrow>
     reads_members e m"
  "ec = False \<Longrightarrow> xs \<noteq> [] \<Longrightarrow> (\<forall>x\<in>set xs. canonical x) \<Longrightarrow> dump_elements ec xs = Inr e \<Longrightarrow>
     reads_elements e xs"
proof (induction ea j and eb m and ec xs arbitrary: e and e and e
    rule: dump_dump_members_dump_elements.induct)
  case (1 ea m)
  show ?case
  proof (cases "m = []")
    case True
    with 1 show ?thesis by (auto simp: reads_def json_scan_punct parse_value.simps [of _ T_begin_object])
  next
    case False
    with 1 show ?thesis by (auto elim!: res_bindE intro!: reads_object [of _ _ "[]", simplified])
  qed
next
  case (2 ea xs)
  show ?case
  proof (cases "xs = []")
    case True
    with 2 show ?thesis by (auto simp: reads_def json_scan_punct parse_value.simps [of _ T_begin_array])
  next
    case False
    with 2 show ?thesis by (auto elim!: res_bindE intro!: reads_array [of _ _ "[]", simplified])
  qed
next
  case (3 ea s)
  then show ?case by (auto elim!: res_bindE intro!: reads_scalar [where t = "T_string s"] json_scan_quoted)
next
  case (4 ea b)
  then show ?case
    using reads_literals by (cases b) auto
next
  case (5 ea i)
  then show ?case using reads_integer by auto
next
  case (6 ea n)
  then show ?case using reads_unsigned by auto
next
  case (7 ea x)
  then show ?case using reads_float by (auto split: sum.splits)
next
  case (8 ea)
  then show ?case using reads_literals by auto
next
  case (11 ea k v m)
  show ?case
  proof (cases "m = []")
    case True
    with 11 show ?thesis by (auto elim!: res_bindE intro!: reads_members_one [simplified])
  next
    case False
    with 11 show ?thesis by (auto elim!: res_bindE intro!: reads_members_Cons [simplified])
  qed
next
  case (13 ea v xs)
  show ?case
  proof (cases "xs = []")
    case True
    with 13 show ?thesis by (auto elim!: res_bindE intro!: reads_elements_one)
  next
    case False
    with 13 show ?thesis by (auto elim!: res_bindE intro!: reads_elements_Cons [simplified])
  qed
qed simp_all

lemma no_bom: "reads e j \<Longrightarrow> scan_first (e @ zeros n) = json_scan (e @ zeros n)"
proof -
  assume "reads e j"
  from reads_top [OF this] obtain t r where t: "json_scan (e @ zeros n) = (t, r)"
    "parse_value [] t r = after_value [] j (zeros n)" by blast
  have "\<not> (\<exists>r'. e @ zeros n = CHR 0xEF # r')"
    using t by (auto simp: json_scan_def json_scan_plain json_space_def isdigit_def
        parse_value.simps [of _ "T_error _"] after_value.simps)
  then show ?thesis by (cases "e @ zeros n") (auto simp: scan_first_def skip_bom_def)
qed

lemma json_parse_reads:
  assumes "reads e j"
  shows "json_parse (e @ zeros n) = Inr j"
proof -
  from reads_top [OF assms] obtain t r where "json_scan (e @ zeros n) = (t, r)"
    "parse_value [] t r = after_value [] j (zeros n)" by blast
  then show ?thesis
    using no_bom [OF assms, of n] json_scan_zeros [of n] by (simp add: json_parse_def after_value.simps)
qed

lemma json_parse_padded:
  "canonical j \<Longrightarrow> dump False j = Inr e \<Longrightarrow> json_parse (e @ zeros n) = Inr j"
  using dump_reads(1) [OF refl] by (rule json_parse_reads)

lemma json_parse_dump:
  "canonical j \<Longrightarrow> dump False j = Inr e \<Longrightarrow> json_parse e = Inr j"
  using json_parse_padded [of j e 0] by (simp add: zeros_def)


text \<open>The message of the clients and the peers: a type and a description.\<close>

lemma dump_ascii_description:
  "dump False (JObject [(''sdp'', JString ''v=0''), (''type'', JString ''offer'')]) =
     Inr (concat [[CHR 0x7B], quoted ''sdp'', '':'', quoted ''v=0'', '','', quoted ''type'', '':'',
       quoted ''offer'', [CHR 0x7D]])"
  by (simp add: dump_escaped_def UTF8_ACCEPT_def decode_next byte_class_def next_state_def
      escape_codepoint_def STRING_BUFFER_def)



lemma dump_float_zero: "dump False (JFloat 0) = Inr ''0.0''"
  by code_simp


end
