(* ===== verification/Client.thy ===== *)
theory Client
  imports Server JsonRoundTrip
begin

text \<open>
  The client, \<open>src/client.cpp\<close>: the menu with its requests to the server, the listener thread that
  answers INVITE and ACCEPT, the media loop, and the start-up of \<open>main\<close>, which the theory \<open>ClientMain\<close>
  completes.

  \<^item> \<open>client\<close> is the state of the process: the operating system (\<open>net\<close>), the standard input, the
    globals, and the calls made on the peer connection.
  \<^item> The peer connection belongs to libdatachannel, whose code is not part of the repository. What a
    call does is the argument \<open>lib\<close> of the definitions that make calls: given the calls so far and
    the new one, it throws an exception or returns, and gathering may have completed by then with a
    description of a type and a text; the callback of \<open>main\<close> then runs.
  \<^item> An exception that leaves a thread ends the process (\<open>Uncaught\<close>).
\<close>

section \<open>Standard input\<close>

text \<open>\<open>cin\<close>: the characters still to be read and the fail bit. Past the end every extraction fails.\<close>

record input =
  in_rest :: string
  in_fail :: bool

text \<open>The next word, or \<open>None\<close> if the extraction fails, which leaves the target as it was.\<close>

definition cin_word :: "input \<Rightarrow> string option \<times> input" where
  "cin_word i =
     (if in_fail i then (None, i)
      else let r = dropWhile isspace (in_rest i)
           in if r = [] then (None, i\<lparr>in_rest := [], in_fail := True\<rparr>)
              else let w = takeWhile (\<lambda>c. \<not> isspace c) r
                   in (Some w, i\<lparr>in_rest := drop (length w) r\<rparr>))"

text \<open>
  The next \<open>int\<close>: no number gives 0 and sets the fail bit, a number that does not fit gives the
  nearest limit and sets it; a stream that has failed leaves the target as it was.
\<close>

definition cin_int :: "int \<Rightarrow> input \<Rightarrow> int \<times> input" where
  "cin_int old i =
     (if in_fail i then (old, i)
      else let r = dropWhile isspace (in_rest i)
           in if r = [] then (old, i\<lparr>in_rest := [], in_fail := True\<rparr>)
              else case scan_int r of
                None \<Rightarrow> (0, i\<lparr>in_rest := (if hd r \<in> {CHR ''-'', CHR ''+''} then tl r else r), in_fail := True\<rparr>)
              | Some (v, r') \<Rightarrow>
                  if int_fits v then (v, i\<lparr>in_rest := r'\<rparr>)
                  else (if v < 0 then - (2 ^ 31) else 2 ^ 31 - 1, i\<lparr>in_rest := r', in_fail := True\<rparr>))"

section \<open>State\<close>

datatype pc_call =
    SetRemoteDescription string string   \<comment> \<open>text and type\<close>
  | SetLocalDescription string

type_synonym rtc_lib = "pc_call list \<Rightarrow> pc_call \<Rightarrow> string + (string \<times> string) option"

record client = net +
  cin :: input
  username_g :: string
  password_g :: string
  server_disconnected :: bool
  exit_selected :: bool
  local_sdp :: string
  remote_sdp :: string
  isLogin_g :: bool
  pc_calls :: "pc_call list"

text \<open>\<open>s.c_str()\<close> as a C string.\<close>

definition c_trunc :: "string \<Rightarrow> string" where
  "c_trunc s = takeWhile (\<lambda>c. c \<noteq> NUL) s"

text \<open>\<open>strncpy(message, s.c_str(), strlen(s.c_str()))\<close> into a zeroed array.\<close>

definition copy_request :: "string \<Rightarrow> bytes res" where
  "copy_request s = strncpy (zeros SOCKET_BUFFER_SIZE) (c_trunc s) (length (c_trunc s))"

section \<open>Requests\<close>

text \<open>
  The part the requests share: send the array, wait for the answer, note a lost connection.
  \<open>True\<close> if the function goes on to its end, \<open>False\<close> if it returned on a failed call.
\<close>

definition request :: "int \<Rightarrow> string \<Rightarrow> client \<Rightarrow> (bool \<times> client) res" where
  "request sock req c =
     res_bind (copy_request req) (\<lambda>message.
       let (r, c) = send sock message c
       in if r = -1 then Inr (False, c)
          else let (r, b, c) = recv sock SOCKET_BUFFER_SIZE c
               in if r = -1 then Inr (False, c)
                  else res_bind (c_str (fill (zeros SOCKET_BUFFER_SIZE) b)) (\<lambda>reply.
                    Inr (True, if reply = [] then c\<lparr>server_disconnected := True\<rparr> else c)))"

definition read_username :: "client \<Rightarrow> client" where
  "read_username c =
     (case cin_word (cin c) of
        (Some w, i) \<Rightarrow> c\<lparr>cin := i, username_g := w\<rparr>
      | (None, i) \<Rightarrow> c\<lparr>cin := i\<rparr>)"

definition read_password :: "client \<Rightarrow> client" where
  "read_password c =
     (case cin_word (cin c) of
        (Some w, i) \<Rightarrow> c\<lparr>cin := i, password_g := w\<rparr>
      | (None, i) \<Rightarrow> c\<lparr>cin := i\<rparr>)"

definition sign_up_login_user :: "int \<Rightarrow> int \<Rightarrow> client \<Rightarrow> client res" where
  "sign_up_login_user client_sock option c =
     (let c = read_password (read_username c);
          state = (if option = 1 then ''SIGNUP'' else ''LOGIN'');
          register_request = state @ '' '' @ username_g c @ '' '' @ password_g c
      in res_bind (request client_sock register_request c) (\<lambda>(ok, c).
           Inr (if ok then c\<lparr>exit_selected := False, isLogin_g := True\<rparr> else c)))"

definition logout_user :: "int \<Rightarrow> string \<Rightarrow> client \<Rightarrow> client res" where
  "logout_user client_sock name c =
     res_bind (request client_sock (''LOGOUT '' @ name) c) (\<lambda>(ok, c).
       Inr (if ok then c\<lparr>isLogin_g := False\<rparr> else c))"

definition exit_user :: "int \<Rightarrow> client \<Rightarrow> client res" where
  "exit_user client_sock c =
     res_bind (if username_g c \<noteq> [] then logout_user client_sock (username_g c) c else Inr c) (\<lambda>c.
     res_bind (request client_sock ''EXIT EXIT'' c) (\<lambda>(ok, c).
       Inr (if ok then c\<lparr>exit_selected := True\<rparr> else c)))"

text \<open>The word typed goes into \<open>char peer_username[50]\<close> without a limit.\<close>

definition call_message :: "string \<Rightarrow> string \<Rightarrow> bytes res" where
  "call_message peer sdp =
     store_str (zeros SOCKET_BUFFER_SIZE) (''CALL '' @ peer @ '' '' @ c_trunc sdp)"

definition call_peer :: "int \<Rightarrow> client \<Rightarrow> client res" where
  "call_peer client_sock c =
     (case cin_word (cin c) of (w, i) \<Rightarrow>
        res_bind (case w of Some s \<Rightarrow> store_str (zeros 50) s | None \<Rightarrow> Inr (zeros 50)) (\<lambda>peer_username.
        res_bind (c_str peer_username) (\<lambda>peer.
        res_bind (call_message peer (local_sdp c)) (\<lambda>message.
          let (_, c) = send client_sock message (c\<lparr>cin := i\<rparr>) in Inr c))))"

section \<open>The menu\<close>

datatype menu_next = Again | Leave | ExitProcess int

definition menu_switch :: "int \<Rightarrow> int \<Rightarrow> client \<Rightarrow> client res" where
  "menu_switch client_sock option c =
     (if option = 1 \<or> option = 2 then sign_up_login_user client_sock option c
      else if option = 3 then (if isLogin_g c then call_peer client_sock c else Inr c)
      else if option = 4 then logout_user client_sock (username_g c) c
      else if option = 5 then exit_user client_sock c
      else Inr c)"

text \<open>\<open>kill(getpid(), SIGINT)\<close> runs the handler of the process.\<close>

definition menu_turn :: "int \<Rightarrow> client \<Rightarrow> (menu_next \<times> client) res" where
  "menu_turn client_sock c =
     (let (option, i) = cin_int (-1) (cin c);
          c = c\<lparr>cin := i\<rparr>;
          (go, c) = load_running c
      in if \<not> go then Inr (if \<not> exit_selected c then ExitProcess client_sock else Leave, c)
         else if server_disconnected c then Inr (Leave, c)
         else res_bind (menu_switch client_sock option c) (\<lambda>c.
           if server_disconnected c then Inr (Leave, c)
           else if option = 5 then Inr (Leave, signal_handler SIGINT c)
           else Inr (Again, c)))"

partial_function (option) open_menu :: "int \<Rightarrow> client \<Rightarrow> (menu_next \<times> client) res option" where
  "open_menu client_sock c =
     (case menu_turn client_sock c of
        Inl e \<Rightarrow> Some (Inl e)
      | Inr (nxt, c') \<Rightarrow> if nxt = Again then open_menu client_sock c' else Some (Inr (nxt, c')))"

section \<open>The peer connection\<close>

text \<open>\<open>json message = {{"type", \<dots>}, {"sdp", \<dots>}}\<close>\<close>

definition description_json :: "string \<Rightarrow> string \<Rightarrow> json" where
  "description_json type_string sdp =
     init_list [init_list [JString ''type'', JString type_string], init_list [JString ''sdp'', JString sdp]]"

text \<open>The gathering callback of \<open>main\<close>.\<close>

definition gathering_complete :: "string \<Rightarrow> string \<Rightarrow> client \<Rightarrow> client res" where
  "gathering_complete type_string sdp c =
     (case dump False (description_json type_string sdp) of
        Inl (Jfault f) \<Rightarrow> Inl f
      | Inl (Jexn e) \<Rightarrow> Inl (Uncaught (exn_name e))
      | Inr t \<Rightarrow> Inr (c\<lparr>local_sdp := t\<rparr>))"

definition pc_do :: "rtc_lib \<Rightarrow> pc_call \<Rightarrow> client \<Rightarrow> client res" where
  "pc_do lib call c =
     (case lib (pc_calls c) call of
        Inl e \<Rightarrow> Inl (Uncaught e)
      | Inr g \<Rightarrow>
          let c = c\<lparr>pc_calls := pc_calls c @ [call]\<rparr>
          in case g of None \<Rightarrow> Inr c | Some (ty, sdp) \<Rightarrow> gathering_complete ty sdp c)"

text \<open>\<open>json::parse(remote_sdp)["description"].get<std::string>()\<close>, in the steps of the code.\<close>

definition lift_json :: "json_exn + 'a \<Rightarrow> 'a res" where
  "lift_json r = (case r of Inl e \<Rightarrow> Inl (Uncaught (exn_name e)) | Inr x \<Rightarrow> Inr x)"

section \<open>The listener\<close>

text \<open>The name and the description of an INVITE; \<open>len\<close> and the wrap-around are as in the server.\<close>

definition parse_INVITE :: "bytes \<Rightarrow> (string \<times> string) res" where
  "parse_INVITE buffer =
     res_bind (c_str buffer) (\<lambda>m.
     res_bind (store_conv (zeros 50) (sscanf m ''INVITE %s'') 0) (\<lambda>remote_side_user.
     res_bind (c_str remote_side_user) (\<lambda>u.
       let len = 6 + 1 + length u + 1
       in res_bind (strncpy (zeros SOCKET_BUFFER_SIZE) (drop len m) (size_sub (length m) len))
            (\<lambda>remote_side_sdp. res_bind (c_str remote_side_sdp) (\<lambda>sdp. Inr (u, sdp))))))"

definition handle_INVITE :: "rtc_lib \<Rightarrow> int \<Rightarrow> bytes \<Rightarrow> client \<Rightarrow> client res" where
  "handle_INVITE lib sock buffer c =
     res_bind (parse_INVITE buffer) (\<lambda>(u, sdp).
       let c = c\<lparr>remote_sdp := sdp\<rparr>
       in res_bind (lift_json (json_parse (remote_sdp c))) (\<lambda>j0.
          res_bind (lift_json (string_at ''description'' j0)) (\<lambda>text.
          res_bind (pc_do lib (SetRemoteDescription text ''offer'') c) (\<lambda>c.
          res_bind (pc_do lib (SetLocalDescription ''answer'') c) (\<lambda>c.
          res_bind (store_str (zeros SOCKET_BUFFER_SIZE) (''ACCEPT '' @ c_trunc (local_sdp c))) (\<lambda>answer_to_call.
            let (_, c) = send sock answer_to_call c in Inr c))))))"

definition parse_ACCEPT :: "bytes \<Rightarrow> string res" where
  "parse_ACCEPT buffer =
     res_bind (c_str buffer) (\<lambda>m.
       let len = 6 + 1
       in res_bind (strncpy (zeros SOCKET_BUFFER_SIZE) (drop len m) (size_sub (length m) len)) c_str)"

definition handle_ACCEPT :: "rtc_lib \<Rightarrow> bytes \<Rightarrow> client \<Rightarrow> client res" where
  "handle_ACCEPT lib buffer c =
     res_bind (parse_ACCEPT buffer) (\<lambda>sdp.
       let c = c\<lparr>remote_sdp := sdp\<rparr>
       in res_bind (lift_json (json_parse (remote_sdp c))) (\<lambda>j.
          res_bind (pc_do lib (SetLocalDescription ''offer'') c) (\<lambda>c.
          res_bind (lift_json (string_at ''description'' j)) (\<lambda>text.
            pc_do lib (SetRemoteDescription text ''answer'') c))))"

text \<open>One turn of the loop: \<open>True\<close> to go on, \<open>False\<close> to leave it.\<close>

definition listener_turn :: "rtc_lib \<Rightarrow> int \<Rightarrow> client \<Rightarrow> (bool \<times> client) res" where
  "listener_turn lib sock c =
     (let (go, c) = load_running c
      in if \<not> go then Inr (False, c)
         else let (r, b, c) = recv sock SOCKET_BUFFER_SIZE c
              in if r = -1 then Inr (False, c)
                 else let buffer = fill (zeros SOCKET_BUFFER_SIZE) b
                      in res_bind (c_str buffer) (\<lambda>m.
                           if m = [] \<or> strncmp buffer ''EXIT'' 4 = 0 then Inr (False, c)
                           else res_bind
                             (if strncmp buffer ''INVITE'' 6 = 0 then handle_INVITE lib sock buffer c
                              else if strncmp buffer ''ACCEPT'' 6 = 0 then handle_ACCEPT lib buffer c
                              else Inr c)
                             (\<lambda>c. let (go, c) = load_running c in Inr (go, c))))"

lemma gathering_frame: "gathering_complete ty sdp c = Inr c' \<Longrightarrow> inbox c' = inbox c"
  by (auto simp: gathering_complete_def split: sum.splits json_fail.splits)

lemma pc_do_frame: "pc_do lib call c = Inr c' \<Longrightarrow> inbox c' = inbox c"
  by (auto simp: pc_do_def Let_def split: sum.splits option.splits dest!: gathering_frame)

lemma handle_INVITE_frame: "handle_INVITE lib sock b c = Inr c' \<Longrightarrow> inbox c' = inbox c"
  by (auto simp: handle_INVITE_def Let_def elim!: res_bindE split: prod.splits
      dest!: pc_do_frame send_frame)

lemma handle_ACCEPT_frame: "handle_ACCEPT lib b c = Inr c' \<Longrightarrow> inbox c' = inbox c"
  by (auto simp: handle_ACCEPT_def Let_def elim!: res_bindE dest!: pc_do_frame)

lemma fill_empty_zeros: "0 < n \<Longrightarrow> c_str (fill (zeros n) []) = Inr []"
  by (simp add: fill_def)

lemma recv_cases: "recv fd sz n = (r, b, n') \<Longrightarrow> r = -1 \<or> b = [] \<or> 0 < r"
  by (auto simp: recv_def split: if_splits list.splits arrival.splits)

lemma listener_turn_progress:
  assumes "listener_turn lib sock c = Inr (True, c')"
  shows "pending sock c' < pending sock c"
proof -
  obtain go c1 where l1: "load_running c = (go, c1)" by fastforce
  obtain r b c2 where rc: "recv sock SOCKET_BUFFER_SIZE c1 = (r, b, c2)" by (metis prod_cases3)
  have p1: "pending sock c1 = pending sock c" using load_running_frame [OF l1] by (simp add: pending_def)
  from assms l1 rc have "r \<noteq> -1" and b: "b \<noteq> []" and "inbox c' = inbox c2"
    by (auto simp: listener_turn_def Let_def fill_empty_zeros elim!: res_bindE
        dest!: load_running_frame handle_INVITE_frame handle_ACCEPT_frame split: prod.splits if_splits)
  moreover have "0 < r" using recv_cases [OF rc] \<open>r \<noteq> -1\<close> b by auto
  then have "pending sock c2 < pending sock c1" by (rule recv_pending [OF rc]) simp
  ultimately show ?thesis using p1 by (simp add: pending_def)
qed

function listener_loop :: "rtc_lib \<Rightarrow> int \<Rightarrow> client \<Rightarrow> client res" where
  "listener_loop lib sock c =
     (case listener_turn lib sock c of
        Inl e \<Rightarrow> Inl e
      | Inr (go, c') \<Rightarrow> if go then listener_loop lib sock c' else Inr c')"
  by pat_completeness auto
termination
  by (relation "measure (\<lambda>(lib, sock, c). pending sock c)") (auto dest: listener_turn_progress)

declare listener_loop.simps [simp del]

text \<open>The thread: set up the listening socket, accept the server's connection, listen, close it.\<close>

definition server_handler :: "rtc_lib \<Rightarrow> int \<Rightarrow> client \<Rightarrow> client res" where
  "server_handler lib port c =
     (let (server_socket, c) = socket c
      in if server_socket = -1 then Inr c
         else let (ok, c) = sys_ok c
              in if \<not> ok then Inr c
                 else let (ok, c) = sys_ok c
                      in if \<not> ok then Inr c
                         else let (ok, c) = sys_ok c
                              in if \<not> ok then Inr c
                                 else let c = log_event (Bound server_socket (htons port)) c;
                                          (client_sock, c) = socket c;
                                          (go, c) = load_running c
                                      in if \<not> go then Inr c
                                         else if client_sock = -1 then Inr c
                                         else res_bind (listener_loop lib client_sock c) (\<lambda>c.
                                           Inr (close_fd client_sock c)))"

section \<open>Media\<close>

text \<open>\<open>inet_addr\<close>: the four octets as a 32-bit number in memory order, on a little-endian host.\<close>

definition inet_addr :: "string \<Rightarrow> 32 word" where
  "inet_addr s =
     (case inet_pton s of
        Some [a, b, c, d] \<Rightarrow> of_nat (a + 256 * b + 65536 * c + 16777216 * d)
      | _ \<Rightarrow> -1)"

definition AF_INET :: "16 word" where "AF_INET = 2"

record sockaddr_in =
  sin_family :: "16 word"
  sin_port :: in_port
  sin_addr :: "32 word"

text \<open>The second assignment to \<open>sin_family\<close> was meant for the address, which stays zero.\<close>

definition output_addr :: sockaddr_in where
  "output_addr =
     (let a = \<lparr>sin_family = 0, sin_port = 0, sin_addr = 0\<rparr>;
          a = a\<lparr>sin_family := AF_INET\<rparr>;
          a = a\<lparr>sin_family := ucast (inet_addr ''127.0.0.1'')\<rparr>
      in a\<lparr>sin_port := htons 6000\<rparr>)"

definition input_addr :: sockaddr_in where
  "input_addr =
     \<lparr>sin_family = AF_INET, sin_port = htons 5000, sin_addr = inet_addr ''127.0.0.1''\<rparr>"

text \<open>
  The media loop. A \<open>recv\<close> on the datagram socket takes one datagram, cut to the buffer, and waits
  for ever when none will come: then the function does not return, which is \<open>None\<close>. The track
  belongs to the library: \<open>is_open\<close> tells, for the packets sent so far, whether it is open, and
  \<open>set_ssrc\<close> is the library's rewriting of the header. \<open>sends\<close> are the outcomes of the \<open>send\<close> calls
  on the other socket, which is not connected. The result is the packets sent on the track.
\<close>

definition RTP_HEADER :: nat where "RTP_HEADER = 12"
definition MEDIA_BUFFER :: nat where "MEDIA_BUFFER = 2048"

definition overwrite :: "bytes \<Rightarrow> bytes \<Rightarrow> bytes" where
  "overwrite buf b = b @ drop (length b) buf"

definition media_packet ::
  "(bytes list \<Rightarrow> bool) \<Rightarrow> (int \<Rightarrow> bytes \<Rightarrow> bytes) \<Rightarrow> nat \<Rightarrow> bytes \<Rightarrow> bytes list \<Rightarrow> bytes \<times> bytes list" where
  "media_packet is_open set_ssrc len buf sent =
     (if len < RTP_HEADER \<or> \<not> is_open sent then (buf, sent)
      else let buf = set_ssrc 42 buf in (buf, sent @ [take len buf]))"

fun media_loop ::
  "(bytes list \<Rightarrow> bool) \<Rightarrow> (int \<Rightarrow> bytes \<Rightarrow> bytes) \<Rightarrow> arrival list \<Rightarrow> bool list \<Rightarrow> bytes \<Rightarrow> bytes list
     \<Rightarrow> bytes list option" where
  "media_loop is_open set_ssrc [] sends buf sent = None"
| "media_loop is_open set_ssrc (Chunk d # q) sends buf sent =
     (let b = take MEDIA_BUFFER d;
          (buf, sent) = media_packet is_open set_ssrc (length b) (overwrite buf b) sent
      in media_loop is_open set_ssrc q sends buf sent)"
| "media_loop is_open set_ssrc (RecvError # q) sends buf sent =
     (case sends of
        [] \<Rightarrow> Some sent
      | ok # sends' \<Rightarrow>
          if \<not> ok then Some sent
          else let (buf, sent) = media_packet is_open set_ssrc MEDIA_BUFFER buf sent
               in media_loop is_open set_ssrc q sends' buf sent)"

section \<open>\<open>main\<close>\<close>

definition client_message :: "string \<Rightarrow> int \<Rightarrow> bytes res" where
  "client_message client_address port =
     store_str (zeros SOCKET_BUFFER_SIZE) (''CLIENT '' @ client_address @ '' '' @ show_int port)"

definition send_ip_and_port_to_server :: "int \<Rightarrow> string \<Rightarrow> int \<Rightarrow> client \<Rightarrow> (int \<times> client) res" where
  "send_ip_and_port_to_server sock client_address port c =
     res_bind (client_message client_address port) (\<lambda>message. Inr (send sock message c))"

text \<open>Up to the threads: \<open>Inl\<close> is an early exit code, \<open>Inr\<close> the connected socket and the own port.\<close>

definition client_setup :: "string list \<Rightarrow> client \<Rightarrow> ((int + (int \<times> int)) \<times> client) res" where
  "client_setup argv c =
     (if length argv \<noteq> 5 then Inr (Inl 1, c)
      else let (ok, c) = sys_ok c
           in if \<not> ok then Inr (Inl 1, c)
              else res_bind (stoi (argv ! 2)) (\<lambda>server_port.
                   res_bind (stoi (argv ! 4)) (\<lambda>own_port.
                     let (sock, c) = socket c
                     in if sock = -1 then Inr (Inl 1, c)
                        else case inet_pton (argv ! 1) of
                          None \<Rightarrow> Inr (Inl 1, c)
                        | Some addr \<Rightarrow>
                            let (ok, c) = sys_ok c
                            in if \<not> ok then Inr (Inl 1, c)
                               else let c = log_event (Connected sock addr (htons server_port)) c
                                    in res_bind (send_ip_and_port_to_server sock (argv ! 3) own_port c)
                                         (\<lambda>(r, c). if r = -1 then Inr (Inl (-1), close_fd sock c)
                                                   else Inr (Inr (sock, own_port), c)))))"

section \<open>The message formats\<close>

lemma c_trunc_id [simp]: "nul_free s \<Longrightarrow> c_trunc s = s"
  by (induction s) (auto simp: c_trunc_def)

lemma c_trunc_nul_free [simp]: "nul_free (c_trunc s)"
  by (auto simp: c_trunc_def nul_free_def dest: set_takeWhileD)

lemma copy_request_fits: "fits m \<Longrightarrow> copy_request m = Inr (message_array m)"
  using strncpy_zeros [of m SOCKET_BUFFER_SIZE]
  by (simp add: copy_request_def fits_def message_array_def)

lemma store_message: "length m < SOCKET_BUFFER_SIZE \<Longrightarrow> store_str (zeros SOCKET_BUFFER_SIZE) m = Inr (message_array m)"
  by (simp add: store_str_zeros message_array_def)

lemma call_message_fits:
  "fits (''CALL '' @ r @ '' '' @ sdp) \<Longrightarrow> call_message r sdp = Inr (message_array (''CALL '' @ r @ '' '' @ sdp))"
  using store_message [of "''CALL '' @ r @ '' '' @ sdp"] by (simp add: call_message_def fits_def)

lemma parse_INVITE_fits:
  assumes "word50 r" and "fits (''INVITE '' @ r @ '' '' @ sdp)"
  shows "parse_INVITE (message_array (''INVITE '' @ r @ '' '' @ sdp)) = Inr (r, sdp)"
proof -
  let ?m = "''INVITE '' @ r @ '' '' @ sdp"
  have sc: "sscanf ?m ''INVITE %s'' = [Str r]"
    using scan_one_token(1) [of r sdp] assms(1)
    by (simp add: sscanf_def fmt_words word50_def del: scan.simps(2,4))
  have st: "store_conv (zeros 50) (sscanf ?m ''INVITE %s'') 0 = Inr (r @ zeros (50 - length r))"
    unfolding sc using assms(1) by (simp add: store_conv_def store_str_zeros word50_def)
  have r: "c_str (r @ zeros (50 - length r)) = Inr r"
    using assms(1) by (simp add: word50_def c_str_append_zeros)
  have len: "length ?m < SOCKET_BUFFER_SIZE" using assms(2) by (simp only: fits_def)
  have "drop (6 + 1 + length r + 1) ?m = sdp" by (simp add: numeral_eq_Suc)
  moreover have "6 + 1 + length r + 1 < (2::nat) ^ 63" using assms(1) by (simp add: word50_def)
  ultimately have cp: "strncpy (zeros SOCKET_BUFFER_SIZE) (drop (6 + 1 + length r + 1) ?m)
      (size_sub (length ?m) (6 + 1 + length r + 1)) = Inr (sdp @ zeros (SOCKET_BUFFER_SIZE - length sdp))"
    using strncpy_size_sub [OF len, of "6 + 1 + length r + 1"] by simp
  have d: "c_str (sdp @ zeros (SOCKET_BUFFER_SIZE - length sdp)) = Inr sdp"
    using assms(2) by (simp add: fits_def c_str_append_zeros)
  show ?thesis
    unfolding parse_INVITE_def c_str_message_array [OF assms(2)] res_bind_Inr st r Let_def cp d by simp
qed

lemma parse_ACCEPT_fits:
  assumes "fits (''ACCEPT '' @ sdp)"
  shows "parse_ACCEPT (message_array (''ACCEPT '' @ sdp)) = Inr sdp"
proof -
  let ?m = "''ACCEPT '' @ sdp"
  have len: "length ?m < SOCKET_BUFFER_SIZE" using assms by (simp only: fits_def)
  have "drop (6 + 1) ?m = sdp" by simp
  then have cp: "strncpy (zeros SOCKET_BUFFER_SIZE) (drop (6 + 1) ?m) (size_sub (length ?m) (6 + 1)) =
      Inr (sdp @ zeros (SOCKET_BUFFER_SIZE - length sdp))"
    using strncpy_size_sub [OF len, of "6 + 1"] by simp
  have d: "c_str (sdp @ zeros (SOCKET_BUFFER_SIZE - length sdp)) = Inr sdp"
    using assms by (simp add: fits_def c_str_append_zeros)
  show ?thesis
    unfolding parse_ACCEPT_def c_str_message_array [OF assms] res_bind_Inr Let_def cp d ..
qed

text \<open>What the client writes and the server reads, and the other way round.\<close>

definition credentials_ok :: "string \<times> string \<Rightarrow> bool" where
  "credentials_ok up \<longleftrightarrow> word50 (fst up) \<and> word50 (snd up)"

definition encode_request :: "string \<Rightarrow> string \<times> string \<Rightarrow> bytes res" where
  "encode_request state up = copy_request (state @ '' '' @ fst up @ '' '' @ snd up)"

definition call_wf :: "string \<times> string \<Rightarrow> bool" where
  "call_wf rs \<longleftrightarrow> word50 (fst rs) \<and> fits (''CALL '' @ fst rs @ '' '' @ snd rs)"

definition decode_CALL :: "bytes \<Rightarrow> (string \<times> string) res" where
  "decode_CALL b =
     res_bind (parse_CALL b) (\<lambda>(r, d).
     res_bind (c_str r) (\<lambda>name. res_bind (c_str d) (\<lambda>sdp. Inr (name, sdp))))"

definition invite_wf :: "string \<times> string \<Rightarrow> bool" where
  "invite_wf rs \<longleftrightarrow> word50 (fst rs) \<and> fits (''INVITE '' @ fst rs @ '' '' @ snd rs)"

text \<open>The client's first \<open>recv\<close> takes the first half of the server's array.\<close>

definition encode_INVITE :: "string \<times> string \<Rightarrow> bytes res" where
  "encode_INVITE rs =
     res_bind (invite_message (fst rs @ zeros (50 - length (fst rs)))
                 (snd rs @ zeros (SOCKET_BUFFER_SIZE - length (snd rs))))
       (\<lambda>b. Inr (take SOCKET_BUFFER_SIZE b))"

lemma request_codec:
  assumes "credentials_ok up" and "state \<in> {''SIGNUP'', ''LOGIN''}"
  shows "encode_request state up = Inr (message_array (state @ '' '' @ fst up @ '' '' @ snd up))"
    and "two_words (message_array (state @ '' '' @ fst up @ '' '' @ snd up)) (state @ '' %s %s'') = Inr up"
proof -
  have fit: "fits (state @ '' '' @ fst up @ '' '' @ snd up)"
    using assms by (auto simp: fits_def credentials_ok_def word50_def SOCKET_BUFFER_SIZE_def)
  then show "encode_request state up = Inr (message_array (state @ '' '' @ fst up @ '' '' @ snd up))"
    unfolding encode_request_def by (rule copy_request_fits)
  have fmt: "parse_fmt (state @ '' %s %s'') = map Lit state @ [WS, PctS, WS, PctS]"
    using assms(2) fmt_words by auto
  show "two_words (message_array (state @ '' '' @ fst up @ '' '' @ snd up)) (state @ '' %s %s'') = Inr up"
    using two_words_ok [of "fst up" "snd up" state "state @ '' %s %s''"] assms(1) fit fmt
    by (simp add: credentials_ok_def)
qed

interpretation signup_codec: codec credentials_ok "encode_request ''SIGNUP''" "\<lambda>b. two_words b ''SIGNUP %s %s''"
  using request_codec [of _ "''SIGNUP''"] by unfold_locales auto

interpretation login_codec: codec credentials_ok "encode_request ''LOGIN''" "\<lambda>b. two_words b ''LOGIN %s %s''"
  using request_codec [of _ "''LOGIN''"] by unfold_locales auto

interpretation call_codec: codec call_wf "\<lambda>rs. call_message (fst rs) (snd rs)" decode_CALL
proof unfold_locales
  fix rs assume "call_wf rs"
  then have w: "word50 (fst rs)" "fits (''CALL '' @ fst rs @ '' '' @ snd rs)" by (simp_all add: call_wf_def)
  show "\<exists>b. call_message (fst rs) (snd rs) = Inr b" using call_message_fits [OF w(2)] by blast
  fix b assume "call_message (fst rs) (snd rs) = Inr b"
  then have "b = message_array (''CALL '' @ fst rs @ '' '' @ snd rs)" using call_message_fits [OF w(2)] by simp
  with parse_CALL_ok [OF w] w show "decode_CALL b = Inr rs"
    by (simp add: decode_CALL_def c_str_append_zeros word50_def fits_def)
qed

lemma double_array:
  assumes "length m \<le> SOCKET_BUFFER_SIZE"
  shows "take SOCKET_BUFFER_SIZE (m @ zeros (2 * SOCKET_BUFFER_SIZE - length m)) = message_array m"
    and "drop SOCKET_BUFFER_SIZE (m @ zeros (2 * SOCKET_BUFFER_SIZE - length m)) = zeros SOCKET_BUFFER_SIZE"
proof -
  have "zeros (2 * SOCKET_BUFFER_SIZE - length m) =
      zeros (SOCKET_BUFFER_SIZE - length m) @ zeros SOCKET_BUFFER_SIZE"
    using assms by (simp add: zeros_def replicate_add [symmetric])
  then show "take SOCKET_BUFFER_SIZE (m @ zeros (2 * SOCKET_BUFFER_SIZE - length m)) = message_array m"
    and "drop SOCKET_BUFFER_SIZE (m @ zeros (2 * SOCKET_BUFFER_SIZE - length m)) = zeros SOCKET_BUFFER_SIZE"
    using assms by (simp_all add: message_array_def)
qed

lemma invite_first_half:
  assumes "invite_wf rs"
  shows "encode_INVITE rs = Inr (message_array (''INVITE '' @ fst rs @ '' '' @ snd rs))"
proof -
  let ?m = "''INVITE '' @ fst rs @ '' '' @ snd rs"
  have w: "word50 (fst rs)" "fits ?m" using assms by (simp_all add: invite_wf_def)
  then have sdp: "nul_free (snd rs)" "length (snd rs) < SOCKET_BUFFER_SIZE" by (simp_all add: fits_def)
  have "invite_message (fst rs @ zeros (50 - length (fst rs)))
      (snd rs @ zeros (SOCKET_BUFFER_SIZE - length (snd rs))) =
      Inr (?m @ zeros (2 * SOCKET_BUFFER_SIZE - length ?m))"
    using w sdp by (intro invite_message_ok) (simp_all add: word50_def c_str_append_zeros)
  moreover have "take SOCKET_BUFFER_SIZE (?m @ zeros (2 * SOCKET_BUFFER_SIZE - length ?m)) = message_array ?m"
    using w(2) by (intro double_array) (simp add: fits_def)
  ultimately show ?thesis by (simp only: encode_INVITE_def res_bind_Inr)
qed

interpretation invite_codec: codec invite_wf encode_INVITE parse_INVITE
  using invite_first_half parse_INVITE_fits by unfold_locales (auto simp: invite_wf_def)

interpretation accept_codec: codec "\<lambda>sdp. fits (''ACCEPT '' @ sdp)"
  "\<lambda>sdp. store_str (zeros SOCKET_BUFFER_SIZE) (''ACCEPT '' @ sdp)" parse_ACCEPT
proof unfold_locales
  fix sdp assume w: "fits (''ACCEPT '' @ sdp)"
  then have "length (''ACCEPT '' @ sdp) < SOCKET_BUFFER_SIZE" by (simp only: fits_def)
  note st = store_message [OF this]
  then show "\<exists>b. store_str (zeros SOCKET_BUFFER_SIZE) (''ACCEPT '' @ sdp) = Inr b" by blast
  fix b assume "store_str (zeros SOCKET_BUFFER_SIZE) (''ACCEPT '' @ sdp) = Inr b"
  with st parse_ACCEPT_fits [OF w] show "parse_ACCEPT b = Inr sdp" by simp
qed

section \<open>Properties\<close>

text \<open>The server reads from a SIGNUP or LOGIN request of the client exactly the name and the password
  that were typed, when both are words of fewer than 50 characters.\<close>

theorem request_round_trip:
  assumes "word50 u" and "word50 p"
  shows "res_bind (copy_request (''SIGNUP '' @ u @ '' '' @ p)) (\<lambda>b. two_words b ''SIGNUP %s %s'') = Inr (u, p)
    \<and> res_bind (copy_request (''LOGIN '' @ u @ '' '' @ p)) (\<lambda>b. two_words b ''LOGIN %s %s'') = Inr (u, p)"
  using signup_codec.round_trip [of "(u, p)"] login_codec.round_trip [of "(u, p)"] assms
  by (simp add: credentials_ok_def encode_request_def)

theorem request_round_trip_witness:
  "res_bind (copy_request (''SIGNUP '' @ ''ann'' @ '' '' @ ''pw'')) (\<lambda>b. two_words b ''SIGNUP %s %s'') = Inr (''ann'', ''pw'')"
  using request_round_trip [of "''ann''" "''pw''"] by simp

text \<open>C21. The name and the description of a call reach the server's handler, the invited client and back
  unchanged: CALL, the first half of INVITE, and ACCEPT are each read as they were written, when they
  fit the buffer.\<close>

theorem call_formats_round_trip:
  assumes "word50 r" and "fits (''INVITE '' @ r @ '' '' @ sdp)" and "fits (''ACCEPT '' @ a)"
  shows "res_bind (call_message r sdp) decode_CALL = Inr (r, sdp)
    \<and> res_bind (encode_INVITE (r, sdp)) parse_INVITE = Inr (r, sdp)
    \<and> res_bind (store_str (zeros SOCKET_BUFFER_SIZE) (''ACCEPT '' @ a)) parse_ACCEPT = Inr a"
proof -
  have "call_wf (r, sdp)" using assms(1,2) by (simp add: call_wf_def fits_def)
  moreover have "invite_wf (r, sdp)" using assms(1,2) by (simp add: invite_wf_def)
  ultimately show ?thesis
    using call_codec.round_trip [of "(r, sdp)"] invite_codec.round_trip [of "(r, sdp)"]
      accept_codec.round_trip [OF assms(3)] by simp
qed

theorem call_formats_round_trip_witness:
  "res_bind (call_message ''bob'' ''v=0'') decode_CALL = Inr (''bob'', ''v=0'')
    \<and> res_bind (encode_INVITE (''bob'', ''v=0'')) parse_INVITE = Inr (''bob'', ''v=0'')"
  using call_formats_round_trip [of "''bob''" "''v=0''" "''v=1''"]
  by (simp add: fits_def SOCKET_BUFFER_SIZE_def)

text \<open>The CALL message overflows its array exactly when name and description together have 1018
  characters or more: the description of a session is not limited anywhere.\<close>

theorem call_message_overflow:
  "call_message peer sdp = Inl Overflow \<longleftrightarrow> 1018 \<le> length peer + length (c_trunc sdp)"
  by (auto simp: call_message_def store_str_Inl_iff SOCKET_BUFFER_SIZE_def)

section \<open>The listener's properties\<close>

lemma description_json_eq:
  "description_json ty sdp = JObject [(''sdp'', JString sdp), (''type'', JString ty)]"
  by (simp add: description_json_def init_list_pair) (simp add: init_list_def emplace_def less_char_def)

lemma gathering_parse:
  assumes "gathering_complete ty sdp c = Inr c'"
  shows "json_parse (local_sdp c') = Inr (JObject [(''sdp'', JString sdp), (''type'', JString ty)])"
proof -
  from assms obtain t where t: "dump False (description_json ty sdp) = Inr t" "local_sdp c' = t"
    by (auto simp: gathering_complete_def split: sum.splits json_fail.splits)
  moreover have "canonical (description_json ty sdp)" by (simp add: description_json_eq less_char_def)
  ultimately show ?thesis using json_parse_dump by (metis description_json_eq)
qed

lemma recv_message:
  "fits m \<Longrightarrow> 0 \<le> sock \<Longrightarrow> inbox c sock = Chunk (message_array m) # q \<Longrightarrow>
     recv sock SOCKET_BUFFER_SIZE c =
       (int SOCKET_BUFFER_SIZE, message_array m, c\<lparr>inbox := (inbox c)(sock := q)\<rparr>)"
  using recv_whole [of sock c "message_array m" q SOCKET_BUFFER_SIZE] by (simp add: fits_def)

lemma listener_invite:
  assumes "fits (''INVITE '' @ m)" and "0 \<le> sock" and "quiet c"
    and "recv sock SOCKET_BUFFER_SIZE c = (k, message_array (''INVITE '' @ m), c1)" and "k \<noteq> -1"
  shows "listener_turn lib sock c =
    res_bind (handle_INVITE lib sock (message_array (''INVITE '' @ m)) c1)
      (\<lambda>c. let (go, c) = load_running c in Inr (go, c))"
proof -
  have f: "fill (zeros SOCKET_BUFFER_SIZE) (message_array (''INVITE '' @ m)) = message_array (''INVITE '' @ m)"
    using assms(1) by (simp add: fits_def)
  have t: "take 4 (message_array (''INVITE '' @ m)) = ''INVI''" "take 6 (message_array (''INVITE '' @ m)) = ''INVITE''"
    by (simp_all add: message_array_def)
  show ?thesis
    using assms(3-5) c_str_message_array [OF assms(1)] f t
    by (simp add: listener_turn_def quiet_def load_running_quiet command_tests)
qed

lemma handle_INVITE_type_error:
  assumes "gathering_complete ty sdp c0 = Inr c1" and "word50 r" and "fits (''INVITE '' @ r @ '' '' @ local_sdp c1)"
  shows "handle_INVITE lib sock (message_array (''INVITE '' @ r @ '' '' @ local_sdp c1)) c =
    Inl (Uncaught ''nlohmann::type_error'')"
  using parse_INVITE_fits [OF assms(2,3)] gathering_parse [OF assms(1)]
  by (simp add: handle_INVITE_def lift_json_def string_at_object)

text \<open>The client looks for a member "description" in the description it receives, but the
  descriptions the clients send have only "type" and "sdp": whatever peer and session, the INVITE
  that carries the caller's own description ends the called client with a \<open>type_error\<close>.\<close>

theorem invite_kills_callee:
  assumes "gathering_complete ty sdp c0 = Inr c1" and "word50 r"
    and "fits (''INVITE '' @ r @ '' '' @ local_sdp c1)" and "quiet c" and "0 \<le> sock"
    and "inbox c sock = Chunk (message_array (''INVITE '' @ r @ '' '' @ local_sdp c1)) # q"
  shows "listener_turn lib sock c = Inl (Uncaught ''nlohmann::type_error'')"
  using listener_invite [OF assms(3,5,4) recv_message [OF assms(3,5,6)]] handle_INVITE_type_error [OF assms(1-3)] by simp

text \<open>Until gathering completes the description is empty, and \<open>main\<close> never starts it: a call made
  then reaches the callee as an INVITE without a description, whose parsing throws \<open>parse_error\<close> and
  ends the called client.\<close>

theorem empty_description_kills_callee:
  assumes "word50 r" and "quiet c" and "0 \<le> sock"
    and "inbox c sock = Chunk (message_array (''INVITE '' @ r @ '' '' @ '''')) # q"
  shows "call_message r '''' = Inr (message_array (''CALL '' @ r @ '' ''))
    \<and> listener_turn lib sock c = Inl (Uncaught ''nlohmann::parse_error'')"
proof -
  have fit: "fits (''INVITE '' @ r @ '' '' @ '''')" "fits (''CALL '' @ r @ '' '' @ '''')"
    using assms(1) by (simp_all add: fits_def word50_def SOCKET_BUFFER_SIZE_def)
  have "json_parse [] = Inl (Parse_error 101)" by (simp add: json_eval)
  then have "handle_INVITE lib sock (message_array (''INVITE '' @ r @ '' '' @ '''')) c' =
      Inl (Uncaught ''nlohmann::parse_error'')" for c'
    using parse_INVITE_fits [OF assms(1) fit(1)] by (simp add: handle_INVITE_def lift_json_def)
  then show ?thesis
    using listener_invite [OF fit(1) assms(3,2) recv_message [OF fit(1) assms(3,4)]]
      call_message_fits [OF fit(2)] by simp
qed

text \<open>A library that never throws, and a concrete client.\<close>

definition quiet_lib :: rtc_lib where
  "quiet_lib calls call = Inr None"

definition example_client :: "(int \<Rightarrow> arrival list) \<Rightarrow> string \<Rightarrow> client" where
  "example_client inb typed =
     \<lparr>inbox = inb, oks = [], next_fd = 9, sigint_in = None, running = True, events = [],
      cin = \<lparr>in_rest = typed, in_fail = False\<rparr>, username_g = [], password_g = [],
      server_disconnected = False, exit_selected = False, local_sdp = [], remote_sdp = [],
      isLogin_g = False, pc_calls = []\<rparr>"

lemma example_client_simps [simp]:
  "quiet (example_client inb typed)" "inbox (example_client inb typed) = inb"
  "cin (example_client inb typed) = \<lparr>in_rest = typed, in_fail = False\<rparr>"
  "oks (example_client inb typed) = []" "running (example_client inb typed)"
  "sigint_in (example_client inb typed) = None" "events (example_client inb typed) = []"
  "\<not> server_disconnected (example_client inb typed)"
  by (simp_all add: example_client_def quiet_def)

lemma example_gathering:
  "gathering_complete ''offer'' ''v=0'' c =
     Inr (c\<lparr>local_sdp := concat [[CHR 0x7B], quoted ''sdp'', '':'', quoted ''v=0'', '','', quoted ''type'',
       '':'', quoted ''offer'', [CHR 0x7D]]\<rparr>)"
  using dump_ascii_description by (simp add: gathering_complete_def description_json_eq)

theorem invite_kills_callee_witness:
  "\<exists>m. listener_turn quiet_lib 6 (example_client (\<lambda>_. [Chunk (message_array (''INVITE bob '' @ m))]) []) =
     Inl (Uncaught ''nlohmann::type_error'')"
proof -
  define c1 where "c1 = (example_client (\<lambda>_. []) [])\<lparr>local_sdp := concat [[CHR 0x7B], quoted ''sdp'', '':'',
    quoted ''v=0'', '','', quoted ''type'', '':'', quoted ''offer'', [CHR 0x7D]]\<rparr>"
  have "fits (''INVITE '' @ ''bob'' @ '' '' @ local_sdp c1)"
    by (simp add: c1_def fits_def quoted_def SOCKET_BUFFER_SIZE_def)
  from invite_kills_callee [OF example_gathering [of "example_client (\<lambda>_. []) []", folded c1_def] _ this, of
      "example_client (\<lambda>_. [Chunk (message_array (''INVITE bob '' @ local_sdp c1))]) []" 6 "[]" quiet_lib]
  show ?thesis by auto
qed

theorem empty_description_kills_callee_witness:
  "listener_turn quiet_lib 6 (example_client (\<lambda>_. [Chunk (message_array ''INVITE bob '')]) []) =
     Inl (Uncaught ''nlohmann::parse_error'')"
  using empty_description_kills_callee [of "''bob''"
      "example_client (\<lambda>_. [Chunk (message_array ''INVITE bob '')]) []" 6 "[]" quiet_lib] by simp

text \<open>The server sends an INVITE as an array of twice the buffer size. The client reads half of it;
  if it survives the call, its next turn reads the other half, which is empty, and takes that for
  a lost connection: after one INVITE a client no longer listens.\<close>

theorem invite_deafens_listener:
  assumes "length m < SOCKET_BUFFER_SIZE" and "0 \<le> sock"
    and "inbox c sock = Chunk (m @ zeros (2 * SOCKET_BUFFER_SIZE - length m)) # q"
    and "listener_turn lib sock c = Inr (True, c')"
  shows "\<exists>c''. listener_turn lib sock c' = Inr (False, c'')"
proof -
  let ?a = "m @ zeros (2 * SOCKET_BUFFER_SIZE - length m)"
  obtain go c1 where l1: "load_running c = (go, c1)" by fastforce
  have i1: "inbox c1 sock = Chunk ?a # q" using load_running_frame [OF l1] assms(3) by simp
  have len: "SOCKET_BUFFER_SIZE < length ?a" using assms(1) by simp
  obtain r b c2 where rc: "recv sock SOCKET_BUFFER_SIZE c1 = (r, b, c2)" by (metis prod_cases3)
  have "inbox c2 sock = Chunk (drop SOCKET_BUFFER_SIZE ?a) # q"
    using recv_part [OF assms(2) i1 len] rc by auto
  then have i2: "inbox c2 sock = Chunk (zeros SOCKET_BUFFER_SIZE) # q"
    using double_array(2) [of m] assms(1) by simp
  have "inbox c' = inbox c2"
    using assms(4) l1 rc
    by (auto simp: listener_turn_def Let_def elim!: res_bindE
        dest!: load_running_frame handle_INVITE_frame handle_ACCEPT_frame split: prod.splits if_splits)
  with i2 have i': "inbox c' sock = Chunk (zeros SOCKET_BUFFER_SIZE) # q" by simp
  obtain go' c3 where l3: "load_running c' = (go', c3)" by fastforce
  have "inbox c3 sock = Chunk (zeros SOCKET_BUFFER_SIZE) # q" using load_running_frame [OF l3] i' by simp
  from recv_whole [OF assms(2) this, of SOCKET_BUFFER_SIZE] obtain c4 where
    "recv sock SOCKET_BUFFER_SIZE c3 = (int SOCKET_BUFFER_SIZE, zeros SOCKET_BUFFER_SIZE, c4)" by simp
  moreover have "fill (zeros SOCKET_BUFFER_SIZE) (zeros SOCKET_BUFFER_SIZE) = zeros SOCKET_BUFFER_SIZE"
    by (simp add: fill_def)
  ultimately show ?thesis using l3 by (cases go') (simp_all add: listener_turn_def)
qed

theorem invite_deafens_listener_witness:
  "\<exists>m c' c''. listener_turn quiet_lib 6
      (example_client (\<lambda>_. [Chunk (m @ zeros (2 * SOCKET_BUFFER_SIZE - length m))]) []) = Inr (True, c')
    \<and> listener_turn quiet_lib 6 c' = Inr (False, c'')"
proof -
  define d where "d = concat [[CHR 0x7B], quoted ''description'', '':'', quoted ''v=0'', [CHR 0x7D]]"
  define m where "m = ''INVITE '' @ ''bob'' @ '' '' @ d"
  define c where "c = example_client (\<lambda>_. [Chunk (m @ zeros (2 * SOCKET_BUFFER_SIZE - length m))]) []"
  have fit: "fits m" by (simp add: m_def d_def fits_def quoted_def SOCKET_BUFFER_SIZE_def)
  then have len: "length m < SOCKET_BUFFER_SIZE" by (simp add: fits_def)
  have "json_parse d = Inr (JObject [(''description'', JString ''v=0'')])"
    by (simp add: d_def quoted_def json_eval)
  moreover have "parse_INVITE (message_array m) = Inr (''bob'', d)"
    unfolding m_def using fit by (intro parse_INVITE_fits) (simp_all add: m_def)
  ultimately obtain c1 where h: "handle_INVITE quiet_lib 6 (message_array m)
      (c\<lparr>inbox := (inbox c)(6 := [Chunk (zeros SOCKET_BUFFER_SIZE)])\<rparr>) = Inr c1" "running c1" "sigint_in c1 = None"
    by (simp add: handle_INVITE_def lift_json_def string_at_object pc_do_def quiet_lib_def store_str_def
        send_ok c_def SOCKET_BUFFER_SIZE_def c_trunc_def Let_def) (simp add: example_client_def)
  have "recv 6 SOCKET_BUFFER_SIZE c = (int SOCKET_BUFFER_SIZE, message_array m,
      c\<lparr>inbox := (inbox c)(6 := [Chunk (zeros SOCKET_BUFFER_SIZE)])\<rparr>)"
    using recv_part [of 6 c "m @ zeros (2 * SOCKET_BUFFER_SIZE - length m)" "[]" SOCKET_BUFFER_SIZE]
      double_array [of m] len by (simp add: c_def)
  from listener_invite [OF fit [unfolded m_def] _ _ this [unfolded m_def]] h
  have 1: "listener_turn quiet_lib 6 c = Inr (True, c1)"
    by (simp add: m_def c_def load_running_quiet)
  from invite_deafens_listener [OF len _ _ this [unfolded c_def]] obtain c2 where
    "listener_turn quiet_lib 6 c1 = Inr (False, c2)" by auto
  with 1 show ?thesis unfolding c_def by blast
qed

section \<open>The menu's properties\<close>

lemma menu_turn_stuck:
  assumes "in_fail (cin c)" and "running c" and "sigint_in c = None" and "\<not> server_disconnected c"
  shows "menu_turn sock c = Inr (Again, c)"
  using assms by (simp add: menu_turn_def cin_int_def load_running_quiet menu_switch_def)

lemma open_menu_diverges:
  assumes "open_menu sock c = Some y"
  shows "menu_turn sock c \<noteq> Inr (Again, c)"
proof (rule open_menu.raw_induct [OF _ assms])
  fix menu sock c y
  assume "\<And>sock c y. menu sock c = Some y \<Longrightarrow> menu_turn sock c \<noteq> Inr (Again, c)"
    and "(case menu_turn sock c of Inl e \<Rightarrow> Some (Inl e)
      | Inr (nxt, c') \<Rightarrow> if nxt = Again then menu sock c' else Some (Inr (nxt, c'))) = Some y"
  then show "menu_turn sock c \<noteq> Inr (Again, c)" by (auto split: sum.splits prod.splits if_splits)
qed

text \<open>Once standard input has failed (its end, or a letter where a number is expected), the menu
  never returns: it shows itself again and again without waiting and without asking the server.\<close>

theorem menu_spins_on_bad_input:
  assumes "in_fail (cin c)" and "running c" and "sigint_in c = None" and "\<not> server_disconnected c"
  shows "open_menu sock c = None"
  using open_menu_diverges [of sock c] menu_turn_stuck [OF assms] by (cases "open_menu sock c") auto

theorem menu_spins_on_bad_input_witness:
  "open_menu 4 ((example_client (\<lambda>_. []) [])\<lparr>cin := \<lparr>in_rest = [], in_fail = True\<rparr>\<rparr>) = None"
  using menu_spins_on_bad_input [of "(example_client (\<lambda>_. []) [])\<lparr>cin := \<lparr>in_rest = [], in_fail = True\<rparr>\<rparr>" 4]
  by (simp add: example_client_def)

lemma request_turn:
  assumes "fits req" and "fits reply" and "quiet c" and "0 \<le> sock"
    and "inbox c sock = Chunk (message_array reply) # q"
  shows "request sock req c =
    Inr (True, (if reply = [] then (\<lambda>c. c\<lparr>server_disconnected := True\<rparr>) else (\<lambda>c. c))
      (c\<lparr>inbox := (inbox c)(sock := q), events := events c @ [Sent sock (message_array req)]\<rparr>))"
proof -
  have "recv sock SOCKET_BUFFER_SIZE (log_event (Sent sock (message_array req)) c) =
      (int SOCKET_BUFFER_SIZE, message_array reply,
       (log_event (Sent sock (message_array req)) c)\<lparr>inbox := (inbox c)(sock := q)\<rparr>)"
    using recv_message [OF assms(2,4), of "log_event (Sent sock (message_array req)) c" q] assms(5) by simp
  moreover have "fill (zeros SOCKET_BUFFER_SIZE) (message_array reply) = message_array reply"
    using assms(2) by (simp add: fits_def)
  ultimately show ?thesis
    using assms(2,3,4) copy_request_fits [OF assms(1)]
    by (simp add: request_def send_ok quiet_def log_event_def)
qed

lemma cin_word_token:
  assumes "token w" and "isspace s"
  shows "cin_word \<lparr>in_rest = w @ s # r, in_fail = False\<rparr> = (Some w, \<lparr>in_rest = s # r, in_fail = False\<rparr>)"
  using assms by (simp add: cin_word_def Let_def)

lemma cin_word_skip: "isspace s \<Longrightarrow> cin_word \<lparr>in_rest = s # r, in_fail = False\<rparr> = cin_word \<lparr>in_rest = r, in_fail = False\<rparr>"
  by (simp add: cin_word_def Let_def)

text \<open>Signing up or logging in sends one request with the name and password that were typed and
  marks the user as logged in on any answer of the server, also one that reports an error.\<close>

theorem login_flag_ignores_reply:
  assumes "word50 u" and "word50 p" and "option \<in> {1, 2}"
    and "cin c = \<lparr>in_rest = u @ nl @ p @ nl @ rest_in, in_fail = False\<rparr>"
    and "fits reply" and "reply \<noteq> []" and "quiet c" and "0 \<le> sock"
    and "inbox c sock = Chunk (message_array reply) # q"
  shows "\<exists>c'. sign_up_login_user sock option c = Inr c' \<and> isLogin_g c' \<and> username_g c' = u
    \<and> server_disconnected c' = server_disconnected c
    \<and> events c' = events c @ [Sent sock (message_array
        ((if option = 1 then ''SIGNUP '' else ''LOGIN '') @ u @ '' '' @ p))]"
proof -
  define req where "req = (if option = 1 then ''SIGNUP'' else ''LOGIN'') @ '' '' @ u @ '' '' @ p"
  define c1 where "c1 = c\<lparr>username_g := u, password_g := p, cin := \<lparr>in_rest = nl @ rest_in, in_fail = False\<rparr>\<rparr>"
  have tk: "token u" "token p" using assms(1,2) by (simp_all add: word50_def)
  have rd: "read_password (read_username c) = c1"
    using assms(4) tk cin_word_token [of u "CHR 0x0A" "p @ nl @ rest_in"] cin_word_token [of p "CHR 0x0A" rest_in]
    by (simp add: read_username_def read_password_def cin_word_skip c1_def)
  have "fits req" using assms(1,2) by (auto simp: req_def fits_def word50_def SOCKET_BUFFER_SIZE_def)
  from request_turn [OF this assms(5), of c1 sock q] assms(6-9)
  have "request sock req c1 = Inr (True,
      c1\<lparr>inbox := (inbox c)(sock := q), events := events c @ [Sent sock (message_array req)]\<rparr>)"
    by (simp add: c1_def quiet_def)
  then show ?thesis
    unfolding sign_up_login_user_def rd Let_def by (auto simp: req_def c1_def)
qed

theorem login_flag_ignores_reply_witness:
  "\<exists>c'. sign_up_login_user 4 2 (example_client (\<lambda>_. [Chunk (message_array ''ERR'')])
      (''ann'' @ nl @ ''pw'' @ nl @ [])) = Inr c' \<and> isLogin_g c'
    \<and> events c' = [Sent 4 (message_array ''LOGIN ann pw'')]"
  using login_flag_ignores_reply [of "''ann''" "''pw''" 2 "example_client (\<lambda>_. [Chunk (message_array ''ERR'')])
      (''ann'' @ nl @ ''pw'' @ nl @ [])" "[]" "''ERR''" 4 "[]"]
  by (auto simp: fits_def SOCKET_BUFFER_SIZE_def)

section \<open>Media and start-up\<close>

text \<open>The loop over incoming video returns only on an error of the socket.\<close>

lemma media_loop_chunks:
  assumes "\<forall>a\<in>set q. \<exists>d. a = Chunk d"
  shows "media_loop is_open set_ssrc q sends buf sent = None"
  using assms
proof (induction q arbitrary: buf sent)
  case (Cons a q)
  then obtain d where "a = Chunk d" by auto
  with Cons show ?case by (simp add: Let_def split: prod.splits)
qed simp

text \<open>Incoming packets are forwarded to an address of family 127 with host 0 instead of 127.0.0.1 in
  the Internet family: the assignment of the host overwrites the family.\<close>

lemma output_address_family:
  "sin_family output_addr = 127 \<and> sin_family output_addr \<noteq> AF_INET \<and> sin_addr output_addr = 0
    \<and> sin_family input_addr = AF_INET"
proof -
  have "inet_pton ''127.0.0.1'' = Some [127, 0, 0, 1]"
    by (simp add: inet_pton_def isdigit_def digit_val_def)
  then show ?thesis by (simp add: output_addr_def input_addr_def inet_addr_def AF_INET_def)
qed

lemma client_setup_runs:
  assumes "quiet c" and "0 \<le> next_fd c" and "inet_pton server = Some addr"
    and "int_fits sp" and "int_fits cp" and "fits (''CLIENT '' @ client @ '' '' @ show_int cp)"
  shows "client_setup [prog, server, show_int sp, client, show_int cp] c =
    Inr (Inr (next_fd c, cp), c\<lparr>next_fd := next_fd c + 1, events := events c @
      [Connected (next_fd c) addr (htons sp),
       Sent (next_fd c) (message_array (''CLIENT '' @ client @ '' '' @ show_int cp))]\<rparr>)"
proof -
  have "client_message client cp = Inr (message_array (''CLIENT '' @ client @ '' '' @ show_int cp))"
    unfolding client_message_def using assms(6) by (intro store_message) (simp only: fits_def)
  then show ?thesis
    using assms(1-5) stoi_show_int [OF assms(4)] stoi_show_int [OF assms(5)]
    by (simp add: client_setup_def sys_ok_def quiet_def socket_def Let_def send_ip_and_port_to_server_def
        send_ok log_event_def numeral_eq_Suc)
qed

end
