(* ===== verification/ClientMain.thy ===== *)
theory ClientMain
  imports Client
begin

text \<open>
  \<open>main\<close> of the client, \<open>src/client.cpp\<close>: start-up, the media loop, and the two threads.

  \<^item> \<open>client_main\<close> runs up to the start of the listener thread. The media loop stands in front of it;
    \<open>None\<close> is a \<open>main\<close> that never leaves that loop.
  \<^item> \<open>client_step\<close> interleaves the menu on the main thread and the listener thread, turn by turn.
    \<open>Crashed\<close> is a process that a fault or an uncaught exception ended.
\<close>

section \<open>Media\<close>

text \<open>The callback for received video: a datagram to \<open>output_addr\<close>.\<close>

definition client_on_message :: "int \<Rightarrow> bytes \<Rightarrow> client \<Rightarrow> sockaddr_in \<times> client" where
  "client_on_message output_socket message c = (output_addr, snd (send output_socket message c))"

text \<open>
  The loop reads the first socket; the callback, registered when the loop has ended, writes to the
  second. \<open>buf\<close> is the indeterminate content of the buffer. A call on a socket that could not be
  created fails.
\<close>

definition media_handler ::
  "(bytes list \<Rightarrow> bool) \<Rightarrow> (int \<Rightarrow> bytes \<Rightarrow> bytes) \<Rightarrow> bool list \<Rightarrow> bytes \<Rightarrow> client
     \<Rightarrow> (bytes list \<times> (bytes \<Rightarrow> client \<Rightarrow> sockaddr_in \<times> client) \<times> client) option" where
  "media_handler is_open set_ssrc sends buf c =
     (let (input_socket, c) = socket c;
          (output_socket, c) = socket c;
          arrivals = (if input_socket = -1 then replicate (Suc (length sends)) RecvError else inbox c input_socket)
      in case media_loop is_open set_ssrc arrivals sends buf [] of
           None \<Rightarrow> None
         | Some packets \<Rightarrow> Some (packets, client_on_message output_socket, c))"

section \<open>The threads\<close>

text \<open>The listener thread up to its loop: the socket of the server's connection, or none.\<close>

definition listener_setup :: "int \<Rightarrow> client \<Rightarrow> int option \<times> client" where
  "listener_setup port c =
     (let (server_socket, c) = socket c
      in if server_socket = -1 then (None, c)
         else let (ok, c) = sys_ok c
              in if \<not> ok then (None, c)
                 else let (ok, c) = sys_ok c
                      in if \<not> ok then (None, c)
                         else let (ok, c) = sys_ok c
                              in if \<not> ok then (None, c)
                                 else let c = log_event (Bound server_socket (htons port)) c;
                                          (client_sock, c) = socket c;
                                          (go, c) = load_running c
                                      in if \<not> go then (None, c)
                                         else if client_sock = -1 then (None, c)
                                         else (Some client_sock, c))"

datatype client_pc = InMenu int | Joining_listener | Process_exited int | Crashed fault

datatype listener_pc = Starting int | Listening int | Listener_done

record client_system =
  cl :: client
  menu_at :: client_pc
  listener_at :: listener_pc

definition process_alive :: "client_system \<Rightarrow> bool" where
  "process_alive y = (case menu_at y of InMenu _ \<Rightarrow> True | Joining_listener \<Rightarrow> True | _ \<Rightarrow> False)"

inductive client_step :: "rtc_lib \<Rightarrow> client_system \<Rightarrow> client_system \<Rightarrow> bool" for lib :: rtc_lib where
  menu_again: "menu_at y = InMenu sock \<Longrightarrow> menu_turn sock (cl y) = Inr (Again, c') \<Longrightarrow>
     client_step lib y (y\<lparr>cl := c'\<rparr>)"
| menu_leave: "menu_at y = InMenu sock \<Longrightarrow> menu_turn sock (cl y) = Inr (Leave, c') \<Longrightarrow>
     client_step lib y (y\<lparr>cl := close_fd sock c', menu_at := Joining_listener\<rparr>)"
| menu_exit: "menu_at y = InMenu sock \<Longrightarrow> menu_turn sock (cl y) = Inr (ExitProcess code, c') \<Longrightarrow>
     client_step lib y (y\<lparr>cl := c', menu_at := Process_exited code\<rparr>)"
| menu_fault: "menu_at y = InMenu sock \<Longrightarrow> menu_turn sock (cl y) = Inl e \<Longrightarrow>
     client_step lib y (y\<lparr>menu_at := Crashed e\<rparr>)"
| listener_start: "listener_at y = Starting port \<Longrightarrow> process_alive y \<Longrightarrow> listener_setup port (cl y) = (Some fd, c') \<Longrightarrow>
     client_step lib y (y\<lparr>cl := c', listener_at := Listening fd\<rparr>)"
| listener_no_start: "listener_at y = Starting port \<Longrightarrow> process_alive y \<Longrightarrow> listener_setup port (cl y) = (None, c') \<Longrightarrow>
     client_step lib y (y\<lparr>cl := c', listener_at := Listener_done\<rparr>)"
| listener_on: "listener_at y = Listening fd \<Longrightarrow> process_alive y \<Longrightarrow>
     listener_turn lib fd (cl y) = Inr (True, c') \<Longrightarrow> client_step lib y (y\<lparr>cl := c'\<rparr>)"
| listener_off: "listener_at y = Listening fd \<Longrightarrow> process_alive y \<Longrightarrow>
     listener_turn lib fd (cl y) = Inr (False, c') \<Longrightarrow>
     client_step lib y (y\<lparr>cl := close_fd fd c', listener_at := Listener_done\<rparr>)"
| listener_fault: "listener_at y = Listening fd \<Longrightarrow> process_alive y \<Longrightarrow>
     listener_turn lib fd (cl y) = Inl e \<Longrightarrow> client_step lib y (y\<lparr>menu_at := Crashed e\<rparr>)"
| join_listener: "menu_at y = Joining_listener \<Longrightarrow> listener_at y = Listener_done \<Longrightarrow>
     client_step lib y (y\<lparr>menu_at := Process_exited 0\<rparr>)"

inductive_cases client_stepE: "client_step lib y y'"

section \<open>\<open>main\<close>\<close>

definition client_main ::
  "(bytes list \<Rightarrow> bool) \<Rightarrow> (int \<Rightarrow> bytes \<Rightarrow> bytes) \<Rightarrow> bool list \<Rightarrow> bytes \<Rightarrow> string list \<Rightarrow> client
     \<Rightarrow> client_system option res" where
  "client_main is_open set_ssrc sends buf argv c =
     res_bind (client_setup argv c) (\<lambda>(r, c).
       case r of
         Inl code \<Rightarrow> Inr (Some \<lparr>cl = c, menu_at = Process_exited code, listener_at = Listener_done\<rparr>)
       | Inr (sock, port) \<Rightarrow>
           Inr (case media_handler is_open set_ssrc sends buf c of
                  None \<Rightarrow> None
                | Some (packets, callback, c) \<Rightarrow>
                    Some \<lparr>cl = c, menu_at = InMenu sock, listener_at = Starting port\<rparr>))"

section \<open>The listener thread as a function and as steps\<close>

lemma server_handler_parts:
  "server_handler lib port c =
     (case listener_setup port c of
        (None, c') \<Rightarrow> Inr c'
      | (Some fd, c') \<Rightarrow> res_bind (listener_loop lib fd c') (\<lambda>c''. Inr (close_fd fd c'')))"
  unfolding server_handler_def listener_setup_def by (simp add: Let_def split: prod.splits)

text \<open>Where the run of a thread ends while the main thread waits for it.\<close>

definition thread_end :: "client res \<Rightarrow> client_system \<Rightarrow> bool" where
  "thread_end r y = (case r of
     Inl e \<Rightarrow> menu_at y = Crashed e
   | Inr c \<Rightarrow> y = \<lparr>cl = c, menu_at = Process_exited 0, listener_at = Listener_done\<rparr>)"

lemma joins: "(client_step lib)\<^sup>*\<^sup>* \<lparr>cl = c, menu_at = Joining_listener, listener_at = Listener_done\<rparr>
    \<lparr>cl = c, menu_at = Process_exited 0, listener_at = Listener_done\<rparr>"
  using join_listener [of "\<lparr>cl = c, menu_at = Joining_listener, listener_at = Listener_done\<rparr>" lib] by auto

lemma listener_loop_steps:
  "\<exists>y. (client_step lib)\<^sup>*\<^sup>* \<lparr>cl = c, menu_at = Joining_listener, listener_at = Listening fd\<rparr> y
    \<and> thread_end (res_bind (listener_loop lib fd c) (\<lambda>c'. Inr (close_fd fd c'))) y"
proof (induction lib fd c rule: listener_loop.induct)
  case (1 lib fd c)
  define x where "x = \<lparr>cl = c, menu_at = Joining_listener, listener_at = Listening fd\<rparr>"
  have x: "listener_at x = Listening fd" "process_alive x" "cl x = c" "menu_at x = Joining_listener"
    by (simp_all add: x_def process_alive_def)
  show ?case
  proof (cases "listener_turn lib fd c")
    case (Inl e)
    then have "client_step lib x (x\<lparr>menu_at := Crashed e\<rparr>)" using listener_fault [OF x(1,2)] x(3) by simp
    then show ?thesis using Inl by (subst listener_loop.simps) (auto simp: thread_end_def x_def intro!: exI r_into_rtranclp)
  next
    case (Inr r)
    then obtain go c' where t: "listener_turn lib fd c = Inr (go, c')" by (cases r) simp
    show ?thesis
    proof (cases go)
      case True
      then have "client_step lib x (x\<lparr>cl := c'\<rparr>)" using listener_on [OF x(1,2)] x(3) t by simp
      moreover obtain y where "(client_step lib)\<^sup>*\<^sup>* (x\<lparr>cl := c'\<rparr>) y"
        "thread_end (res_bind (listener_loop lib fd c') (\<lambda>c'. Inr (close_fd fd c'))) y"
        using "1.IH" [OF t refl True] by (auto simp: x_def)
      moreover have "listener_loop lib fd c = listener_loop lib fd c'"
        using t True by (subst listener_loop.simps) simp
      ultimately show ?thesis by (auto simp: x_def intro: converse_rtranclp_into_rtranclp)
    next
      case False
      then have "client_step lib x (x\<lparr>cl := close_fd fd c', listener_at := Listener_done\<rparr>)"
        using listener_off [OF x(1,2)] x(3) t by simp
      moreover have "listener_loop lib fd c = Inr c'" using t False by (subst listener_loop.simps) simp
      ultimately show ?thesis using joins [of lib "close_fd fd c'"]
        by (auto simp: x_def thread_end_def intro: converse_rtranclp_into_rtranclp)
    qed
  qed
qed

text \<open>The listener thread refines to turns: while the main thread waits in \<open>join\<close>, steps of the process lead
  exactly where the function \<open>server_handler\<close> ends, to an exit with code 0 and the same state, or to the
  crash with the same fault.\<close>

theorem listener_thread_steps:
  "\<exists>y. (client_step lib)\<^sup>*\<^sup>* \<lparr>cl = c, menu_at = Joining_listener, listener_at = Starting port\<rparr> y
    \<and> (case server_handler lib port c of
         Inl e \<Rightarrow> menu_at y = Crashed e
       | Inr c' \<Rightarrow> y = \<lparr>cl = c', menu_at = Process_exited 0, listener_at = Listener_done\<rparr>)"
proof -
  define x where "x = \<lparr>cl = c, menu_at = Joining_listener, listener_at = Starting port\<rparr>"
  have x: "listener_at x = Starting port" "process_alive x" "cl x = c" by (simp_all add: x_def process_alive_def)
  obtain r c' where s: "listener_setup port c = (r, c')" by fastforce
  have "\<exists>y. (client_step lib)\<^sup>*\<^sup>* x y \<and> thread_end (server_handler lib port c) y"
  proof (cases r)
    case None
    then have "client_step lib x (x\<lparr>cl := c', listener_at := Listener_done\<rparr>)"
      using listener_no_start [OF x(1,2)] x(3) s by simp
    then show ?thesis using joins [of lib c'] s None
      by (auto simp: x_def server_handler_parts thread_end_def intro: converse_rtranclp_into_rtranclp)
  next
    case (Some fd)
    then have "client_step lib x (x\<lparr>cl := c', listener_at := Listening fd\<rparr>)"
      using listener_start [OF x(1,2)] x(3) s by simp
    then show ?thesis using listener_loop_steps [of lib c' fd] s Some
      by (auto simp: x_def server_handler_parts intro: converse_rtranclp_into_rtranclp)
  qed
  then show ?thesis by (auto simp: x_def thread_end_def split: sum.splits)
qed

section \<open>How the process ends\<close>

lemma menu_turn_exit: "menu_turn sock c = Inr (ExitProcess code, c') \<Longrightarrow> code = sock \<and> \<not> exit_selected c'"
  by (auto simp: menu_turn_def Let_def elim!: res_bindE split: prod.splits if_splits)

definition client_start :: "int \<Rightarrow> int \<Rightarrow> client_system \<Rightarrow> bool" where
  "client_start sock port y \<longleftrightarrow> menu_at y = InMenu sock \<and> listener_at y = Starting port"

definition exit_codes :: "int \<Rightarrow> client_system \<Rightarrow> bool" where
  "exit_codes sock y = (case menu_at y of
      InMenu s \<Rightarrow> s = sock
    | Joining_listener \<Rightarrow> True
    | Process_exited code \<Rightarrow> code = 0 \<and> listener_at y = Listener_done \<or> code = sock \<and> \<not> exit_selected (cl y)
    | Crashed e \<Rightarrow> True)"

lemma client_step_exit_codes: "client_step lib y z \<Longrightarrow> exit_codes sock y \<Longrightarrow> exit_codes sock z"
proof (induction rule: client_step.induct)
  case (menu_exit y s code c')
  then show ?case using menu_turn_exit [OF menu_exit(2)] by (simp add: exit_codes_def)
qed (auto simp: exit_codes_def process_alive_def split: client_pc.splits)

interpretation client_exit: invariant_system "client_start sock port" "client_step lib" "exit_codes sock"
  for sock port lib
  by unfold_locales (auto simp: client_start_def exit_codes_def dest: client_step_exit_codes)

text \<open>The client ends in one of three ways: with code 0 after the listener thread has been joined; with the
  number of its socket as the code, when a signal stopped the menu before an exit was selected; or by a crash.
  While it runs, the menu works on the one socket it was given.\<close>

theorem client_exit_codes:
  assumes "(client_step lib)\<^sup>*\<^sup>* \<lparr>cl = c, menu_at = InMenu sock, listener_at = Starting port\<rparr> y"
  shows "case menu_at y of
      InMenu s \<Rightarrow> s = sock
    | Joining_listener \<Rightarrow> True
    | Process_exited code \<Rightarrow> code = 0 \<and> listener_at y = Listener_done \<or> code = sock \<and> \<not> exit_selected (cl y)
    | Crashed e \<Rightarrow> True"
  using client_exit.steps_good [OF assms, of sock] by (simp add: exit_codes_def)

theorem client_exit_codes_witness:
  "\<exists>c'. (client_step quiet_lib)\<^sup>*\<^sup>* \<lparr>cl = (example_client (\<lambda>_. []) [])\<lparr>running := False\<rparr>, menu_at = InMenu 6, listener_at = Starting 8080\<rparr>
      \<lparr>cl = c', menu_at = Process_exited 6, listener_at = Starting 8080\<rparr> \<and> \<not> exit_selected c'"
proof -
  define x where "x = \<lparr>cl = (example_client (\<lambda>_. []) [])\<lparr>running := False\<rparr>, menu_at = InMenu 6, listener_at = Starting 8080\<rparr>"
  obtain c' where "menu_turn 6 (cl x) = Inr (ExitProcess 6, c')"
    by (simp add: x_def menu_turn_def example_client_def load_running_def cin_int_def split: prod.splits)
  then have "client_step quiet_lib x (x\<lparr>cl := c', menu_at := Process_exited 6\<rparr>)"
    by (intro menu_exit [of x 6]) (simp_all add: x_def)
  then have run: "(client_step quiet_lib)\<^sup>*\<^sup>* x \<lparr>cl = c', menu_at = Process_exited 6, listener_at = Starting 8080\<rparr>"
    by (simp add: x_def r_into_rtranclp)
  from client_exit_codes [OF run [unfolded x_def]] run show ?thesis by (auto simp: x_def)
qed

text \<open>C39. A client that starts without a fault and receives no error on its video socket, which it never binds, does
  not get past the media loop: \<open>main\<close> calls the loop before it starts the listener and the menu, so neither of
  them ever runs.\<close>

theorem client_main_hangs:
  assumes "quiet c" and "0 \<le> next_fd c" and "inet_pton server = Some addr"
    and "int_fits sp" and "int_fits cp" and "fits (''CLIENT '' @ client @ '' '' @ show_int cp)"
    and "\<forall>a\<in>set (inbox c (next_fd c + 1)). \<exists>d. a = Chunk d"
  shows "client_main is_open set_ssrc sends buf [prog, server, show_int sp, client, show_int cp] c = Inr None"
proof -
  have "media_handler is_open set_ssrc sends buf (c\<lparr>next_fd := next_fd c + 1, events := ev\<rparr>) = None" for ev
    using assms(1,2,7) media_loop_chunks [of "inbox c (next_fd c + 1)"]
    by (simp add: media_handler_def socket_def quiet_def sys_ok_def)
  then show ?thesis
    unfolding client_main_def client_setup_runs [OF assms(1-6)] by simp
qed

theorem client_main_hangs_witness:
  "client_main (\<lambda>_. True) (\<lambda>_ b. b) [] (zeros MEDIA_BUFFER)
     [''client'', ''10.0.0.7'', show_int 12345, ''10.0.0.8'', show_int 8080] (example_client (\<lambda>_. []) []) = Inr None"
proof (rule client_main_hangs)
  show "inet_pton ''10.0.0.7'' = Some [10, 0, 0, 7]" by (simp add: inet_pton_def isdigit_def digit_val_def)
qed (simp_all add: example_client_def quiet_def int_fits_def fits_def SOCKET_BUFFER_SIZE_def show_int_def dec.simps digit_char_def)

end
