(* ===== verification/Peers.thy ===== *)
theory Peers
  imports Client
begin

text \<open>
  The two programs that exchange session descriptions and candidates over one TCP connection,
  \<open>src/offerer.cpp\<close> and \<open>src/answerer.cpp\<close>.

  \<^item> The callbacks of the peer connection run on threads of the library. What they have stored by the
    time \<open>main\<close> reads it is the argument \<open>cb\<close>: the type and text of the local description, if
    gathering is complete, and the local candidates.
  \<^item> A call of the library is logged, and throws or returns as the argument \<open>lib\<close> says.
  \<^item> The number of candidates travels as the four bytes of an \<open>int\<close> in memory, little-endian.
\<close>

section \<open>An \<open>int\<close> in memory\<close>

definition int_bytes :: "int \<Rightarrow> bytes" where
  "int_bytes v =
     (let w = word_of_int v :: 32 word
      in map (\<lambda>i. char_of (unat (drop_bit (8 * i) w) mod 256)) [0, 1, 2, 3])"

definition bytes_int :: "bytes \<Rightarrow> int" where
  "bytes_int bs =
     sint (of_nat (foldr (\<lambda>c a. byte_of c + 256 * a) bs 0) :: 32 word)"

lemma length_int_bytes [simp]: "length (int_bytes v) = 4"
  by (simp add: int_bytes_def Let_def)

lemma base256:
  fixes n :: nat
  shows "n mod 256 + 256 * (n div 256 mod 256 + 256 * (n div 65536 mod 256 + 256 * (n div 16777216))) = n"
proof -
  have "n div 256 = n div 256 mod 256 + 256 * (n div 65536)"
    using div_mult2_eq [of n 256 256] by simp
  moreover have "n div 65536 = n div 65536 mod 256 + 256 * (n div 16777216)"
    using div_mult2_eq [of n 65536 256] by simp
  moreover have "n = n mod 256 + 256 * (n div 256)" by simp
  ultimately show ?thesis by presburger
qed

lemma drop_bit_nat_eq: "drop_bit k (n::nat) = n div 2 ^ k"
  by (rule drop_bit_eq_div)

lemma bytes_int_int_bytes:
  assumes "int_fits v"
  shows "bytes_int (int_bytes v) = v"
proof -
  define w where "w = (word_of_int v :: 32 word)"
  have "unat w < 256 ^ 4" using unsigned_less [of w, where ?'a = nat] by simp
  then have "foldr (\<lambda>c a. byte_of c + 256 * a) (int_bytes v) 0 = unat w"
    using base256 [of "unat w"]
    by (simp add: int_bytes_def Let_def w_def [symmetric] unat_drop_bit_eq drop_bit_nat_eq)
  then have "bytes_int (int_bytes v) = sint w" by (simp add: bytes_int_def)
  also have "\<dots> = v"
    using assms by (simp add: w_def signed_of_int int_fits_def signed_take_bit_int_eq_self)
  finally show ?thesis .
qed

section \<open>State and results\<close>

text \<open>The calls on the peer connection and its channel or track. A description or candidate is built
  by a constructor of the library and handed over at once; the two calls are one entry.\<close>

datatype peer_call =
    NewConnection "string list"               \<comment> \<open>the ICE servers\<close>
  | CreateDataChannel string
  | AddVideoTrack string nat                  \<comment> \<open>the direction and the payload type\<close>
  | SetLocal string                           \<comment> \<open>the type of the description\<close>
  | SetRemote string string                   \<comment> \<open>the text and the type of the description\<close>
  | AddRemoteCandidate string
  | ChannelSend string

type_synonym peer_lib = "peer_call list \<Rightarrow> peer_call \<Rightarrow> string option"

record peer = net +
  pin :: input
  pc_log :: "peer_call list"
  remote_cand_count :: int

text \<open>How \<open>main\<close> ends before its last line. \<open>Hang\<close> is a loop or a wait that nothing will end.\<close>

datatype stop = Return int | Throw string | Fault fault | Hang

type_synonym 'a run = "(stop \<times> peer) + 'a"

definition run_res :: "'a res \<Rightarrow> peer \<Rightarrow> 'a run" where
  "run_res r p = (case r of Inl f \<Rightarrow> Inl (Fault f, p) | Inr x \<Rightarrow> Inr x)"

definition run_json :: "json_exn + 'a \<Rightarrow> peer \<Rightarrow> 'a run" where
  "run_json r p = (case r of Inl e \<Rightarrow> Inl (Throw (exn_name e), p) | Inr x \<Rightarrow> Inr x)"

lemma run_simps [simp]:
  "run_res (Inr x) p = Inr x" "run_json (Inr x) p = Inr x"
  "run_res (Inl f) p = Inl (Fault f, p)" "run_json (Inl e) p = Inl (Throw (exn_name e), p)"
  by (simp_all add: run_res_def run_json_def)

definition pcall :: "peer_lib \<Rightarrow> peer_call \<Rightarrow> peer \<Rightarrow> peer run" where
  "pcall lib call p =
     (case lib (pc_log p) call of
        Some e \<Rightarrow> Inl (Throw e, p)
      | None \<Rightarrow> Inr (p\<lparr>pc_log := pc_log p @ [call]\<rparr>))"

text \<open>\<open>catch (const std::exception \&e)\<close> around the whole of \<open>main\<close>, which then returns 0.\<close>

definition catch_exception :: "peer run \<Rightarrow> stop \<times> peer" where
  "catch_exception r =
     (case r of
        Inr p \<Rightarrow> (Return 0, p)
      | Inl (Throw e, p) \<Rightarrow> (Return 0, p)
      | Inl (s, p) \<Rightarrow> (s, p))"

text \<open>\<open>std::getline(std::cin, line)\<close>: up to the newline, which is removed.\<close>

definition getline :: "input \<Rightarrow> string \<times> input" where
  "getline i =
     (if in_fail i then ([], i)
      else if in_rest i = [] then ([], i\<lparr>in_fail := True\<rparr>)
      else let l = takeWhile (\<lambda>c. c \<noteq> CHR 0x0A) (in_rest i)
           in (l, i\<lparr>in_rest := drop (Suc (length l)) (in_rest i)\<rparr>))"

text \<open>\<open>message.dump()\<close> in the gathering callback.\<close>

definition description_text :: "string \<Rightarrow> string \<Rightarrow> string res" where
  "description_text type_string sdp =
     (case dump False (description_json type_string sdp) of
        Inl (Jfault f) \<Rightarrow> Inl f
      | Inl (Jexn e) \<Rightarrow> Inl (Uncaught (exn_name e))
      | Inr t \<Rightarrow> Inr t)"

text \<open>\<open>rtc::Description d(j["sdp"].get<std::string>(), j["type"].get<std::string>())\<close> and
  \<open>setRemoteDescription(d)\<close>.\<close>

definition apply_description :: "peer_lib \<Rightarrow> json \<Rightarrow> peer \<Rightarrow> peer run" where
  "apply_description lib j p =
     res_bind (run_json (string_at ''sdp'' j) p) (\<lambda>sdp.
     res_bind (run_json (string_at ''type'' j) p) (\<lambda>ty.
       pcall lib (SetRemote sdp ty) p))"

definition send_all :: "int \<Rightarrow> bytes list \<Rightarrow> peer \<Rightarrow> peer" where
  "send_all fd bs p = fold (\<lambda>b p. snd (send fd b p)) bs p"

section \<open>The offerer\<close>

definition OFFERER_BUFFER :: nat where "OFFERER_BUFFER = 1024"
definition OFFERER_PORT :: int where "OFFERER_PORT = 8080"

text \<open>
  \<open>gathered\<close> is the local description if gathering was complete when \<open>accept\<close> returned,
  \<open>local_candidates\<close> the candidates when \<open>main\<close> counts them.
\<close>

definition offerer_connect :: "peer_lib \<Rightarrow> peer \<Rightarrow> (int \<times> int \<times> peer) run" where
  "offerer_connect lib p =
     res_bind (pcall lib (NewConnection [''stun.l.google.com:19302'']) p) (\<lambda>p.
     res_bind (pcall lib (CreateDataChannel ''test'') p) (\<lambda>p.
     res_bind (pcall lib (SetLocal ''offer'') p) (\<lambda>p.
       let (sockfd, p) = socket p
       in if sockfd < 0 then Inl (Return 1, p)
          else let (ok, p) = sys_ok p
               in if \<not> ok then Inl (Return 1, p)
                  else let (ok, p) = sys_ok p
                       in if \<not> ok then Inl (Return 1, p)
                          else let p = log_event (Bound sockfd (htons OFFERER_PORT)) p;
                                   (connfd, p) = socket p
                               in if connfd < 0 then Inl (Return 1, p) else Inr (sockfd, connfd, p))))"

text \<open>The answer: the whole array goes to the parser, for which a NUL ends the input; only a parse
  error is caught here.\<close>

definition offerer_answer :: "peer_lib \<Rightarrow> bytes \<Rightarrow> peer \<Rightarrow> peer run" where
  "offerer_answer lib buffer p =
     (case json_parse buffer of
        Inl (Parse_error i) \<Rightarrow> Inr p
      | r \<Rightarrow> res_bind (run_json r p) (\<lambda>j. apply_description lib j p))"

text \<open>\<open>int candidate_number = local_candidates.size()\<close>\<close>

definition candidate_number :: "string list \<Rightarrow> int" where
  "candidate_number cands = sint (of_nat (length cands) :: 32 word)"

definition offerer_exchange ::
  "peer_lib \<Rightarrow> (string \<times> string) option \<Rightarrow> string list \<Rightarrow> int \<Rightarrow> peer \<Rightarrow> peer run" where
  "offerer_exchange lib gathered local_candidates connfd p =
     res_bind (run_res (case gathered of None \<Rightarrow> Inr [] | Some (ty, sdp) \<Rightarrow> description_text ty sdp) p) (\<lambda>local_sdp.
       let (_, p) = send connfd (c_trunc local_sdp) p;
           (_, b, p) = recv connfd OFFERER_BUFFER p;
           buffer = fill (zeros OFFERER_BUFFER) b
       in res_bind (run_res (c_str buffer) p) (\<lambda>_.
          res_bind (offerer_answer lib buffer p) (\<lambda>p.
            let n = candidate_number local_candidates;
                (_, p) = send connfd (int_bytes n) p;
                p = send_all connfd (map c_trunc (take (nat n) local_candidates)) p;
                (_, b, p) = recv connfd 4 p;
                p = p\<lparr>remote_cand_count := bytes_int (fill (int_bytes 0) b)\<rparr>;
                (_, b, p) = recv connfd OFFERER_BUFFER p
            in res_bind (run_res (c_str (fill (zeros OFFERER_BUFFER) b)) p) (\<lambda>remote_candidates.
                 pcall lib (AddRemoteCandidate remote_candidates) p))))"

definition offerer_main ::
  "peer_lib \<Rightarrow> (string \<times> string) option \<Rightarrow> string list \<Rightarrow> peer \<Rightarrow> stop \<times> peer" where
  "offerer_main lib gathered local_candidates p =
     catch_exception
       (res_bind (offerer_connect lib p) (\<lambda>(sockfd, connfd, p).
        res_bind (offerer_exchange lib gathered local_candidates connfd p) (\<lambda>p.
          let (message, i) = getline (pin p);
              p = p\<lparr>pin := i\<rparr>
          in res_bind (pcall lib (ChannelSend message) p) (\<lambda>p.
               Inr (close_fd sockfd (close_fd connfd p))))))"

section \<open>The answerer\<close>

definition ANSWERER_BUFFER :: nat where "ANSWERER_BUFFER = 2048"

text \<open>The arguments. There is no check that they are present: \<open>argc < 1\<close> never holds.\<close>

definition answerer_args :: "string list \<Rightarrow> (string \<times> int) res" where
  "answerer_args argv =
     (if length argv \<le> 2 then Inl OverRead
      else res_bind (atoi (argv ! 2)) (\<lambda>port.
           res_bind (store_str (zeros 50) (argv ! 1)) (\<lambda>a.
           res_bind (c_str a) (\<lambda>remote_ip. Inr (remote_ip, port)))))"

definition answerer_connect :: "peer_lib \<Rightarrow> string list \<Rightarrow> peer \<Rightarrow> (int \<times> peer) run" where
  "answerer_connect lib argv p =
     res_bind (run_res (answerer_args argv) p) (\<lambda>(remote_ip, port).
     res_bind (pcall lib (NewConnection [''stun.l.google.com:19302'']) p) (\<lambda>p.
       let (sock, p) = socket p
       in if sock = -1 then Inl (Return 1, p)
          else case inet_pton remote_ip of
            None \<Rightarrow> Inl (Return 1, p)
          | Some addr \<Rightarrow>
              let (ok, p) = sys_ok p
              in if \<not> ok then Inl (Return 1, p)
                 else Inr (sock, log_event (Connected sock addr (htons port)) p)))"

text \<open>
  \<open>gathered\<close> is the local description if gathering completes at some time after the offer was set.
  If it never does, the wait on \<open>sdp_generated\<close> does not end.
\<close>

definition answerer_exchange ::
  "peer_lib \<Rightarrow> (string \<times> string) option \<Rightarrow> string list \<Rightarrow> int \<Rightarrow> peer \<Rightarrow> peer run" where
  "answerer_exchange lib gathered local_candidates sock p =
     (let (_, b, p) = recv sock ANSWERER_BUFFER p
      in res_bind (run_res (c_str (fill (zeros ANSWERER_BUFFER) b)) p) (\<lambda>remote_offer_sdp.
         res_bind (run_json (json_parse remote_offer_sdp) p) (\<lambda>j.
         res_bind (apply_description lib j p) (\<lambda>p.
           case gathered of
             None \<Rightarrow> Inl (Hang, p)
           | Some (ty, sdp) \<Rightarrow>
               res_bind (run_res (description_text ty sdp) p) (\<lambda>my_local_answer_sdp.
                 let (_, p) = send sock (c_trunc my_local_answer_sdp) p;
                     (_, b, p) = recv sock 4 p;
                     p = p\<lparr>remote_cand_count := bytes_int (fill (int_bytes 0) b)\<rparr>;
                     (_, b, p) = recv sock ANSWERER_BUFFER p
                 in res_bind (run_res (c_str (fill (zeros ANSWERER_BUFFER) b)) p) (\<lambda>remote_candidates.
                    res_bind (pcall lib (AddRemoteCandidate remote_candidates) p) (\<lambda>p.
                      let (_, p) = send sock (int_bytes (candidate_number local_candidates)) p
                      in case local_candidates of
                           [] \<Rightarrow> Inl (Throw ''std::out_of_range'', p)
                         | my_local_cand # _ \<Rightarrow> Inr (snd (send sock my_local_cand p)))))))))"

definition answerer_main ::
  "peer_lib \<Rightarrow> (string \<times> string) option \<Rightarrow> string list \<Rightarrow> string list \<Rightarrow> peer \<Rightarrow> stop \<times> peer" where
  "answerer_main lib gathered local_candidates argv p =
     (case res_bind (answerer_connect lib argv p) (\<lambda>(sock, p).
             res_bind (answerer_exchange lib gathered local_candidates sock p) (\<lambda>p.
               Inr (close_fd sock p))) of
        Inr p \<Rightarrow> (Return 0, p)
      | Inl r \<Rightarrow> r)"

section \<open>The text of a description\<close>

text \<open>The text of a dumped string has no control characters: no NUL and no newline.\<close>

definition printable :: "string \<Rightarrow> bool" where
  "printable t \<longleftrightarrow> (\<forall>c\<in>set t. (0x20::nat) \<le> byte_of c)"

lemma printable_simps [simp]:
  "printable []" "printable (c # t) \<longleftrightarrow> (0x20::nat) \<le> byte_of c \<and> printable t"
  "printable (s @ t) \<longleftrightarrow> printable s \<and> printable t"
  by (auto simp: printable_def)

lemma hex_digits_printable: "list_all (\<lambda>d. (0x20::nat) \<le> byte_of (hex_digit_lower d)) [0..<16]"
  by (simp add: upt_rec hex_digit_lower_def)

lemma hex4_printable: "printable (hex4 v)"
proof -
  have "(0x20::nat) \<le> byte_of (hex_digit_lower (n mod 16))" for n :: nat
    by (rule list_all_mem [OF hex_digits_printable]) simp
  moreover have "(0x20::nat) \<le> byte_of (hex_digit_lower (v div 4096 mod 16))" by fact
  ultimately show ?thesis by (simp add: hex4_def)
qed

lemma escape_ascii_printable:
  assumes "byte_of c < (0x80::nat)"
  shows "printable (fst (escape_codepoint False (of_nat (byte_of c)) c))"
proof -
  have "(of_nat (byte_of c) :: 32 word) \<le> 0x1F \<longleftrightarrow> byte_of c \<le> (0x1F::nat)"
    using ascii_cp(2) [OF assms] by (simp add: word_le_nat_alt)
  then show ?thesis using assms hex4_printable by (auto simp: escape_codepoint_def)
qed

lemma next_byte_high:
  "next_byte_in_range rs s = Some (bs, s') \<Longrightarrow> \<forall>(lo, hi)\<in>set rs. 0x20 \<le> lo \<Longrightarrow> printable bs"
  by (induction rs s arbitrary: bs rule: next_byte_in_range.induct) (auto split: list.splits if_splits)

lemma lead_ranges_high: "lead_ranges b = Some rs \<Longrightarrow> (lo, hi) \<in> set rs \<Longrightarrow> 0x20 \<le> lo"
  by (auto simp: lead_ranges_def split: if_splits)

lemma escape_printable: "escape_bytes False 0 cp s = Inr t \<Longrightarrow> printable t"
proof (induction "length s" arbitrary: cp s t rule: less_induct)
  case less
  show ?case
  proof (cases s)
    case Nil
    with less.prems show ?thesis by (simp add: UTF8_ACCEPT_def)
  next
    case (Cons c s1)
    show ?thesis
    proof (cases "byte_of c < (0x80::nat)")
      case True
      then obtain t1 where "escape_bytes False 0 (of_nat (byte_of c)) s1 = Inr t1"
        "t = fst (escape_codepoint False (of_nat (byte_of c)) c) @ t1"
        using less.prems Cons ascii_cp(1) [OF True, of cp] by (auto simp: UTF8_ACCEPT_def elim!: res_bindE)
      with less.hyps [of s1 _ t1] Cons show ?thesis using escape_ascii_printable [OF True] by simp
    next
      case False
      then have big: "(0x7F::nat) < byte_of c" by simp
      from escape_multi [OF this less.prems [unfolded Cons]] obtain rs bs s' cp' t' where
        m: "lead_ranges (byte_of c) = Some rs" "next_byte_in_range rs s1 = Some (bs, s')"
          "escape_bytes False 0 cp' s' = Inr t'" "t = c # bs @ t'" by blast
      have "s1 = bs @ s'" using m(2) by (rule next_byte_append)
      then have "printable t'" using less.hyps [of s' _ t'] m(3) Cons by simp
      moreover have "printable bs" using next_byte_high [OF m(2)] lead_ranges_high [OF m(1)] by blast
      ultimately show ?thesis using m(4) big by simp
    qed
  qed
qed

lemma dump_escaped_printable: "dump_escaped False s = Inr t \<Longrightarrow> printable t"
  by (cases "escape_bytes False 0 0 s") (auto simp: dump_escaped_eq UTF8_ACCEPT_def dest: escape_printable)

lemma printable_nul_free: "printable t \<Longrightarrow> nul_free t"
  by (auto simp: printable_def nul_free_def)

lemma printable_one_line: "printable t \<Longrightarrow> CHR 0x0A \<notin> set t"
  by (auto simp: printable_def)

lemma description_text_dump: "description_text ty sdp = Inr t \<Longrightarrow> dump False (description_json ty sdp) = Inr t"
  by (auto simp: description_text_def split: sum.splits json_fail.splits)

lemma description_text_printable: "description_text ty sdp = Inr t \<Longrightarrow> printable t"
  by (drule description_text_dump)
    (auto simp: description_json_eq quoted_def elim!: res_bindE dest!: dump_escaped_printable)

lemma description_text_parse:
  assumes "description_text ty sdp = Inr t"
  shows "json_parse (t @ zeros n) = Inr (JObject [(''sdp'', JString sdp), (''type'', JString ty)])"
proof -
  have "canonical (description_json ty sdp)" by (simp add: description_json_eq less_char_def)
  from json_parse_padded [OF this description_text_dump [OF assms]]
  show ?thesis by (simp add: description_json_eq)
qed

section \<open>The exchange\<close>

definition never_throws :: "peer_lib \<Rightarrow> bool" where
  "never_throws lib \<longleftrightarrow> (\<forall>calls call. lib calls call = None)"

lemma pcall_ok [simp]: "never_throws lib \<Longrightarrow> pcall lib call p = Inr (p\<lparr>pc_log := pc_log p @ [call]\<rparr>)"
  by (simp add: pcall_def never_throws_def)

lemma peer_frame [simp]:
  "pc_log (log_event e p) = pc_log p" "pin (log_event e p) = pin p"
  "remote_cand_count (log_event e p) = remote_cand_count p"
  "pc_log (close_fd fd p) = pc_log p" "remote_cand_count (close_fd fd p) = remote_cand_count p"
  by (simp_all add: log_event_def close_fd_def)

text \<open>What a program sent on a socket, in order.\<close>

fun sent :: "int \<Rightarrow> event list \<Rightarrow> bytes list" where
  "sent fd [] = []"
| "sent fd (Sent fd' b # es) = (if fd' = fd then b # sent fd es else sent fd es)"
| "sent fd (_ # es) = sent fd es"

lemma sent_append [simp]: "sent fd (es @ es') = sent fd es @ sent fd es'"
  by (induction fd es rule: sent.induct) auto

lemma sent_map [simp]: "sent fd (map (Sent fd) bs) = bs" "sent fd (map (Sent fd \<circ> f) xs) = map f xs"
  by (induction bs) (auto simp flip: map_map, induction xs, auto)

lemma send_all_ok:
  "0 \<le> fd \<Longrightarrow> oks p = [] \<Longrightarrow> send_all fd bs p = p\<lparr>events := events p @ map (Sent fd) bs\<rparr>"
proof (induction bs arbitrary: p)
  case (Cons b bs)
  then have "send_all fd (b # bs) p = send_all fd bs (log_event (Sent fd b) p)"
    by (simp add: send_all_def send_ok)
  also have "\<dots> = p\<lparr>events := events p @ map (Sent fd) (b # bs)\<rparr>"
    using Cons by simp
  finally show ?case .
qed (simp add: send_all_def)

lemma recv_split [net_simps]:
  "0 \<le> fd \<Longrightarrow> inbox n fd = Chunk (b @ d) # q \<Longrightarrow> d \<noteq> [] \<Longrightarrow>
     recv fd (length b) n = (int (length b), b, n\<lparr>inbox := (inbox n)(fd := Chunk d # q)\<rparr>)"
  by (cases d) (simp_all add: recv_def)

text \<open>The count and one candidate, in two segments or in one.\<close>

definition comes_next :: "bytes \<Rightarrow> bytes \<Rightarrow> arrival list \<Rightarrow> bool" where
  "comes_next cnt d q \<longleftrightarrow> d \<noteq> [] \<and> (take 2 q = [Chunk cnt, Chunk d] \<or> take 1 q = [Chunk (cnt @ d)])"

lemma recv_count:
  fixes p :: peer
  assumes "comes_next cnt d (inbox p fd)" and "length cnt = 4" and "length d \<le> sz" and "0 \<le> fd"
  shows "\<exists>q. recv fd 4 p = (4, cnt, p\<lparr>inbox := (inbox p)(fd := Chunk d # q)\<rparr>)
    \<and> recv fd sz (p\<lparr>inbox := (inbox p)(fd := Chunk d # q), remote_cand_count := v\<rparr>) =
        (int (length d), d, p\<lparr>inbox := (inbox p)(fd := q), remote_cand_count := v\<rparr>)"
proof -
  have "\<exists>q. recv fd 4 p = (4, cnt, p\<lparr>inbox := (inbox p)(fd := Chunk d # q)\<rparr>)"
  proof (cases "take 2 (inbox p fd) = [Chunk cnt, Chunk d]")
    case True
    then obtain q where "inbox p fd = Chunk cnt # Chunk d # q"
      by (cases "inbox p fd"; cases "tl (inbox p fd)") auto
    with assms show ?thesis by (auto simp: recv_whole)
  next
    case False
    with assms(1) obtain q where "inbox p fd = Chunk (cnt @ d) # q" "d \<noteq> []"
      by (cases "inbox p fd") (auto simp: comes_next_def)
    with recv_split [of fd p cnt d q] assms(2,4) show ?thesis by auto
  qed
  then show ?thesis using assms(3,4) by (auto simp: recv_whole)
qed

lemma c_str_fill: "nul_free s \<Longrightarrow> length s < n \<Longrightarrow> c_str (fill (zeros n) s) = Inr s"
  by (simp add: fill_zeros c_str_append_zeros)

lemma bytes_int_fill: "length b = 4 \<Longrightarrow> bytes_int (fill (int_bytes 0) b) = bytes_int b"
  by (simp add: fill_def)

lemma apply_description_ok:
  "never_throws lib \<Longrightarrow> apply_description lib (JObject [(''sdp'', JString sdp), (''type'', JString ty)]) p =
     Inr (p\<lparr>pc_log := pc_log p @ [SetRemote sdp ty]\<rparr>)"
  by (simp add: apply_description_def string_at_object)

lemma offerer_exchange_runs:
  assumes lib: "never_throws lib" and ot: "description_text oty osdp = Inr ot"
    and aw: "description_text aty asdp = Inr aw" "length aw < OFFERER_BUFFER"
    and fd: "0 \<le> fd" "oks p = []" and inb: "inbox p fd = Chunk aw # q" "comes_next cnt d q"
    and d: "length cnt = 4" "nul_free d" "length d < OFFERER_BUFFER"
    and n: "length oc < 2 ^ 31"
  shows "\<exists>p'. offerer_exchange lib (Some (oty, osdp)) oc fd p = Inr p'
    \<and> events p' = events p @ map (Sent fd) (ot # int_bytes (int (length oc)) # map c_trunc oc)
    \<and> pc_log p' = pc_log p @ [SetRemote asdp aty, AddRemoteCandidate d]
    \<and> remote_cand_count p' = bytes_int cnt \<and> pin p' = pin p"
proof -
  define p1 where "p1 = p\<lparr>events := events p @ map (Sent fd) (ot # int_bytes (int (length oc)) # map c_trunc oc),
    pc_log := pc_log p @ [SetRemote asdp aty], inbox := (inbox p)(fd := q)\<rparr>"
  have fre: "nul_free ot" "nul_free aw"
    using description_text_printable [OF ot] description_text_printable [OF aw(1)] by (auto intro: printable_nul_free)
  have num: "candidate_number oc = int (length oc)"
    using n by (simp add: candidate_number_def signed_of_nat signed_take_bit_int_eq_self)
  have s1: "send fd ot p = (int (length ot), log_event (Sent fd ot) p)" using fd by (simp add: send_ok)
  have r1: "recv fd OFFERER_BUFFER (log_event (Sent fd ot) p) =
      (int (length aw), aw, (log_event (Sent fd ot) p)\<lparr>inbox := (inbox p)(fd := q)\<rparr>)"
    using inb(1) fd(1) aw(2) by (simp add: recv_whole)
  have ans: "offerer_answer lib (fill (zeros OFFERER_BUFFER) aw) p' =
      Inr (p'\<lparr>pc_log := pc_log p' @ [SetRemote asdp aty]\<rparr>)" for p'
    using description_text_parse [OF aw(1)] aw(2) lib
    by (simp add: offerer_answer_def fill_zeros apply_description_ok)
  have q1: "comes_next cnt d (inbox p1 fd)" using inb(2) by (simp add: p1_def)
  from recv_count [OF q1 d(1) _ fd(1), of OFFERER_BUFFER "bytes_int cnt"] d(3) obtain q' where
    r2: "recv fd 4 p1 = (4, cnt, p1\<lparr>inbox := (inbox p1)(fd := Chunk d # q')\<rparr>)"
      "recv fd OFFERER_BUFFER (p1\<lparr>inbox := (inbox p1)(fd := Chunk d # q'), remote_cand_count := bytes_int cnt\<rparr>) =
        (int (length d), d, p1\<lparr>inbox := (inbox p1)(fd := q'), remote_cand_count := bytes_int cnt\<rparr>)" by auto
  define p2 where "p2 = (log_event (Sent fd ot) p)\<lparr>inbox := (inbox p)(fd := q), pc_log := pc_log p @ [SetRemote asdp aty]\<rparr>"
  have s2: "send fd (int_bytes (int (length oc))) p2 = (4, log_event (Sent fd (int_bytes (int (length oc)))) p2)"
    using fd by (simp add: send_ok p2_def)
  have s3: "send_all fd (map c_trunc oc) (log_event (Sent fd (int_bytes (int (length oc)))) p2) = p1"
    using fd send_all_ok [of fd "log_event (Sent fd (int_bytes (int (length oc)))) p2" "map c_trunc oc"]
    by (simp add: p2_def p1_def)
  show ?thesis
    using fre lib s1 r1 ans aw(2) d
    by (simp add: offerer_exchange_def ot c_str_fill num s2 [unfolded p2_def] s3 [unfolded p2_def] r2 bytes_int_fill)
      (simp add: p1_def)
qed

lemma answerer_exchange_to_count:
  assumes lib: "never_throws lib" and ot: "description_text oty osdp = Inr ot" "length ot < ANSWERER_BUFFER"
    and aw: "description_text aty asdp = Inr aw"
    and fd: "0 \<le> fd" "oks p = []" and inb: "inbox p fd = Chunk ot # q" "comes_next cnt d q"
    and d: "length cnt = 4" "nul_free d" "length d < ANSWERER_BUFFER"
    and n: "length ac < 2 ^ 31"
  shows "\<exists>p'. answerer_exchange lib (Some (aty, asdp)) ac fd p =
      (case ac of [] \<Rightarrow> Inl (Throw ''std::out_of_range'', p') | c # _ \<Rightarrow> Inr (snd (send fd c p')))
    \<and> events p' = events p @ map (Sent fd) [aw, int_bytes (int (length ac))]
    \<and> pc_log p' = pc_log p @ [SetRemote osdp oty, AddRemoteCandidate d]
    \<and> remote_cand_count p' = bytes_int cnt \<and> oks p' = []"
proof -
  define p1 where "p1 = (log_event (Sent fd aw) (p\<lparr>inbox := (inbox p)(fd := q), pc_log := pc_log p @ [SetRemote osdp oty]\<rparr>))"
  have fre: "nul_free ot" "nul_free aw"
    using description_text_printable [OF ot(1)] description_text_printable [OF aw] by (auto intro: printable_nul_free)
  have num: "candidate_number ac = int (length ac)"
    using n by (simp add: candidate_number_def signed_of_nat signed_take_bit_int_eq_self)
  have r1: "recv fd ANSWERER_BUFFER p = (int (length ot), ot, p\<lparr>inbox := (inbox p)(fd := q)\<rparr>)"
    using inb(1) fd(1) ot(2) by (simp add: recv_whole)
  have prs: "json_parse ot = Inr (JObject [(''sdp'', JString osdp), (''type'', JString oty)])"
    using description_text_parse [OF ot(1), of 0] by (simp add: zeros_def)
  have s1: "send fd aw (p\<lparr>inbox := (inbox p)(fd := q), pc_log := pc_log p @ [SetRemote osdp oty]\<rparr>) = (int (length aw), p1)"
    using fd by (simp add: send_ok p1_def)
  have q1: "comes_next cnt d (inbox p1 fd)" using inb(2) by (simp add: p1_def)
  from recv_count [OF q1 d(1) _ fd(1), of ANSWERER_BUFFER "bytes_int cnt"] d(3) obtain q' where
    r2: "recv fd 4 p1 = (4, cnt, p1\<lparr>inbox := (inbox p1)(fd := Chunk d # q')\<rparr>)"
      "recv fd ANSWERER_BUFFER (p1\<lparr>inbox := (inbox p1)(fd := Chunk d # q'), remote_cand_count := bytes_int cnt\<rparr>) =
        (int (length d), d, p1\<lparr>inbox := (inbox p1)(fd := q'), remote_cand_count := bytes_int cnt\<rparr>)" by auto
  have ok: "oks p1 = []" using fd by (simp add: p1_def)
  define p2 where "p2 = log_event (Sent fd (int_bytes (int (length ac))))
    (p1\<lparr>inbox := (inbox p1)(fd := q'), remote_cand_count := bytes_int cnt, pc_log := pc_log p1 @ [AddRemoteCandidate d]\<rparr>)"
  have "answerer_exchange lib (Some (aty, asdp)) ac fd p =
      (case ac of [] \<Rightarrow> Inl (Throw ''std::out_of_range'', p2) | c # _ \<Rightarrow> Inr (snd (send fd c p2)))"
    using fre lib ot(2) d fd ok unfolding answerer_exchange_def
    by (simp add: r1 prs aw c_str_fill apply_description_ok s1 num r2 bytes_int_fill send_ok p2_def
        split: list.split)
  moreover have "events p2 = events p @ map (Sent fd) [aw, int_bytes (int (length ac))]
    \<and> pc_log p2 = pc_log p @ [SetRemote osdp oty, AddRemoteCandidate d]
    \<and> remote_cand_count p2 = bytes_int cnt \<and> oks p2 = []"
    using fd(2) by (simp add: p2_def p1_def)
  ultimately show ?thesis by blast
qed

lemma answerer_exchange_runs:
  assumes lib: "never_throws lib" and ot: "description_text oty osdp = Inr ot" "length ot < ANSWERER_BUFFER"
    and aw: "description_text aty asdp = Inr aw"
    and fd: "0 \<le> fd" "oks p = []" and inb: "inbox p fd = Chunk ot # q" "comes_next cnt d q"
    and d: "length cnt = 4" "nul_free d" "length d < ANSWERER_BUFFER"
    and n: "length (c # cs) < 2 ^ 31"
  shows "\<exists>p'. answerer_exchange lib (Some (aty, asdp)) (c # cs) fd p = Inr p'
    \<and> events p' = events p @ map (Sent fd) [aw, int_bytes (int (length (c # cs))), c]
    \<and> pc_log p' = pc_log p @ [SetRemote osdp oty, AddRemoteCandidate d]
    \<and> remote_cand_count p' = bytes_int cnt"
  using answerer_exchange_to_count [OF assms] fd by (auto simp: send_ok)

lemma socket_ok: "oks p = [] \<Longrightarrow> socket p = (next_fd p, p\<lparr>next_fd := next_fd p + 1\<rparr>)"
  by (simp add: socket_def sys_ok_def)

lemma offerer_connects:
  assumes "never_throws lib" and "oks p = []" and "0 \<le> next_fd p"
  shows "offerer_connect lib p = Inr (next_fd p, next_fd p + 1,
    p\<lparr>next_fd := next_fd p + 2, events := events p @ [Bound (next_fd p) (htons OFFERER_PORT)],
      pc_log := pc_log p @ [NewConnection [''stun.l.google.com:19302''], CreateDataChannel ''test'', SetLocal ''offer'']\<rparr>)"
  using assms by (simp add: offerer_connect_def socket_ok sys_ok_def log_event_def)

lemma answerer_args_ok:
  assumes "int_fits port" and "nul_free host" and "length host < 50"
  shows "answerer_args [prog, host, show_int port] = Inr (host, port)"
  using assms by (simp add: answerer_args_def atoi_def store_str_zeros c_str_append_zeros)

lemma answerer_connects:
  assumes "never_throws lib" and "oks p = []" and "0 \<le> next_fd p"
    and "answerer_args argv = Inr (host, port)" and "inet_pton host = Some addr"
  shows "answerer_connect lib argv p = Inr (next_fd p,
    p\<lparr>next_fd := next_fd p + 1, events := events p @ [Connected (next_fd p) addr (htons port)],
      pc_log := pc_log p @ [NewConnection [''stun.l.google.com:19302'']]\<rparr>)"
  using assms by (simp add: answerer_connect_def socket_ok sys_ok_def log_event_def)

lemma offerer_main_runs:
  assumes lib: "never_throws lib" and start: "oks p = []" "0 \<le> next_fd p" "events p = []" "pc_log p = []"
    and ot: "description_text oty osdp = Inr ot"
    and aw: "description_text aty asdp = Inr aw" "length aw < OFFERER_BUFFER"
    and inb: "inbox p (next_fd p + 1) = Chunk aw # q" "comes_next cnt d q"
    and d: "length cnt = 4" "nul_free d" "length d < OFFERER_BUFFER" and n: "length oc < 2 ^ 31"
  shows "\<exists>p'. offerer_main lib (Some (oty, osdp)) oc p = (Return 0, p')
    \<and> sent (next_fd p + 1) (events p') = ot # int_bytes (int (length oc)) # map c_trunc oc
    \<and> pc_log p' = [NewConnection [''stun.l.google.com:19302''], CreateDataChannel ''test'', SetLocal ''offer'',
         SetRemote asdp aty, AddRemoteCandidate d, ChannelSend (fst (getline (pin p)))]
    \<and> remote_cand_count p' = bytes_int cnt"
proof -
  define p1 where "p1 = p\<lparr>next_fd := next_fd p + 2, events := events p @ [Bound (next_fd p) (htons OFFERER_PORT)],
      pc_log := pc_log p @ [NewConnection [''stun.l.google.com:19302''], CreateDataChannel ''test'', SetLocal ''offer'']\<rparr>"
  from offerer_exchange_runs [OF lib ot aw, of "next_fd p + 1" p1 q cnt d oc] start inb d n obtain p2 where
    "offerer_exchange lib (Some (oty, osdp)) oc (next_fd p + 1) p1 = Inr p2"
    "events p2 = events p1 @ map (Sent (next_fd p + 1)) (ot # int_bytes (int (length oc)) # map c_trunc oc)"
    "pc_log p2 = pc_log p1 @ [SetRemote asdp aty, AddRemoteCandidate d]"
    "remote_cand_count p2 = bytes_int cnt" "pin p2 = pin p1"
    by (auto simp: p1_def)
  then show ?thesis
    using lib start offerer_connects [OF lib start(1,2)]
    by (cases "getline (pin p)") (simp add: offerer_main_def p1_def catch_exception_def)
qed

lemma answerer_main_runs:
  assumes lib: "never_throws lib" and start: "oks p = []" "0 \<le> next_fd p" "events p = []" "pc_log p = []"
    and args: "answerer_args argv = Inr (host, port)" "inet_pton host = Some addr"
    and ot: "description_text oty osdp = Inr ot" "length ot < ANSWERER_BUFFER"
    and aw: "description_text aty asdp = Inr aw"
    and inb: "inbox p (next_fd p) = Chunk ot # q" "comes_next cnt d q"
    and d: "length cnt = 4" "nul_free d" "length d < ANSWERER_BUFFER" and n: "length (c # cs) < 2 ^ 31"
  shows "\<exists>p'. answerer_main lib (Some (aty, asdp)) (c # cs) argv p = (Return 0, p')
    \<and> sent (next_fd p) (events p') = [aw, int_bytes (int (length (c # cs))), c]
    \<and> pc_log p' = [NewConnection [''stun.l.google.com:19302''], SetRemote osdp oty, AddRemoteCandidate d]
    \<and> remote_cand_count p' = bytes_int cnt"
proof -
  define p1 where "p1 = p\<lparr>next_fd := next_fd p + 1, events := events p @ [Connected (next_fd p) addr (htons port)],
      pc_log := pc_log p @ [NewConnection [''stun.l.google.com:19302'']]\<rparr>"
  from answerer_exchange_runs [OF lib ot aw, of "next_fd p" p1 q cnt d c cs] start inb d n obtain p2 where
    "answerer_exchange lib (Some (aty, asdp)) (c # cs) (next_fd p) p1 = Inr p2"
    "events p2 = events p1 @ map (Sent (next_fd p)) [aw, int_bytes (int (length (c # cs))), c]"
    "pc_log p2 = pc_log p1 @ [SetRemote osdp oty, AddRemoteCandidate d]"
    "remote_cand_count p2 = bytes_int cnt"
    by (auto simp: p1_def)
  then show ?thesis
    using start answerer_connects [OF lib start(1,2) args]
    by (simp add: answerer_main_def p1_def)
qed


definition example_lib :: peer_lib where
  "example_lib calls call = None"

definition example_peer :: "(int \<Rightarrow> arrival list) \<Rightarrow> string \<Rightarrow> peer" where
  "example_peer inb typed =
     \<lparr>inbox = inb, oks = [], next_fd = 3, sigint_in = None, running = True, events = [],
      pin = \<lparr>in_rest = typed, in_fail = False\<rparr>, pc_log = [], remote_cand_count = 0\<rparr>"

definition example_text :: string where
  "example_text = concat [[CHR 0x7B], quoted ''sdp'', '':'', quoted ''v=0'', '','', quoted ''type'', '':'',
     quoted ''offer'', [CHR 0x7D]]"

lemma example_lib_ok [simp]: "never_throws example_lib"
  by (simp add: never_throws_def example_lib_def)

lemma example_description: "description_text ''offer'' ''v=0'' = Inr example_text"
  using dump_ascii_description by (simp add: description_text_def description_json_eq example_text_def)

lemma example_text_length: "length example_text = 28"
  by (simp add: example_text_def quoted_def)

lemma example_args: "answerer_args [''answerer'', ''192.168.43.19'', show_int 8080] = Inr (''192.168.43.19'', 8080)"
  by (rule answerer_args_ok) (simp_all add: int_fits_def)

lemma example_address: "inet_pton ''192.168.43.19'' = Some [192, 168, 43, 19]"
  by (simp add: inet_pton_def isdigit_def digit_val_def)


text \<open>TCP may deliver what the offerer sent in few segments. When its count and its candidates arrive
  together, the answerer gives the library all candidates run together as one.\<close>

theorem glued_candidates:
  assumes "never_throws lib" and "oks p = []" and "0 \<le> next_fd p" and "events p = []" and "pc_log p = []"
    and "answerer_args argv = Inr (host, port)" and "inet_pton host = Some addr"
    and "description_text oty osdp = Inr ot" and "length ot < ANSWERER_BUFFER"
    and "description_text aty asdp = Inr aw"
    and "\<forall>c\<in>set oc. nul_free c" and "concat oc \<noteq> []" and "length (concat oc) < ANSWERER_BUFFER"
    and "ac \<noteq> []" and "length ac < 2 ^ 31"
    and "inbox p (next_fd p) = [Chunk ot, Chunk (int_bytes (int (length oc)) @ concat oc)]"
  shows "\<exists>p'. answerer_main lib (Some (aty, asdp)) ac argv p = (Return 0, p')
    \<and> pc_log p' = [NewConnection [''stun.l.google.com:19302''], SetRemote osdp oty, AddRemoteCandidate (concat oc)]"
proof -
  obtain a as where ac: "ac = a # as" using \<open>ac \<noteq> []\<close> by (cases ac) auto
  have "comes_next (int_bytes (int (length oc))) (concat oc) [Chunk (int_bytes (int (length oc)) @ concat oc)]"
    using assms(12) by (simp add: comes_next_def)
  moreover have "nul_free (concat oc)" using assms(11) by (auto simp: nul_free_def)
  ultimately show ?thesis
    using answerer_main_runs [OF assms(1-10), of _ "int_bytes (int (length oc))" "concat oc" a as] assms(13-16) ac by auto
qed

theorem glued_candidates_witness:
  "\<exists>p'. answerer_main example_lib (Some (''offer'', ''v=0'')) [''d1''] [''answerer'', ''192.168.43.19'', show_int 8080]
       (example_peer (\<lambda>_. [Chunk example_text, Chunk (int_bytes 2 @ ''c1c2'')]) []) = (Return 0, p')
    \<and> pc_log p' = [NewConnection [''stun.l.google.com:19302''], SetRemote ''v=0'' ''offer'', AddRemoteCandidate ''c1c2'']"
  using glued_candidates [of example_lib "example_peer (\<lambda>_. [Chunk example_text, Chunk (int_bytes 2 @ ''c1c2'')]) []"
      "[''answerer'', ''192.168.43.19'', show_int 8080]" _ _ _ "''offer''" "''v=0''" _ "''offer''" "''v=0''" _
      "[''c1'', ''c2'']" "[''d1'']", OF _ _ _ _ _ example_args example_address example_description _ example_description]
  by (simp add: example_peer_def example_text_length ANSWERER_BUFFER_def)

text \<open>An answerer that has found no candidate of its own when it is about to send one is ended by
  the exception of \<open>at(0)\<close>, after it has announced zero candidates and without closing its socket; one
  whose gathering never completes waits for ever and sends nothing.\<close>

theorem answerer_without_candidates:
  assumes "never_throws lib" and "oks p = []" and "0 \<le> next_fd p" and "events p = []" and "pc_log p = []"
    and "answerer_args argv = Inr (host, port)" and "inet_pton host = Some addr"
    and "description_text oty osdp = Inr ot" and "length ot < ANSWERER_BUFFER"
    and "description_text aty asdp = Inr aw" and "nul_free d" and "d \<noteq> []" and "length d < ANSWERER_BUFFER"
    and "inbox p (next_fd p) = Chunk ot # Chunk (int_bytes n) # Chunk d # q"
  shows "(\<exists>p'. answerer_main lib (Some (aty, asdp)) [] argv p = (Throw ''std::out_of_range'', p')
      \<and> events p' = [Connected (next_fd p) addr (htons port), Sent (next_fd p) aw, Sent (next_fd p) (int_bytes 0)])
    \<and> (\<exists>p'. answerer_main lib None ac argv p = (Hang, p')
      \<and> events p' = [Connected (next_fd p) addr (htons port)])"
proof -
  define p1 where "p1 = p\<lparr>next_fd := next_fd p + 1, events := [Connected (next_fd p) addr (htons port)],
      pc_log := [NewConnection [''stun.l.google.com:19302'']]\<rparr>"
  have con: "answerer_connect lib argv p = Inr (next_fd p, p1)"
    using answerer_connects [OF assms(1-3,6,7)] assms(4,5) by (simp add: p1_def)
  have "comes_next (int_bytes n) d (Chunk (int_bytes n) # Chunk d # q)" using assms(12) by (simp add: comes_next_def)
  then obtain p2 where "answerer_exchange lib (Some (aty, asdp)) [] (next_fd p) p1 = Inl (Throw ''std::out_of_range'', p2)"
    "events p2 = [Connected (next_fd p) addr (htons port), Sent (next_fd p) aw, Sent (next_fd p) (int_bytes 0)]"
    using answerer_exchange_to_count [OF assms(1,8-10,3), of p1 "Chunk (int_bytes n) # Chunk d # q" "int_bytes n" d "[]"]
      assms(2,11-14) by (auto simp: p1_def)
  with con have 1: "\<exists>p'. answerer_main lib (Some (aty, asdp)) [] argv p = (Throw ''std::out_of_range'', p')
      \<and> events p' = [Connected (next_fd p) addr (htons port), Sent (next_fd p) aw, Sent (next_fd p) (int_bytes 0)]"
    by (simp add: answerer_main_def)
  have "recv (next_fd p) ANSWERER_BUFFER p1 =
      (int (length ot), ot, p1\<lparr>inbox := (inbox p1)(next_fd p := Chunk (int_bytes n) # Chunk d # q)\<rparr>)"
    using assms(3,9,14) by (simp add: recv_whole p1_def)
  moreover have "json_parse ot = Inr (JObject [(''sdp'', JString osdp), (''type'', JString oty)])"
    using description_text_parse [OF assms(8), of 0] by (simp add: zeros_def)
  moreover have "nul_free ot" using description_text_printable [OF assms(8)] by (rule printable_nul_free)
  ultimately have "\<exists>p'. answerer_main lib None ac argv p = (Hang, p') \<and> events p' = [Connected (next_fd p) addr (htons port)]"
    using con assms(1,9) by (simp add: answerer_main_def answerer_exchange_def c_str_fill apply_description_ok)
      (simp add: p1_def)
  with 1 show ?thesis ..
qed

theorem answerer_without_candidates_witness:
  "\<exists>p'. answerer_main example_lib (Some (''offer'', ''v=0'')) [] [''answerer'', ''192.168.43.19'', show_int 8080]
       (example_peer (\<lambda>_. [Chunk example_text, Chunk (int_bytes 1), Chunk ''c1'']) []) =
     (Throw ''std::out_of_range'', p')"
  using answerer_without_candidates [of example_lib
      "example_peer (\<lambda>_. [Chunk example_text, Chunk (int_bytes 1), Chunk ''c1'']) []"
      "[''answerer'', ''192.168.43.19'', show_int 8080]" _ _ _ "''offer''" "''v=0''" _ "''offer''" "''v=0''" _
      "''c1''" 1 "[]", OF _ _ _ _ _ example_args example_address example_description _ example_description]
  by (simp add: example_peer_def example_text_length ANSWERER_BUFFER_def) blast

end
