(* ===== verification/SimplePeers.thy ===== *)
theory SimplePeers
  imports Peers
begin

text \<open>
  The two programs in which descriptions and candidates are pasted by hand, \<open>src/simple_offerer.cpp\<close>
  (sends video) and \<open>src/simple_answerer.cpp\<close> (receives it). State, library calls and results are
  those of the theory of the other pair; the descriptions they print are the line the user pastes
  into the peer.
\<close>

section \<open>The sender\<close>

text \<open>\<open>int num_cand; std::cin >> num_cand;\<close>: an extraction that fails before a character is seen
  leaves the variable without a value.\<close>

definition cin_int_uninit :: "input \<Rightarrow> int option \<times> input" where
  "cin_int_uninit i =
     (let (v, i') = cin_int 0 i
      in (if in_fail i \<or> dropWhile isspace (in_rest i) = [] then None else Some v, i'))"

text \<open>\<open>while (num_cand < 0) \<dots> num_cand--\<close>; the decrement of the least \<open>int\<close> overflows.\<close>

function candidate_loop :: "peer_lib \<Rightarrow> int \<Rightarrow> peer \<Rightarrow> peer run" where
  "candidate_loop lib num_cand p =
     (if \<not> num_cand < 0 then Inr p
      else let (candidate, i) = getline (pin p)
           in res_bind (pcall lib (AddRemoteCandidate candidate) (p\<lparr>pin := i\<rparr>)) (\<lambda>p.
                if num_cand \<le> - (2 ^ 31) then Inl (Fault SignedOverflow, p)
                else candidate_loop lib (num_cand - 1) p))"
  by pat_completeness auto
termination
  by (relation "measure (\<lambda>(lib, n, p). nat (n + 2 ^ 31))") auto

declare candidate_loop.simps [simp del]

text \<open>The answer is one line of standard input; any failure to read it is caught in \<open>main\<close>.\<close>

definition paste_description :: "peer_lib \<Rightarrow> peer \<Rightarrow> peer run" where
  "paste_description lib p =
     (let (sdp, i) = getline (pin p);
          p = p\<lparr>pin := i\<rparr>
      in res_bind (run_json (json_parse sdp) p) (\<lambda>j. apply_description lib j p))"

definition simple_offerer_setup :: "peer_lib \<Rightarrow> peer \<Rightarrow> (int \<times> peer) run" where
  "simple_offerer_setup lib p =
     res_bind (pcall lib (NewConnection []) p) (\<lambda>p.
       let (sock, p) = socket p;
           (ok, p) = (if sock < 0 then (False, p) else sys_ok p)
       in if \<not> ok then Inl (Throw ''Failed to bind UDP socket on 127.0.0.1:6000'', p)
          else let p = log_event (Bound sock (htons 6000)) p
               in res_bind (pcall lib (AddVideoTrack ''sendonly'' 96) p) (\<lambda>p.
                  res_bind (pcall lib (SetLocal ''offer'') p) (\<lambda>p. Inr (sock, p))))"

text \<open>The packets of the datagram socket go to the track until a \<open>recv\<close> fails. The first component
  tells whether the loop ends; when no more datagrams come it waits for ever.\<close>

fun rtp_loop ::
  "(bytes list \<Rightarrow> bool) \<Rightarrow> (int \<Rightarrow> bytes \<Rightarrow> bytes) \<Rightarrow> arrival list \<Rightarrow> bytes \<Rightarrow> bytes list \<Rightarrow> bool \<times> bytes list" where
  "rtp_loop is_open set_ssrc [] buf track = (False, track)"
| "rtp_loop is_open set_ssrc (RecvError # q) buf track = (True, track)"
| "rtp_loop is_open set_ssrc (Chunk d # q) buf track =
     (let b = take MEDIA_BUFFER d;
          (buf, track) = media_packet is_open set_ssrc (length b) (overwrite buf b) track
      in rtp_loop is_open set_ssrc q buf track)"

text \<open>The packets put on the track, how the program ends, and its state.\<close>

definition simple_offerer_main ::
  "peer_lib \<Rightarrow> (bytes list \<Rightarrow> bool) \<Rightarrow> (int \<Rightarrow> bytes \<Rightarrow> bytes) \<Rightarrow> arrival list \<Rightarrow> bytes \<Rightarrow> peer
     \<Rightarrow> bytes list \<times> stop \<times> peer" where
  "simple_offerer_main lib is_open set_ssrc datagrams buf p =
     (case res_bind (simple_offerer_setup lib p) (\<lambda>(sock, p).
             res_bind (paste_description lib p) (\<lambda>p.
               let (num_cand, i) = cin_int_uninit (pin p);
                   p = p\<lparr>pin := i\<rparr>
               in res_bind (run_res (use_value num_cand) p) (\<lambda>n. candidate_loop lib n p))) of
        Inl r \<Rightarrow> ([], catch_exception (Inl r))
      | Inr p \<Rightarrow>
          let (returns, track) = rtp_loop is_open set_ssrc datagrams buf []
          in (track, if returns then catch_exception (Inr p) else (Hang, p)))"

section \<open>The receiver\<close>

definition simple_answerer_main :: "peer_lib \<Rightarrow> peer \<Rightarrow> stop \<times> peer" where
  "simple_answerer_main lib p =
     catch_exception
       (res_bind (pcall lib (NewConnection []) p) (\<lambda>p.
          let (sock, p) = socket p
          in res_bind (pcall lib (AddVideoTrack ''recvonly'' 96) p) (\<lambda>p.
             res_bind (paste_description lib p) (\<lambda>p.
             res_bind (pcall lib (SetLocal ''answer'') p) (\<lambda>p.
               Inr (p\<lparr>pin := (pin p)\<lparr>in_rest := drop 1 (dropWhile isspace (in_rest (pin p)))\<rparr>\<rparr>))))))"

text \<open>The callback of the track: a packet is sent unchanged to port 5000 of the own host.\<close>

definition simple_output_addr :: sockaddr_in where
  "simple_output_addr = \<lparr>sin_family = AF_INET, sin_port = htons 5000, sin_addr = inet_addr ''127.0.0.1''\<rparr>"

definition on_track_message :: "int \<Rightarrow> bytes \<Rightarrow> peer \<Rightarrow> sockaddr_in \<times> peer" where
  "on_track_message sock message p = (simple_output_addr, snd (send sock message p))"

section \<open>Properties\<close>

lemma candidate_loop_negative:
  assumes "never_throws lib" and "n < 0"
  shows "\<exists>p'. candidate_loop lib n p = Inl (Fault SignedOverflow, p')"
  using assms(2)
proof (induction "nat (n + 2 ^ 31)" arbitrary: n p rule: less_induct)
  case less
  obtain l i where g: "getline (pin p) = (l, i)" by fastforce
  define p1 where "p1 = p\<lparr>pin := i, pc_log := pc_log p @ [AddRemoteCandidate l]\<rparr>"
  have step: "candidate_loop lib n p =
      (if n \<le> - (2 ^ 31) then Inl (Fault SignedOverflow, p1) else candidate_loop lib (n - 1) p1)"
    using less.prems assms(1) g by (simp add: candidate_loop.simps [of lib n] p1_def)
  show ?case
  proof (cases "n \<le> - (2 ^ 31)")
    case True
    then show ?thesis using step by simp
  next
    case False
    then have "nat (n - 1 + 2 ^ 31) < nat (n + 2 ^ 31)" by simp
    from less.hyps [OF this, of p1] less.prems False step show ?thesis by simp
  qed
qed

lemma candidate_loop_skips: "0 \<le> n \<Longrightarrow> candidate_loop lib n p = Inr p"
  by (simp add: candidate_loop.simps)

text \<open>The sender never takes a candidate from its user as intended: for a count of zero or more the
  loop reads nothing, and for a negative count it goes on until the counter overflows.\<close>

theorem simple_offerer_candidates:
  assumes "never_throws lib"
  shows "if 0 \<le> n then candidate_loop lib n p = Inr p
    else \<exists>p'. candidate_loop lib n p = Inl (Fault SignedOverflow, p')"
  using candidate_loop_negative [OF assms, of n p] by (simp add: candidate_loop_skips)

theorem simple_offerer_candidates_witness:
  "candidate_loop example_lib 3 (example_peer (\<lambda>_. []) ''c1'') = Inr (example_peer (\<lambda>_. []) ''c1'')
    \<and> (\<exists>p'. candidate_loop example_lib (-1) (example_peer (\<lambda>_. []) ''c1'') = Inl (Fault SignedOverflow, p'))"
  using simple_offerer_candidates [of example_lib 3 "example_peer (\<lambda>_. []) ''c1''"]
    simple_offerer_candidates [of example_lib "-1" "example_peer (\<lambda>_. []) ''c1''"] by simp

lemma getline_line:
  assumes "CHR 0x0A \<notin> set l"
  shows "getline \<lparr>in_rest = l @ nl @ r, in_fail = False\<rparr> = (l, \<lparr>in_rest = r, in_fail = False\<rparr>)"
proof -
  have "takeWhile (\<lambda>c. c \<noteq> CHR 0x0A) (l @ CHR 0x0A # r) = l" using assms by (intro takeWhile_append_stop) auto
  then show ?thesis by (simp add: getline_def)
qed

lemma paste_description_ok:
  assumes "never_throws lib" and "description_text ty sdp = Inr t"
    and "pin p = \<lparr>in_rest = t @ nl @ r, in_fail = False\<rparr>"
  shows "paste_description lib p =
    Inr (p\<lparr>pin := \<lparr>in_rest = r, in_fail = False\<rparr>, pc_log := pc_log p @ [SetRemote sdp ty]\<rparr>)"
proof -
  have "json_parse t = Inr (JObject [(''sdp'', JString sdp), (''type'', JString ty)])"
    using description_text_parse [OF assms(2), of 0] by (simp add: zeros_def)
  moreover have "getline (pin p) = (t, \<lparr>in_rest = r, in_fail = False\<rparr>)"
    using getline_line printable_one_line [OF description_text_printable [OF assms(2)]] assms(3) by metis
  ultimately show ?thesis using assms(1) by (simp add: paste_description_def apply_description_ok)
qed

lemma not_newline: "\<not> isdigit CHR 0x0A"
  by (simp add: isdigit_def)

lemma scan_int_line: "0 \<le> n \<Longrightarrow> scan_int (show_int n @ CHR 0x0A # r) = Some (n, CHR 0x0A # r)"
proof -
  assume "0 \<le> n"
  then have s: "show_int n = dec (nat n)" by (simp add: show_int_def)
  have "takeWhile isdigit (dec (nat n) @ CHR 0x0A # r) = dec (nat n)"
    "dropWhile isdigit (dec (nat n) @ CHR 0x0A # r) = CHR 0x0A # r"
    using dec_isdigit [of _ "nat n"] by (auto intro!: takeWhile_append_stop dropWhile_append_stop simp: not_newline)
  with \<open>0 \<le> n\<close> isdigit_not [OF dec_hd [of "nat n"]] show ?thesis
    unfolding s by (simp add: scan_int_def)
qed

lemma typed_count:
  assumes "0 \<le> n" and "n < 2 ^ 31"
  shows "cin_int_uninit \<lparr>in_rest = show_int n @ nl @ r, in_fail = False\<rparr> =
    (Some n, \<lparr>in_rest = nl @ r, in_fail = False\<rparr>)"
proof -
  have "dropWhile isspace (show_int n @ CHR 0x0A # r) = show_int n @ CHR 0x0A # r"
    using token_show_int [of n] by (intro dropWhile_none) (auto simp: token_def hd_append)
  moreover have "show_int n \<noteq> []" using token_show_int [of n] by (simp add: token_def)
  moreover have "int_fits n" using assms by (simp add: int_fits_def)
  ultimately show ?thesis using scan_int_line [OF assms(1), of r]
    by (simp add: cin_int_uninit_def cin_int_def)
qed

lemma rtp_loop_ends: "fst (rtp_loop is_open set_ssrc (ds @ [RecvError]) buf track)"
proof (induction ds arbitrary: buf track)
  case (Cons a ds)
  then show ?case by (cases a) (auto simp: Let_def split: prod.splits)
qed simp

text \<open>The line one program prints when its gathering is complete, pasted into the other, gives that
  program exactly the type and text of the description: the receiver goes on to its answer and
  returns 0; the sender goes on to its packets, without any of the candidates typed after the line.\<close>

theorem pasted_description:
  assumes "never_throws lib" and "description_text ty sdp = Inr t"
    and "oks p = []" and "0 \<le> next_fd p" and "pc_log p = []"
    and "pin p = \<lparr>in_rest = t @ nl @ show_int n @ nl @ candidates, in_fail = False\<rparr>"
    and "0 \<le> n" and "n < 2 ^ 31"
  shows "(\<exists>p'. simple_answerer_main lib p = (Return 0, p')
      \<and> pc_log p' = [NewConnection [], AddVideoTrack ''recvonly'' 96, SetRemote sdp ty, SetLocal ''answer''])
    \<and> (\<exists>track p'. simple_offerer_main lib is_open set_ssrc (ds @ [RecvError]) buf p = (track, Return 0, p')
      \<and> pc_log p' = [NewConnection [], AddVideoTrack ''sendonly'' 96, SetLocal ''offer'', SetRemote sdp ty])"
proof -
  let ?r = "show_int n @ nl @ candidates"
  define p1 where "p1 = p\<lparr>next_fd := next_fd p + 1, pc_log := [NewConnection [], AddVideoTrack ''recvonly'' 96]\<rparr>"
  have "paste_description lib p1 = Inr (p1\<lparr>pin := \<lparr>in_rest = ?r, in_fail = False\<rparr>, pc_log := pc_log p1 @ [SetRemote sdp ty]\<rparr>)"
    by (rule paste_description_ok [OF assms(1,2)]) (simp add: p1_def assms(6))
  then have 1: "\<exists>p'. simple_answerer_main lib p = (Return 0, p')
      \<and> pc_log p' = [NewConnection [], AddVideoTrack ''recvonly'' 96, SetRemote sdp ty, SetLocal ''answer'']"
    using assms(1,3,5) by (simp add: simple_answerer_main_def socket_ok p1_def catch_exception_def)
  define p2 where "p2 = p\<lparr>next_fd := next_fd p + 1, events := events p @ [Bound (next_fd p) (htons 6000)],
    pc_log := [NewConnection [], AddVideoTrack ''sendonly'' 96, SetLocal ''offer'']\<rparr>"
  have su: "simple_offerer_setup lib p = Inr (next_fd p, p2)"
    using assms(1,3,4,5) by (simp add: simple_offerer_setup_def socket_ok sys_ok_def log_event_def p2_def)
  have paste: "paste_description lib p2 = Inr (p2\<lparr>pin := \<lparr>in_rest = ?r, in_fail = False\<rparr>, pc_log := pc_log p2 @ [SetRemote sdp ty]\<rparr>)"
    by (rule paste_description_ok [OF assms(1,2)]) (simp add: p2_def assms(6))
  have "fst (rtp_loop is_open set_ssrc (ds @ [RecvError]) buf [])" by (rule rtp_loop_ends)
  then obtain track where "rtp_loop is_open set_ssrc (ds @ [RecvError]) buf [] = (True, track)"
    by (cases "rtp_loop is_open set_ssrc (ds @ [RecvError]) buf []") simp
  then have "\<exists>track p'. simple_offerer_main lib is_open set_ssrc (ds @ [RecvError]) buf p = (track, Return 0, p')
      \<and> pc_log p' = [NewConnection [], AddVideoTrack ''sendonly'' 96, SetLocal ''offer'', SetRemote sdp ty]"
    using su paste typed_count [OF assms(7,8), of candidates] assms(7)
    by (simp add: simple_offerer_main_def candidate_loop_skips catch_exception_def p2_def)
  with 1 show ?thesis ..
qed

theorem pasted_description_witness:
  "(\<exists>p'. simple_answerer_main example_lib (example_peer (\<lambda>_. []) (example_text @ nl @ show_int 1 @ nl @ ''c1'')) =
       (Return 0, p'))
    \<and> (\<exists>track p'. simple_offerer_main example_lib (\<lambda>_. True) (\<lambda>_ b. b) ([] @ [RecvError]) (zeros MEDIA_BUFFER)
       (example_peer (\<lambda>_. []) (example_text @ nl @ show_int 1 @ nl @ ''c1'')) = (track, Return 0, p')
      \<and> pc_log p' = [NewConnection [], AddVideoTrack ''sendonly'' 96, SetLocal ''offer'', SetRemote ''v=0'' ''offer''])"
  using pasted_description [OF example_lib_ok example_description,
      of "example_peer (\<lambda>_. []) (example_text @ nl @ show_int 1 @ nl @ ''c1'')" 1 "''c1''" "\<lambda>_. True" "\<lambda>_ b. b" "[]"
        "zeros MEDIA_BUFFER"]
  by (simp add: example_peer_def) blast

text \<open>With the track open, every datagram of at least the size of an RTP header goes to the track as one
  packet of its own length, cut to the buffer, in order of arrival; shorter ones are dropped.\<close>

theorem rtp_loop_forwards:
  assumes "\<forall>s b. length (set_ssrc s b) = length b" and "length buf = MEDIA_BUFFER"
  shows "map length (snd (rtp_loop (\<lambda>_. True) set_ssrc (map Chunk ds) buf track)) =
    map length track @ map (\<lambda>d. min MEDIA_BUFFER (length d)) (filter (\<lambda>d. RTP_HEADER \<le> length d) ds)"
  using assms(2)
proof (induction ds arbitrary: buf track)
  case (Cons d ds)
  have "length (overwrite buf (take MEDIA_BUFFER d)) = MEDIA_BUFFER"
    using Cons.prems by (simp add: overwrite_def)
  moreover have "RTP_HEADER \<le> MEDIA_BUFFER" by (simp add: RTP_HEADER_def MEDIA_BUFFER_def)
  ultimately show ?case
    using Cons.IH assms(1) by (auto simp: media_packet_def Let_def min_def)
qed simp

theorem rtp_loop_forwards_witness:
  "map length (snd (rtp_loop (\<lambda>_. True) (\<lambda>_ b. b) (map Chunk [zeros 5, zeros 20, zeros 3000]) (zeros MEDIA_BUFFER) [])) =
     [20, 2048]"
  using rtp_loop_forwards [of "\<lambda>_ b. b" "zeros MEDIA_BUFFER" "[zeros 5, zeros 20, zeros 3000]" "[]"]
  by (simp add: MEDIA_BUFFER_def RTP_HEADER_def)

end
