(* ===== verification/JsonPretty.thy ===== *)
theory JsonPretty
  imports JsonRoundTrip
begin

text \<open>
  The pretty printing of \<open>include/nlohmann/json.hpp\<close>: \<open>dump(indent, indent_char, ensure_ascii)\<close> with a
  step of zero or more columns. The columns are copied from \<open>indent_string\<close>, a member of the serializer that
  starts with 512 indentation characters and is doubled, once, where a container needs more.

  The lemmas show that a step of up to 1024 columns never reads past \<open>indent_string\<close>, that the routine then
  fails exactly where the plain one fails, and that parsing undoes it; and that a larger step does read past it.
\<close>

section \<open>The indentation string\<close>

text \<open>The resize doubles the size and fills up with blanks, whatever the indentation character is.\<close>

definition grow_indent :: "32 word \<Rightarrow> string \<Rightarrow> string" where
  "grow_indent new_indent indent_string =
     (if length indent_string < unat new_indent
      then indent_string @ replicate (length indent_string) CHR '' ''
      else indent_string)"

text \<open>
  \<open>write_characters(indent_string.c_str(), n)\<close>: the characters of the string and the NUL behind them may be
  read, and nothing else.
\<close>

definition write_indent :: "string \<Rightarrow> 32 word \<Rightarrow> json_fail + string" where
  "write_indent indent_string n =
     (if unat n \<le> length indent_string + 1 then Inr (take (unat n) (indent_string @ [NUL]))
      else Inl (Jfault OverRead))"

section \<open>Values\<close>

text \<open>
  The result is the text and the indentation string, which the calls for the elements may have made longer.
  The members and the elements are printed with the new indentation, each in front of its text.
\<close>

fun pretty :: "bool \<Rightarrow> 32 word \<Rightarrow> json \<Rightarrow> 32 word \<Rightarrow> string \<Rightarrow> json_fail + string \<times> string"
  and pretty_members ::
    "bool \<Rightarrow> 32 word \<Rightarrow> (string \<times> json) list \<Rightarrow> 32 word \<Rightarrow> string \<Rightarrow> json_fail + string \<times> string"
  and pretty_elements :: "bool \<Rightarrow> 32 word \<Rightarrow> json list \<Rightarrow> 32 word \<Rightarrow> string \<Rightarrow> json_fail + string \<times> string" where
  "pretty ea indent_step (JObject m) current_indent ind =
     (if m = [] then Inr ([CHR 0x7B, CHR 0x7D], ind)
      else let new_indent = current_indent + indent_step
           in res_bind (pretty_members ea indent_step m new_indent (grow_indent new_indent ind)) (\<lambda>(s, ind').
              res_bind (write_indent ind' current_indent) (\<lambda>w.
                Inr ([CHR 0x7B, CHR 0x0A] @ s @ [CHR 0x0A] @ w @ [CHR 0x7D], ind'))))"
| "pretty ea indent_step (JArray xs) current_indent ind =
     (if xs = [] then Inr ([CHR 0x5B, CHR 0x5D], ind)
      else let new_indent = current_indent + indent_step
           in res_bind (pretty_elements ea indent_step xs new_indent (grow_indent new_indent ind)) (\<lambda>(s, ind').
              res_bind (write_indent ind' current_indent) (\<lambda>w.
                Inr ([CHR 0x5B, CHR 0x0A] @ s @ [CHR 0x0A] @ w @ [CHR 0x5D], ind'))))"
| "pretty ea indent_step (JString s) current_indent ind =
     res_bind (dump_escaped ea s) (\<lambda>e. Inr (quoted e, ind))"
| "pretty ea indent_step (JBool b) current_indent ind = Inr (if b then ''true'' else ''false'', ind)"
| "pretty ea indent_step (JInteger i) current_indent ind = Inr (dump_integer i, ind)"
| "pretty ea indent_step (JUnsigned n) current_indent ind = Inr (dump_integer (int n), ind)"
| "pretty ea indent_step (JFloat x) current_indent ind =
     (case dump_float x of Inl f \<Rightarrow> Inl (Jfault f) | Inr s \<Rightarrow> Inr (s, ind))"
| "pretty ea indent_step JNull current_indent ind = Inr (''null'', ind)"
| "pretty ea indent_step (JBinary bs st) current_indent ind =
     (let new_indent = current_indent + indent_step; ind' = grow_indent new_indent ind
      in res_bind (write_indent ind' new_indent) (\<lambda>w.
         res_bind (write_indent ind' current_indent) (\<lambda>w'.
           Inr ([CHR 0x7B, CHR 0x0A] @ w @ quoted ''bytes'' @ '': ['' @ separated '', '' (map byte_text bs) @ [CHR 0x5D, CHR '','', CHR 0x0A]
             @ w @ quoted ''subtype'' @ '': '' @ subtype_text st @ [CHR 0x0A] @ w' @ [CHR 0x7D], ind'))))"
| "pretty_members ea indent_step [] new_indent ind = Inr ([], ind)"
| "pretty_members ea indent_step ((k, v) # m) new_indent ind =
     res_bind (write_indent ind new_indent) (\<lambda>w.
     res_bind (dump_escaped ea k) (\<lambda>e.
     res_bind (pretty ea indent_step v new_indent ind) (\<lambda>(d, ind').
       if m = [] then Inr (w @ quoted e @ '': '' @ d, ind')
       else res_bind (pretty_members ea indent_step m new_indent ind') (\<lambda>(r, ind'').
              Inr (w @ quoted e @ '': '' @ d @ [CHR '','', CHR 0x0A] @ r, ind'')))))"
| "pretty_elements ea indent_step [] new_indent ind = Inr ([], ind)"
| "pretty_elements ea indent_step (v # xs) new_indent ind =
     res_bind (write_indent ind new_indent) (\<lambda>w.
     res_bind (pretty ea indent_step v new_indent ind) (\<lambda>(d, ind').
       if xs = [] then Inr (w @ d, ind')
       else res_bind (pretty_elements ea indent_step xs new_indent ind') (\<lambda>(r, ind'').
              Inr (w @ d @ [CHR '','', CHR 0x0A] @ r, ind''))))"

text \<open>The public function: a negative step turns the pretty printing off.\<close>

definition dump_indent :: "int \<Rightarrow> char \<Rightarrow> bool \<Rightarrow> json \<Rightarrow> json_fail + string" where
  "dump_indent indent indent_char ensure_ascii j =
     (if 0 \<le> indent
      then res_bind (pretty ensure_ascii (word_of_int indent) j 0 (replicate 512 indent_char)) (\<lambda>(s, _). Inr s)
      else dump ensure_ascii j)"

section \<open>No read past the indentation string\<close>

text \<open>What holds of the indentation string when a value is printed, and what a container's elements need.\<close>

definition indent_ok :: "32 word \<Rightarrow> 32 word \<Rightarrow> string \<Rightarrow> bool" where
  "indent_ok step cur ind \<longleftrightarrow>
     unat step \<le> 1024 \<and> 512 \<le> length ind \<and> unat cur \<le> length ind \<and> unat cur + unat step \<le> 2 * length ind"

lemma grow_indent_length:
  "length (grow_indent n ind) = (if length ind < unat n then 2 * length ind else length ind)"
  by (simp add: grow_indent_def)

lemma indent_ok_longer: "indent_ok step cur ind \<Longrightarrow> length ind \<le> length ind' \<Longrightarrow> indent_ok step cur ind'"
  by (simp add: indent_ok_def)

lemma indent_ok_grow:
  assumes "indent_ok step cur ind"
  shows "indent_ok step (cur + step) (grow_indent (cur + step) ind)"
proof -
  consider "unat (cur + step) = unat cur + unat step" | "unat (cur + step) < unat step" "4294966272 \<le> unat cur"
    using assms unat_plus_if_size [of cur step] unsigned_less [of cur, where 'a = nat] unsigned_less [of step, where 'a = nat]
    by (auto simp: indent_ok_def word_size split: if_splits)
  then show ?thesis
    using assms by cases (auto simp: indent_ok_def grow_indent_length)
qed

lemma write_indent_ok: "indent_ok step n ind \<Longrightarrow> write_indent ind n = Inr (take (unat n) ind)"
  by (simp add: indent_ok_def write_indent_def)

text \<open>
  Printing succeeds or fails as the plain routine does, and leaves an indentation string that is not shorter.
\<close>

definition follows :: "json_fail + string \<Rightarrow> json_fail + string \<times> string \<Rightarrow> string \<Rightarrow> bool" where
  "follows plain res ind \<longleftrightarrow> (case plain of
     Inl f \<Rightarrow> res = Inl f
   | Inr _ \<Rightarrow> (\<exists>e ind'. res = Inr (e, ind') \<and> length ind \<le> length ind'))"

lemma follows_scalar: "follows (Inr s) (Inr (s', ind)) ind" "follows (Inl f) (Inl f) ind"
  by (simp_all add: follows_def)

lemma follows_longer: "follows p r ind \<Longrightarrow> length ind0 \<le> length ind \<Longrightarrow> follows p r ind0"
  by (fastforce simp: follows_def split: sum.splits)

lemma follows_bind:
  assumes "follows p r ind" and "\<And>s e ind'. p = Inr s \<Longrightarrow> length ind \<le> length ind' \<Longrightarrow> follows (f s) (g e ind') ind'"
  shows "follows (res_bind p f) (res_bind r (\<lambda>(e, ind'). g e ind')) ind"
proof (cases p)
  case (Inr s)
  then obtain e ind' where "r = Inr (e, ind')" "length ind \<le> length ind'"
    using assms(1) by (auto simp: follows_def)
  then show ?thesis using Inr assms(2) [of s ind' e] by (auto intro: follows_longer)
qed (use assms(1) in \<open>simp add: follows_def\<close>)

lemma follows_escaped:
  "(\<And>e. p = Inr e \<Longrightarrow> follows (f e) (g e) ind) \<Longrightarrow> follows (res_bind p f) (res_bind p g) ind"
  by (cases p) (simp_all add: follows_def)

lemma grow_indent_longer: "length ind \<le> length (grow_indent n ind)"
  by (simp add: grow_indent_length)

lemma pretty_follows:
  "indent_ok step cur ind \<Longrightarrow> follows (dump ea j) (pretty ea step j cur ind) ind"
  "indent_ok step cur ind \<Longrightarrow> follows (dump_members ea m) (pretty_members ea step m cur ind) ind"
  "indent_ok step cur ind \<Longrightarrow> follows (dump_elements ea xs) (pretty_elements ea step xs cur ind) ind"
proof (induction ea j and ea m and ea xs arbitrary: cur ind and cur ind and cur ind
    rule: dump_dump_members_dump_elements.induct)
  case (1 ea m)
  show ?case
  proof (cases "m = []")
    case False
    define new where "new = grow_indent (cur + step) ind"
    have "follows (dump_members ea m) (pretty_members ea step m (cur + step) new) new"
      using 1 False by (simp add: new_def indent_ok_grow)
    moreover have "follows (Inr s') (res_bind (write_indent ind' cur) (\<lambda>w. Inr (h w, ind'))) ind'"
      if "length new \<le> length ind'" for ind' s' h
      using write_indent_ok [OF indent_ok_longer [OF 1(2)], of ind'] that grow_indent_longer [of ind "cur + step"]
      by (simp add: new_def follows_def)
    ultimately have "follows (dump ea (JObject m)) (pretty ea step (JObject m) cur ind) new"
      using False by (auto simp: Let_def new_def intro!: follows_bind)
    then show ?thesis by (rule follows_longer) (simp add: new_def grow_indent_longer)
  qed (simp add: follows_scalar)
next
  case (2 ea xs)
  show ?case
  proof (cases "xs = []")
    case False
    define new where "new = grow_indent (cur + step) ind"
    have "follows (dump_elements ea xs) (pretty_elements ea step xs (cur + step) new) new"
      using 2 False by (simp add: new_def indent_ok_grow)
    moreover have "follows (Inr s') (res_bind (write_indent ind' cur) (\<lambda>w. Inr (h w, ind'))) ind'"
      if "length new \<le> length ind'" for ind' s' h
      using write_indent_ok [OF indent_ok_longer [OF 2(2)], of ind'] that grow_indent_longer [of ind "cur + step"]
      by (simp add: new_def follows_def)
    ultimately have "follows (dump ea (JArray xs)) (pretty ea step (JArray xs) cur ind) new"
      using False by (auto simp: Let_def new_def intro!: follows_bind)
    then show ?thesis by (rule follows_longer) (simp add: new_def grow_indent_longer)
  qed (simp add: follows_scalar)
next
  case (9 ea bs st)
  then show ?case
    using write_indent_ok [OF indent_ok_grow [OF 9]] write_indent_ok [OF indent_ok_longer [OF 9 grow_indent_longer]]
    by (simp add: Let_def follows_def grow_indent_longer)
next
  case (11 ea k v m)
  have "follows (dump_members ea m) (pretty_members ea step m cur ind') ind'"
    if "dump_escaped ea k = Inr e" "dump ea v = Inr s" "m \<noteq> []" "length ind \<le> length ind'" for e s ind'
    using "11.IH"(2) [OF that(1,2,3) indent_ok_longer [OF "11.prems" that(4)]] .
  then show ?case
    using "11.prems"
    by (auto simp: write_indent_ok follows_scalar intro!: follows_escaped follows_bind intro: "11.IH"(1))
next
  case (13 ea v xs)
  have "follows (dump_elements ea xs) (pretty_elements ea step xs cur ind') ind'"
    if "dump ea v = Inr s" "xs \<noteq> []" "length ind \<le> length ind'" for s ind'
    using "13.IH"(2) [OF that(1,2) indent_ok_longer [OF "13.prems" that(3)]] .
  then show ?case
    using "13.prems" by (auto simp: write_indent_ok follows_scalar intro!: follows_bind intro: "13.IH"(1))
qed (auto simp: follows_scalar intro!: follows_escaped split: sum.splits)

section \<open>Parsing undoes pretty printing\<close>

definition indent_spaces :: "32 word \<Rightarrow> 32 word \<Rightarrow> string \<Rightarrow> bool" where
  "indent_spaces step cur ind \<longleftrightarrow> indent_ok step cur ind \<and> spaces ind"

lemma spaces_replicate: "json_space c \<Longrightarrow> spaces (replicate n c)"
  by (simp add: spaces_def)

lemma spaces_grow: "spaces ind \<Longrightarrow> spaces (grow_indent n ind)"
  using spaces_replicate [of "CHR '' ''"] by (simp add: grow_indent_def json_space_def)

lemma indent_spaces_grow:
  "indent_spaces step cur ind \<Longrightarrow> indent_spaces step (cur + step) (grow_indent (cur + step) ind)"
  by (simp add: indent_spaces_def indent_ok_grow spaces_grow)

lemma write_indent_spaces:
  assumes "indent_spaces step n ind" and "write_indent ind n = Inr w"
  shows "spaces w"
proof -
  have "w = take (unat n) ind" using assms write_indent_ok [of step n ind] by (simp add: indent_spaces_def)
  then show ?thesis using assms(1) by (auto simp: indent_spaces_def spaces_def dest: in_set_takeD)
qed

lemma reads_spaces: "spaces ws \<Longrightarrow> reads e j \<Longrightarrow> reads (ws @ e) j"
  by (simp add: reads_def json_scan_spaces)

lemma reads_elements_spaces: "spaces ws \<Longrightarrow> reads_elements e xs \<Longrightarrow> reads_elements (ws @ e) xs"
  by (simp add: reads_elements_def json_scan_spaces)

lemma reads_members_spaces: "spaces ws \<Longrightarrow> reads_members e m \<Longrightarrow> reads_members (ws @ e) m"
  by (simp add: reads_members_def json_scan_spaces)

text \<open>The text of a value is read as the value, and the indentation string stays usable.\<close>

definition keeps_indent :: "string \<Rightarrow> string \<Rightarrow> bool" where
  "keeps_indent ind ind' \<longleftrightarrow> spaces ind' \<and> length ind \<le> length ind'"

lemma keeps_indent_next: "indent_spaces step cur ind \<Longrightarrow> keeps_indent ind ind' \<Longrightarrow> indent_spaces step cur ind'"
  by (auto simp: indent_spaces_def keeps_indent_def intro: indent_ok_longer)

lemma keeps_indent_trans: "keeps_indent a b \<Longrightarrow> keeps_indent b c \<Longrightarrow> keeps_indent a c"
  by (simp add: keeps_indent_def)

lemma keeps_indent_refl: "indent_spaces step cur ind \<Longrightarrow> keeps_indent ind ind"
  by (simp add: keeps_indent_def indent_spaces_def)

lemma keeps_indent_grow: "indent_spaces step cur ind \<Longrightarrow> keeps_indent ind (grow_indent (cur + step) ind)"
  using indent_spaces_grow [of step cur ind] by (simp add: keeps_indent_def indent_spaces_def grow_indent_longer)

lemma spaces_newline: "spaces w \<Longrightarrow> spaces (CHR 0x0A # w)" "spaces '' ''"
  by (simp_all add: json_space_def)

text \<open>The lines of a container, its members and its elements.\<close>

lemma reads_object_lines:
  "reads_members s m \<Longrightarrow> keys_sorted m \<Longrightarrow> spaces w \<Longrightarrow>
     reads ([CHR 0x7B, CHR 0x0A] @ s @ [CHR 0x0A] @ w @ [CHR 0x7D]) (JObject m)"
  using reads_object [of "CHR 0x0A # s" m "CHR 0x0A # w"] reads_members_spaces [of "[CHR 0x0A]" s m] spaces_newline(1)
  by simp

lemma reads_array_lines:
  "reads_elements s xs \<Longrightarrow> spaces w \<Longrightarrow> reads ([CHR 0x5B, CHR 0x0A] @ s @ [CHR 0x0A] @ w @ [CHR 0x5D]) (JArray xs)"
  using reads_array [of "CHR 0x0A # s" xs "CHR 0x0A # w"] reads_elements_spaces [of "[CHR 0x0A]" s xs] spaces_newline(1)
  by simp

lemma reads_member_line:
  assumes "spaces w" and "dump_escaped False k = Inr k'" and "reads d v"
  shows "reads_members (w @ quoted k' @ '': '' @ d) [(k, v)]"
    and "reads_members r m \<Longrightarrow> reads_members (w @ quoted k' @ '': '' @ d @ [CHR '','', CHR 0x0A] @ r) ((k, v) # m)"
proof -
  have d: "reads ('' '' @ d) v" using reads_spaces [OF spaces_newline(2) assms(3)] .
  show "reads_members (w @ quoted k' @ '': '' @ d) [(k, v)]"
    using reads_members_spaces [OF assms(1) reads_members_one [OF assms(2) d]] by simp
  assume "reads_members r m"
  then have "reads_members (CHR 0x0A # r) m" using reads_members_spaces [OF spaces_newline(1), of "[]"] by simp
  then show "reads_members (w @ quoted k' @ '': '' @ d @ [CHR '','', CHR 0x0A] @ r) ((k, v) # m)"
    using reads_members_spaces [OF assms(1) reads_members_Cons [OF assms(2) d]] by simp
qed

lemma reads_element_line:
  assumes "spaces w" and "reads d v"
  shows "reads_elements (w @ d) [v]"
    and "reads_elements r xs \<Longrightarrow> reads_elements (w @ d @ [CHR '','', CHR 0x0A] @ r) (v # xs)"
proof -
  show "reads_elements (w @ d) [v]" using reads_elements_spaces [OF assms(1) reads_elements_one [OF assms(2)]] .
  assume "reads_elements r xs"
  then have "reads_elements (CHR 0x0A # r) xs" using reads_elements_spaces [OF spaces_newline(1), of "[]"] by simp
  then show "reads_elements (w @ d @ [CHR '','', CHR 0x0A] @ r) (v # xs)"
    using reads_elements_spaces [OF assms(1) reads_elements_Cons [OF assms(2)]] by simp
qed

text \<open>The indentation string at the end of a container still serves for its closing line.\<close>

lemma closing_indent:
  assumes "indent_spaces step cur ind" and "keeps_indent (grow_indent (cur + step) ind) ind'"
  shows "keeps_indent ind ind'" and "write_indent ind' cur = Inr w \<Longrightarrow> spaces w"
proof -
  show k: "keeps_indent ind ind'" using keeps_indent_grow [OF assms(1)] assms(2) by (rule keeps_indent_trans)
  show "write_indent ind' cur = Inr w \<Longrightarrow> spaces w"
    using keeps_indent_next [OF assms(1) k] by (rule write_indent_spaces)
qed

lemma reads_empty: "reads [CHR 0x7B, CHR 0x7D] (JObject [])" "reads [CHR 0x5B, CHR 0x5D] (JArray [])"
  by (auto simp: reads_def json_scan_punct parse_value.simps [of _ T_begin_object] parse_value.simps [of _ T_begin_array])

lemma pretty_reads:
  "ea = False \<Longrightarrow> canonical j \<Longrightarrow> indent_spaces step cur ind \<Longrightarrow> pretty ea step j cur ind = Inr (e, ind') \<Longrightarrow>
     reads e j \<and> keeps_indent ind ind'"
  "eb = False \<Longrightarrow> m \<noteq> [] \<Longrightarrow> (\<forall>kv\<in>set m. canonical (snd kv)) \<Longrightarrow> indent_spaces sb cb ib \<Longrightarrow>
     pretty_members eb sb m cb ib = Inr (e, ind') \<Longrightarrow> reads_members e m \<and> keeps_indent ib ind'"
  "ec = False \<Longrightarrow> xs \<noteq> [] \<Longrightarrow> (\<forall>x\<in>set xs. canonical x) \<Longrightarrow> indent_spaces sc cc ic \<Longrightarrow>
     pretty_elements ec sc xs cc ic = Inr (e, ind') \<Longrightarrow> reads_elements e xs \<and> keeps_indent ic ind'"
proof (induction ea step j cur ind and eb sb m cb ib and ec sc xs cc ic
    arbitrary: e ind' and e ind' and e ind' rule: pretty_pretty_members_pretty_elements.induct)
  case (1 ea step m cur ind)
  then show ?case
    using reads_empty(1) closing_indent [OF "1.prems"(3)] indent_spaces_grow [OF "1.prems"(3)]
    by (cases "m = []") (fastforce simp: Let_def keeps_indent_refl elim!: res_bindE
        intro!: reads_object_lines [simplified])+
next
  case (2 ea step xs cur ind)
  then show ?case
    using reads_empty(2) closing_indent [OF "2.prems"(3)] indent_spaces_grow [OF "2.prems"(3)]
    by (cases "xs = []") (fastforce simp: Let_def keeps_indent_refl elim!: res_bindE
        intro!: reads_array_lines [simplified])+
next
  case (3 ea step s cur ind)
  then show ?case
    by (auto simp: keeps_indent_refl elim!: res_bindE intro!: reads_scalar [where t = "T_string s"] json_scan_quoted)
next
  case (11 ea step k v m cur ind)
  from "11.prems" obtain w k' d ind1 where s: "write_indent ind cur = Inr w" "dump_escaped False k = Inr k'"
    "pretty False step v cur ind = Inr (d, ind1)" by (auto elim!: res_bindE)
  have v: "reads d v" "keeps_indent ind ind1" using 11 s by auto
  note line = reads_member_line [OF write_indent_spaces [OF "11.prems"(4) s(1)] s(2) v(1)]
  show ?case
  proof (cases "m = []")
    case True
    with line(1) v(2) "11.prems" s show ?thesis by simp
  next
    case False
    with "11.prems" s obtain r where r: "pretty_members False step m cur ind1 = Inr (r, ind')"
      "e = w @ quoted k' @ '': '' @ d @ [CHR '','', CHR 0x0A] @ r" by (auto elim!: res_bindE)
    with "11.IH"(2) [OF s(1) _ _ refl, of k' d ind1] "11.prems" s False v(2)
    have m: "reads_members r m" "keeps_indent ind1 ind'" using keeps_indent_next by auto
    then show ?thesis using line(2) r(2) keeps_indent_trans [OF v(2)] by simp
  qed
next
  case (13 ea step v xs cur ind)
  from "13.prems" obtain w d ind1 where s: "write_indent ind cur = Inr w"
    "pretty False step v cur ind = Inr (d, ind1)" by (auto elim!: res_bindE)
  have v: "reads d v" "keeps_indent ind ind1" using 13 s by auto
  note line = reads_element_line [OF write_indent_spaces [OF "13.prems"(4) s(1)] v(1)]
  show ?case
  proof (cases "xs = []")
    case True
    with line(1) v(2) "13.prems" s show ?thesis by simp
  next
    case False
    with "13.prems" s obtain r where r: "pretty_elements False step xs cur ind1 = Inr (r, ind')"
      "e = w @ d @ [CHR '','', CHR 0x0A] @ r" by (auto elim!: res_bindE)
    with "13.IH"(2) [OF s(1) _ refl, of d ind1] "13.prems" s False v(2)
    have m: "reads_elements r xs" "keeps_indent ind1 ind'" using keeps_indent_next by auto
    then show ?thesis using line(2) r(2) keeps_indent_trans [OF v(2)] by simp
  qed
qed (auto simp: keeps_indent_refl reads_literals reads_integer reads_unsigned reads_float
    simp del: canonical.simps(1,2) split: sum.splits)

section \<open>The public function\<close>

lemma indent_ok_start:
  assumes "0 \<le> indent" and "indent \<le> 1024"
  shows "indent_ok (word_of_int indent) 0 (replicate 512 c)"
proof -
  have "unat (word_of_int indent :: 32 word) = nat indent"
    using assms by (simp add: unat_eq_nat_uint uint_word_of_int mod_pos_pos_trivial)
  then show ?thesis using assms by (simp add: indent_ok_def)
qed

text \<open>With a step of at most 1024 columns the pretty printer fails exactly where the plain one fails.\<close>

lemma dump_indent_follows:
  assumes "indent \<le> 1024"
  shows "dump ea j = Inl f \<Longrightarrow> dump_indent indent c ea j = Inl f"
    and "dump ea j = Inr e \<Longrightarrow> \<exists>e'. dump_indent indent c ea j = Inr e'"
  using pretty_follows(1) [OF indent_ok_start [OF _ assms, of c], where j = j and ea = ea]
  by (cases "0 \<le> indent"; fastforce simp: dump_indent_def follows_def)+

lemma dump_indent_parsed:
  assumes "canonical j" and "indent \<le> 1024" and "json_space c" and "dump_indent indent c False j = Inr e"
  shows "json_parse e = Inr j"
proof (cases "0 \<le> indent")
  case True
  with assms(4) obtain ind where p: "pretty False (word_of_int indent) j 0 (replicate 512 c) = Inr (e, ind)"
    by (auto simp: dump_indent_def elim!: res_bindE)
  have "indent_spaces (word_of_int indent) 0 (replicate 512 c)"
    using indent_ok_start [OF True assms(2)] spaces_replicate [OF assms(3)] by (simp add: indent_spaces_def)
  then have "reads e j" using pretty_reads(1) [OF refl assms(1) _ p] by blast
  from json_parse_reads [OF this, of 0] show ?thesis by (simp add: zeros_def)
next
  case False
  with assms json_parse_dump show ?thesis by (simp add: dump_indent_def)
qed



text \<open>A larger step reads past the indentation string: the string is doubled only once, to 1024 characters, so from 1026
  columns on the first line of any non-empty array or object is copied from beyond its end.\<close>

theorem large_step_overreads:
  assumes "1026 \<le> indent" and "indent < 2 ^ 31" and "j = JArray (v # xs) \<or> j = JObject (kv # m)"
  shows "dump_indent indent c ea j = Inl (Jfault OverRead)"
proof -
  have "unat (word_of_int indent :: 32 word) = nat indent"
    using assms by (simp add: unat_eq_nat_uint uint_word_of_int mod_pos_pos_trivial)
  moreover have "1026 \<le> nat indent" using assms(1) by linarith
  ultimately have w: "write_indent (grow_indent (0 + word_of_int indent) (replicate 512 c)) (0 + word_of_int indent) = Inl (Jfault OverRead)"
    by (simp add: write_indent_def grow_indent_def)
  from assms(3) show ?thesis using w assms(1) by (cases kv) (auto simp: dump_indent_def Let_def)
qed

theorem large_step_overreads_witness:
  "dump_indent 1026 CHR '' '' False (JArray [JNull]) = Inl (Jfault OverRead)"
  by (rule large_step_overreads [where v = JNull and xs = "[]"]) simp_all

end
