(* ===== verification/JsonCompare.thy ===== *)
theory JsonCompare
  imports JsonDump
begin

text \<open>
  Comparison of JSON values, \<open>operator==\<close> of \<open>include/nlohmann/json.hpp\<close>: arrays and objects element by element,
  numbers of different alternatives after a conversion, an integer to \<open>double\<close> or an unsigned number to a signed one.

  The lemmas show that the comparison is reflexive on values without a NaN and symmetric, that it compares integers by value
  as long as they fit 63 bits, and that it takes a number above that for a negative one.
\<close>

section \<open>Numbers\<close>

definition isnan :: "double \<Rightarrow> bool" where
  "isnan bits \<longleftrightarrow> drop_bit 52 bits AND 0x7FF = 0x7FF \<and> bits AND mask 52 \<noteq> 0"

text \<open>Equality of doubles: a NaN differs from everything, the two zeros are equal.\<close>

definition double_eq :: "double \<Rightarrow> double \<Rightarrow> bool" where
  "double_eq x y \<longleftrightarrow> \<not> isnan x \<and> \<not> isnan y \<and> (x = y \<or> push_bit 1 x = 0 \<and> push_bit 1 y = 0)"

text \<open>\<open>static_cast<double>\<close> of an integer rounds to the nearest double.\<close>

definition int_double :: "int \<Rightarrow> double" where
  "int_double i = (if i = 0 then 0 else of_nat (nearest_bits (nat \<bar>i\<bar>) 1)) + (if i < 0 then push_bit 63 1 else 0)"

text \<open>\<open>static_cast<std::int64_t>\<close> of an unsigned number keeps its 64 bits.\<close>

definition signed64 :: "nat \<Rightarrow> int" where
  "signed64 n = (int n + 2 ^ 63) mod 2 ^ 64 - 2 ^ 63"

section \<open>Values\<close>

fun json_eq :: "json \<Rightarrow> json \<Rightarrow> bool"
  and elements_eq :: "json list \<Rightarrow> json list \<Rightarrow> bool"
  and members_eq :: "(string \<times> json) list \<Rightarrow> (string \<times> json) list \<Rightarrow> bool" where
  "json_eq (JArray xs) (JArray ys) = elements_eq xs ys"
| "json_eq (JObject m) (JObject m') = members_eq m m'"
| "json_eq JNull JNull = True"
| "json_eq (JString s) (JString t) = (s = t)"
| "json_eq (JBool a) (JBool b) = (a = b)"
| "json_eq (JInteger i) (JInteger j) = (i = j)"
| "json_eq (JUnsigned n) (JUnsigned k) = (n = k)"
| "json_eq (JFloat x) (JFloat y) = double_eq x y"
| "json_eq (JInteger i) (JFloat y) = double_eq (int_double i) y"
| "json_eq (JFloat x) (JInteger j) = double_eq x (int_double j)"
| "json_eq (JUnsigned n) (JFloat y) = double_eq (int_double (int n)) y"
| "json_eq (JFloat x) (JUnsigned k) = double_eq x (int_double (int k))"
| "json_eq (JUnsigned n) (JInteger j) = (signed64 n = j)"
| "json_eq (JInteger i) (JUnsigned k) = (i = signed64 k)"
| "json_eq (JBinary bs st) (JBinary cs st') = (bs = cs \<and> st = st')"
| "json_eq _ _ = False"
| "elements_eq [] [] = True"
| "elements_eq (x # xs) (y # ys) = (json_eq x y \<and> elements_eq xs ys)"
| "elements_eq _ _ = False"
| "members_eq [] [] = True"
| "members_eq ((k, v) # m) ((k', v') # m') = (k = k' \<and> json_eq v v' \<and> members_eq m m')"
| "members_eq _ _ = False"

section \<open>Laws\<close>

fun no_nan :: "json \<Rightarrow> bool" where
  "no_nan (JFloat x) = (\<not> isnan x)"
| "no_nan (JArray xs) = (\<forall>x\<in>set xs. no_nan x)"
| "no_nan (JObject m) = (\<forall>kv\<in>set m. no_nan (snd kv))"
| "no_nan _ = True"

lemma double_eq_commute: "double_eq x y \<longleftrightarrow> double_eq y x"
  by (auto simp: double_eq_def)

lemma isnan_not_finite: "isfinite x \<Longrightarrow> \<not> isnan x"
  by (simp add: isfinite_def isnan_def)

lemma elements_eq_list_all2: "elements_eq xs ys \<longleftrightarrow> list_all2 json_eq xs ys"
  by (induction xs ys rule: list_induct2') auto

lemma members_eq_list_all2:
  "members_eq m m' \<longleftrightarrow> list_all2 (\<lambda>kv kv'. fst kv = fst kv' \<and> json_eq (snd kv) (snd kv')) m m'"
proof (induction m m' rule: list_induct2')
  case (4 kv m kv' m')
  then show ?case by (cases kv; cases kv') auto
qed auto

lemma json_eq_refl: "no_nan j \<Longrightarrow> json_eq j j"
proof (induction j)
  case (JArray xs)
  then show ?case by (auto simp: elements_eq_list_all2 intro!: list.rel_refl_strong)
next
  case (JObject m)
  then show ?case by (force simp: members_eq_list_all2 intro!: list.rel_refl_strong)
qed (auto simp: double_eq_def)

lemma json_eq_sym:
  "json_eq a b \<Longrightarrow> json_eq b a" "elements_eq xs ys \<Longrightarrow> elements_eq ys xs" "members_eq m m' \<Longrightarrow> members_eq m' m"
  by (induction a b and xs ys and m m' rule: json_eq_elements_eq_members_eq.induct)
    (auto simp: double_eq_commute)

lemma signed64_small: "n < 2 ^ 63 \<Longrightarrow> signed64 n = int n"
  by (simp add: signed64_def)

lemma signed64_large: "2 ^ 63 \<le> n \<Longrightarrow> n < 2 ^ 64 \<Longrightarrow> signed64 n = int n - 2 ^ 64"
proof -
  assume n: "2 ^ 63 \<le> n" "n < 2 ^ 64"
  have "int n + 2 ^ 63 = (int n - 2 ^ 63) + 2 ^ 64" by simp
  then have "(int n + 2 ^ 63) mod 2 ^ 64 = (int n - 2 ^ 63) mod 2 ^ 64" by (simp only: mod_add_self2)
  also have "\<dots> = int n - 2 ^ 63" using n by (intro mod_pos_pos_trivial) auto
  finally show ?thesis by (simp add: signed64_def)
qed

text \<open>Comparing an unsigned with a signed number is a comparison of their values only below \<open>2 ^ 63\<close>; an unsigned number from
  there on is equal to exactly one signed number, the negative one with the same 64 bits.\<close>

theorem unsigned_equals_negative:
  assumes "n < 2 ^ 64"
  shows "json_eq (JUnsigned n) (JInteger i) \<longleftrightarrow> i = (if n < 2 ^ 63 then int n else int n - 2 ^ 64)"
proof (cases "n < 2 ^ 63")
  case False
  with assms signed64_large [of n] show ?thesis by auto
qed (auto simp: signed64_small)

theorem unsigned_equals_negative_witness: "json_eq (JUnsigned 18446744073709551615) (JInteger (- 1))"
  using unsigned_equals_negative [of 18446744073709551615 "- 1"] by simp

end
