(* ===== verification/JsonPointer.thy ===== *)
theory JsonPointer
  imports JsonCompare JsonRoundTrip
begin

text \<open>
  JSON pointers (RFC 6901) of \<open>include/nlohmann/json.hpp\<close>: the class \<open>json_pointer\<close>, a vector of reference tokens, with
  its text form, and the access to a value along a pointer: checked (\<open>at\<close>), unchecked (\<open>operator[]\<close>, which creates what is
  missing) and the test \<open>contains\<close>.

  A reference into a value is modelled by what is done through it: \<open>get_checked\<close> reads, \<open>modify_checked f\<close> replaces
  the value \<open>v\<close> that the pointer denotes by \<open>f v\<close>. Lack of memory is not modelled.

  The lemmas show that the text form is read back, that \<open>contains\<close> agrees with the checked access, and how a
  modification at the end of a pointer splits into modifications along it.
\<close>

type_synonym pointer = "string list"

section \<open>Text form\<close>

text \<open>Occurrences of \<open>f\<close>, which is never empty, are replaced from left to right.\<close>

function replace_substring :: "string \<Rightarrow> string \<Rightarrow> string \<Rightarrow> string" where
  "replace_substring f t [] = []"
| "replace_substring f t (c # s) =
     (if f \<noteq> [] \<and> take (length f) (c # s) = f then t @ replace_substring f t (drop (length f) (c # s))
      else c # replace_substring f t s)"
  by pat_completeness auto
termination by (relation "measure (\<lambda>(f, t, s). length s)") auto

definition escape :: "string \<Rightarrow> string" where
  "escape s = replace_substring ''/'' ''~1'' (replace_substring ''~'' ''~0'' s)"

definition unescape :: "string \<Rightarrow> string" where
  "unescape s = replace_substring ''~0'' ''~'' (replace_substring ''~1'' ''/'' s)"

definition to_string :: "pointer \<Rightarrow> string" where
  "to_string ptr = foldl (\<lambda>a b. a @ ''/'' @ escape b) [] ptr"

text \<open>A tilde must be followed by 0 or 1.\<close>

fun escapes_ok :: "string \<Rightarrow> bool" where
  "escapes_ok [] = True"
| "escapes_ok (c # s) = ((c = CHR ''~'' \<longrightarrow> s \<noteq> [] \<and> hd s \<in> {CHR ''0'', CHR ''1''}) \<and> escapes_ok s)"

text \<open>The loop over the tokens behind the first slash.\<close>

function split_tokens :: "string \<Rightarrow> json_exn + pointer" where
  "split_tokens s =
     (let reference_token = takeWhile (\<lambda>c. c \<noteq> CHR ''/'') s; r = dropWhile (\<lambda>c. c \<noteq> CHR ''/'') s
      in if \<not> escapes_ok reference_token then Inl (Parse_error 108)
         else if r = [] then Inr [unescape reference_token]
         else res_bind (split_tokens (tl r)) (\<lambda>ts. Inr (unescape reference_token # ts)))"
  by pat_completeness auto
termination
proof (relation "measure length")
  fix s t r :: string
  assume r: "r = dropWhile (\<lambda>c. c \<noteq> CHR ''/'') s" "r \<noteq> []"
  then have "length r \<le> length s" by (simp add: length_dropWhile_le)
  with r(2) show "(tl r, s) \<in> measure length" by (cases r) auto
qed simp

declare split_tokens.simps [simp del]

definition split :: "string \<Rightarrow> json_exn + pointer" where
  "split reference_string =
     (case reference_string of
        [] \<Rightarrow> Inr []
      | c # s \<Rightarrow> if c \<noteq> CHR ''/'' then Inl (Parse_error 107) else split_tokens s)"

section \<open>Operations on pointers\<close>

definition pop_back :: "pointer \<Rightarrow> json_exn + pointer" where
  "pop_back ptr = (if ptr = [] then Inl (Out_of_range 405) else Inr (butlast ptr))"

definition back_token :: "pointer \<Rightarrow> json_exn + string" where
  "back_token ptr = (if ptr = [] then Inl (Out_of_range 405) else Inr (last ptr))"

definition push_back :: "string \<Rightarrow> pointer \<Rightarrow> pointer" where
  "push_back t ptr = ptr @ [t]"

definition parent_pointer :: "pointer \<Rightarrow> pointer" where
  "parent_pointer ptr = (if ptr = [] then ptr else butlast ptr)"

definition top_pointer :: "pointer \<Rightarrow> json_exn + pointer" where
  "top_pointer ptr = (if ptr = [] then Inl (Out_of_range 405) else Inr [hd ptr])"

definition append_pointer :: "pointer \<Rightarrow> pointer \<Rightarrow> pointer" where
  "append_pointer lhs rhs = lhs @ rhs"

definition append_index :: "pointer \<Rightarrow> nat \<Rightarrow> pointer" where
  "append_index ptr array_idx = push_back (dec array_idx) ptr"

text \<open>
  The conversion of a token to an index. \<open>std::stoull\<close> reads the leading digits; without any it throws
  \<open>std::invalid_argument\<close>, which is not caught. A sign or white space cannot be in front of digits here.
\<close>

definition array_index :: "string \<Rightarrow> json_exn + nat" where
  "array_index s =
     (if length s > 1 \<and> hd s = CHR ''0'' then Inl (Parse_error 106)
      else if length s > 1 \<and> \<not> digit19 (hd s) then Inl (Parse_error 109)
      else let ds = takeWhile isdigit s
           in if ds = [] then Inl Invalid_argument
              else if 2 ^ 64 \<le> digits_val ds then Inl (Out_of_range 404)
              else if length ds \<noteq> length s then Inl (Out_of_range 404)
              else if 2 ^ 64 - 1 \<le> digits_val ds then Inl (Out_of_range 410)
              else Inr (digits_val ds))"

section \<open>Access along a pointer\<close>

text \<open>\<open>at\<close> with a key and with an index.\<close>

definition at_member :: "string \<Rightarrow> (string \<times> json) list \<Rightarrow> json_exn + json" where
  "at_member key m = (case map_of m key of None \<Rightarrow> Inl (Out_of_range 403) | Some v \<Rightarrow> Inr v)"

definition at_index :: "nat \<Rightarrow> json list \<Rightarrow> json_exn + json" where
  "at_index idx xs = (if idx < length xs then Inr (xs ! idx) else Inl (Out_of_range 401))"

definition checked_index :: "string \<Rightarrow> json list \<Rightarrow> json_exn + nat" where
  "checked_index t xs = (if t = ''-'' then Inl (Out_of_range 402) else array_index t)"

fun get_checked :: "pointer \<Rightarrow> json \<Rightarrow> json_exn + json" where
  "get_checked [] j = Inr j"
| "get_checked (t # ts) (JObject m) = res_bind (at_member t m) (get_checked ts)"
| "get_checked (t # ts) (JArray xs) =
     res_bind (checked_index t xs) (\<lambda>i. res_bind (at_index i xs) (get_checked ts))"
| "get_checked (t # ts) _ = Inl (Out_of_range 404)"

fun modify_checked :: "(json \<Rightarrow> json_fail + json) \<Rightarrow> pointer \<Rightarrow> json \<Rightarrow> json_fail + json" where
  "modify_checked f [] j = f j"
| "modify_checked f (t # ts) (JObject m) =
     res_bind (json_result (at_member t m)) (\<lambda>v. res_bind (modify_checked f ts v) (\<lambda>v'. Inr (JObject (map_put t v' m))))"
| "modify_checked f (t # ts) (JArray xs) =
     res_bind (json_result (checked_index t xs)) (\<lambda>i. res_bind (json_result (at_index i xs)) (\<lambda>v.
     res_bind (modify_checked f ts v) (\<lambda>v'. Inr (JArray (xs[i := v'])))))"
| "modify_checked f (t # ts) _ = Inl (Jexn (Out_of_range 404))"

text \<open>
  The unchecked access of a value that may change. A null becomes an array if the token is made of digits only (the empty token
  is) or is \<open>-\<close>, and an object otherwise; a missing member is inserted as a null; an array is filled up with nulls.
\<close>

definition null_container :: "string \<Rightarrow> json \<Rightarrow> json" where
  "null_container t j =
     (if j = JNull then (if list_all isdigit t \<or> t = ''-'' then JArray [] else JObject []) else j)"

definition grow_array :: "nat \<Rightarrow> json list \<Rightarrow> json list" where
  "grow_array idx xs = (if length xs \<le> idx then xs @ replicate (idx + 1 - length xs) JNull else xs)"

definition unchecked_index :: "string \<Rightarrow> json list \<Rightarrow> json_exn + nat" where
  "unchecked_index t xs = (if t = ''-'' then Inr (length xs) else array_index t)"

definition member_or_null :: "string \<Rightarrow> (string \<times> json) list \<Rightarrow> json" where
  "member_or_null t m = (case map_of m t of None \<Rightarrow> JNull | Some v \<Rightarrow> v)"

fun modify_unchecked :: "(json \<Rightarrow> json_fail + json) \<Rightarrow> pointer \<Rightarrow> json \<Rightarrow> json_fail + json" where
  "modify_unchecked f [] j = f j"
| "modify_unchecked f (t # ts) j =
     (case null_container t j of
        JObject m \<Rightarrow>
          res_bind (modify_unchecked f ts (member_or_null t m)) (\<lambda>v'. Inr (JObject (map_put t v' m)))
      | JArray xs \<Rightarrow>
          res_bind (json_result (unchecked_index t xs)) (\<lambda>i. let ys = grow_array i xs in
          res_bind (modify_unchecked f ts (ys ! i)) (\<lambda>v'. Inr (JArray (ys[i := v']))))
      | _ \<Rightarrow> Inl (Jexn (Out_of_range 404)))"

text \<open>The unchecked access of a constant value: a missing key fails an assertion, an index is not checked.\<close>

fun get_unchecked :: "pointer \<Rightarrow> json \<Rightarrow> json_fail + json" where
  "get_unchecked [] j = Inr j"
| "get_unchecked (t # ts) (JObject m) =
     (case map_of m t of None \<Rightarrow> Inl (Jfault AssertionFailed) | Some v \<Rightarrow> get_unchecked ts v)"
| "get_unchecked (t # ts) (JArray xs) =
     res_bind (json_result (checked_index t xs)) (\<lambda>i.
       if i < length xs then get_unchecked ts (xs ! i) else Inl (Jfault OverRead))"
| "get_unchecked (t # ts) _ = Inl (Jexn (Out_of_range 404))"

text \<open>The test. The tokens are looked at before the conversion, which may still throw.\<close>

definition index_shape :: "string \<Rightarrow> bool" where
  "index_shape t \<longleftrightarrow> t \<noteq> ''-'' \<and> \<not> (length t = 1 \<and> \<not> isdigit (hd t))
     \<and> (length t > 1 \<longrightarrow> digit19 (hd t) \<and> list_all isdigit (tl t))"

fun contains_pointer :: "pointer \<Rightarrow> json \<Rightarrow> json_exn + bool" where
  "contains_pointer [] j = Inr True"
| "contains_pointer (t # ts) (JObject m) =
     (case map_of m t of None \<Rightarrow> Inr False | Some v \<Rightarrow> contains_pointer ts v)"
| "contains_pointer (t # ts) (JArray xs) =
     (if \<not> index_shape t then Inr False
      else res_bind (array_index t) (\<lambda>idx.
        if length xs \<le> idx then Inr False else contains_pointer ts (xs ! idx)))"
| "contains_pointer (t # ts) _ = Inr False"

section \<open>The text form is read back\<close>

definition escape_char :: "char \<Rightarrow> string" where
  "escape_char c = (if c = CHR ''~'' then ''~0'' else if c = CHR ''/'' then ''~1'' else [c])"

lemma replace_one: "replace_substring [f] t s = concat (map (\<lambda>c. if c = f then t else [c]) s)"
  by (induction s) auto

lemma escape_chars: "escape s = concat (map escape_char s)"
  by (induction s) (auto simp: escape_def replace_one escape_char_def)

lemma replace_tilde1:
  "replace_substring ''~1'' ''/'' (concat (map escape_char s)) =
     concat (map (\<lambda>c. if c = CHR ''~'' then ''~0'' else [c]) s)"
  by (induction s) (auto simp: escape_char_def)

lemma replace_tilde0: "replace_substring ''~0'' ''~'' (concat (map (\<lambda>c. if c = CHR ''~'' then ''~0'' else [c]) s)) = s"
  by (induction s) auto

lemma unescape_escape: "unescape (escape s) = s"
  by (simp add: unescape_def escape_chars replace_tilde1 replace_tilde0)

lemma escapes_ok_escape: "escapes_ok (escape s)"
  by (induction s) (auto simp: escape_chars escape_char_def)

lemma escape_no_slash: "CHR ''/'' \<notin> set (escape s)"
  by (induction s) (auto simp: escape_chars escape_char_def)

lemma to_string_concat: "to_string ptr = concat (map (\<lambda>t. CHR ''/'' # escape t) ptr)"
proof -
  have "foldl (\<lambda>a b. a @ ''/'' @ escape b) a ptr = a @ concat (map (\<lambda>t. CHR ''/'' # escape t) ptr)" for a
    by (induction ptr arbitrary: a) auto
  then show ?thesis by (simp add: to_string_def)
qed

lemma to_string_simps [simp]:
  "to_string [] = []" "to_string (p @ q) = to_string p @ to_string q" "to_string (t # p) = CHR ''/'' # escape t @ to_string p"
  by (simp_all add: to_string_concat)

lemma takeWhile_slash: "CHR ''/'' \<notin> set e \<Longrightarrow> takeWhile (\<lambda>c. c \<noteq> CHR ''/'') (e @ CHR ''/'' # r) = e"
  by (induction e) auto

lemma dropWhile_slash: "CHR ''/'' \<notin> set e \<Longrightarrow> dropWhile (\<lambda>c. c \<noteq> CHR ''/'') (e @ CHR ''/'' # r) = CHR ''/'' # r"
  by (induction e) auto

lemma split_tokens_to_string: "split_tokens (escape t @ to_string ts) = Inr (t # ts)"
proof (induction ts arbitrary: t)
  case Nil
  have "takeWhile (\<lambda>c. c \<noteq> CHR ''/'') (escape t) = escape t" "dropWhile (\<lambda>c. c \<noteq> CHR ''/'') (escape t) = []"
    using escape_no_slash [of t] by (auto simp: takeWhile_eq_all_conv dropWhile_eq_Nil_conv)
  then show ?case by (subst split_tokens.simps) (simp add: escapes_ok_escape unescape_escape)
next
  case (Cons u ts)
  have "takeWhile (\<lambda>c. c \<noteq> CHR ''/'') (escape t @ CHR ''/'' # r) = escape t"
    and "dropWhile (\<lambda>c. c \<noteq> CHR ''/'') (escape t @ CHR ''/'' # r) = CHR ''/'' # r" for r
    by (rule takeWhile_slash [OF escape_no_slash], rule dropWhile_slash [OF escape_no_slash])
  then show ?case using Cons by (subst split_tokens.simps) (simp add: escapes_ok_escape unescape_escape)
qed

lemma split_to_string: "split (to_string ptr) = Inr ptr"
  by (cases ptr) (simp_all add: split_def split_tokens_to_string)

section \<open>Indices\<close>

lemma array_index_dec: "i < 2 ^ 64 - 1 \<Longrightarrow> array_index (dec i) = Inr i"
proof (cases i rule: dec_cases)
  case (pos d ds)
  then have "takeWhile isdigit (dec i) = dec i" by (auto simp: takeWhile_eq_all_conv digit19_def)
  moreover assume "i < 2 ^ 64 - 1"
  ultimately show ?thesis using pos digits_val_dec [of i] by (auto simp: array_index_def digit19_def Let_def simp del: digits_val_dec)
qed (simp add: array_index_def isdigit_def digits_val_def digit_val_def)

lemma dec_not_minus: "dec i \<noteq> ''-''"
  by (cases i rule: dec_cases) (auto simp: digit19_def isdigit_def)

lemma checked_index_dec: "i < 2 ^ 64 - 1 \<Longrightarrow> checked_index (dec i) xs = Inr i"
  using dec_not_minus [of i] by (simp add: checked_index_def array_index_dec)

lemma array_index_shape: "array_index t = Inr i \<Longrightarrow> t \<noteq> ''-'' \<Longrightarrow> index_shape t"
proof -
  assume a: "array_index t = Inr i" and t: "t \<noteq> ''-''"
  then have ds: "takeWhile isdigit t \<noteq> []" "length (takeWhile isdigit t) = length t"
    by (auto simp: array_index_def Let_def split: if_splits)
  then have "takeWhile isdigit t = t" by (metis append_Nil2 append_eq_append_conv takeWhile_dropWhile_id)
  then have all: "\<forall>c\<in>set t. isdigit c" by (simp add: takeWhile_eq_all_conv)
  with a t show ?thesis
    by (cases t) (auto simp: index_shape_def array_index_def list_all_iff split: if_splits)
qed

section \<open>The test agrees with the access\<close>

lemma contains_checked: "contains_pointer p j = Inr True \<longleftrightarrow> (\<exists>v. get_checked p j = Inr v)"
proof (induction p j rule: get_checked.induct)
  case (2 t ts m)
  then show ?case by (cases "map_of m t") (auto simp: at_member_def)
next
  case (3 t ts xs)
  show ?case
  proof (cases "array_index t")
    case (Inl e)
    then show ?thesis by (simp add: checked_index_def)
  next
    case (Inr i)
    then show ?thesis
    proof (cases "t = ''-''")
      case False
      with Inr 3 array_index_shape [OF Inr] show ?thesis
        by (cases "i < length xs") (auto simp: checked_index_def at_index_def)
    qed (simp add: checked_index_def index_shape_def)
  qed
qed simp_all

lemma unchecked_checked: "get_checked p j = Inr v \<Longrightarrow> get_unchecked p j = Inr v"
proof (induction p j rule: get_checked.induct)
  case (2 t ts m)
  then show ?case by (cases "map_of m t") (auto simp: at_member_def)
next
  case (3 t ts xs)
  then show ?case by (auto simp: at_index_def elim!: res_bindE split: if_splits)
qed simp_all

section \<open>Modifications along a pointer\<close>

lemma json_result_eq_Inr [simp]: "json_result r = Inr x \<longleftrightarrow> r = Inr x"
  by (cases r) simp_all

lemma res_bind_Inr_right [simp]: "res_bind m Inr = m"
  by (cases m) simp_all

lemma get_checked_append: "get_checked (p @ q) j = res_bind (get_checked p j) (get_checked q)"
  by (induction p j rule: get_checked.induct) (auto simp: res_bind_assoc intro!: res_bind_cong)

lemma modify_checked_append: "modify_checked f (p @ q) j = modify_checked (modify_checked f q) p j"
  by (induction p j rule: get_checked.induct) (auto intro!: res_bind_cong)

text \<open>The unchecked access of something that is there is the checked one.\<close>

lemma modify_unchecked_checked:
  "get_checked p j = Inr v \<Longrightarrow> modify_unchecked f p j = modify_checked f p j"
proof (induction p j rule: get_checked.induct)
  case (2 t ts m)
  then show ?case
    by (cases "map_of m t") (auto simp: at_member_def null_container_def member_or_null_def)
next
  case (3 t ts xs)
  then show ?case
    by (auto simp: checked_index_def unchecked_index_def at_index_def null_container_def grow_array_def
        elim!: res_bindE split: if_splits)
qed simp_all

text \<open>What a modification does depends only on the value it is applied to.\<close>

definition put_at :: "pointer \<Rightarrow> json \<Rightarrow> json \<Rightarrow> json_fail + json" where
  "put_at p v j = modify_checked (\<lambda>_. Inr v) p j"

lemma modify_checked_value:
  "get_checked p j = Inr v \<Longrightarrow> modify_checked f p j = res_bind (f v) (\<lambda>v'. put_at p v' j)"
proof (induction p j rule: get_checked.induct)
  case (2 t ts m)
  then show ?case by (cases "map_of m t") (auto simp: at_member_def put_at_def res_bind_assoc)
next
  case (3 t ts xs)
  then show ?case by (auto simp: at_index_def put_at_def res_bind_assoc elim!: res_bindE split: if_splits)
qed (simp_all add: put_at_def)

lemma put_at_get: "get_checked p j = Inr v \<Longrightarrow> \<exists>j'. put_at p v' j = Inr j' \<and> get_checked p j' = Inr v'"
proof (induction p j rule: get_checked.induct)
  case (2 t ts m)
  then show ?case
    by (cases "map_of m t") (auto simp: at_member_def put_at_def map_of_map_put)
next
  case (3 t ts xs)
  then obtain i where i: "checked_index t xs = Inr i" "i < length xs" "get_checked ts (xs ! i) = Inr v"
    by (auto simp: at_index_def elim!: res_bindE split: if_splits)
  with 3 obtain j' where "put_at ts v' (xs ! i) = Inr j'" "get_checked ts j' = Inr v'"
    by (auto simp: at_index_def)
  with i show ?case by (auto simp: put_at_def at_index_def checked_index_def split: if_splits)
qed (simp_all add: put_at_def)
section \<open>Pointers and their texts\<close>

lemma escapes_ok_escaped: "escapes_ok s \<Longrightarrow> CHR ''/'' \<notin> set s \<Longrightarrow> \<exists>u. s = escape u"
proof (induction "length s" arbitrary: s rule: less_induct)
  case less
  show ?case
  proof (cases s)
    case Nil
    then have "s = escape []" by (simp add: escape_chars)
    then show ?thesis ..
  next
    case (Cons c r)
    show ?thesis
    proof (cases "c = CHR ''~''")
      case True
      with less.prems Cons obtain d r' where r: "r = d # r'" "d = CHR ''0'' \<or> d = CHR ''1''"
        by (cases r) auto
      from less.prems Cons r have "escapes_ok r'" "CHR ''/'' \<notin> set r'" by auto
      moreover have "length r' < length s" using Cons r by simp
      ultimately obtain u where "r' = escape u" using less.hyps by blast
      with r True Cons have "s = escape ((if d = CHR ''0'' then CHR ''~'' else CHR ''/'') # u)"
        by (auto simp: escape_chars escape_char_def)
      then show ?thesis ..
    next
      case False
      from less.prems Cons have "escapes_ok r" "CHR ''/'' \<notin> set r" by auto
      moreover have "length r < length s" using Cons by simp
      ultimately obtain u where "r = escape u" using less.hyps by blast
      with False Cons less.prems have "s = escape (c # u)" by (auto simp: escape_chars escape_char_def)
      then show ?thesis ..
    qed
  qed
qed

lemma split_tokens_inverse: "split_tokens s = Inr p \<Longrightarrow> CHR ''/'' # s = to_string p"
proof (induction s arbitrary: p rule: split_tokens.induct)
  case (1 s)
  define e r where "e = takeWhile (\<lambda>c. c \<noteq> CHR ''/'') s" and "r = dropWhile (\<lambda>c. c \<noteq> CHR ''/'') s"
  have s: "s = e @ r" by (simp add: e_def r_def)
  have eq: "split_tokens s = (if \<not> escapes_ok e then Inl (Parse_error 108) else if r = [] then Inr [unescape e]
      else res_bind (split_tokens (tl r)) (\<lambda>ts. Inr (unescape e # ts)))"
    unfolding e_def r_def by (subst split_tokens.simps) (simp only: Let_def)
  then have ok: "escapes_ok e" using "1.prems" by (simp split: if_splits)
  have "CHR ''/'' \<notin> set e" by (auto simp: e_def dest: set_takeWhileD)
  with ok obtain u where u: "e = escape u" using escapes_ok_escaped by blast
  show ?case
  proof (cases "r = []")
    case True
    with "1.prems" ok u have "p = [u]" by (simp add: eq unescape_escape)
    with True s u show ?thesis by simp
  next
    case False
    with "1.prems" ok obtain q where q: "split_tokens (tl r) = Inr q" "p = unescape e # q"
      by (auto simp: eq elim!: res_bindE)
    from False have "hd r = CHR ''/''" using hd_dropWhile [of "\<lambda>c. c \<noteq> CHR ''/''" s] by (auto simp: r_def)
    with False have "r = CHR ''/'' # tl r" by (cases r) auto
    with "1.IH" [OF e_def r_def _ False q(1)] ok q(2) s u show ?thesis by (simp add: unescape_escape)
  qed
qed

text \<open>The text form of pointers is one-to-one: a text is accepted exactly if it is the text of a pointer, and it is read as that
  pointer; tilde and slash in a token are escaped and unescaped without loss.\<close>

theorem pointer_round_trip: "split s = Inr ptr \<longleftrightarrow> s = to_string ptr"
proof
  assume "split s = Inr ptr"
  then show "s = to_string ptr"
    using split_tokens_inverse [of "tl s" ptr] by (auto simp: split_def split: list.splits if_splits)
qed (simp add: split_to_string)

text \<open>C22. The test \<open>contains\<close> answers true exactly where the checked access succeeds, and there the unchecked access of a constant
  value fails no assertion, reads no element beyond an array and finds the same value.\<close>

theorem contains_agrees:
  "contains_pointer p j = Inr True \<longleftrightarrow> (\<exists>v. get_checked p j = Inr v \<and> get_unchecked p j = Inr v)"
  using contains_checked [of p j] unchecked_checked [of p j] by blast

text \<open>The empty token, and any token of one character that is not a digit, used as an array index, ends in an exception
  \<open>std::invalid_argument\<close>, not in the parse error 109 that the comments of the access functions promise.\<close>

theorem index_token_errors:
  "array_index t = Inl Invalid_argument \<longleftrightarrow> t = [] \<or> length t = 1 \<and> \<not> isdigit (hd t)"
proof (cases t)
  case (Cons c s)
  then show ?thesis by (cases s) (simp_all add: array_index_def Let_def digit19_def)
qed (simp add: array_index_def)


end
