(* ===== verification/JsonPatch.thy ===== *)
theory JsonPatch
  imports JsonPointer
begin

text \<open>
  JSON patch (RFC 6902) and JSON merge patch (RFC 7396) of \<open>include/nlohmann/json.hpp\<close>: \<open>patch\<close> applies a list of
  operations to a copy of a value, \<open>diff\<close> computes such a list from two values, \<open>merge_patch\<close> merges a value into another.

  A patch that throws leaves the value as it was, since it works on a copy, so that only the exception is the result. Where
  C++ leaves the order of two operands open (\<open>==\<close> in the test operation) the left one is evaluated first; in an assignment
  the right one is, as C++17 has it.

  The lemmas show that applying the difference of two values to the first gives a value equal to the second, that a merge
  is what the RFC defines, and which well-formed patches fail an assertion.
\<close>

section \<open>Applying a patch\<close>

text \<open>The mandatory member of an operation.\<close>

definition get_value :: "(string \<times> json) list \<Rightarrow> string \<Rightarrow> bool \<Rightarrow> json_exn + json" where
  "get_value val key string_type =
     (case map_of val key of
        None \<Rightarrow> Inl (Parse_error 105)
      | Some v \<Rightarrow> if string_type \<and> \<not> (\<exists>s. v = JString s) then Inl (Parse_error 105) else Inr v)"

definition get_text :: "(string \<times> json) list \<Rightarrow> string \<Rightarrow> json_exn + string" where
  "get_text val key = res_bind (get_value val key True) get_string"

text \<open>The switch over the type of the parent in the add operation.\<close>

definition add_child :: "string \<Rightarrow> json \<Rightarrow> json \<Rightarrow> json_fail + json" where
  "add_child last_path val parent =
     (case parent of
        JNull \<Rightarrow> Inr (JObject [(last_path, val)])
      | JObject m \<Rightarrow> Inr (JObject (map_put last_path val m))
      | JArray xs \<Rightarrow>
          if last_path = ''-'' then Inr (JArray (xs @ [val]))
          else res_bind (json_result (array_index last_path)) (\<lambda>idx.
            if length xs < idx then Inl (Jexn (Out_of_range 401))
            else Inr (JArray (take idx xs @ val # drop idx xs)))
      | _ \<Rightarrow> Inl (Jfault AssertionFailed))"

definition operation_add :: "pointer \<Rightarrow> json \<Rightarrow> json \<Rightarrow> json_fail + json" where
  "operation_add ptr val result =
     (if ptr = [] then Inr val
      else res_bind (json_result (top_pointer ptr)) (\<lambda>top.
        res_bind (if top \<noteq> ptr then json_result (get_checked top result) else Inr result) (\<lambda>_.
          modify_unchecked (add_child (last ptr) val) (butlast ptr) result)))"

text \<open>The removal from the parent: a parent without children is left as it is.\<close>

definition remove_child :: "string \<Rightarrow> json \<Rightarrow> json_fail + json" where
  "remove_child last_path parent =
     (case parent of
        JObject m \<Rightarrow> (case map_of m last_path of
            None \<Rightarrow> Inl (Jexn (Out_of_range 403))
          | Some _ \<Rightarrow> Inr (JObject (map_erase last_path m)))
      | JArray xs \<Rightarrow> res_bind (json_result (array_index last_path)) (\<lambda>idx.
          if length xs \<le> idx then Inl (Jexn (Out_of_range 401))
          else Inr (JArray (take idx xs @ drop (idx + 1) xs)))
      | _ \<Rightarrow> Inr parent)"

definition operation_remove :: "pointer \<Rightarrow> json \<Rightarrow> json_fail + json" where
  "operation_remove ptr result =
     res_bind (json_result (back_token ptr)) (\<lambda>last_path.
     res_bind (json_result (pop_back ptr)) (\<lambda>ptr. modify_checked (remove_child last_path) ptr result))"

text \<open>The test. Only \<open>out_of_range\<close> is caught; the message of the exception holds the operation as text.\<close>

definition operation_test :: "pointer \<Rightarrow> (string \<times> json) list \<Rightarrow> json \<Rightarrow> json_fail + json" where
  "operation_test ptr val result =
     res_bind (case get_checked ptr result of
         Inl (Out_of_range _) \<Rightarrow> Inr False
       | Inl e \<Rightarrow> Inl (Jexn e)
       | Inr v \<Rightarrow> res_bind (json_result (get_value val ''value'' False)) (\<lambda>w. Inr (json_eq v w)))
     (\<lambda>success. if success then Inr result
       else res_bind (dump False (JObject val)) (\<lambda>_. Inl (Jexn (Other_error 501))))"

definition apply_operation :: "json \<Rightarrow> json \<Rightarrow> json_fail + json" where
  "apply_operation val result =
     (case val of
        JObject m \<Rightarrow>
          res_bind (json_result (get_text m ''op'')) (\<lambda>op.
          res_bind (json_result (get_text m ''path'')) (\<lambda>path.
          res_bind (json_result (split path)) (\<lambda>ptr.
            if op = ''add'' then
              res_bind (json_result (get_value m ''value'' False)) (\<lambda>v. operation_add ptr v result)
            else if op = ''remove'' then operation_remove ptr result
            else if op = ''replace'' then
              res_bind (json_result (get_value m ''value'' False)) (\<lambda>v. modify_checked (\<lambda>_. Inr v) ptr result)
            else if op = ''move'' then
              res_bind (json_result (get_text m ''from'')) (\<lambda>from_path.
              res_bind (json_result (split from_path)) (\<lambda>from_ptr.
              res_bind (json_result (get_checked from_ptr result)) (\<lambda>v.
              res_bind (operation_remove from_ptr result) (operation_add ptr v))))
            else if op = ''copy'' then
              res_bind (json_result (get_text m ''from'')) (\<lambda>from_path.
              res_bind (json_result (split from_path)) (\<lambda>from_ptr.
              res_bind (json_result (get_checked from_ptr result)) (\<lambda>v. operation_add ptr v result)))
            else if op = ''test'' then operation_test ptr m result
            else Inl (Jexn (Parse_error 105)))))
      | _ \<Rightarrow> Inl (Jexn (Parse_error 104)))"

fun apply_operations :: "json list \<Rightarrow> json \<Rightarrow> json_fail + json" where
  "apply_operations [] result = Inr result"
| "apply_operations (val # vs) result = res_bind (apply_operation val result) (apply_operations vs)"

definition patch :: "json \<Rightarrow> json \<Rightarrow> json_fail + json" where
  "patch j json_patch =
     (case json_patch of JArray ops \<Rightarrow> apply_operations ops j | _ \<Rightarrow> Inl (Jexn (Parse_error 104)))"

section \<open>The difference of two values\<close>

definition replace_op :: "string \<Rightarrow> json \<Rightarrow> json" where
  "replace_op path target = init_list [JArray [JString ''op'', JString ''replace''],
     JArray [JString ''path'', JString path], JArray [JString ''value'', target]]"

definition remove_op :: "string \<Rightarrow> json" where
  "remove_op path = init_list [JArray [JString ''op'', JString ''remove''], JArray [JString ''path'', JString path]]"

definition add_op :: "string \<Rightarrow> json \<Rightarrow> json" where
  "add_op path v = init_list [JArray [JString ''op'', JString ''add''],
     JArray [JString ''path'', JString path], JArray [JString ''value'', v]]"

text \<open>\<open>type()\<close> in the order of \<open>value_t\<close>.\<close>

fun value_type :: "json \<Rightarrow> nat" where
  "value_type JNull = 0"
| "value_type (JObject m) = 1"
| "value_type (JArray xs) = 2"
| "value_type (JString s) = 3"
| "value_type (JBool b) = 4"
| "value_type (JInteger i) = 5"
| "value_type (JUnsigned n) = 6"
| "value_type (JFloat x) = 7"
| "value_type (JBinary bs st) = 8"

text \<open>
  The elements that the second array lacks are removed from the last to the first: each removal is inserted in front of
  the earlier ones.
\<close>

definition removals :: "string \<Rightarrow> nat \<Rightarrow> nat \<Rightarrow> json list" where
  "removals path i n = foldl (\<lambda>ops i. remove_op (path @ ''/'' @ dec i) # ops) [] [i..<n]"

fun diff :: "json \<Rightarrow> json \<Rightarrow> string \<Rightarrow> json list"
  and diff_elements :: "nat \<Rightarrow> json list \<Rightarrow> json list \<Rightarrow> string \<Rightarrow> json list"
  and diff_members :: "(string \<times> json) list \<Rightarrow> (string \<times> json) list \<Rightarrow> string \<Rightarrow> json list" where
  "diff source target path =
     (if json_eq source target then []
      else if value_type source \<noteq> value_type target then [replace_op path target]
      else case (source, target) of
          (JArray xs, JArray ys) \<Rightarrow>
            diff_elements 0 xs ys path @ removals path (length ys) (length xs)
            @ map (add_op (path @ ''/-'')) (drop (length xs) ys)
        | (JObject m, JObject m') \<Rightarrow>
            diff_members m m' path
            @ map (\<lambda>(k, v). add_op (path @ ''/'' @ escape k) v) (filter (\<lambda>(k, v). map_of m k = None) m')
        | _ \<Rightarrow> [replace_op path target])"
| "diff_elements i (x # xs) (y # ys) path =
     diff x y (path @ ''/'' @ dec i) @ diff_elements (i + 1) xs ys path"
| "diff_elements i [] ys path = []"
| "diff_elements i xs [] path = []"
| "diff_members [] m' path = []"
| "diff_members ((k, v) # m) m' path =
     (case map_of m' k of
        Some w \<Rightarrow> diff v w (path @ ''/'' @ escape k)
      | None \<Rightarrow> [remove_op (path @ ''/'' @ escape k)]) @ diff_members m m' path"

section \<open>Merging\<close>

fun merge_patch :: "json \<Rightarrow> json \<Rightarrow> json"
  and merge_members :: "(string \<times> json) list \<Rightarrow> (string \<times> json) list \<Rightarrow> (string \<times> json) list" where
  "merge_patch (JObject ps) target = JObject (merge_members ps (case target of JObject m \<Rightarrow> m | _ \<Rightarrow> []))"
| "merge_patch apply_patch target = apply_patch"
| "merge_members [] m = m"
| "merge_members ((k, v) # ps) m =
     merge_members ps
       (if v = JNull then map_erase k m else map_put k (merge_patch v (member_or_null k m)) m)"
section \<open>The operations of a difference\<close>

lemma op_objects:
  "replace_op path v = JObject [(''op'', JString ''replace''), (''path'', JString path), (''value'', v)]"
  "remove_op path = JObject [(''op'', JString ''remove''), (''path'', JString path)]"
  "add_op path v = JObject [(''op'', JString ''add''), (''path'', JString path), (''value'', v)]"
  by (simp_all add: replace_op_def remove_op_def add_op_def init_list_def emplace_def less_char_def)

lemma apply_ops:
  "apply_operation (replace_op (to_string p) v) doc = put_at p v doc"
  "apply_operation (remove_op (to_string p)) doc = operation_remove p doc"
  "apply_operation (add_op (to_string p) v) doc = operation_add p v doc"
  by (simp_all add: op_objects apply_operation_def get_text_def get_value_def get_string_def split_to_string put_at_def)

lemma apply_operations_append:
  "apply_operations (a @ b) doc = res_bind (apply_operations a doc) (apply_operations b)"
  by (induction a arbitrary: doc) (auto simp: res_bind_assoc intro!: res_bind_cong)

lemma operation_remove_child:
  assumes "get_checked p doc = Inr v"
  shows "operation_remove (p @ [t]) doc = res_bind (remove_child t v) (\<lambda>v'. put_at p v' doc)"
  using modify_checked_value [OF assms] by (simp add: operation_remove_def back_token_def pop_back_def)

lemma operation_add_child:
  assumes "get_checked p doc = Inr v"
  shows "operation_add (p @ [t]) w doc = res_bind (add_child t w v) (\<lambda>v'. put_at p v' doc)"
proof -
  have "\<exists>x. get_checked [hd (p @ [t])] doc = Inr x" if "[hd (p @ [t])] \<noteq> p @ [t]"
  proof -
    from that obtain u q where p: "p = [u] @ q" by (cases p) auto
    then have "res_bind (get_checked [u] doc) (get_checked q) = Inr v"
      using assms get_checked_append [of "[u]" q doc] by simp
    then show ?thesis using p by (metis append_Cons list.sel(1) res_bindE)
  qed
  then show ?thesis
    using modify_checked_value [OF assms] modify_unchecked_checked [OF assms]
    by (cases "[hd (p @ [t])] = p @ [t]") (auto simp: operation_add_def top_pointer_def)
qed

lemma map_put_put: "map_put k b (map_put k a m) = map_put k b m"
  by (induction m) auto

lemma map_put_same: "keys_sorted m \<Longrightarrow> map_of m k = Some v \<Longrightarrow> map_put k v m = m"
proof (induction m)
  case (Cons e m)
  then show ?case
    using map_of_SomeD [of m k v] by (cases e) (auto split: if_splits)
qed simp

lemma json_wf_member: "json_wf (JObject m) \<Longrightarrow> map_of m k = Some v \<Longrightarrow> json_wf v"
  using map_of_SomeD [of m k v] by auto

lemma put_at_same: "json_wf doc \<Longrightarrow> get_checked p doc = Inr v \<Longrightarrow> put_at p v doc = Inr doc"
proof (induction p doc rule: get_checked.induct)
  case (2 t ts m)
  then obtain x where x: "map_of m t = Some x" "get_checked ts x = Inr v"
    by (auto simp: at_member_def split: option.splits)
  with 2 have "json_wf x" using json_wf_member by blast
  with 2 x show ?case by (auto simp: at_member_def put_at_def map_put_same)
next
  case (3 t ts xs)
  then obtain i where "checked_index t xs = Inr i" "i < length xs" "get_checked ts (xs ! i) = Inr v"
    by (auto simp: at_index_def elim!: res_bindE split: if_splits)
  with 3 show ?case by (auto simp: at_index_def put_at_def)
qed (simp_all add: put_at_def)

lemma put_at_put: "put_at p a doc = Inr doc' \<Longrightarrow> put_at p b doc' = put_at p b doc"
proof (induction p doc arbitrary: doc' rule: get_checked.induct)
  case (2 t ts m)
  then obtain x y where x: "map_of m t = Some x" "put_at ts a x = Inr y" "doc' = JObject (map_put t y m)"
    by (auto simp: at_member_def put_at_def elim!: res_bindE split: option.splits)
  with 2 have "put_at ts b y = put_at ts b x" by (auto simp: at_member_def)
  with x show ?case by (simp add: put_at_def at_member_def map_of_map_put map_put_put)
next
  case (3 t ts xs)
  then obtain i y where x: "checked_index t xs = Inr i" "i < length xs" "put_at ts a (xs ! i) = Inr y"
    "doc' = JArray (xs[i := y])"
    by (auto simp: at_index_def put_at_def elim!: res_bindE split: if_splits)
  with 3 have "put_at ts b y = put_at ts b (xs ! i)" by (auto simp: at_index_def)
  with x show ?case by (auto simp: put_at_def at_index_def checked_index_def split: if_splits)
qed (simp_all add: put_at_def)

lemma json_wf_put: "json_wf (JObject m) \<Longrightarrow> json_wf v \<Longrightarrow> json_wf (JObject (map_put k v m))"
proof -
  assume m: "json_wf (JObject m)" "json_wf v"
  have "set (map_put k v m) \<subseteq> insert (k, v) (set m)"
    by (induction k v m rule: map_put.induct) (auto split: if_splits)
  with m show ?thesis by (auto simp: keys_sorted_put)
qed

lemma put_at_wf: "json_wf doc \<Longrightarrow> json_wf v \<Longrightarrow> put_at p v doc = Inr doc' \<Longrightarrow> json_wf doc'"
proof (induction p doc arbitrary: doc' rule: get_checked.induct)
  case (2 t ts m)
  then obtain x y where x: "map_of m t = Some x" "put_at ts v x = Inr y" "doc' = JObject (map_put t y m)"
    by (auto simp: at_member_def put_at_def elim!: res_bindE split: option.splits)
  moreover have "json_wf x" using x(1) 2 json_wf_member by blast
  ultimately have "json_wf y" using 2 by (auto simp: at_member_def)
  with x(3) 2(2) json_wf_put show ?case by blast
next
  case (3 t ts xs)
  then obtain i y where x: "checked_index t xs = Inr i" "i < length xs" "put_at ts v (xs ! i) = Inr y"
    "doc' = JArray (xs[i := y])"
    by (auto simp: at_index_def put_at_def elim!: res_bindE split: if_splits)
  with 3 have "json_wf y" by (auto simp: at_index_def)
  with x 3 show ?case using set_update_subset_insert [of xs i y] by auto
qed (simp_all add: put_at_def)
section \<open>Patching a part of a value\<close>

text \<open>The operations turn \<open>s\<close>, where the pointer denotes it, into \<open>s'\<close> and change nothing else.\<close>

definition at_patch :: "pointer \<Rightarrow> json list \<Rightarrow> json \<Rightarrow> json \<Rightarrow> bool" where
  "at_patch p ops s s' \<longleftrightarrow> json_wf s' \<and>
     (\<forall>doc. json_wf doc \<longrightarrow> get_checked p doc = Inr s \<longrightarrow> apply_operations ops doc = put_at p s' doc)"

lemma get_checked_wf: "json_wf j \<Longrightarrow> get_checked p j = Inr v \<Longrightarrow> json_wf v"
proof (induction p j rule: get_checked.induct)
  case (2 t ts m)
  then show ?case using json_wf_member by (auto simp: at_member_def split: option.splits simp del: json_wf.simps)
next
  case (3 t ts xs)
  then show ?case by (auto simp: at_index_def elim!: res_bindE split: if_splits)
qed simp_all

lemma at_patch_Nil: "json_wf s \<Longrightarrow> at_patch p [] s s"
  by (simp add: at_patch_def put_at_same)

lemma at_patch_append:
  assumes "at_patch p a s s1" and "at_patch p b s1 s2"
  shows "at_patch p (a @ b) s s2"
  unfolding at_patch_def
proof (intro conjI allI impI)
  fix doc assume doc: "json_wf doc" "get_checked p doc = Inr s"
  from put_at_get [OF doc(2)] obtain doc' where d: "put_at p s1 doc = Inr doc'" "get_checked p doc' = Inr s1" by blast
  moreover have "json_wf doc'" using put_at_wf [OF doc(1) _ d(1)] assms(1) by (simp add: at_patch_def)
  ultimately show "apply_operations (a @ b) doc = put_at p s2 doc"
    using assms doc put_at_put [OF d(1)] by (simp add: apply_operations_append at_patch_def)
qed (use assms(2) in \<open>simp add: at_patch_def\<close>)

text \<open>One operation, and operations on a child.\<close>

lemma apply_one: "apply_operations [v] doc = apply_operation v doc"
  by (cases "apply_operation v doc") simp_all

lemma at_patch_replace: "json_wf t \<Longrightarrow> at_patch p [replace_op (to_string p) t] s t"
  by (simp add: at_patch_def apply_one apply_ops del: apply_operations.simps)

lemma at_patch_remove:
  "remove_child t s = Inr s' \<Longrightarrow> json_wf s' \<Longrightarrow> at_patch p [remove_op (to_string (p @ [t]))] s s'"
  by (simp add: at_patch_def apply_one apply_ops operation_remove_child del: to_string_simps apply_operations.simps)

lemma at_patch_add:
  "add_child t v s = Inr s' \<Longrightarrow> json_wf s' \<Longrightarrow> at_patch p [add_op (to_string (p @ [t])) v] s s'"
  by (simp add: at_patch_def apply_one apply_ops operation_add_child del: to_string_simps apply_operations.simps)

lemma at_patch_child:
  assumes "at_patch (p @ [t]) ops v v'" and "get_checked [t] s = Inr v" and "put_at [t] v' s = Inr s'" and "json_wf s'"
  shows "at_patch p ops s s'"
  unfolding at_patch_def
proof (intro conjI allI impI)
  fix doc assume doc: "json_wf doc" "get_checked p doc = Inr s"
  then have "apply_operations ops doc = put_at (p @ [t]) v' doc"
    using assms(1,2) by (simp add: at_patch_def get_checked_append)
  also have "\<dots> = put_at p s' doc"
    using assms(3) modify_checked_value [OF doc(2), of "modify_checked (\<lambda>_. Inr v') [t]"]
    by (simp add: put_at_def modify_checked_append)
  finally show "apply_operations ops doc = put_at p s' doc" .
qed (rule assms(4))

section \<open>Arrays\<close>

lemma escape_dec: "escape (dec i) = dec i"
proof -
  have "map escape_char (dec i) = map (\<lambda>c. [c]) (dec i)"
    using dec_isdigit [of _ i] by (auto simp: escape_char_def isdigit_def)
  then show ?thesis by (simp only: escape_chars concat_map_singleton) simp
qed

lemma path_index: "to_string p @ CHR ''/'' # dec i = to_string (p @ [dec i])"
  by (simp add: escape_dec)

lemma path_end: "to_string p @ ''/-'' = to_string (p @ [''-''])"
  by (simp add: escape_chars escape_char_def)

lemma removals_Suc: "n \<le> m \<Longrightarrow> removals path n (Suc m) = remove_op (path @ ''/'' @ dec m) # removals path n m"
  by (simp add: removals_def)

lemma removals_Nil: "m \<le> n \<Longrightarrow> removals path n m = []"
  by (simp add: removals_def)

lemma at_patch_removals:
  assumes "length xs < 2 ^ 63" and "\<forall>x\<in>set xs. json_wf x"
  shows "at_patch p (removals (to_string p) n (length xs)) (JArray xs) (JArray (take n xs))"
  using assms
proof (induction xs rule: rev_induct)
  case Nil
  then show ?case by (simp add: removals_Nil at_patch_Nil)
next
  case (snoc x xs)
  show ?case
  proof (cases "n \<le> length xs")
    case True
    have "remove_child (dec (length xs)) (JArray (xs @ [x])) = Inr (JArray xs)"
      using snoc.prems by (simp add: remove_child_def array_index_dec)
    then have "at_patch p [remove_op (to_string (p @ [dec (length xs)]))] (JArray (xs @ [x])) (JArray xs)"
      using snoc.prems by (intro at_patch_remove) auto
    from at_patch_append [OF this snoc.IH] snoc.prems True show ?thesis
      by (simp add: removals_Suc path_index del: to_string_simps)
  next
    case False
    then show ?thesis using snoc.prems by (auto simp: removals_Nil intro!: at_patch_Nil)
  qed
qed

lemma at_patch_appends:
  assumes "\<forall>x\<in>set (xs @ vs). json_wf x"
  shows "at_patch p (map (add_op (to_string p @ ''/-'')) vs) (JArray xs) (JArray (xs @ vs))"
  using assms
proof (induction vs arbitrary: xs)
  case Nil
  then show ?case by (simp add: at_patch_Nil)
next
  case (Cons v vs)
  have "at_patch p [add_op (to_string p @ ''/-'') v] (JArray xs) (JArray (xs @ [v]))"
    unfolding path_end using Cons.prems by (intro at_patch_add) (auto simp: add_child_def)
  from at_patch_append [OF this Cons.IH] Cons.prems show ?case by simp
qed
section \<open>Objects\<close>

lemma path_key: "to_string p @ CHR ''/'' # escape k = to_string (p @ [k])"
  by simp

lemma map_erase_wf: "json_wf (JObject m) \<Longrightarrow> json_wf (JObject (map_erase k m))"
proof -
  assume m: "json_wf (JObject m)"
  have "set (map_erase k m) \<subseteq> set m" by (induction k m rule: map_erase.induct) auto
  with m show ?thesis by (auto simp: keys_sorted_erase)
qed

lemma at_patch_member:
  assumes "at_patch (p @ [k]) ops v v'" and "map_of m k = Some v" and "json_wf (JObject m)"
  shows "at_patch p ops (JObject m) (JObject (map_put k v' m))"
proof (rule at_patch_child [OF assms(1)])
  show "json_wf (JObject (map_put k v' m))" using assms(1,3) json_wf_put by (simp add: at_patch_def del: json_wf.simps)
qed (use assms(2) in \<open>simp_all add: at_member_def put_at_def\<close>)

lemma at_patch_element:
  assumes "at_patch (p @ [dec (length zs)]) ops x x'" and "length zs < 2 ^ 63"
    and "\<forall>z\<in>set (zs @ xs). json_wf z"
  shows "at_patch p ops (JArray (zs @ x # xs)) (JArray (zs @ x' # xs))"
proof (rule at_patch_child [OF assms(1)])
  have "checked_index (dec (length zs)) ys = Inr (length zs)" for ys
    using assms(2) by (intro checked_index_dec) simp
  then show "get_checked [dec (length zs)] (JArray (zs @ x # xs)) = Inr x"
    "put_at [dec (length zs)] x' (JArray (zs @ x # xs)) = Inr (JArray (zs @ x' # xs))"
    by (simp_all add: at_index_def put_at_def)
  show "json_wf (JArray (zs @ x' # xs))" using assms(1,3) by (simp add: at_patch_def ball_Un)
qed

lemma at_patch_adds:
  assumes "json_wf (JObject m)" and "\<forall>kv\<in>set es. json_wf (snd kv)"
  shows "at_patch p (map (\<lambda>(k, v). add_op (to_string p @ ''/'' @ escape k) v) es) (JObject m) (JObject (tsm.put_all es m))"
  using assms
proof (induction es arbitrary: m)
  case Nil
  then show ?case by (simp add: at_patch_Nil del: json_wf.simps)
next
  case (Cons e es)
  obtain k v where e: "e = (k, v)" by (cases e)
  have wf: "json_wf (JObject (map_put k v m))" using Cons.prems e by (intro json_wf_put) (auto simp del: json_wf.simps)
  then have "at_patch p [add_op (to_string (p @ [k])) v] (JObject m) (JObject (map_put k v m))"
    by (intro at_patch_add) (simp_all add: add_child_def)
  from at_patch_append [OF this Cons.IH [OF wf]] Cons.prems(2) show ?case by (simp add: e)
qed

lemma map_of_put_all: "distinct (map fst es) \<Longrightarrow>
    map_of (tsm.put_all es m) k = (case map_of es k of None \<Rightarrow> map_of m k | Some v \<Rightarrow> Some v)"
proof (induction es arbitrary: m)
  case (Cons e es)
  then show ?case
    by (cases e) (auto simp: map_of_map_put map_of_eq_None_iff [THEN iffD2] split: option.splits)
qed simp

lemma first_key_eq:
  assumes "keys_sorted ((k, v) # m)" and "keys_sorted ((k', v') # m')"
    and "\<And>q. map_of ((k, v) # m) q = None \<longleftrightarrow> map_of ((k', v') # m') q = None"
  shows "k = k'"
proof (rule ccontr)
  assume "k \<noteq> k'"
  then consider "k < k'" | "k' < k" by (rule linorder_neqE)
  then show False
  proof cases
    case 1
    then have "map_of ((k', v') # m') k = None" using assms(2) by (intro map_of_absent) (auto intro: less_trans)
    with assms(3) [of k] show False by simp
  next
    case 2
    then have "map_of ((k, v) # m) k' = None" using assms(1) by (intro map_of_absent) (auto intro: less_trans)
    with assms(3) [of k'] show False by simp
  qed
qed

lemma rel_option_None: "rel_option R x y \<Longrightarrow> x = None \<longleftrightarrow> y = None"
  by (cases x; cases y) auto

text \<open>Sorted members are equal if they are equal key by key.\<close>

lemma members_eqI:
  "keys_sorted m \<Longrightarrow> keys_sorted m' \<Longrightarrow> (\<And>k. rel_option json_eq (map_of m k) (map_of m' k)) \<Longrightarrow> members_eq m m'"
proof (induction m m' rule: list_induct2')
  case (2 e m)
  from "2.prems"(3) [of "fst e"] show ?case by (cases e) simp
next
  case (3 e m')
  from "3.prems"(3) [of "fst e"] show ?case by (cases e) simp
next
  case (4 e m e' m')
  obtain k v k' v' where e: "e = (k, v)" "e' = (k', v')" by (cases e; cases e')
  have "k = k'" using 4(2,3) rel_option_None [OF 4(4)] e by (intro first_key_eq [of k v m k' v' m']) auto
  moreover have "rel_option json_eq (map_of m q) (map_of m' q)" for q
    using 4(2,3) 4(4) [of q] e \<open>k = k'\<close> map_of_absent [of m k] map_of_absent [of m' k]
    by (cases "q = k") auto
  ultimately show ?case using 4 e 4(4) [of k] by simp
qed simp
section \<open>A difference leads to the second value\<close>

text \<open>The length of an array fits the index type of \<open>std::vector\<close>.\<close>

fun vectors_fit :: "json \<Rightarrow> bool" where
  "vectors_fit (JArray xs) = (length xs < 2 ^ 63 \<and> (\<forall>x\<in>set xs. vectors_fit x))"
| "vectors_fit (JObject m) = (\<forall>kv\<in>set m. vectors_fit (snd kv))"
| "vectors_fit _ = True"

text \<open>The value after the operations: equal to the target as \<open>operator==\<close> has it.\<close>

definition leads_to :: "pointer \<Rightarrow> json list \<Rightarrow> json \<Rightarrow> json \<Rightarrow> bool" where
  "leads_to p ops s t \<longleftrightarrow> (\<exists>s'. at_patch p ops s s' \<and> json_eq s' t)"

definition well_formed :: "json \<Rightarrow> bool" where
  "well_formed j \<longleftrightarrow> json_wf j \<and> vectors_fit j"

definition well_formed_target :: "json \<Rightarrow> bool" where
  "well_formed_target j \<longleftrightarrow> json_wf j \<and> vectors_fit j \<and> no_nan j"

lemma leads_to_replace: "well_formed_target t \<Longrightarrow> leads_to p [replace_op (to_string p) t] s t"
  unfolding leads_to_def well_formed_target_def using at_patch_replace json_eq_refl by blast

text \<open>What the pass over the members of the first object does to the object \<open>M\<close>.\<close>

definition members_patched ::
  "(string \<times> json) list \<Rightarrow> (string \<times> json) list \<Rightarrow> (string \<times> json) list \<Rightarrow> (string \<times> json) list \<Rightarrow> bool" where
  "members_patched m m' M M' \<longleftrightarrow> json_wf (JObject M') \<and> (\<forall>k.
     if map_of m k = None then map_of M' k = map_of M k else rel_option json_eq (map_of M' k) (map_of m' k))"

lemma members_patched_put:
  assumes "members_patched m m' (map_put k v' M) M'" and "map_of m k = None" and "map_of m' k = Some w" and "json_eq v' w"
  shows "members_patched ((k, v) # m) m' M M'"
  using assms by (auto simp: members_patched_def map_of_map_put split: if_splits simp del: json_wf.simps)

lemma members_patched_erase:
  assumes "members_patched m m' (map_erase k M) M'" and "map_of m k = None" and "map_of m' k = None" and "keys_sorted M"
  shows "members_patched ((k, v) # m) m' M M'"
  using assms by (auto simp: members_patched_def map_of_map_erase split: if_splits simp del: json_wf.simps)

lemma members_patched_final:
  assumes "members_patched m m' m M'" and "json_wf (JObject m')" and "no_nan (JObject m')"
    and "es = filter (\<lambda>(k, v). map_of m k = None) m'"
  shows "members_eq (tsm.put_all es M') m'"
proof (rule members_eqI)
  show "keys_sorted (tsm.put_all es M')" using assms(1) by (simp add: members_patched_def tsm.invar_put_all)
  show "keys_sorted m'" using assms(2) by simp
  fix k
  have d: "distinct (map fst m')" using assms(2) by (simp add: keys_sorted_distinct)
  have "distinct (map fst es)" using d unfolding assms(4) by (rule distinct_map_filter)
  then have l: "map_of (tsm.put_all es M') k = (case map_of es k of None \<Rightarrow> map_of M' k | Some v \<Rightarrow> Some v)"
    by (rule map_of_put_all)
  have e: "map_of es k = (if map_of m k = None then map_of m' k else None)"
    unfolding assms(4) by (induction m') auto
  have "json_eq v v" if "map_of m' k = Some v" for v
    using assms(3) map_of_SomeD [OF that] by (intro json_eq_refl) auto
  then show "rel_option json_eq (map_of (tsm.put_all es M') k) (map_of m' k)"
    using assms(1) unfolding l e members_patched_def
    by (cases "map_of m k"; cases "map_of m' k") (auto split: if_splits dest!: spec [of _ k])
qed
lemma leads_to_same: "well_formed s \<Longrightarrow> json_eq s t \<Longrightarrow> leads_to p [] s t"
  unfolding leads_to_def well_formed_def using at_patch_Nil by blast

lemma well_formed_parts:
  "well_formed (JArray xs) \<longleftrightarrow> length xs < 2 ^ 63 \<and> (\<forall>x\<in>set xs. well_formed x)"
  "well_formed (JObject m) \<longleftrightarrow> keys_sorted m \<and> (\<forall>kv\<in>set m. well_formed (snd kv))"
  "well_formed_target (JArray xs) \<longleftrightarrow> length xs < 2 ^ 63 \<and> (\<forall>x\<in>set xs. well_formed_target x)"
  "well_formed_target (JObject m) \<longleftrightarrow> keys_sorted m \<and> (\<forall>kv\<in>set m. well_formed_target (snd kv))"
  by (auto simp: well_formed_def well_formed_target_def)

text \<open>The two passes over arrays, and over objects.\<close>

lemma arrays_lead:
  assumes "\<exists>ws. at_patch p (diff_elements 0 xs ys (to_string p)) (JArray xs) (JArray (ws @ drop (length ys) xs))
      \<and> list_all2 json_eq ws (take (length xs) ys)"
    and "well_formed (JArray xs)" and "well_formed_target (JArray ys)"
  shows "leads_to p (diff_elements 0 xs ys (to_string p) @ removals (to_string p) (length ys) (length xs)
      @ map (add_op (to_string p @ ''/-'')) (drop (length xs) ys)) (JArray xs) (JArray ys)"
proof -
  from assms(1) obtain ws where ws: "list_all2 json_eq ws (take (length xs) ys)"
    and 1: "at_patch p (diff_elements 0 xs ys (to_string p)) (JArray xs) (JArray (ws @ drop (length ys) xs))" by blast
  define zs where "zs = ws @ drop (length ys) xs"
  have len: "length ws = min (length xs) (length ys)" using list_all2_lengthD [OF ws] by simp
  then have lz: "length zs = length xs" by (simp add: zs_def)
  have wfz: "\<forall>z\<in>set zs. json_wf z" using 1 by (simp add: zs_def at_patch_def)
  have tz: "take (length ys) zs = ws" using len by (auto simp: zs_def)
  have vs: "\<forall>v\<in>set (drop (length xs) ys). well_formed_target v"
    using assms(3) by (auto simp: well_formed_parts dest: in_set_dropD)
  have 2: "at_patch p (removals (to_string p) (length ys) (length xs)) (JArray zs) (JArray ws)"
    using at_patch_removals [of zs p "length ys"] lz wfz assms(2) by (simp add: well_formed_parts tz)
  have 3: "at_patch p (map (add_op (to_string p @ ''/-'')) (drop (length xs) ys)) (JArray ws)
      (JArray (ws @ drop (length xs) ys))"
    using vs wfz by (intro at_patch_appends) (auto simp: well_formed_target_def zs_def)
  have "list_all2 json_eq (drop (length xs) ys) (drop (length xs) ys)"
    using vs by (intro list.rel_refl_strong json_eq_refl) (simp add: well_formed_target_def)
  with ws have "list_all2 json_eq (ws @ drop (length xs) ys) (take (length xs) ys @ drop (length xs) ys)"
    by (rule list_all2_appendI)
  then have "json_eq (JArray (ws @ drop (length xs) ys)) (JArray ys)" by (simp add: elements_eq_list_all2)
  with at_patch_append [OF at_patch_append [OF 1 [folded zs_def] 2] 3] show ?thesis by (auto simp: leads_to_def)
qed

lemma objects_lead:
  assumes "\<exists>M'. at_patch p (diff_members m m' (to_string p)) (JObject m) (JObject M') \<and> members_patched m m' m M'"
    and "well_formed_target (JObject m')"
  shows "leads_to p (diff_members m m' (to_string p)
      @ map (\<lambda>(k, v). add_op (to_string p @ ''/'' @ escape k) v) (filter (\<lambda>(k, v). map_of m k = None) m'))
      (JObject m) (JObject m')"
proof -
  define es where "es = filter (\<lambda>(k, v). map_of m k = None) m'"
  from assms(1) obtain M' where 1: "at_patch p (diff_members m m' (to_string p)) (JObject m) (JObject M')"
    and M: "members_patched m m' m M'" by blast
  have 2: "at_patch p (map (\<lambda>(k, v). add_op (to_string p @ ''/'' @ escape k) v) es) (JObject M') (JObject (tsm.put_all es M'))"
    using M assms(2) by (intro at_patch_adds) (auto simp: members_patched_def well_formed_target_def es_def)
  have "json_eq (JObject (tsm.put_all es M')) (JObject m')"
    using members_patched_final [OF M _ _ es_def] assms(2) by (simp add: well_formed_target_def)
  with at_patch_append [OF 1 2] show ?thesis unfolding leads_to_def es_def by blast
qed

lemma diff_leads:
  "path = to_string p \<Longrightarrow> well_formed s \<Longrightarrow> well_formed_target t \<Longrightarrow> leads_to p (diff s t path) s t"
  "path' = to_string p \<Longrightarrow> i = length zs \<Longrightarrow> length zs + length xs < 2 ^ 63 \<Longrightarrow> \<forall>z\<in>set zs. json_wf z \<Longrightarrow>
     \<forall>x\<in>set xs. well_formed x \<Longrightarrow> \<forall>y\<in>set ys. well_formed_target y \<Longrightarrow>
     \<exists>ws. at_patch p (diff_elements i xs ys path') (JArray (zs @ xs)) (JArray (zs @ ws @ drop (length ys) xs))
       \<and> list_all2 json_eq ws (take (length xs) ys)"
  "path'' = to_string p \<Longrightarrow> keys_sorted m \<Longrightarrow> \<forall>kv\<in>set m. well_formed (snd kv) \<and> map_of M (fst kv) = Some (snd kv) \<Longrightarrow>
     json_wf (JObject M) \<Longrightarrow> \<forall>kv\<in>set m'. well_formed_target (snd kv) \<Longrightarrow>
     \<exists>M'. at_patch p (diff_members m m' path'') (JObject M) (JObject M') \<and> members_patched m m' M M'"
proof (induction s t path and i xs ys path' and m m' path'' arbitrary: p and p zs and p M
    rule: diff_diff_elements_diff_members.induct)
  case (1 s t path)
  show ?case
  proof (cases "json_eq s t")
    case True
    with 1 show ?thesis by (simp add: leads_to_same)
  next
    case ne: False
    show ?thesis
    proof (cases "value_type s = value_type t")
      case True
      consider (arr) xs ys where "s = JArray xs" "t = JArray ys" | (obj) m m' where "s = JObject m" "t = JObject m'"
        | (scalar) "diff s t path = [replace_op path t]"
        using ne True by (cases s; cases t) auto
      then show ?thesis
      proof cases
        case arr
        with 1 ne have "\<exists>ws. at_patch p (diff_elements 0 xs ys path) (JArray ([] @ xs)) (JArray ([] @ ws @ drop (length ys) xs))
            \<and> list_all2 json_eq ws (take (length xs) ys)"
          by (intro "1.IH"(1) [where x = s and y = t]) (auto simp: well_formed_parts)
        then show ?thesis
          using arr ne 1 arrays_lead [of p xs ys] by simp
      next
        case obj
        with 1 ne have "\<exists>M'. at_patch p (diff_members m m' path) (JObject m) (JObject M') \<and> members_patched m m' m M'"
          by (intro "1.IH"(2) [where x = s and y = t])
            (auto simp: well_formed_parts well_formed_def intro: map_of_is_SomeI keys_sorted_distinct)
        then show ?thesis
          using obj ne 1 objects_lead [of p m m'] by simp
      qed (use 1 leads_to_replace in simp)
    qed (use 1 ne leads_to_replace in simp)
  qed
next
  case (2 i x xs y ys path)
  from 2 have xy: "well_formed x" "well_formed_target y" by auto
  have "path @ ''/'' @ dec i = to_string (p @ [dec i])" using 2(3) by (simp add: escape_dec)
  from "2.IH"(1) [OF this xy] obtain x' where x': "at_patch (p @ [dec i]) (diff x y (path @ ''/'' @ dec i)) x x'"
    "json_eq x' y" by (auto simp: leads_to_def)
  have "at_patch p (diff x y (path @ ''/'' @ dec i)) (JArray (zs @ x # xs)) (JArray (zs @ x' # xs))"
    using x'(1) 2 by (intro at_patch_element) (auto simp: well_formed_def)
  moreover have "\<exists>ws. at_patch p (diff_elements (i + 1) xs ys path) (JArray ((zs @ [x']) @ xs))
      (JArray ((zs @ [x']) @ ws @ drop (length ys) xs)) \<and> list_all2 json_eq ws (take (length xs) ys)"
    using 2 x'(1) by (intro "2.IH"(2)) (auto simp: at_patch_def)
  then obtain ws where ws: "list_all2 json_eq ws (take (length xs) ys)"
    "at_patch p (diff_elements (i + 1) xs ys path) (JArray (zs @ x' # xs)) (JArray (zs @ (x' # ws) @ drop (length ys) xs))"
    by auto
  ultimately have "at_patch p (diff_elements i (x # xs) (y # ys) path) (JArray (zs @ x # xs))
      (JArray (zs @ (x' # ws) @ drop (length (y # ys)) (x # xs)))"
    using at_patch_append by simp
  then show ?case using ws(1) x'(2) by (intro exI [of _ "x' # ws"]) simp
next
  case (3 i ys path)
  then show ?case by (auto intro!: exI [of _ "[]"] at_patch_Nil)
next
  case (4 i x xs path)
  then show ?case by (auto simp: well_formed_def intro!: exI [of _ "[]"] at_patch_Nil)
next
  case (5 m' path)
  then show ?case by (auto simp: members_patched_def intro!: exI [of _ M] at_patch_Nil)
next
  case (6 k v m m' path)
  have fresh: "map_of m k = None" using 6 by (simp add: map_of_absent)
  have path: "path @ ''/'' @ escape k = to_string (p @ [k])" using 6 by simp
  show ?case
  proof (cases "map_of m' k")
    case (Some w)
    have "well_formed v" "well_formed_target w" using "6.prems"(3,5) map_of_SomeD [OF Some] by auto
    from "6.IH"(1) [OF Some path this] obtain v' where v': "at_patch (p @ [k]) (diff v w (path @ ''/'' @ escape k)) v v'"
      "json_eq v' w" by (auto simp: leads_to_def)
    have 1: "at_patch p (diff v w (path @ ''/'' @ escape k)) (JObject M) (JObject (map_put k v' M))"
      using v'(1) 6 by (intro at_patch_member) auto
    have "\<exists>M'. at_patch p (diff_members m m' path) (JObject (map_put k v' M)) (JObject M')
        \<and> members_patched m m' (map_put k v' M) M'"
      using 6 1 by (intro "6.IH"(2)) (auto simp: map_of_map_put at_patch_def)
    with 1 show ?thesis
      using Some members_patched_put [OF _ fresh Some v'(2)] at_patch_append by fastforce
  next
    case None
    have "remove_child k (JObject M) = Inr (JObject (map_erase k M))" using 6 by (simp add: remove_child_def)
    moreover have wf: "json_wf (JObject (map_erase k M))" using 6 by (intro map_erase_wf) auto
    ultimately have 1: "at_patch p [remove_op (path @ ''/'' @ escape k)] (JObject M) (JObject (map_erase k M))"
      unfolding path by (rule at_patch_remove)
    have "\<exists>M'. at_patch p (diff_members m m' path) (JObject (map_erase k M)) (JObject M')
        \<and> members_patched m m' (map_erase k M) M'"
      using 6 wf by (intro "6.IH"(2)) (auto simp: map_of_map_erase)
    with 1 show ?thesis
      using None members_patched_erase [OF _ fresh None] 6 at_patch_append by fastforce
  qed
qed
section \<open>Merging, key by key\<close>

definition merged :: "(string \<times> json) list \<Rightarrow> (string \<times> json) list \<Rightarrow> string \<Rightarrow> json option" where
  "merged ps m k = (case map_of ps k of
     None \<Rightarrow> map_of m k
   | Some v \<Rightarrow> if v = JNull then None else Some (merge_patch v (member_or_null k m)))"

lemma keys_sorted_merge: "keys_sorted m \<Longrightarrow> keys_sorted (merge_members ps m)"
  by (induction ps arbitrary: m) (auto simp: keys_sorted_put keys_sorted_erase)

lemma map_of_merge_members:
  "distinct (map fst ps) \<Longrightarrow> keys_sorted m \<Longrightarrow> map_of (merge_members ps m) k = merged ps m k"
proof (induction ps arbitrary: m)
  case (Cons e ps)
  obtain q v where e: "e = (q, v)" by (cases e)
  with Cons.prems have q: "map_of ps q = None" by (auto simp: map_of_eq_None_iff)
  have "keys_sorted (if v = JNull then map_erase q m else map_put q (merge_patch v (member_or_null q m)) m)"
    using Cons.prems by (simp add: keys_sorted_put keys_sorted_erase)
  from Cons.IH [OF _ this] Cons.prems e q show ?case
    by (auto simp: merged_def member_or_null_def map_of_map_put map_of_map_erase split: option.splits)
qed (simp add: merged_def)

lemma keys_sorted_ext: "keys_sorted m \<Longrightarrow> keys_sorted m' \<Longrightarrow> (\<And>k. map_of m k = map_of m' k) \<Longrightarrow> m = m'"
proof (induction m m' rule: list_induct2')
  case (2 e m)
  from "2.prems"(3) [of "fst e"] show ?case by (cases e) simp
next
  case (3 e m')
  from "3.prems"(3) [of "fst e"] show ?case by (cases e) simp
next
  case (4 e m e' m')
  obtain k v k' v' where e: "e = (k, v)" "e' = (k', v')" by (cases e; cases e')
  have "k = k'" using 4(2,3,4) e by (intro first_key_eq [of k v m k' v' m']) auto
  moreover have "map_of m q = map_of m' q" for q
    using 4(2,3) 4(4) [of q] e \<open>k = k'\<close> map_of_absent [of m k] map_of_absent [of m' k] by (cases "q = k") auto
  ultimately show ?case using 4 e 4(4) [of k] by simp
qed simp

lemma merge_wf:
  "json_wf p \<Longrightarrow> json_wf t \<Longrightarrow> json_wf (merge_patch p t)"
  "(\<forall>kv\<in>set ps. json_wf (snd kv)) \<Longrightarrow> json_wf (JObject m) \<Longrightarrow> json_wf (JObject (merge_members ps m))"
proof (induction p t and ps m rule: merge_patch_merge_members.induct)
  case (4 k v ps m)
  have "json_wf (member_or_null k m)"
    using json_wf_member [OF "4.prems"(2)] by (auto simp: member_or_null_def split: option.splits)
  then have "json_wf (JObject (if v = JNull then map_erase k m else map_put k (merge_patch v (member_or_null k m)) m))"
    using 4 json_wf_put map_erase_wf by (auto simp del: json_wf.simps)
  with 4 show ?case by (auto simp del: json_wf.simps)
next
  case (1 ps t)
  then show ?case by (cases t) auto
qed (auto simp del: json_wf.simps(2))
lemma merge_twice: "json_wf p \<Longrightarrow> json_wf t \<Longrightarrow> merge_patch p (merge_patch p t) = merge_patch p t"
proof (induction p arbitrary: t)
  case (JObject ps)
  define m where "m = (case t of JObject m \<Rightarrow> m | _ \<Rightarrow> [])"
  have "json_wf (JObject m)" using JObject(3) by (cases t) (simp_all add: m_def)
  then have s: "json_wf (JObject m)" .
  have "merge_members ps (merge_members ps m) = merge_members ps m"
  proof (rule keys_sorted_ext)
    have ps: "distinct (map fst ps)" using JObject(2) by (simp add: keys_sorted_distinct)
    have ks: "keys_sorted m" using s by simp
    fix k
    have l: "map_of (merge_members ps m) k = merged ps m k" using map_of_merge_members [OF ps ks] .
    have "merge_patch v (merge_patch v (member_or_null k m)) = merge_patch v (member_or_null k m)"
      if "map_of ps k = Some v" for v
      using map_of_SomeD [OF that] JObject(1,2) json_wf_member [OF s, of k]
      by (fastforce simp: member_or_null_def split: option.splits)
    then show "map_of (merge_members ps (merge_members ps m)) k = map_of (merge_members ps m) k"
      unfolding map_of_merge_members [OF ps keys_sorted_merge [OF ks]] l
      using l by (auto simp: merged_def member_or_null_def split: option.splits)
  qed (use s in \<open>simp_all add: keys_sorted_merge\<close>)
  then show ?case by (simp add: m_def)
qed simp_all

section \<open>Properties\<close>

text \<open>C7. A difference, applied as a patch, leads to the second value: for values with ordered keys, arrays of a possible size and
  no NaN in the second one, the patch throws nothing and its result is equal to the second value in the sense of
  \<open>operator==\<close>, which takes numbers of different types for equal.\<close>

theorem diff_patch:
  assumes "well_formed source" and "well_formed_target target"
  shows "\<exists>result. patch source (JArray (diff source target [])) = Inr result \<and> json_eq result target"
proof -
  have "leads_to [] (diff source target []) source target" using diff_leads(1) [of "[]" "[]"] assms by simp
  then show ?thesis using assms(1) by (auto simp: leads_to_def at_patch_def patch_def put_at_def well_formed_def)
qed

theorem diff_patch_witness:
  "\<exists>result. patch (JObject [(''a'', JArray [JUnsigned 1, JNull]), (''b/c'', JBool True)])
     (JArray (diff (JObject [(''a'', JArray [JUnsigned 1, JNull]), (''b/c'', JBool True)])
       (JObject [(''a'', JArray [JUnsigned 2])]) [])) = Inr result \<and> json_eq result (JObject [(''a'', JArray [JUnsigned 2])])"
  by (rule diff_patch) (simp_all add: well_formed_def well_formed_target_def less_char_def)

text \<open>A merge works key by key, whatever the order: a key that the patch lacks keeps its value, a key with a null in the patch
  is gone, and any other key holds the merge of the two values; merging the same patch once more changes nothing.\<close>

theorem merge_patch_lookup:
  assumes "json_wf (JObject ps)" and "json_wf (JObject m)"
  shows "\<exists>m'. merge_patch (JObject ps) (JObject m) = JObject m' \<and> keys_sorted m' \<and> map_of m' = merged ps m
     \<and> merge_patch (JObject ps) (JObject m') = JObject m'"
  using map_of_merge_members [of ps m] merge_twice [OF assms] keys_sorted_merge [of m ps] keys_sorted_distinct [of ps] assms
  by auto

theorem merge_patch_lookup_witness:
  "\<exists>m'. merge_patch (JObject [(''a'', JNull)]) (JObject [(''a'', JBool True), (''b'', JNull)]) = JObject m' \<and> keys_sorted m'
     \<and> map_of m' = merged [(''a'', JNull)] [(''a'', JBool True), (''b'', JNull)]
     \<and> merge_patch (JObject [(''a'', JNull)]) (JObject m') = JObject m'"
  by (rule merge_patch_lookup) (simp_all add: less_char_def)

text \<open>A patch can end the program: adding a member to a value that is neither null nor an object nor an array runs into
  \<open>JSON_ASSERT(false)\<close>, although the patch is well-formed and the path in front of the member exists.\<close>

theorem add_below_scalar:
  assumes "get_checked p j = Inr s" and "value_type s \<notin> {0, 1, 2}"
  shows "patch j (JArray [add_op (to_string (p @ [t])) v]) = Inl (Jfault AssertionFailed)"
  using assms by (cases s) (simp_all add: patch_def apply_ops operation_add_child add_child_def del: to_string_simps)

theorem add_below_scalar_witness:
  "patch (JObject [(''a'', JBool True)]) (JArray [add_op ''/a/b'' JNull]) = Inl (Jfault AssertionFailed)"
  using add_below_scalar [of "[''a'']" "JObject [(''a'', JBool True)]" "JBool True" "''b''" JNull]
  by (simp add: at_member_def escape_chars escape_char_def)

text \<open>A removal below such a value does nothing and reports nothing.\<close>

lemma remove_below_scalar:
  assumes "json_wf j" and "get_checked p j = Inr s" and "value_type s \<notin> {1, 2}"
  shows "patch j (JArray [remove_op (to_string (p @ [t]))]) = Inr j"
  using assms put_at_same [OF assms(1,2)]
  by (cases s) (simp_all add: patch_def apply_ops operation_remove_child remove_child_def del: to_string_simps)


end
