(* ===== verification/JsonFlatten.thy ===== *)
theory JsonFlatten
  imports JsonPointer
begin

text \<open>
  Flattening of \<open>include/nlohmann/json.hpp\<close>: \<open>flatten\<close> turns a value into an object of its primitive parts under their JSON
  pointers, \<open>unflatten\<close> builds a value from such an object, creating arrays and objects along the pointers
  (\<open>json_pointer::get_and_create\<close>).

  The lemmas show that unflattening undoes flattening, up to empty containers, for values without the key 0: the pointers
  are taken in the order of their texts, and an array is recognised by its index 0 coming first.
\<close>

section \<open>Flattening\<close>

fun flatten_into :: "string \<Rightarrow> json \<Rightarrow> (string \<times> json) list \<Rightarrow> (string \<times> json) list"
  and flatten_items :: "string \<Rightarrow> nat \<Rightarrow> json list \<Rightarrow> (string \<times> json) list \<Rightarrow> (string \<times> json) list"
  and flatten_members :: "string \<Rightarrow> (string \<times> json) list \<Rightarrow> (string \<times> json) list \<Rightarrow> (string \<times> json) list" where
  "flatten_into reference_string (JArray xs) result =
     (if xs = [] then map_put reference_string JNull result else flatten_items reference_string 0 xs result)"
| "flatten_into reference_string (JObject m) result =
     (if m = [] then map_put reference_string JNull result else flatten_members reference_string m result)"
| "flatten_into reference_string j result = map_put reference_string j result"
| "flatten_items reference_string i [] result = result"
| "flatten_items reference_string i (x # xs) result =
     flatten_items reference_string (Suc i) xs (flatten_into (reference_string @ ''/'' @ dec i) x result)"
| "flatten_members reference_string [] result = result"
| "flatten_members reference_string ((k, v) # m) result =
     flatten_members reference_string m (flatten_into (reference_string @ ''/'' @ escape k) v result)"

definition flatten :: "json \<Rightarrow> json" where
  "flatten j = JObject (flatten_into [] j [])"

section \<open>Unflattening\<close>

text \<open>The reference that \<open>get_and_create\<close> returns is assigned the value \<open>v\<close>.\<close>

fun put_created :: "pointer \<Rightarrow> json \<Rightarrow> json \<Rightarrow> json_exn + json" where
  "put_created [] v j = Inr v"
| "put_created (t # ts) v JNull =
     (if t = ''0'' then res_bind (put_created ts v JNull) (\<lambda>w. Inr (JArray [w]))
      else res_bind (put_created ts v JNull) (\<lambda>w. Inr (JObject [(t, w)])))"
| "put_created (t # ts) v (JObject m) =
     res_bind (put_created ts v (member_or_null t m)) (\<lambda>w. Inr (JObject (map_put t w m)))"
| "put_created (t # ts) v (JArray xs) =
     res_bind (array_index t) (\<lambda>i. let ys = grow_array i xs in
     res_bind (put_created ts v (ys ! i)) (\<lambda>w. Inr (JArray (ys[i := w]))))"
| "put_created (t # ts) v j = Inl (Type_error 313)"

definition is_primitive :: "json \<Rightarrow> bool" where
  "is_primitive j = (case j of JArray _ \<Rightarrow> False | JObject _ \<Rightarrow> False | _ \<Rightarrow> True)"

fun unflatten_members :: "(string \<times> json) list \<Rightarrow> json \<Rightarrow> json_exn + json" where
  "unflatten_members [] result = Inr result"
| "unflatten_members ((k, v) # m) result =
     (if \<not> is_primitive v then Inl (Type_error 315)
      else res_bind (split k) (\<lambda>ptr. res_bind (put_created ptr v result) (unflatten_members m)))"

definition unflatten :: "json \<Rightarrow> json_exn + json" where
  "unflatten j = (case j of JObject m \<Rightarrow> unflatten_members m JNull | _ \<Rightarrow> Inl (Type_error 314))"

section \<open>Leaves\<close>

text \<open>The primitive parts of a value with their pointers; empty containers count as null.\<close>

fun leaves :: "json \<Rightarrow> (pointer \<times> json) list"
  and item_leaves :: "nat \<Rightarrow> json list \<Rightarrow> (pointer \<times> json) list"
  and member_leaves :: "(string \<times> json) list \<Rightarrow> (pointer \<times> json) list" where
  "leaves (JArray xs) = (if xs = [] then [([], JNull)] else item_leaves 0 xs)"
| "leaves (JObject m) = (if m = [] then [([], JNull)] else member_leaves m)"
| "leaves j = [([], j)]"
| "item_leaves i [] = []"
| "item_leaves i (x # xs) = map (\<lambda>(p, v). (dec i # p, v)) (leaves x) @ item_leaves (Suc i) xs"
| "member_leaves [] = []"
| "member_leaves ((k, v) # m) = map (\<lambda>(p, v). (k # p, v)) (leaves v) @ member_leaves m"

abbreviation entries :: "string \<Rightarrow> (pointer \<times> json) list \<Rightarrow> (string \<times> json) list" where
  "entries s \<equiv> map (\<lambda>(p, v). (s @ to_string p, v))"

lemma escaped_index [simp]: "escape (dec i) = dec i"
proof -
  have "concat (map escape_char s) = s" if "\<forall>c\<in>set s. isdigit c" for s
    using that by (induction s) (auto simp: escape_char_def isdigit_def)
  then show ?thesis using dec_isdigit [of _ i] by (simp add: escape_chars)
qed

lemma put_all_append: "tsm.put_all (xs @ ys) m = tsm.put_all ys (tsm.put_all xs m)"
  by (induction xs m rule: tsm.put_all.induct) auto

lemma flatten_leaves:
  "flatten_into s j m = tsm.put_all (entries s (leaves j)) m"
  "flatten_items s i xs m = tsm.put_all (entries s (item_leaves i xs)) m"
  "flatten_members s ms m = tsm.put_all (entries s (member_leaves ms)) m"
proof (induction s j m and s i xs m and s ms m rule: flatten_into_flatten_items_flatten_members.induct)
qed (simp_all add: put_all_append comp_def case_prod_unfold)

lemma leaves_ne: "leaves j \<noteq> []" "xs \<noteq> [] \<Longrightarrow> item_leaves i xs \<noteq> []" "m \<noteq> [] \<Longrightarrow> member_leaves m \<noteq> []"
  by (induction j and i xs and m rule: leaves_item_leaves_member_leaves.induct) auto

lemma leaves_primitive: "(p, v) \<in> set (leaves j) \<Longrightarrow> is_primitive v"
  "(p, v) \<in> set (item_leaves i xs) \<Longrightarrow> is_primitive v" "(p, v) \<in> set (member_leaves m) \<Longrightarrow> is_primitive v"
  by (induction j and i xs and m arbitrary: p and p and p rule: leaves_item_leaves_member_leaves.induct)
    (auto simp: is_primitive_def split: if_splits)

lemma item_leaves_iff: "(p, v) \<in> set (item_leaves i xs) \<longleftrightarrow> (\<exists>k q. k < length xs \<and> p = dec (i + k) # q \<and> (q, v) \<in> set (leaves (xs ! k)))"
proof (induction xs arbitrary: i)
  case (Cons x xs)
  show ?case
  proof
    assume "(p, v) \<in> set (item_leaves i (x # xs))"
    then consider q where "p = dec i # q" "(q, v) \<in> set (leaves x)" | "(p, v) \<in> set (item_leaves (Suc i) xs)" by auto
    then show "\<exists>k q. k < length (x # xs) \<and> p = dec (i + k) # q \<and> (q, v) \<in> set (leaves ((x # xs) ! k))"
    proof cases
      case 2
      then obtain k q where "k < length xs" "p = dec (Suc i + k) # q" "(q, v) \<in> set (leaves (xs ! k))" using Cons.IH by blast
      then show ?thesis by (intro exI [of _ "Suc k"] exI [of _ q]) simp
    qed (use exI [of _ "0::nat"] in auto)
  next
    assume "\<exists>k q. k < length (x # xs) \<and> p = dec (i + k) # q \<and> (q, v) \<in> set (leaves ((x # xs) ! k))"
    then obtain k q where k: "k < length (x # xs)" "p = dec (i + k) # q" "(q, v) \<in> set (leaves ((x # xs) ! k))" by blast
    show "(p, v) \<in> set (item_leaves i (x # xs))"
    proof (cases k)
      case 0
      with k show ?thesis by force
    next
      case (Suc l)
      then have "(p, v) \<in> set (item_leaves (Suc i) xs)" using k Cons.IH [of "Suc i"] by auto
      then show ?thesis by simp
    qed
  qed
qed simp

lemma member_leaves_iff: "(p, v) \<in> set (member_leaves m) \<longleftrightarrow> (\<exists>k w q. (k, w) \<in> set m \<and> p = k # q \<and> (q, v) \<in> set (leaves w))"
  by (induction m) force+

lemma dec_eq [simp]: "dec i = dec j \<longleftrightarrow> i = j"
  by (metis digits_val_dec)

lemma leaves_array: "xs \<noteq> [] \<Longrightarrow> (p, v) \<in> set (leaves (JArray xs)) \<longleftrightarrow> (\<exists>k q. k < length xs \<and> p = dec k # q \<and> (q, v) \<in> set (leaves (xs ! k)))"
  by (simp add: item_leaves_iff)

lemma leaves_object: "m \<noteq> [] \<Longrightarrow> (p, v) \<in> set (leaves (JObject m)) \<longleftrightarrow> (\<exists>k w q. (k, w) \<in> set m \<and> p = k # q \<and> (q, v) \<in> set (leaves w))"
  by (simp add: member_leaves_iff)

section \<open>Partly built values\<close>

text \<open>
  The value that has been built when the leaves with the pointers \<open>S\<close> have been put in: a container with no such leaf is
  still null, an array ends behind its last such element, an object has the members with such leaves.
\<close>

definition down :: "string \<Rightarrow> pointer set \<Rightarrow> pointer set" where
  "down t S = {p. t # p \<in> S}"

definition touched :: "pointer set \<Rightarrow> json \<Rightarrow> bool" where
  "touched S j \<longleftrightarrow> (\<exists>p\<in>fst ` set (leaves j). p \<in> S)"

fun build :: "pointer set \<Rightarrow> json \<Rightarrow> json"
  and build_items :: "pointer set \<Rightarrow> nat \<Rightarrow> json list \<Rightarrow> json list"
  and build_members :: "pointer set \<Rightarrow> (string \<times> json) list \<Rightarrow> (string \<times> json) list" where
  "build S (JArray xs) = (if xs = [] \<or> \<not> touched S (JArray xs) then JNull else JArray (build_items S 0 xs))"
| "build S (JObject m) = (if m = [] \<or> \<not> touched S (JObject m) then JNull else JObject (build_members S m))"
| "build S j = (if touched S j then j else JNull)"
| "build_items S i [] = []"
| "build_items S i (x # xs) =
     (if build_items S (Suc i) xs = [] \<and> \<not> touched (down (dec i) S) x then []
      else build (down (dec i) S) x # build_items S (Suc i) xs)"
| "build_members S [] = []"
| "build_members S ((k, v) # m) =
     (if touched (down k S) v then (k, build (down k S) v) # build_members S m else build_members S m)"

lemma build_untouched: "\<not> touched S j \<Longrightarrow> build S j = JNull"
  by (cases j) auto

lemma down_insert: "down t (insert (u # p) S) = (if t = u then insert p (down t S) else down t S)"
  by (auto simp: down_def)

lemma touched_insert: "p \<in> fst ` set (leaves j) \<Longrightarrow> touched (insert p S) j"
  by (auto simp: touched_def)

lemma touched_array: "xs \<noteq> [] \<Longrightarrow> touched S (JArray xs) \<longleftrightarrow> (\<exists>k < length xs. touched (down (dec k) S) (xs ! k))"
proof -
  assume a: "xs \<noteq> []"
  have "touched S (JArray xs) \<longleftrightarrow> (\<exists>p v. (p, v) \<in> set (leaves (JArray xs)) \<and> p \<in> S)" by (force simp: touched_def)
  also have "\<dots> \<longleftrightarrow> (\<exists>k < length xs. \<exists>q v. (q, v) \<in> set (leaves (xs ! k)) \<and> dec k # q \<in> S)"
    unfolding leaves_array [OF a] by blast
  finally show ?thesis by (force simp: touched_def down_def)
qed

lemma touched_object: "m \<noteq> [] \<Longrightarrow> touched S (JObject m) \<longleftrightarrow> (\<exists>kv\<in>set m. touched (down (fst kv) S) (snd kv))"
proof -
  assume a: "m \<noteq> []"
  have "touched S (JObject m) \<longleftrightarrow> (\<exists>p v. (p, v) \<in> set (leaves (JObject m)) \<and> p \<in> S)" by (force simp: touched_def)
  also have "\<dots> \<longleftrightarrow> (\<exists>k w. (k, w) \<in> set m \<and> (\<exists>q v. (q, v) \<in> set (leaves w) \<and> k # q \<in> S))"
    unfolding leaves_object [OF a] by blast
  finally show ?thesis by (force simp: touched_def down_def)
qed

lemma build_items_later: "j < i \<Longrightarrow> build_items (insert (dec j # p) S) i xs = build_items S i xs"
  by (induction xs arbitrary: i) (simp_all add: down_insert)

lemma build_items_empty: "build_items S i xs = [] \<longleftrightarrow> (\<forall>k < length xs. \<not> touched (down (dec (i + k)) S) (xs ! k))"
  by (induction xs arbitrary: i) (auto simp: less_Suc_eq_0_disj)

lemma grow_array_Cons: "grow_array (Suc k) (x # xs) = x # grow_array k xs"
  by (simp add: grow_array_def)

lemma grow_array_Nil: "grow_array (Suc k) [] = JNull # grow_array k []"
  by (simp add: grow_array_def)

lemma build_items_nth: "k < length xs \<Longrightarrow> grow_array k (build_items S i xs) ! k = build (down (dec (i + k)) S) (xs ! k)"
proof (induction xs arbitrary: i k)
  case (Cons x xs)
  show ?case
  proof (cases k)
    case 0
    then show ?thesis by (simp add: grow_array_def build_untouched)
  next
    case (Suc l)
    with Cons.IH [of l "Suc i"] Cons.prems show ?thesis by (auto simp: grow_array_Cons grow_array_Nil)
  qed
qed simp

lemma build_items_put:
  "k < length xs \<Longrightarrow> p \<in> fst ` set (leaves (xs ! k)) \<Longrightarrow>
     (grow_array k (build_items S i xs))[k := build (insert p (down (dec (i + k)) S)) (xs ! k)] =
       build_items (insert (dec (i + k) # p) S) i xs"
proof (induction xs arbitrary: i k)
  case (Cons x xs)
  show ?case
  proof (cases k)
    case 0
    with Cons.prems show ?thesis
      by (auto simp: grow_array_def build_items_later down_insert touched_insert)
  next
    case (Suc l)
    let ?S = "insert (dec (i + k) # p) S"
    have l: "(grow_array l (build_items S (Suc i) xs))[l := build (insert p (down (dec (i + k)) S)) (xs ! l)] = build_items ?S (Suc i) xs"
      using Cons.IH [of l "Suc i"] Cons.prems Suc by simp
    moreover have "build_items ?S (Suc i) xs \<noteq> []"
      using Cons.prems Suc touched_insert [of p "xs ! l"] by (auto simp: build_items_empty down_insert intro!: exI [of _ l])
    moreover have "down (dec i) ?S = down (dec i) S" using Suc by (simp add: down_insert)
    ultimately show ?thesis
      using Suc by (auto simp: grow_array_Cons grow_array_Nil build_untouched)
  qed
qed simp

lemma map_put_front: "\<forall>k'\<in>fst ` set m. (k::string) < k' \<Longrightarrow> map_put k v m = (k, v) # m"
  by (cases m) auto

lemma build_members_keys: "fst ` set (build_members S m) \<subseteq> fst ` set m"
proof (induction m)
  case (Cons e m)
  then show ?case by (cases e) (simp; blast)
qed simp

lemma build_members_later: "k \<notin> fst ` set m \<Longrightarrow> build_members (insert (k # p) S) m = build_members S m"
  by (induction m) (auto simp: down_insert)

lemma build_members_put:
  "keys_sorted m \<Longrightarrow> (k, w) \<in> set m \<Longrightarrow> p \<in> fst ` set (leaves w) \<Longrightarrow>
     map_put k (build (insert p (down k S)) w) (build_members S m) = build_members (insert (k # p) S) m"
proof (induction m)
  case (Cons e m)
  obtain a b where e: "e = (a, b)" by (cases e)
  have f: "\<forall>k'\<in>fst ` set (build_members S m). a < k'" 
  proof
    fix k'
    assume "k' \<in> fst ` set (build_members S m)"
    then have "k' \<in> fst ` set m" using build_members_keys [of S m] by blast
    then show "a < k'" using Cons.prems(1) e by auto
  qed
  show ?case
  proof (cases "k = a")
    case True
    then have "b = w" "k \<notin> fst ` set m" using Cons.prems e by force+
    then show ?thesis using True e f Cons.prems(3)
      by (simp add: down_insert touched_insert map_put_front build_members_later)
  next
    case False
    then have "(k, w) \<in> set m" "a < k" using Cons.prems e by force+
    then show ?thesis using False e Cons by (auto simp: down_insert)
  qed
qed simp

lemma build_members_get:
  "keys_sorted m \<Longrightarrow> (k, w) \<in> set m \<Longrightarrow> member_or_null k (build_members S m) = build (down k S) w"
proof (induction m)
  case (Cons e m)
  obtain a b where e: "e = (a, b)" by (cases e)
  have n: "k \<notin> fst ` set m \<Longrightarrow> map_of (build_members S m) k = None"
    using build_members_keys [of S m] by (auto simp: map_of_eq_None_iff)
  show ?case
  proof (cases "k = a")
    case True
    then have "b = w" "k \<notin> fst ` set m" using Cons.prems e by force+
    with n True e show ?thesis by (simp add: member_or_null_def build_untouched)
  next
    case False
    then have "(k, w) \<in> set m" using Cons.prems e by force
    with False e Cons show ?thesis by (simp add: member_or_null_def)
  qed
qed simp

section \<open>One more leaf\<close>

text \<open>Values that can be unflattened: no key is 0, so that only an array's first index makes an array.\<close>

fun flat_json :: "json \<Rightarrow> bool" where
  "flat_json (JArray xs) = (length xs < 2 ^ 64 - 1 \<and> (\<forall>x\<in>set xs. flat_json x))"
| "flat_json (JObject m) = (keys_sorted m \<and> (\<forall>kv\<in>set m. fst kv \<noteq> ''0'' \<and> flat_json (snd kv)))"
| "flat_json _ = True"

text \<open>The arrays on the way to a leaf have been started with their first element, or are started now.\<close>

fun ready :: "pointer set \<Rightarrow> pointer \<Rightarrow> json \<Rightarrow> bool" where
  "ready S (t # p) (JArray xs) =
     ((touched S (JArray xs) \<or> t = ''0'') \<and> (\<forall>k < length xs. t = dec k \<longrightarrow> ready (down t S) p (xs ! k)))"
| "ready S (t # p) (JObject m) = (\<forall>kv\<in>set m. fst kv = t \<longrightarrow> ready (down t S) p (snd kv))"
| "ready S p j = True"

lemma dec_0 [simp]: "dec 0 = ''0''"
  by (simp add: dec.simps digit_char_def)

lemma escape_0 [simp]: "escape ''0'' = ''0''"
  using escaped_index [of 0] by simp

lemma put_leaf:
  "(p, v) \<in> set (leaves j) \<Longrightarrow> flat_json j \<Longrightarrow> ready S p j \<Longrightarrow> put_created p v (build S j) = Inr (build (insert p S) j)"
proof (induction j arbitrary: p S)
  case (JArray xs)
  show ?case
  proof (cases "xs = []")
    case False
    then obtain k q where k: "k < length xs" "p = dec k # q" "(q, v) \<in> set (leaves (xs ! k))"
      using JArray.prems(1) leaves_array by blast
    then have ql: "q \<in> fst ` set (leaves (xs ! k))" by force
    have i: "array_index (dec k) = Inr k" using k(1) JArray.prems(2) by (intro array_index_dec) simp
    have r: "put_created q v (build (down (dec k) S) (xs ! k)) = Inr (build (insert q (down (dec k) S)) (xs ! k))"
      using JArray k by (intro JArray.IH) auto
    have t: "touched (insert p S) (JArray xs)" using JArray.prems(1) by (intro touched_insert) force
    have put: "(grow_array k (build_items S 0 xs))[k := build (insert q (down (dec k) S)) (xs ! k)] = build_items (insert p S) 0 xs"
      using build_items_put [OF k(1) ql, of S 0] k(2) by simp
    show ?thesis
    proof (cases "touched S (JArray xs)")
      case True
      then show ?thesis using False k i r t put build_items_nth [OF k(1), of S 0] by simp
    next
      case untouched: False
      then have "k = 0" using JArray.prems(3) k(2) dec_eq [of k 0] by (simp del: dec_eq)
      moreover have "build_items S 0 xs = []" using untouched False by (simp add: build_items_empty touched_array)
      moreover have "build (down (dec k) S) (xs ! k) = JNull"
        using untouched False k(1) by (intro build_untouched) (simp add: touched_array)
      ultimately show ?thesis using False untouched k(2) r t put by (simp add: grow_array_def)
    qed
  qed (use JArray in simp)
next
  case (JObject m)
  show ?case
  proof (cases "m = []")
    case False
    then obtain k w q where k: "(k, w) \<in> set m" "p = k # q" "(q, v) \<in> set (leaves w)"
      using JObject.prems(1) leaves_object by blast
    then have ql: "q \<in> fst ` set (leaves w)" by force
    have s: "keys_sorted m" "k \<noteq> ''0''" using JObject.prems(2) k(1) by auto
    have r: "put_created q v (build (down k S) w) = Inr (build (insert q (down k S)) w)"
      using JObject k by (intro JObject.IH) (auto simp: snds.simps)
    have t: "touched (insert p S) (JObject m)" using JObject.prems(1) by (intro touched_insert) force
    have put: "map_put k (build (insert q (down k S)) w) (build_members S m) = build_members (insert p S) m"
      using build_members_put [OF s(1) k(1) ql, of S] k(2) by simp
    show ?thesis
    proof (cases "touched S (JObject m)")
      case True
      then show ?thesis using False k r t put build_members_get [OF s(1) k(1), of S] by simp
    next
      case untouched: False
      then have u: "\<forall>kv\<in>set m. \<not> touched (down (fst kv) S) (snd kv)" using touched_object [OF False] by blast
      then have "build_members S m = []" by (induction m) auto
      moreover have "build (down k S) w = JNull" using u k(1) by (intro build_untouched) force
      ultimately show ?thesis using False untouched k(2) r t put s(2) by simp
    qed
  qed (use JObject in simp)
qed (auto simp: touched_def)

text \<open>Once all leaves are in, only the empty containers are missing.\<close>

fun flat_view :: "json \<Rightarrow> json" where
  "flat_view (JArray xs) = (if xs = [] then JNull else JArray (map flat_view xs))"
| "flat_view (JObject m) = (if m = [] then JNull else JObject (map (\<lambda>(k, v). (k, flat_view v)) m))"
| "flat_view j = j"

lemma touched_all: "fst ` set (leaves j) \<subseteq> S \<Longrightarrow> touched S j"
  using leaves_ne(1) [of j] by (cases "leaves j") (auto simp: touched_def)

lemma build_all:
  "fst ` set (leaves j) \<subseteq> S \<Longrightarrow> build S j = flat_view j"
  "fst ` set (item_leaves i xs) \<subseteq> S \<Longrightarrow> build_items S i xs = map flat_view xs"
  "fst ` set (member_leaves m) \<subseteq> S \<Longrightarrow> build_members S m = map (\<lambda>(k, v). (k, flat_view v)) m"
proof (induction j and i xs and m arbitrary: S and S and S rule: leaves_item_leaves_member_leaves.induct)
  case (1 xs)
  then show ?case using touched_all [of "JArray xs" S] by (cases "xs = []") auto
next
  case (2 m)
  then show ?case using touched_all [of "JObject m" S] by (cases "m = []") auto
next
  case (5 i x xs)
  then have "fst ` set (leaves x) \<subseteq> down (dec i) S" by (force simp: down_def)
  with 5 touched_all [of x "down (dec i) S"] show ?case by auto
next
  case (7 k v m)
  then have "fst ` set (leaves v) \<subseteq> down k S" by (force simp: down_def)
  with 7 touched_all [of v "down k S"] show ?case by auto
qed (simp_all add: touched_def)

section \<open>The order of the leaves\<close>

lemma append_less [simp]: "(s @ a :: string) < s @ b \<longleftrightarrow> a < b"
  by (induction s) auto

lemma dec_above_0:
  assumes "k \<noteq> 0"
  shows "''0'' @ a < dec k @ b"
proof (cases k rule: dec_cases)
  case (pos d ds)
  then have "d \<in> set ''123456789''" by (simp add: digit19_def isdigit_def) blast
  then have "CHR ''0'' < d" by (auto simp: less_char_def)
  then show ?thesis by (simp add: pos)
qed (use assms in simp)

definition smaller_in :: "pointer set \<Rightarrow> pointer \<Rightarrow> json \<Rightarrow> bool" where
  "smaller_in S p j \<longleftrightarrow> (\<forall>q v. (q, v) \<in> set (leaves j) \<longrightarrow> to_string q < to_string p \<longrightarrow> q \<in> S)"

lemma smaller_down:
  "smaller_in S (t # p) j \<Longrightarrow> (\<And>q v. (q, v) \<in> set (leaves c) \<Longrightarrow> (t # q, v) \<in> set (leaves j)) \<Longrightarrow> smaller_in (down t S) p c"
  unfolding smaller_in_def down_def
proof (intro allI impI)
  fix q v
  assume s: "\<forall>q v. (q, v) \<in> set (leaves j) \<longrightarrow> to_string q < to_string (t # p) \<longrightarrow> q \<in> S"
    and c: "\<And>q v. (q, v) \<in> set (leaves c) \<Longrightarrow> (t # q, v) \<in> set (leaves j)"
    and q: "(q, v) \<in> set (leaves c)" "to_string q < to_string p"
  have "to_string (t # q) < to_string (t # p)" using q(2) by simp
  with s c [OF q(1)] show "q \<in> {p. t # p \<in> S}" by blast
qed

lemma smaller_ready: "(p, v) \<in> set (leaves j) \<Longrightarrow> flat_json j \<Longrightarrow> smaller_in S p j \<Longrightarrow> ready S p j"
proof (induction j arbitrary: p S)
  case (JArray xs)
  show ?case
  proof (cases "xs = []")
    case False
    then obtain k q where k: "k < length xs" "p = dec k # q" "(q, v) \<in> set (leaves (xs ! k))"
      using JArray.prems(1) leaves_array by blast
    have "touched S (JArray xs) \<or> k = 0"
    proof (cases "k = 0")
      case n: False
      obtain q0 v0 where q0: "(q0, v0) \<in> set (leaves (xs ! 0))" using leaves_ne(1) [of "xs ! 0"] by (cases "leaves (xs ! 0)") auto
      then have "(dec 0 # q0, v0) \<in> set (leaves (JArray xs))" unfolding leaves_array [OF False] using False by blast
      moreover have "to_string (dec 0 # q0) < to_string p" using dec_above_0 [OF n] by (simp add: k(2))
      ultimately have "dec 0 # q0 \<in> S" "dec 0 # q0 \<in> fst ` set (leaves (JArray xs))"
        using JArray.prems(3) unfolding smaller_in_def by (blast, force)
      then show ?thesis unfolding touched_def by blast
    qed simp
    moreover have "smaller_in (down (dec k) S) q (xs ! k)"
      by (rule smaller_down [OF JArray.prems(3) [unfolded k(2)]]) (use k(1) in \<open>unfold leaves_array [OF False], blast\<close>)
    then have "ready (down (dec k) S) q (xs ! k)" using JArray k by (intro JArray.IH) auto
    ultimately show ?thesis using k(2) by auto
  qed (use JArray in simp)
next
  case (JObject m)
  show ?case
  proof (cases "m = []")
    case False
    then obtain k w q where k: "(k, w) \<in> set m" "p = k # q" "(q, v) \<in> set (leaves w)" using JObject.prems(1) leaves_object by blast
    have "smaller_in (down k S) q w"
      by (rule smaller_down [OF JObject.prems(3) [unfolded k(2)]]) (use k(1) in \<open>unfold leaves_object [OF False], blast\<close>)
    then have "ready (down k S) q w" using JObject k by (intro JObject.IH) (auto simp: snds.simps)
    moreover have "w' = w" if "(k, w') \<in> set m" for w'
      using k(1) that JObject.prems(2) keys_sorted_distinct [of m] eq_key_imp_eq_value [of m k w w'] by simp
    ultimately show ?thesis using k(2) by auto
  qed (use JObject in simp)
qed auto

section \<open>The whole\<close>

text \<open>The object has the leaves in the order of the texts of their pointers.\<close>

lemma to_string_inj: "to_string p = to_string q \<longleftrightarrow> p = q"
  by (metis split_to_string sum.inject(2))

lemma leaves_distinct:
  "flat_json j \<Longrightarrow> distinct (map fst (leaves j))"
  "\<forall>x\<in>set xs. flat_json x \<Longrightarrow> distinct (map fst (item_leaves i xs))"
  "keys_sorted m \<Longrightarrow> \<forall>kv\<in>set m. flat_json (snd kv) \<Longrightarrow> distinct (map fst (member_leaves m))"
proof (induction j and i xs and m rule: leaves_item_leaves_member_leaves.induct)
  case (5 i x xs)
  then have "distinct (map fst (map (\<lambda>(p, v). (dec i # p, v)) (leaves x)))"
    by (simp add: comp_def case_prod_unfold distinct_map inj_on_def)
  moreover have "p \<notin> fst ` set (item_leaves (Suc i) xs)" if "p \<in> fst ` set (map (\<lambda>(p, v). (dec i # p, v)) (leaves x))" for p
    using that by (auto simp: item_leaves_iff)
  ultimately show ?case using 5 by auto
next
  case (7 k v m)
  then have "distinct (map fst (map (\<lambda>(p, v). (k # p, v)) (leaves v)))"
    by (simp add: comp_def case_prod_unfold distinct_map inj_on_def)
  moreover have "p \<notin> fst ` set (member_leaves m)" if "p \<in> fst ` set (map (\<lambda>(p, v). (k # p, v)) (leaves v))" for p
    using that 7(3) by (force simp: member_leaves_iff)
  ultimately show ?case using 7 by auto
qed auto

lemma flat_entries:
  assumes "flat_json j"
  shows "keys_sorted (flatten_into [] j [])" and "(k, v) \<in> set (flatten_into [] j []) \<longleftrightarrow> (\<exists>p. k = to_string p \<and> (p, v) \<in> set (leaves j))"
proof -
  let ?e = "entries [] (leaves j)"
  have m: "flatten_into [] j [] = tsm.put_all ?e []" by (simp add: flatten_leaves)
  show s: "keys_sorted (flatten_into [] j [])" unfolding m by (rule tsm.invar_put_all) simp
  have d: "distinct (map fst ?e)"
    using leaves_distinct(1) [OF assms] by (simp add: comp_def case_prod_unfold distinct_map inj_on_def to_string_inj)
  then have d': "distinct (map fst (rev ?e))" by (simp only: rev_map [symmetric] distinct_rev)
  have "map_of (flatten_into [] j []) = map_of (rev ?e)" unfolding m by (simp add: tsm.find_put_all)
  then have "(k, v) \<in> set (flatten_into [] j []) \<longleftrightarrow> (k, v) \<in> set (rev ?e)"
    using map_of_eq_Some_iff [OF keys_sorted_distinct [OF s]] map_of_eq_Some_iff [OF d'] by metis
  then show "(k, v) \<in> set (flatten_into [] j []) \<longleftrightarrow> (\<exists>p. k = to_string p \<and> (p, v) \<in> set (leaves j))" by force
qed

lemma unflatten_rest:
  assumes "flat_json j" and m: "keys_sorted (m1 @ m2)" "\<And>k v. (k, v) \<in> set (m1 @ m2) \<longleftrightarrow> (\<exists>p. k = to_string p \<and> (p, v) \<in> set (leaves j))"
  shows "unflatten_members m2 (build {p. to_string p \<in> fst ` set m1} j) = Inr (build {p. to_string p \<in> fst ` set (m1 @ m2)} j)"
  using m
proof (induction m2 arbitrary: m1)
  case (Cons e m2)
  obtain k v where e: "e = (k, v)" by (cases e)
  then obtain p where p: "k = to_string p" "(p, v) \<in> set (leaves j)" using Cons.prems(2) [of k v] by auto
  let ?S = "{p. to_string p \<in> fst ` set m1}"
  have "smaller_in ?S p j" unfolding smaller_in_def
  proof (intro allI impI)
    fix q w
    assume q: "(q, w) \<in> set (leaves j)" "to_string q < to_string p"
    then have "(to_string q, w) \<in> set (m1 @ e # m2)" using Cons.prems(2) by blast
    moreover have "(to_string q, w) \<notin> set (e # m2)"
      using Cons.prems(1) q(2) by (auto simp: e p(1) keys_sorted_def sorted_wrt_append)
    ultimately show "q \<in> ?S" by force
  qed
  from put_leaf [OF p(2) assms(1) smaller_ready [OF p(2) assms(1) this]]
  have "put_created p v (build ?S j) = Inr (build (insert p ?S) j)" .
  moreover have "insert p ?S = {p. to_string p \<in> fst ` set (m1 @ [e])}" by (auto simp: e p(1) to_string_inj)
  moreover have "unflatten_members m2 (build {p. to_string p \<in> fst ` set (m1 @ [e])} j)
      = Inr (build {p. to_string p \<in> fst ` set ((m1 @ [e]) @ m2)} j)"
    by (rule Cons.IH) (use Cons.prems in auto)
  ultimately show ?case using leaves_primitive(1) [OF p(2)] by (simp add: e p(1) split_to_string)
qed simp

section \<open>Properties\<close>

text \<open>C12. Unflattening undoes flattening: for a value without the key 0 the original comes back from its flat object, with a null
  for every empty container, although the members of the flat object come in the order of their texts, in which the
  element 10 of an array is before the element 2.\<close>

theorem unflatten_flatten:
  assumes "flat_json j"
  shows "unflatten (flatten j) = Inr (flat_view j)"
proof -
  let ?m = "flatten_into [] j []"
  have "build {} j = JNull" by (rule build_untouched) (simp add: touched_def)
  then have "unflatten_members ?m JNull = Inr (build {p. to_string p \<in> fst ` set ?m} j)"
    using unflatten_rest [of j "[]" ?m] assms flat_entries [OF assms] by simp
  moreover have "fst ` set (leaves j) \<subseteq> {p. to_string p \<in> fst ` set ?m}"
  proof
    fix p
    assume "p \<in> fst ` set (leaves j)"
    then obtain v where "(p, v) \<in> set (leaves j)" by force
    then have "(to_string p, v) \<in> set ?m" using flat_entries(2) [OF assms] by blast
    then show "p \<in> {p. to_string p \<in> fst ` set ?m}" by force
  qed
  ultimately show ?thesis using build_all(1) by (simp add: flatten_def unflatten_def)
qed

theorem unflatten_flatten_witness:
  "unflatten (flatten (JObject [(''a/b'', JArray [JNull, JObject [(''x'', JUnsigned 1)], JArray []]), (''c'', JString ''s'')])) =
     Inr (JObject [(''a/b'', JArray [JNull, JObject [(''x'', JUnsigned 1)], JNull]), (''c'', JString ''s'')])"
proof -
  let ?j = "JObject [(''a/b'', JArray [JNull, JObject [(''x'', JUnsigned 1)], JArray []]), (''c'', JString ''s'')]"
  have "flat_json ?j" by (simp add: less_char_def)
  from unflatten_flatten [OF this] show ?thesis by simp
qed

text \<open>With the key 0 the object comes back as an array.\<close>

lemma unflatten_key_0: "unflatten (flatten (JObject [(''0'', JBool True)])) = Inr (JArray [JBool True])"
proof -
  have "split ''/0'' = Inr [''0'']" using split_to_string [of "[''0'']"] by simp
  then show ?thesis by (simp add: flatten_def unflatten_def is_primitive_def)
qed


end
