(* ===== verification/JsonIterator.thy ===== *)
theory JsonIterator
  imports JsonPointer
begin

text \<open>
  The iterators of \<open>include/nlohmann/json.hpp\<close>: \<open>iter_impl\<close>, which goes over the elements of an array, the members of an
  object or the one value of a primitive type, its reverse, and the proxy behind \<open>items()\<close> with its cached index text.

  An iterator holds the identity of the value that it belongs to, \<open>None\<close> being the null pointer, and a position: the number of
  the element, or the counter of \<open>primitive_iterator_t\<close>. The value itself is an argument of the operations. Moving an array
  or object iterator out of the value is undefined.

  The lemmas show that a loop from \<open>begin()\<close> to \<open>end()\<close>, in either direction, meets every element once and in order.
\<close>

section \<open>Positions\<close>

record iter =
  m_object :: "nat option"
  m_it :: int

abbreviation json_throw :: "json_exn \<Rightarrow> json_fail + 'a" where
  "json_throw e \<equiv> Inl (Jexn e)"

abbreviation undefined_access :: "json_fail + 'a" where
  "undefined_access \<equiv> Inl (Jfault OverRead)"

definition initialized :: "iter \<Rightarrow> (json_fail + 'a) \<Rightarrow> json_fail + 'a" where
  "initialized it f = (if m_object it = None then Inl (Jfault AssertionFailed) else f)"

text \<open>How many positions there are: elements, members, or the one of a primitive value.\<close>

definition end_position :: "json \<Rightarrow> int" where
  "end_position j = (case j of JArray xs \<Rightarrow> int (length xs) | JObject m \<Rightarrow> int (length m) | _ \<Rightarrow> 1)"

definition set_begin :: "json \<Rightarrow> iter \<Rightarrow> json_fail + iter" where
  "set_begin j it = initialized it (Inr (it\<lparr>m_it := (if j = JNull then 1 else 0)\<rparr>))"

definition set_end :: "json \<Rightarrow> iter \<Rightarrow> json_fail + iter" where
  "set_end j it = initialized it (Inr (it\<lparr>m_it := end_position j\<rparr>))"

definition json_begin :: "nat \<Rightarrow> json \<Rightarrow> iter" where
  "json_begin this j = \<lparr>m_object = Some this, m_it = (if j = JNull then 1 else 0)\<rparr>"

definition json_end :: "nat \<Rightarrow> json \<Rightarrow> iter" where
  "json_end this j = \<lparr>m_object = Some this, m_it = end_position j\<rparr>"

text \<open>\<open>std::advance\<close> of a container's iterator, and of the counter.\<close>

definition is_container :: "json \<Rightarrow> bool" where
  "is_container j = (case j of JArray _ \<Rightarrow> True | JObject _ \<Rightarrow> True | _ \<Rightarrow> False)"

definition advance :: "json \<Rightarrow> int \<Rightarrow> iter \<Rightarrow> json_fail + iter" where
  "advance j n it =
     (if is_container j \<and> \<not> (0 \<le> m_it it + n \<and> m_it it + n \<le> end_position j) then undefined_access
      else Inr (it\<lparr>m_it := m_it it + n\<rparr>))"

section \<open>Operators\<close>

definition iter_deref :: "json \<Rightarrow> iter \<Rightarrow> json_fail + json" where
  "iter_deref j it = initialized it
     (case j of
        JObject m \<Rightarrow>
          if m_it it = int (length m) then Inl (Jfault AssertionFailed)
          else if 0 \<le> m_it it \<and> m_it it < int (length m) then Inr (snd (m ! nat (m_it it))) else undefined_access
      | JArray xs \<Rightarrow>
          if m_it it = int (length xs) then Inl (Jfault AssertionFailed)
          else if 0 \<le> m_it it \<and> m_it it < int (length xs) then Inr (xs ! nat (m_it it)) else undefined_access
      | JNull \<Rightarrow> json_throw (Invalid_iterator 214)
      | _ \<Rightarrow> if m_it it = 0 then Inr j else json_throw (Invalid_iterator 214))"

text \<open>\<open>operator->\<close> treats null as the primitive types.\<close>

definition iter_arrow :: "json \<Rightarrow> iter \<Rightarrow> json_fail + json" where
  "iter_arrow j it = initialized it
     (if is_container j then iter_deref j it
      else if m_it it = 0 then Inr j else json_throw (Invalid_iterator 214))"

definition iter_inc :: "json \<Rightarrow> iter \<Rightarrow> json_fail + iter" where
  "iter_inc j it = initialized it (advance j 1 it)"

definition iter_dec :: "json \<Rightarrow> iter \<Rightarrow> json_fail + iter" where
  "iter_dec j it = initialized it (advance j (- 1) it)"

definition iter_post_inc :: "json \<Rightarrow> iter \<Rightarrow> json_fail + (iter \<times> iter)" where
  "iter_post_inc j it = res_bind (iter_inc j it) (\<lambda>it'. Inr (it, it'))"

definition iter_post_dec :: "json \<Rightarrow> iter \<Rightarrow> json_fail + (iter \<times> iter)" where
  "iter_post_dec j it = res_bind (iter_dec j it) (\<lambda>it'. Inr (it, it'))"

definition iter_eq :: "iter \<Rightarrow> iter \<Rightarrow> json_fail + bool" where
  "iter_eq it other =
     (if m_object it \<noteq> m_object other then json_throw (Invalid_iterator 212)
      else initialized it (Inr (m_it it = m_it other)))"

definition iter_neq :: "iter \<Rightarrow> iter \<Rightarrow> json_fail + bool" where
  "iter_neq it other = res_bind (iter_eq it other) (\<lambda>b. Inr (\<not> b))"

definition iter_less :: "json \<Rightarrow> iter \<Rightarrow> iter \<Rightarrow> json_fail + bool" where
  "iter_less j it other =
     (if m_object it \<noteq> m_object other then json_throw (Invalid_iterator 212)
      else initialized it
        (case j of JObject _ \<Rightarrow> json_throw (Invalid_iterator 213) | _ \<Rightarrow> Inr (m_it it < m_it other)))"

definition iter_le :: "json \<Rightarrow> iter \<Rightarrow> iter \<Rightarrow> json_fail + bool" where
  "iter_le j it other = res_bind (iter_less j other it) (\<lambda>b. Inr (\<not> b))"

definition iter_greater :: "json \<Rightarrow> iter \<Rightarrow> iter \<Rightarrow> json_fail + bool" where
  "iter_greater j it other = res_bind (iter_le j it other) (\<lambda>b. Inr (\<not> b))"

definition iter_ge :: "json \<Rightarrow> iter \<Rightarrow> iter \<Rightarrow> json_fail + bool" where
  "iter_ge j it other = res_bind (iter_less j it other) (\<lambda>b. Inr (\<not> b))"

definition iter_plus :: "json \<Rightarrow> int \<Rightarrow> iter \<Rightarrow> json_fail + iter" where
  "iter_plus j i it = initialized it
     (case j of JObject _ \<Rightarrow> json_throw (Invalid_iterator 209) | _ \<Rightarrow> advance j i it)"

definition iter_minus :: "json \<Rightarrow> int \<Rightarrow> iter \<Rightarrow> json_fail + iter" where
  "iter_minus j i it = iter_plus j (- i) it"

text \<open>The difference does not compare the objects: between different arrays it is undefined.\<close>

definition iter_diff :: "json \<Rightarrow> iter \<Rightarrow> iter \<Rightarrow> json_fail + int" where
  "iter_diff j it other = initialized it
     (case j of
        JObject _ \<Rightarrow> json_throw (Invalid_iterator 209)
      | JArray _ \<Rightarrow> if m_object it \<noteq> m_object other then undefined_access else Inr (m_it it - m_it other)
      | _ \<Rightarrow> Inr (m_it it - m_it other))"

definition iter_index :: "json \<Rightarrow> int \<Rightarrow> iter \<Rightarrow> json_fail + json" where
  "iter_index j n it = initialized it
     (case j of
        JObject _ \<Rightarrow> json_throw (Invalid_iterator 208)
      | JArray xs \<Rightarrow>
          if 0 \<le> m_it it + n \<and> m_it it + n < int (length xs) then Inr (xs ! nat (m_it it + n)) else undefined_access
      | JNull \<Rightarrow> json_throw (Invalid_iterator 214)
      | _ \<Rightarrow> if m_it it = - n then Inr j else json_throw (Invalid_iterator 214))"

definition iter_key :: "json \<Rightarrow> iter \<Rightarrow> json_fail + string" where
  "iter_key j it = initialized it
     (case j of
        JObject m \<Rightarrow> if 0 \<le> m_it it \<and> m_it it < int (length m) then Inr (fst (m ! nat (m_it it))) else undefined_access
      | _ \<Rightarrow> json_throw (Invalid_iterator 207))"

definition iter_value :: "json \<Rightarrow> iter \<Rightarrow> json_fail + json" where
  "iter_value j it = iter_deref j it"

section \<open>Reverse iterators\<close>

text \<open>A reverse iterator holds the iterator one element further on.\<close>

definition json_rbegin :: "nat \<Rightarrow> json \<Rightarrow> iter" where
  "json_rbegin this j = json_end this j"

definition json_rend :: "nat \<Rightarrow> json \<Rightarrow> iter" where
  "json_rend this j = json_begin this j"

definition rev_inc :: "json \<Rightarrow> iter \<Rightarrow> json_fail + iter" where
  "rev_inc j base = iter_dec j base"

definition rev_dec :: "json \<Rightarrow> iter \<Rightarrow> json_fail + iter" where
  "rev_dec j base = iter_inc j base"

definition rev_plus :: "json \<Rightarrow> int \<Rightarrow> iter \<Rightarrow> json_fail + iter" where
  "rev_plus j i base = iter_minus j i base"

definition rev_minus :: "json \<Rightarrow> int \<Rightarrow> iter \<Rightarrow> json_fail + iter" where
  "rev_minus j i base = iter_plus j i base"

definition rev_deref :: "json \<Rightarrow> iter \<Rightarrow> json_fail + json" where
  "rev_deref j base = res_bind (iter_dec j base) (iter_deref j)"

definition rev_diff :: "json \<Rightarrow> iter \<Rightarrow> iter \<Rightarrow> json_fail + int" where
  "rev_diff j base other = iter_diff j other base"

definition rev_index :: "json \<Rightarrow> int \<Rightarrow> iter \<Rightarrow> json_fail + json" where
  "rev_index j n base = res_bind (rev_plus j n base) (rev_deref j)"

definition rev_key :: "json \<Rightarrow> iter \<Rightarrow> json_fail + string" where
  "rev_key j base = res_bind (iter_dec j base) (iter_key j)"

definition rev_value :: "json \<Rightarrow> iter \<Rightarrow> json_fail + json" where
  "rev_value j base = res_bind (iter_dec j base) (iter_deref j)"

section \<open>The proxy of \<open>items()\<close>\<close>

record proxy =
  anchor :: iter
  array_index_p :: nat
  array_index_last :: nat
  array_index_str :: string

definition proxy_of :: "iter \<Rightarrow> proxy" where
  "proxy_of it = \<lparr>anchor = it, array_index_p = 0, array_index_last = 0, array_index_str = ''0''\<rparr>"

definition proxy_inc :: "json \<Rightarrow> proxy \<Rightarrow> json_fail + proxy" where
  "proxy_inc j p = res_bind (iter_inc j (anchor p)) (\<lambda>it. Inr (p\<lparr>anchor := it, array_index_p := (array_index_p p + 1) mod 2 ^ 64\<rparr>))"

definition proxy_neq :: "proxy \<Rightarrow> proxy \<Rightarrow> json_fail + bool" where
  "proxy_neq p q = iter_neq (anchor p) (anchor q)"

text \<open>The key, with the text of the index made only when the index has changed.\<close>

definition proxy_key :: "json \<Rightarrow> proxy \<Rightarrow> json_fail + (string \<times> proxy)" where
  "proxy_key j p = initialized (anchor p)
     (case j of
        JArray _ \<Rightarrow>
          (let p = (if array_index_p p \<noteq> array_index_last p
                    then p\<lparr>array_index_str := dec (array_index_p p), array_index_last := array_index_p p\<rparr> else p)
           in Inr (array_index_str p, p))
      | JObject _ \<Rightarrow> res_bind (iter_key j (anchor p)) (\<lambda>k. Inr (k, p))
      | _ \<Rightarrow> Inr ([], p))"

definition proxy_value :: "json \<Rightarrow> proxy \<Rightarrow> json_fail + json" where
  "proxy_value j p = iter_value j (anchor p)"

section \<open>Loops\<close>

text \<open>
  A loop over a value, \<open>for (auto it = j.begin (); it != j.end (); ++it)\<close>, that collects what it meets, the same with reverse
  iterators, and over \<open>items()\<close>: \<open>None\<close> if it has not ended after the given number of tests.
\<close>

fun collect :: "(json \<Rightarrow> 'i \<Rightarrow> json_fail + bool) \<Rightarrow> (json \<Rightarrow> 'i \<Rightarrow> json_fail + 'a \<times> 'i) \<Rightarrow> nat \<Rightarrow> json \<Rightarrow> 'i \<Rightarrow> (json_fail + 'a list) option" where
  "collect go step 0 j it = None"
| "collect go step (Suc n) j it =
     (case go j it of
        Inl e \<Rightarrow> Some (Inl e)
      | Inr b \<Rightarrow> if \<not> b then Some (Inr [])
                 else (case step j it of
                   Inl e \<Rightarrow> Some (Inl e)
                 | Inr (x, it) \<Rightarrow> map_option (\<lambda>r. res_bind r (\<lambda>xs. Inr (x # xs))) (collect go step n j it)))"

definition loop_values :: "nat \<Rightarrow> nat \<Rightarrow> json \<Rightarrow> (json_fail + json list) option" where
  "loop_values n this j =
     collect (\<lambda>j it. iter_neq it (json_end this j))
       (\<lambda>j it. res_bind (iter_deref j it) (\<lambda>x. res_bind (iter_inc j it) (\<lambda>it. Inr (x, it)))) n j (json_begin this j)"

definition loop_reverse :: "nat \<Rightarrow> nat \<Rightarrow> json \<Rightarrow> (json_fail + json list) option" where
  "loop_reverse n this j =
     collect (\<lambda>j it. iter_neq it (json_rend this j))
       (\<lambda>j it. res_bind (rev_deref j it) (\<lambda>x. res_bind (rev_inc j it) (\<lambda>it. Inr (x, it)))) n j (json_rbegin this j)"

definition loop_items :: "nat \<Rightarrow> nat \<Rightarrow> json \<Rightarrow> (json_fail + (string \<times> json) list) option" where
  "loop_items n this j =
     collect (\<lambda>j p. proxy_neq p (proxy_of (json_end this j)))
       (\<lambda>j p. res_bind (proxy_key j p) (\<lambda>(k, p). res_bind (proxy_value j p) (\<lambda>x. res_bind (proxy_inc j p) (\<lambda>p.
         Inr ((k, x), p))))) n j (proxy_of (json_begin this j))"

section \<open>Every element once\<close>

text \<open>What a loop is over.\<close>

definition json_elements :: "json \<Rightarrow> json list" where
  "json_elements j = (case j of JNull \<Rightarrow> [] | JArray xs \<Rightarrow> xs | JObject m \<Rightarrow> map snd m | _ \<Rightarrow> [j])"

definition json_keys :: "json \<Rightarrow> string list" where
  "json_keys j = (case j of JNull \<Rightarrow> [] | JArray xs \<Rightarrow> map dec [0..<length xs] | JObject m \<Rightarrow> map fst m | _ \<Rightarrow> [[]])"

text \<open>A loop whose state is a number below the number of rounds.\<close>

lemma collect_all:
  assumes "\<And>i. i \<le> n \<Longrightarrow> go j (st i) = Inr (i \<noteq> n)" and "\<And>i. i < n \<Longrightarrow> step j (st i) = Inr (f i, st (Suc i))"
  shows "i \<le> n \<Longrightarrow> n - i < m \<Longrightarrow> collect go step m j (st i) = Some (Inr (map f [i..<n]))"
proof (induction m arbitrary: i)
  case (Suc m)
  show ?case
  proof (cases "i = n")
    case False
    with Suc have "collect go step m j (st (Suc i)) = Some (Inr (map f [Suc i..<n]))" by simp
    moreover have "[i..<n] = i # [Suc i..<n]" using False Suc.prems by (simp add: upt_conv_Cons)
    ultimately show ?thesis using False Suc.prems assms [of i] by simp
  qed (use assms(1) in simp)
qed simp

text \<open>The position of the round \<open>i\<close>; null starts at its end.\<close>

definition first_position :: "json \<Rightarrow> int" where
  "first_position j = (if j = JNull then 1 else 0)"

lemma elements_count: "end_position j = first_position j + int (length (json_elements j))"
  by (cases j) (simp_all add: end_position_def first_position_def json_elements_def)

definition iter_at :: "nat \<Rightarrow> json \<Rightarrow> nat \<Rightarrow> iter" where
  "iter_at this j i = \<lparr>m_object = Some this, m_it = first_position j + int i\<rparr>"

lemma iter_at_simps [simp]: "m_object (iter_at this j i) = Some this" "m_it (iter_at this j i) = first_position j + int i"
  by (simp_all add: iter_at_def)

lemma iter_ends: "json_begin this j = iter_at this j 0" "json_end this j = iter_at this j (length (json_elements j))"
  using elements_count [of j] by (simp_all add: iter_at_def json_begin_def json_end_def first_position_def)

lemma iter_steps:
  assumes "i < length (json_elements j)"
  shows "iter_deref j (iter_at this j i) = Inr (json_elements j ! i)"
    and "iter_inc j (iter_at this j i) = Inr (iter_at this j (Suc i))"
    and "iter_dec j (iter_at this j (Suc i)) = Inr (iter_at this j i)"
  using assms
  by (cases j; simp add: iter_at_def iter_deref_def iter_inc_def iter_dec_def initialized_def advance_def first_position_def json_elements_def
      is_container_def end_position_def)+

lemma iter_neq_at: "iter_neq (iter_at this j i) (iter_at this j k) = Inr (i \<noteq> k)"
  by (simp add: iter_neq_def iter_eq_def initialized_def)

lemma loop_values_all:
  "length (json_elements j) < n \<Longrightarrow> loop_values n this j = Some (Inr (json_elements j))"
  unfolding loop_values_def iter_ends
  using collect_all [of "length (json_elements j)" "\<lambda>j it. iter_neq it (iter_at this j (length (json_elements j)))" j "iter_at this j"
      "\<lambda>j it. res_bind (iter_deref j it) (\<lambda>x. res_bind (iter_inc j it) (\<lambda>it. Inr (x, it)))" "(!) (json_elements j)" 0 n]
  by (simp add: iter_neq_at iter_steps map_nth)

lemma rev_steps:
  assumes "i < length (json_elements j)"
  shows "rev_deref j (iter_at this j (length (json_elements j) - i)) = Inr (rev (json_elements j) ! i)"
    and "rev_inc j (iter_at this j (length (json_elements j) - i)) = Inr (iter_at this j (length (json_elements j) - Suc i))"
proof -
  let ?k = "length (json_elements j) - Suc i"
  have k: "length (json_elements j) - i = Suc ?k" "?k < length (json_elements j)" using assms by simp_all
  show "rev_inc j (iter_at this j (length (json_elements j) - i)) = Inr (iter_at this j ?k)"
    unfolding rev_inc_def k(1) by (rule iter_steps(3) [OF k(2)])
  show "rev_deref j (iter_at this j (length (json_elements j) - i)) = Inr (rev (json_elements j) ! i)"
    unfolding rev_deref_def k(1) iter_steps(3) [OF k(2)] using iter_steps(1) [OF k(2)] assms by (simp add: rev_nth)
qed

lemma loop_reverse_all:
  assumes "length (json_elements j) < n"
  shows "loop_reverse n this j = Some (Inr (rev (json_elements j)))"
proof -
  let ?l = "length (json_elements j)"
  have "collect (\<lambda>j it. iter_neq it (iter_at this j 0))
      (\<lambda>j it. res_bind (rev_deref j it) (\<lambda>x. res_bind (rev_inc j it) (\<lambda>it. Inr (x, it)))) n j (iter_at this j (?l - 0)) =
    Some (Inr (map ((!) (rev (json_elements j))) [0..<?l]))"
    by (rule collect_all) (use assms in \<open>auto simp: iter_neq_at rev_steps\<close>)
  then show ?thesis
    using map_nth [of "rev (json_elements j)"] by (simp add: loop_reverse_def json_rbegin_def json_rend_def iter_ends)
qed

text \<open>The state of the proxy at round \<open>i\<close>: the cached text is that of the round before.\<close>

definition proxy_at :: "nat \<Rightarrow> json \<Rightarrow> nat \<Rightarrow> proxy" where
  "proxy_at this j i =
     (let last = (case j of JArray _ \<Rightarrow> i - 1 | _ \<Rightarrow> 0)
      in \<lparr>anchor = iter_at this j i, array_index_p = i, array_index_last = last, array_index_str = dec last\<rparr>)"

lemma dec_zero: "dec 0 = ''0''"
  by (simp add: dec.simps digit_char_def)

lemma proxy_step:
  assumes "i < length (json_elements j)" and "length (json_elements j) < 2 ^ 64"
  shows "res_bind (proxy_key j (proxy_at this j i)) (\<lambda>(k, p). res_bind (proxy_value j p) (\<lambda>x. res_bind (proxy_inc j p) (\<lambda>p.
      Inr ((k, x), p)))) = Inr ((json_keys j ! i, json_elements j ! i), proxy_at this j (Suc i))"
proof -
  have d: "iter_value j (iter_at this j i) = Inr (json_elements j ! i)" using iter_steps(1) [OF assms(1)] by (simp add: iter_value_def)
  note s = d iter_steps(2) [OF assms(1), of this]
  show ?thesis
  proof (cases j)
    case (JArray xs)
    then show ?thesis using assms s
      by (cases i) (simp_all add: proxy_at_def proxy_key_def proxy_value_def proxy_inc_def initialized_def json_keys_def json_elements_def Let_def)
  next
    case (JObject m)
    then have "iter_key j (iter_at this j i) = Inr (fst (m ! i))"
      using assms(1) by (simp add: iter_key_def initialized_def json_elements_def first_position_def)
    with JObject show ?thesis using assms s
      by (simp add: proxy_at_def proxy_key_def proxy_value_def proxy_inc_def initialized_def json_keys_def json_elements_def Let_def)
  qed (use assms s in \<open>simp_all add: proxy_at_def proxy_key_def proxy_value_def proxy_inc_def initialized_def json_keys_def
      json_elements_def Let_def\<close>)
qed

lemma keys_length: "length (json_keys j) = length (json_elements j)"
  by (cases j) (simp_all add: json_keys_def json_elements_def)

lemma loop_items_all:
  assumes "length (json_elements j) < n" and "length (json_elements j) < 2 ^ 64"
  shows "loop_items n this j = Some (Inr (zip (json_keys j) (json_elements j)))"
proof -
  let ?l = "length (json_elements j)"
  have neq: "proxy_neq (proxy_at this j i) (proxy_of (json_end this j)) = Inr (i \<noteq> ?l)" for i
    unfolding proxy_neq_def proxy_at_def proxy_of_def Let_def iter_ends by (simp add: iter_neq_at)
  have "collect (\<lambda>j p. proxy_neq p (proxy_of (json_end this j)))
      (\<lambda>j p. res_bind (proxy_key j p) (\<lambda>(k, p). res_bind (proxy_value j p) (\<lambda>x. res_bind (proxy_inc j p) (\<lambda>p.
         Inr ((k, x), p))))) n j (proxy_at this j 0) = Some (Inr (map (\<lambda>i. (json_keys j ! i, json_elements j ! i)) [0..<?l]))"
    by (rule collect_all) (rule neq, erule proxy_step [OF _ assms(2)], use assms(1) in simp_all)
  moreover have "proxy_at this j 0 = proxy_of (json_begin this j)"
    by (simp add: proxy_at_def proxy_of_def iter_ends dec_zero split: json.splits)
  moreover have "map (\<lambda>i. (json_keys j ! i, json_elements j ! i)) [0..<?l] = zip (json_keys j) (json_elements j)"
    by (rule nth_equalityI) (simp_all add: keys_length)
  ultimately show ?thesis by (simp add: loop_items_def)
qed

section \<open>Properties\<close>

text \<open>C27. Loops over a value meet its elements exactly once each: forwards in order, backwards in the opposite order, and over
  \<open>items()\<close> with their names or the decimal texts of their indices; a null has no elements, any other primitive value is
  its own one. No loop meets an exception or an undefined access, and one test more than there are elements ends it.\<close>

theorem loops_meet_every_element:
  assumes "length (json_elements j) < n" and "n \<le> 2 ^ 64"
  shows "loop_values n this j = Some (Inr (json_elements j))
    \<and> loop_reverse n this j = Some (Inr (rev (json_elements j)))
    \<and> loop_items n this j = Some (Inr (zip (json_keys j) (json_elements j)))"
  using assms by (simp add: loop_values_all loop_reverse_all loop_items_all)

theorem loops_meet_every_element_witness:
  "loop_items 3 0 (JArray [JNull, JBool True]) = Some (Inr [(''0'', JNull), (''1'', JBool True)])"
  using loops_meet_every_element [of "JArray [JNull, JBool True]" 3 0]
  by (simp add: json_elements_def json_keys_def upt_rec dec.simps digit_char_def)

end
