(* ===== verification/BinaryFormat.thy ===== *)
theory BinaryFormat
  imports JsonCompare
begin

text \<open>
  What the binary formats of \<open>include/nlohmann/json.hpp\<close> share: numbers of one to eight bytes in big-endian order, runs of
  bytes, and the conversions between \<open>double\<close> and \<open>float\<close> with which \<open>write_compact_float\<close> saves four bytes.

  Bytes are characters. The input that is left is threaded through the reading functions; the end of the input is parse
  error 110. \<open>Discarded\<close> is the result of a reader that gives up without an exception: the value is a discarded one. The recursive readers count down a fuel that stands for the depth of calls; \<open>No_fuel\<close> never is the result
  of the public functions, which start with more fuel than there are bytes.
\<close>

unbundle bit_operations_syntax

datatype bin_fail = Bexn json_exn | Discarded | No_fuel

type_synonym 'a reader = "string \<Rightarrow> bin_fail + 'a \<times> string"

text \<open>The largest array and object that an announced length is compared with, \<open>max_size()\<close>.\<close>

definition MAX_ARRAY :: nat where "MAX_ARRAY = (2 ^ 63 - 1) div 16"
definition MAX_OBJECT :: nat where "MAX_OBJECT = (2 ^ 63 - 1) div 80"

text \<open>The value \<open>static_cast<std::size_t>(-1)\<close>, which stands for an unknown length.\<close>

definition UNKNOWN :: nat where "UNKNOWN = 2 ^ 64 - 1"

section \<open>Numbers\<close>

text \<open>The bytes of a number in memory, least significant first; they are written in reverse.\<close>

fun le_bytes :: "nat \<Rightarrow> nat \<Rightarrow> string" where
  "le_bytes 0 n = []"
| "le_bytes (Suc k) n = char_of (n mod 256) # le_bytes k (n div 256)"

fun le_val :: "string \<Rightarrow> nat" where
  "le_val [] = 0"
| "le_val (c # cs) = byte_of c + 256 * le_val cs"

definition write_number :: "nat \<Rightarrow> nat \<Rightarrow> string" where
  "write_number k n = rev (le_bytes k n)"

text \<open>A negative number is written as its two's complement.\<close>

definition write_signed :: "nat \<Rightarrow> int \<Rightarrow> string" where
  "write_signed k i = write_number k (nat (i mod 2 ^ (8 * k)))"

text \<open>\<open>get\<close> and \<open>unexpect_eof\<close> for one byte, and the loops of \<open>get_string\<close> and \<open>get_binary\<close>.\<close>

definition get_byte :: "char reader" where
  "get_byte inp = (case inp of [] \<Rightarrow> Inl (Bexn (Parse_error 110)) | c # r \<Rightarrow> Inr (c, r))"

lemma get_byte_Cons [simp]: "get_byte (c # r) = Inr (c, r)"
  by (simp add: get_byte_def)

fun get_bytes :: "nat \<Rightarrow> string reader" where
  "get_bytes 0 inp = Inr ([], inp)"
| "get_bytes (Suc n) inp =
     res_bind (get_byte inp) (\<lambda>(c, r). res_bind (get_bytes n r) (\<lambda>(cs, r'). Inr (c # cs, r')))"

text \<open>The bytes fill the array from its end, and the array is the number in memory.\<close>

definition get_number :: "nat \<Rightarrow> nat reader" where
  "get_number k inp = res_bind (get_bytes k inp) (\<lambda>(cs, r). Inr (le_val (rev cs), r))"

definition to_signed :: "nat \<Rightarrow> nat \<Rightarrow> int" where
  "to_signed k n = (if n < 2 ^ (8 * k - 1) then int n else int n - 2 ^ (8 * k))"

definition get_signed :: "nat \<Rightarrow> int reader" where
  "get_signed k inp = res_bind (get_number k inp) (\<lambda>(n, r). Inr (to_signed k n, r))"

text \<open>BSON has its numbers in little-endian order.\<close>

definition get_number_le :: "nat \<Rightarrow> nat reader" where
  "get_number_le k inp = res_bind (get_bytes k inp) (\<lambda>(cs, r). Inr (le_val cs, r))"

definition get_signed_le :: "nat \<Rightarrow> int reader" where
  "get_signed_le k inp = res_bind (get_number_le k inp) (\<lambda>(n, r). Inr (to_signed k n, r))"

text \<open>A run of bytes behind its length.\<close>

definition get_sized :: "nat \<Rightarrow> string reader" where
  "get_sized k inp = res_bind (get_number k inp) (\<lambda>(len, r). get_bytes len r)"

lemma length_le_bytes [simp]: "length (le_bytes k n) = k"
  by (induction k arbitrary: n) auto

lemma le_val_bytes: "le_val (le_bytes k n) = n mod 256 ^ k"
proof (induction k arbitrary: n)
  case (Suc k)
  have "n mod (256 * 256 ^ k) = 256 * (n div 256 mod 256 ^ k) + n mod 256" by (rule mod_mult2_eq)
  then show ?case using Suc by simp
qed simp

lemma length_write_number [simp]: "length (write_number k n) = k" "length (write_signed k i) = k"
  by (simp_all add: write_number_def write_signed_def)

lemma write_number_nonempty [simp]: "0 < k \<Longrightarrow> write_number k n \<noteq> []" "0 < k \<Longrightarrow> write_signed k i \<noteq> []"
  by (auto simp flip: length_0_conv)

lemma get_bytes_append [simp]: "n = length s \<Longrightarrow> get_bytes n (s @ r) = Inr (s, r)"
  by (induction s arbitrary: n) (auto simp: get_byte_def)

lemma get_number_write [simp]: "n < 256 ^ k \<Longrightarrow> get_number k (write_number k n @ r) = Inr (n, r)"
  by (simp add: get_number_def write_number_def le_val_bytes)

lemma get_sized_write: "length s < 256 ^ k \<Longrightarrow> get_sized k (write_number k (length s) @ s @ r) = Inr (s, r)"
  by (simp add: get_sized_def)

lemma to_signed_mod:
  assumes "- (2 ^ (8 * k - 1)) \<le> i" and "i < 2 ^ (8 * k - 1)" and "0 < k"
  shows "to_signed k (nat (i mod 2 ^ (8 * k))) = i"
proof -
  have p: "(2::int) ^ (8 * k) = 2 * 2 ^ (8 * k - 1)" using assms(3) by (simp flip: power_Suc)
  have m: "i mod 2 ^ (8 * k) = (if i < 0 then i + 2 ^ (8 * k) else i)"
  proof (cases "i < 0")
    case True
    then have "(i + 2 ^ (8 * k)) mod 2 ^ (8 * k) = i + 2 ^ (8 * k)"
      using assms p by (intro mod_pos_pos_trivial) auto
    with True show ?thesis by simp
  qed (use assms p in auto)
  have q: "(2::nat) ^ (8 * k - 1) = nat (2 ^ (8 * k - 1))" by (simp add: nat_power_eq)
  show ?thesis
  proof (cases "i < 0")
    case True
    then have "\<not> nat (i + 2 ^ (8 * k)) < 2 ^ (8 * k - 1)" using assms p unfolding q by simp
    with True m assms p show ?thesis by (simp add: to_signed_def)
  next
    case False
    then have "nat i < 2 ^ (8 * k - 1)" using assms unfolding q by simp
    with False m show ?thesis by (simp add: to_signed_def)
  qed
qed

lemma signed_bytes: "nat (i mod 2 ^ (8 * k)) < 256 ^ k"
  by (simp add: nat_less_iff power_mult)

lemma get_signed_write:
  assumes "- (2 ^ (8 * k - 1)) \<le> i" and "i < 2 ^ (8 * k - 1)" and "0 < k"
  shows "get_signed k (write_signed k i @ r) = Inr (i, r)"
  using get_number_write [OF signed_bytes [of i k], of r] to_signed_mod [OF assms] by (simp add: get_signed_def write_signed_def)

lemma get_number_le_bytes: "n < 256 ^ k \<Longrightarrow> get_number_le k (le_bytes k n @ r) = Inr (n, r)"
  by (simp add: get_number_le_def le_val_bytes)

lemma get_signed_le_bytes:
  assumes "- (2 ^ (8 * k - 1)) \<le> i" and "i < 2 ^ (8 * k - 1)" and "0 < k"
  shows "get_signed_le k (le_bytes k (nat (i mod 2 ^ (8 * k))) @ r) = Inr (i, r)"
  using get_number_le_bytes [OF signed_bytes [of i k], of r] to_signed_mod [OF assms] by (simp add: get_signed_le_def)

lemma write_number_1: "n < 256 \<Longrightarrow> write_number 1 n = [char_of n]"
  by (simp add: write_number_def)

lemma byte_char [simp]: "n < 256 \<Longrightarrow> byte_of (char_of n) = n"
  by simp

lemma get_number_byte [simp]: "get_number (Suc 0) (c # r) = Inr (byte_of c, r)"
  by (simp add: get_number_def)

lemma get_number_256: "k = 1 \<and> n \<le> 0xFF \<or> k = 2 \<and> n \<le> 0xFFFF \<or> k = 4 \<and> n \<le> 0xFFFFFFFF \<or> k = 8 \<and> n \<le> 0xFFFFFFFFFFFFFFFF \<Longrightarrow>
    get_number k (write_number k n @ r) = Inr (n, r)"
  by (rule get_number_write) auto

lemma and_low: "x AND 0x1F = x mod 32" "x AND 0xF = x mod 16" for x :: nat
  using take_bit_eq_mask [of 5 x] take_bit_eq_mask [of 4 x] by (simp_all add: mask_eq_exp_minus_1 take_bit_eq_mod)

lemma mod_base: "N \<le> 31 \<Longrightarrow> (N + 32 * k) mod 32 = N" "N \<le> 15 \<Longrightarrow> (N + 16 * k) mod 16 = N" for N :: nat
  by simp_all

text \<open>A reader never returns more input than it got.\<close>

lemma get_bytes_length: "get_bytes n inp = Inr (cs, r) \<Longrightarrow> length inp = length r + n"
  by (induction n arbitrary: inp cs) (auto simp: get_byte_def elim!: res_bindE split: list.splits)

lemma get_number_length: "get_number k inp = Inr (n, r) \<Longrightarrow> length inp = length r + k"
  by (auto simp: get_number_def elim!: res_bindE dest: get_bytes_length)

lemma get_sized_length: "get_sized k inp = Inr (s, r) \<Longrightarrow> length r \<le> length inp"
  by (auto simp: get_sized_def elim!: res_bindE dest!: get_bytes_length get_number_length)
section \<open>Short floating-point numbers\<close>

text \<open>
  \<open>static_cast<double>\<close> of a \<open>float\<close>, given as its 32 bits: exact; a number below the normal ones is normal as a
  \<open>double\<close>; a signalling NaN becomes a quiet one, as on the usual hardware.
\<close>

definition widen :: "32 word \<Rightarrow> double" where
  "widen x =
     (let n = unat x; s = n div 2 ^ 31; e = n div 2 ^ 23 mod 2 ^ 8; m = n mod 2 ^ 23;
          mag = (if e = 255 then 0x7FF * 2 ^ 52 + m * 2 ^ 29 + (if m \<noteq> 0 \<and> m < 2 ^ 22 then 2 ^ 51 else 0)
                 else if e \<noteq> 0 then (e + 896) * 2 ^ 52 + m * 2 ^ 29
                 else if m = 0 then 0
                 else let l = floorlog 2 m in (l + 873) * 2 ^ 52 + (m - 2 ^ (l - 1)) * 2 ^ (53 - l))
      in of_nat (s * 2 ^ 63 + mag))"

text \<open>\<open>static_cast<float>\<close> of a \<open>double\<close> rounds to the nearest, ties to even.\<close>

definition narrow :: "double \<Rightarrow> 32 word" where
  "narrow x =
     (let n = unat x; s = n div 2 ^ 63; e = n div 2 ^ 52 mod 2 ^ 11; m = n mod 2 ^ 52;
          mag = (if e = 0x7FF then 255 * 2 ^ 23 + (if m \<noteq> 0 then 2 ^ 22 + m div 2 ^ 29 mod 2 ^ 22 else 0)
                 else if 897 \<le> e then min (255 * 2 ^ 23) (round_half_even ((e - 896) * 2 ^ 52 + m) (2 ^ 29))
                 else round_half_even (if e = 0 then m else 2 ^ 52 + m) (2 ^ (926 - max e 1)))
      in of_nat (s * 2 ^ 31 + mag))"

text \<open>Between \<open>lowest\<close> and \<open>max\<close> of \<open>float\<close>; not so for a NaN.\<close>

definition in_float_range :: "double \<Rightarrow> bool" where
  "in_float_range x \<longleftrightarrow> unat x mod 2 ^ 63 \<le> 0x47EFFFFFE0000000"

definition write_compact_float :: "char \<Rightarrow> char \<Rightarrow> double \<Rightarrow> string" where
  "write_compact_float prefix_float prefix_double n =
     (if in_float_range n \<and> double_eq (widen (narrow n)) n
      then prefix_float # write_number 4 (unat (narrow n))
      else prefix_double # write_number 8 (unat n))"

definition get_float :: "double reader" where
  "get_float inp = res_bind (get_number 4 inp) (\<lambda>(n, r). Inr (widen (of_nat n), r))"

definition get_double :: "double reader" where
  "get_double inp = res_bind (get_number 8 inp) (\<lambda>(n, r). Inr (of_nat n, r))"

text \<open>A number written in four bytes is read back with all its bits: the sign of a zero is kept.\<close>

lemma round_half_even_zero: "0 < b \<Longrightarrow> round_half_even 0 b = 0"
  by (simp add: round_half_even_def)

lemma narrow_zeros: "narrow 0 = 0" "narrow 0x8000000000000000 = 0x80000000"
  by (simp_all add: narrow_def round_half_even_zero Let_def)

lemma widen_zeros: "widen (narrow 0) = 0" "widen (narrow 0x8000000000000000) = 0x8000000000000000"
  unfolding narrow_zeros by (simp_all add: widen_def Let_def)

lemma push_bit_zero: "push_bit 1 (x :: 64 word) = 0 \<Longrightarrow> x = 0 \<or> x = 0x8000000000000000"
proof -
  assume "push_bit 1 x = 0"
  then have "unat (push_bit 1 x) = 0" by simp
  then have "(2 * unat x) mod 2 ^ 64 = 0" by (simp add: push_bit_eq_mult unat_word_ariths mult.commute)
  then obtain k where k: "2 * unat x = 2 ^ 64 * k" by (auto elim: dvdE)
  moreover have "unat x < 2 ^ 64" using unsigned_less [of x, where 'a = nat] by simp
  ultimately have "k < 2" by simp
  with k have "unat x = 0 \<or> unat x = 2 ^ 63" by (cases k) auto
  then show ?thesis by (simp add: word_unat_eq_iff)
qed

lemma widen_narrow: "double_eq (widen (narrow n)) n \<Longrightarrow> widen (narrow n) = n"
  using push_bit_zero [of n] widen_zeros by (auto simp: double_eq_def)

lemma get_float_write: "widen (narrow n) = n \<Longrightarrow> get_float (write_number 4 (unat (narrow n)) @ r) = Inr (n, r)"
  using unsigned_less [of "narrow n", where 'a = nat] by (simp add: get_float_def)

lemma get_double_write: "get_double (write_number 8 (unat n) @ r) = Inr (n, r)"
  using unsigned_less [of n, where 'a = nat] by (simp add: get_double_def)

lemma get_float_length: "get_float inp = Inr (x, r) \<Longrightarrow> length r \<le> length inp"
  "get_double inp = Inr (x, r) \<Longrightarrow> length r \<le> length inp"
  by (auto simp: get_float_def get_double_def elim!: res_bindE dest!: get_number_length)

text \<open>The two ways a number is written, and how each is read.\<close>

lemma compact_float_cases:
  obtains (short) "write_compact_float p q n = p # write_number 4 (unat (narrow n))" "widen (narrow n) = n"
  | (long) "write_compact_float p q n = q # write_number 8 (unat n)"
proof (cases "in_float_range n \<and> double_eq (widen (narrow n)) n")
  case True
  then show ?thesis using short widen_narrow [of n] unfolding write_compact_float_def by presburger
next
  case False
  then show ?thesis using long unfolding write_compact_float_def by presburger
qed


section \<open>Enough fuel\<close>

text \<open>The reading functions without recursion never report that the fuel is used up.\<close>

lemma no_fuel_error:
  "get_byte inp \<noteq> Inl No_fuel" "get_bytes k inp \<noteq> Inl No_fuel" "get_number k inp \<noteq> Inl No_fuel"
  "get_signed k inp \<noteq> Inl No_fuel" "get_sized k inp \<noteq> Inl No_fuel" "get_float inp \<noteq> Inl No_fuel"
  "get_double inp \<noteq> Inl No_fuel"
proof -
  show b: "get_byte inp \<noteq> Inl No_fuel" for inp by (auto simp: get_byte_def split: list.splits)
  show bs: "get_bytes k inp \<noteq> Inl No_fuel" for k inp
    by (induction k arbitrary: inp) (auto simp: res_simps b)
  show n: "get_number k inp \<noteq> Inl No_fuel" for k inp by (auto simp: get_number_def res_simps bs)
  show "get_signed k inp \<noteq> Inl No_fuel" for k inp by (auto simp: get_signed_def res_simps n)
  show "get_sized k inp \<noteq> Inl No_fuel" for k inp by (auto simp: get_sized_def res_simps n bs)
  show "get_float inp \<noteq> Inl No_fuel" "get_double inp \<noteq> Inl No_fuel"
    by (auto simp: get_float_def get_double_def res_simps n)
qed

text \<open>A result is reached within the fuel, and a value takes at least one byte.\<close>

definition settled :: "nat \<Rightarrow> bin_fail + 'a \<times> string \<Rightarrow> bool" where
  "settled len res \<longleftrightarrow> (case res of Inl f \<Rightarrow> f \<noteq> No_fuel | Inr (_, r) \<Rightarrow> length r \<le> len)"

lemma settled_Inr [simp]: "settled len (Inr (x, r)) \<longleftrightarrow> length r \<le> len"
  by (simp add: settled_def)

lemma settled_error [simp]: "settled len (Inl (Bexn e))" "settled len (Inl Discarded)"
  by (simp_all add: settled_def)

lemma settled_bind:
  "settled len m \<Longrightarrow> (\<And>x r. m = Inr (x, r) \<Longrightarrow> length r \<le> len \<Longrightarrow> settled len (f (x, r))) \<Longrightarrow> settled len (res_bind m f)"
  by (cases m) (auto simp: settled_def)

lemma settled_mono: "settled a res \<Longrightarrow> a \<le> b \<Longrightarrow> settled b res"
  by (auto simp: settled_def split: sum.splits)

lemma settled_map: "settled l m \<Longrightarrow> settled l (res_bind m (\<lambda>(x, r). Inr (f x, r)))"
  by (rule settled_bind) auto

lemma settled_if: "settled l a \<Longrightarrow> settled l b \<Longrightarrow> settled l (if c then a else b)"
  by simp

lemma settled_bytes:
  "settled (length inp) (get_byte inp)" "settled (length inp) (get_bytes k inp)" "settled (length inp) (get_number k inp)"
  "settled (length inp) (get_sized k inp)" "settled (length inp) (get_float inp)" "settled (length inp) (get_double inp)"
  using no_fuel_error get_bytes_length get_number_length get_sized_length get_float_length
  unfolding settled_def by (fastforce simp: get_byte_def split: sum.splits list.splits)+

text \<open>Reading a number and then something else.\<close>

lemma settled_number:
  "(\<And>k r. length r \<le> length inp \<Longrightarrow> settled (length inp) (f k r)) \<Longrightarrow>
     settled (length inp) (res_bind (get_number w inp) (\<lambda>(k, r). f k r))"
  by (rule settled_bind [OF settled_bytes(3)]) auto

text \<open>Reading a byte, or a part that is settled, and then something else.\<close>

lemma settled_byte:
  "(\<And>c r. length r < length inp \<Longrightarrow> settled l (f (c, r))) \<Longrightarrow> settled l (res_bind (get_byte inp) f)"
  by (cases inp) (simp_all add: get_byte_def)

lemma settled_then:
  "settled (length r) m \<Longrightarrow> (\<And>x r'. length r' \<le> length r \<Longrightarrow> settled l (f (x, r'))) \<Longrightarrow> settled l (res_bind m f)"
  by (cases m) (auto simp: settled_def)

end
