(* ===== verification/JsonAccess.thy ===== *)
theory JsonAccess
  imports JsonIterator BinaryFormat
begin

text \<open>
  The rest of the interface of \<open>basic_json\<close> (\<open>include/nlohmann/json.hpp\<close>): element access, lookup, capacity and modifiers.

  An operation on a value takes the value and its identity \<open>this\<close>, where it makes iterators, and returns the value afterwards;
  an operation that throws leaves the value as it was, except \<open>update\<close>, whose result therefore has the value in either case.
  Reference results are the referenced values. Lack of memory is not modelled.
\<close>

section \<open>Element access\<close>

definition json_at_index :: "nat \<Rightarrow> json \<Rightarrow> json_exn + json" where
  "json_at_index idx j = (case j of JArray xs \<Rightarrow> at_index idx xs | _ \<Rightarrow> Inl (Type_error 304))"

definition json_at_key :: "string \<Rightarrow> json \<Rightarrow> json_exn + json" where
  "json_at_key key j = (case j of JObject m \<Rightarrow> at_member key m | _ \<Rightarrow> Inl (Type_error 304))"

text \<open>\<open>operator[]\<close> with an index: on a value that may change it fills up with nulls, on a constant one it does not check.\<close>

definition json_index :: "nat \<Rightarrow> json \<Rightarrow> json_exn + (json \<times> json)" where
  "json_index idx j =
     (case (if j = JNull then JArray [] else j) of
        JArray xs \<Rightarrow> (let ys = grow_array idx xs in Inr (ys ! idx, JArray ys))
      | _ \<Rightarrow> Inl (Type_error 305))"

definition json_index_const :: "nat \<Rightarrow> json \<Rightarrow> json_fail + json" where
  "json_index_const idx j =
     (case j of JArray xs \<Rightarrow> if idx < length xs then Inr (xs ! idx) else undefined_access
      | _ \<Rightarrow> json_throw (Type_error 305))"

definition json_key_const :: "string \<Rightarrow> json \<Rightarrow> json_fail + json" where
  "json_key_const key j =
     (case j of
        JObject m \<Rightarrow> (case map_of m key of None \<Rightarrow> Inl (Jfault AssertionFailed) | Some v \<Rightarrow> Inr v)
      | _ \<Rightarrow> json_throw (Type_error 305))"

text \<open>\<open>value\<close> with a default; \<open>conv\<close> is the conversion \<open>get\<close>.\<close>

definition json_value :: "(json \<Rightarrow> json_exn + 'a) \<Rightarrow> string \<Rightarrow> 'a \<Rightarrow> json \<Rightarrow> json_exn + 'a" where
  "json_value conv key default_value j =
     (case j of
        JObject m \<Rightarrow> (case map_of m key of Some v \<Rightarrow> conv v | None \<Rightarrow> Inr default_value)
      | _ \<Rightarrow> Inl (Type_error 306))"

definition json_value_ptr :: "(json \<Rightarrow> json_exn + 'a) \<Rightarrow> pointer \<Rightarrow> 'a \<Rightarrow> json \<Rightarrow> json_exn + 'a" where
  "json_value_ptr conv ptr default_value j =
     (case j of
        JObject m \<Rightarrow>
          (case res_bind (get_checked ptr j) conv of Inl (Out_of_range _) \<Rightarrow> Inr default_value | r \<Rightarrow> r)
      | _ \<Rightarrow> Inl (Type_error 306))"

definition json_front :: "nat \<Rightarrow> json \<Rightarrow> json_fail + json" where
  "json_front this j = iter_deref j (json_begin this j)"

definition json_back :: "nat \<Rightarrow> json \<Rightarrow> json_fail + json" where
  "json_back this j = res_bind (iter_dec j (json_end this j)) (iter_deref j)"

section \<open>Removal\<close>

text \<open>The position of an iterator as an index that must be below a bound.\<close>

definition position_below :: "nat \<Rightarrow> iter \<Rightarrow> json_fail + nat" where
  "position_below n it = (if 0 \<le> m_it it \<and> m_it it < int n then Inr (nat (m_it it)) else undefined_access)"

abbreviation container_iter :: "nat \<Rightarrow> nat \<Rightarrow> iter" where
  "container_iter this i \<equiv> \<lparr>m_object = Some this, m_it = int i\<rparr>"

definition remove_range :: "nat \<Rightarrow> nat \<Rightarrow> 'a list \<Rightarrow> 'a list" where
  "remove_range a b xs = take a xs @ drop b xs"

text \<open>The result is the iterator behind the removed element; the end iterator of a primitive value was made before.\<close>

definition erase_iter :: "nat \<Rightarrow> iter \<Rightarrow> json \<Rightarrow> json_fail + (iter \<times> json)" where
  "erase_iter this pos j =
     (if m_object pos \<noteq> Some this then json_throw (Invalid_iterator 202)
      else case j of
          JObject m \<Rightarrow> res_bind (position_below (length m) pos) (\<lambda>i. Inr (container_iter this i, JObject (remove_range i (i + 1) m)))
        | JArray xs \<Rightarrow> res_bind (position_below (length xs) pos) (\<lambda>i. Inr (container_iter this i, JArray (remove_range i (i + 1) xs)))
        | JNull \<Rightarrow> json_throw (Type_error 307)
        | _ \<Rightarrow> if m_it pos \<noteq> 0 then json_throw (Invalid_iterator 205) else Inr (json_end this j, JNull))"

definition erase_iters :: "nat \<Rightarrow> iter \<Rightarrow> iter \<Rightarrow> json \<Rightarrow> json_fail + (iter \<times> json)" where
  "erase_iters this start stop j =
     (if m_object start \<noteq> Some this \<or> m_object stop \<noteq> Some this then json_throw (Invalid_iterator 203)
      else case j of
          JObject m \<Rightarrow>
            if 0 \<le> m_it start \<and> m_it start \<le> m_it stop \<and> m_it stop \<le> int (length m)
            then Inr (container_iter this (nat (m_it start)), JObject (remove_range (nat (m_it start)) (nat (m_it stop)) m))
            else undefined_access
        | JArray xs \<Rightarrow>
            if 0 \<le> m_it start \<and> m_it start \<le> m_it stop \<and> m_it stop \<le> int (length xs)
            then Inr (container_iter this (nat (m_it start)), JArray (remove_range (nat (m_it start)) (nat (m_it stop)) xs))
            else undefined_access
        | JNull \<Rightarrow> json_throw (Type_error 307)
        | _ \<Rightarrow> if m_it start \<noteq> 0 \<or> m_it stop \<noteq> 1 then json_throw (Invalid_iterator 204) else Inr (json_end this j, JNull))"

definition erase_key :: "string \<Rightarrow> json \<Rightarrow> json_exn + (nat \<times> json)" where
  "erase_key key j =
     (case j of
        JObject m \<Rightarrow> Inr (if map_of m key = None then 0 else 1, JObject (map_erase key m))
      | _ \<Rightarrow> Inl (Type_error 307))"

definition erase_index :: "nat \<Rightarrow> json \<Rightarrow> json_exn + json" where
  "erase_index idx j =
     (case j of
        JArray xs \<Rightarrow> if length xs \<le> idx then Inl (Out_of_range 401) else Inr (JArray (remove_range idx (idx + 1) xs))
      | _ \<Rightarrow> Inl (Type_error 307))"

section \<open>Lookup and capacity\<close>

text \<open>\<open>find\<close> gives the position of the member among the members in order.\<close>

definition find_key :: "nat \<Rightarrow> string \<Rightarrow> json \<Rightarrow> iter" where
  "find_key this key j =
     (case j of
        JObject m \<Rightarrow> if map_of m key = None then json_end this j
                     else container_iter this (length (takeWhile (\<lambda>kv. fst kv \<noteq> key) m))
      | _ \<Rightarrow> json_end this j)"

definition count_key :: "string \<Rightarrow> json \<Rightarrow> nat" where
  "count_key key j = (case j of JObject m \<Rightarrow> if map_of m key = None then 0 else 1 | _ \<Rightarrow> 0)"

definition contains_key :: "string \<Rightarrow> json \<Rightarrow> bool" where
  "contains_key key j = (case j of JObject m \<Rightarrow> map_of m key \<noteq> None | _ \<Rightarrow> False)"

definition json_empty :: "json \<Rightarrow> bool" where
  "json_empty j = (case j of JNull \<Rightarrow> True | JArray xs \<Rightarrow> xs = [] | JObject m \<Rightarrow> m = [] | _ \<Rightarrow> False)"

definition json_size :: "json \<Rightarrow> nat" where
  "json_size j = (case j of JNull \<Rightarrow> 0 | JArray xs \<Rightarrow> length xs | JObject m \<Rightarrow> length m | _ \<Rightarrow> 1)"

definition json_max_size :: "json \<Rightarrow> nat" where
  "json_max_size j = (case j of JArray _ \<Rightarrow> MAX_ARRAY | JObject _ \<Rightarrow> MAX_OBJECT | _ \<Rightarrow> json_size j)"

section \<open>Modifiers\<close>

fun json_clear :: "json \<Rightarrow> json" where
  "json_clear (JInteger i) = JInteger 0"
| "json_clear (JUnsigned n) = JUnsigned 0"
| "json_clear (JFloat x) = JFloat 0"
| "json_clear (JBool b) = JBool False"
| "json_clear (JString s) = JString []"
| "json_clear (JBinary bs st) = JBinary [] st"
| "json_clear (JArray xs) = JArray []"
| "json_clear (JObject m) = JObject []"
| "json_clear JNull = JNull"

definition json_push_back :: "json \<Rightarrow> json \<Rightarrow> json_exn + json" where
  "json_push_back val j =
     (case (if j = JNull then JArray [] else j) of JArray xs \<Rightarrow> Inr (JArray (xs @ [val])) | _ \<Rightarrow> Inl (Type_error 308))"

text \<open>A member is added only if its key is new, \<open>std::map::insert\<close>.\<close>

definition json_push_member :: "string \<times> json \<Rightarrow> json \<Rightarrow> json_exn + json" where
  "json_push_member kv j =
     (case (if j = JNull then JObject [] else j) of JObject m \<Rightarrow> Inr (JObject (emplace kv m)) | _ \<Rightarrow> Inl (Type_error 308))"

definition json_push_init :: "json list \<Rightarrow> json \<Rightarrow> json_exn + json" where
  "json_push_init init j =
     (case (j, init) of
        (JObject m, [JString key, v]) \<Rightarrow> json_push_member (key, v) j
      | _ \<Rightarrow> json_push_back (init_list init) j)"

definition json_emplace_back :: "json \<Rightarrow> json \<Rightarrow> json_exn + (json \<times> json)" where
  "json_emplace_back val j =
     (case (if j = JNull then JArray [] else j) of
        JArray xs \<Rightarrow> Inr (val, JArray (xs @ [val]))
      | _ \<Rightarrow> Inl (Type_error 311))"

definition json_emplace :: "nat \<Rightarrow> string \<times> json \<Rightarrow> json \<Rightarrow> json_exn + ((iter \<times> bool) \<times> json)" where
  "json_emplace this kv j =
     (case (if j = JNull then JObject [] else j) of
        JObject m \<Rightarrow>
          (let j' = JObject (emplace kv m) in Inr ((find_key this (fst kv) j', map_of m (fst kv) = None), j'))
      | _ \<Rightarrow> Inl (Type_error 311))"

text \<open>Insertion into an array in front of a position.\<close>

definition insert_iterator :: "nat \<Rightarrow> iter \<Rightarrow> json list \<Rightarrow> json list \<Rightarrow> json_fail + (iter \<times> json)" where
  "insert_iterator this pos ys xs =
     res_bind (position_below (length xs + 1) pos) (\<lambda>i. Inr (container_iter this i, JArray (take i xs @ ys @ drop i xs)))"

definition json_insert :: "nat \<Rightarrow> iter \<Rightarrow> json \<Rightarrow> json \<Rightarrow> json_fail + (iter \<times> json)" where
  "json_insert this pos val j =
     (case j of
        JArray xs \<Rightarrow>
          if m_object pos \<noteq> Some this then json_throw (Invalid_iterator 202) else insert_iterator this pos [val] xs
      | _ \<Rightarrow> json_throw (Type_error 309))"

definition json_insert_count :: "nat \<Rightarrow> iter \<Rightarrow> nat \<Rightarrow> json \<Rightarrow> json \<Rightarrow> json_fail + (iter \<times> json)" where
  "json_insert_count this pos cnt val j =
     (case j of
        JArray xs \<Rightarrow>
          if m_object pos \<noteq> Some this then json_throw (Invalid_iterator 202)
          else insert_iterator this pos (replicate cnt val) xs
      | _ \<Rightarrow> json_throw (Type_error 309))"

text \<open>
  The elements between two iterators of another value \<open>other\<close>, whose array part is used whatever it is: for a value that is
  no array the iterators hold no array positions.
\<close>

definition json_insert_range :: "nat \<Rightarrow> iter \<Rightarrow> iter \<Rightarrow> iter \<Rightarrow> json \<Rightarrow> json \<Rightarrow> json_fail + (iter \<times> json)" where
  "json_insert_range this pos start stop other j =
     (case j of
        JArray xs \<Rightarrow>
          if m_object pos \<noteq> Some this then json_throw (Invalid_iterator 202)
          else if m_object start \<noteq> m_object stop then json_throw (Invalid_iterator 210)
          else if m_object start = Some this then json_throw (Invalid_iterator 211)
          else (case other of
              JArray ys \<Rightarrow>
                if 0 \<le> m_it start \<and> m_it start \<le> m_it stop \<and> m_it stop \<le> int (length ys)
                then insert_iterator this pos (drop (nat (m_it start)) (take (nat (m_it stop)) ys)) xs
                else undefined_access
            | _ \<Rightarrow> undefined_access)
      | _ \<Rightarrow> json_throw (Type_error 309))"

definition json_insert_list :: "nat \<Rightarrow> iter \<Rightarrow> json list \<Rightarrow> json \<Rightarrow> json_fail + (iter \<times> json)" where
  "json_insert_list this pos ilist j =
     (case j of
        JArray xs \<Rightarrow>
          if m_object pos \<noteq> Some this then json_throw (Invalid_iterator 202) else insert_iterator this pos ilist xs
      | _ \<Rightarrow> json_throw (Type_error 309))"

definition json_insert_members :: "iter \<Rightarrow> iter \<Rightarrow> json \<Rightarrow> json \<Rightarrow> json_fail + json" where
  "json_insert_members start stop other j =
     (case j of
        JObject m \<Rightarrow>
          if m_object start \<noteq> m_object stop then json_throw (Invalid_iterator 210)
          else (case other of
              JObject m' \<Rightarrow>
                if 0 \<le> m_it start \<and> m_it start \<le> m_it stop \<and> m_it stop \<le> int (length m')
                then Inr (JObject (fold emplace (drop (nat (m_it start)) (take (nat (m_it stop)) m')) m))
                else undefined_access
            | _ \<Rightarrow> json_throw (Invalid_iterator 202))
      | _ \<Rightarrow> json_throw (Type_error 309))"

text \<open>
  \<open>update\<close> with another object, member by member. With \<open>merge_objects\<close> an object updates the value of the same key, which must be
  an object or null as well: if it is not, the exception leaves the members before it updated.
\<close>

function json_update :: "bool \<Rightarrow> (string \<times> json) list \<Rightarrow> json \<Rightarrow> json \<times> json_exn option"
  and update_members :: "bool \<Rightarrow> (string \<times> json) list \<Rightarrow> (string \<times> json) list \<Rightarrow> (string \<times> json) list \<times> json_exn option" where
  "json_update merge_objects new j =
     (case (if j = JNull then JObject [] else j) of
        JObject m \<Rightarrow> (let (m, e) = update_members merge_objects new m in (JObject m, e))
      | _ \<Rightarrow> (j, Some (Type_error 312)))"
| "update_members merge_objects [] m = (m, None)"
| "update_members merge_objects ((k, v) # new) m =
     (case (v, map_of m k) of
        (JObject o', Some w) \<Rightarrow>
          if merge_objects then
            (let (w', e) = json_update True o' w; m = map_put k w' m
             in if e \<noteq> None then (m, e) else update_members merge_objects new m)
          else update_members merge_objects new (map_put k v m)
      | _ \<Rightarrow> update_members merge_objects new (map_put k v m))"
  by pat_completeness auto
termination
  by (relation "measures [\<lambda>x. case x of Inl (b, new, j) \<Rightarrow> size_list (size_prod (\<lambda>_. 0) size) new | Inr (b, new, m) \<Rightarrow> size_list (size_prod (\<lambda>_. 0) size) new,
      \<lambda>x. case x of Inl _ \<Rightarrow> 1 | Inr _ \<Rightarrow> 0]") auto

text \<open>The range that \<open>update\<close> takes is that of a whole value.\<close>

definition json_update_with :: "bool \<Rightarrow> json \<Rightarrow> json \<Rightarrow> json \<times> json_exn option" where
  "json_update_with merge_objects new j =
     (let j = (if j = JNull then JObject [] else j)
      in case (j, new) of
           (JObject m, JObject n) \<Rightarrow> json_update merge_objects n j
         | _ \<Rightarrow> (j, Some (Type_error 312)))"

definition json_swap :: "json \<times> json \<Rightarrow> json \<times> json" where
  "json_swap p = (snd p, fst p)"

definition swap_array :: "json \<Rightarrow> json list \<Rightarrow> json_exn + (json \<times> json list)" where
  "swap_array j other = (case j of JArray xs \<Rightarrow> Inr (JArray other, xs) | _ \<Rightarrow> Inl (Type_error 310))"

definition swap_object :: "json \<Rightarrow> (string \<times> json) list \<Rightarrow> json_exn + (json \<times> (string \<times> json) list)" where
  "swap_object j other = (case j of JObject m \<Rightarrow> Inr (JObject other, m) | _ \<Rightarrow> Inl (Type_error 310))"

definition swap_string :: "json \<Rightarrow> string \<Rightarrow> json_exn + (json \<times> string)" where
  "swap_string j other = (case j of JString s \<Rightarrow> Inr (JString other, s) | _ \<Rightarrow> Inl (Type_error 310))"

definition swap_binary :: "json \<Rightarrow> string \<times> nat option \<Rightarrow> json_exn + (json \<times> string \<times> nat option)" where
  "swap_binary j other =
     (case j of JBinary bs st \<Rightarrow> Inr (JBinary (fst other) (snd other), bs, st) | _ \<Rightarrow> Inl (Type_error 310))"

declare json_update.simps [simp del] update_members.simps(2) [simp del]

section \<open>Lemmas\<close>

lemma take_drop_elements:
  "map f (remove_range i k xs) = remove_range i k (map f xs)"
  by (simp add: remove_range_def take_map drop_map)

lemma erase_at_element:
  assumes "i < length (json_elements j)"
  shows "\<exists>j'. erase_iter this (iter_at this j i) j = Inr (iter_at this j' i, j')
    \<and> json_elements j' = remove_range i (i + 1) (json_elements j)"
  using assms
  by (cases j) (simp_all add: erase_iter_def json_elements_def iter_at_def first_position_def position_below_def take_drop_elements
      json_end_def end_position_def remove_range_def take_map drop_map)

lemma find_index:
  "map_of m k = Some v \<Longrightarrow> length (takeWhile (\<lambda>kv. fst kv \<noteq> k) m) < length m
     \<and> m ! length (takeWhile (\<lambda>kv. fst kv \<noteq> k) m) = (k, v)"
  by (induction m) (auto split: if_splits)

text \<open>The members after an update.\<close>

lemma keys_sorted_single: "keys_sorted ((k, v) # m) \<Longrightarrow> map_of m k = None"
  by (auto intro: map_of_absent)

definition updated :: "bool \<Rightarrow> json option \<Rightarrow> json option \<Rightarrow> json option" where
  "updated merge_objects v w =
     (case (v, w) of
        (None, _) \<Rightarrow> w
      | (Some (JObject o'), Some u) \<Rightarrow> if merge_objects then Some (fst (json_update True o' u)) else v
      | _ \<Rightarrow> v)"

lemma update_members_map:
  "keys_sorted new \<Longrightarrow> update_members b new m = (m', None) \<Longrightarrow> map_of m' k = updated b (map_of new k) (map_of m k)"
proof (induction new arbitrary: m)
  case (Cons e new)
  obtain q v where e: "e = (q, v)" by (cases e)
  have n: "map_of new q = None" by (rule keys_sorted_single [of q v new]) (use Cons.prems(1) e in simp)
  have s: "keys_sorted new" using Cons.prems(1) e by simp
  show ?case
  proof (cases "\<exists>o' w. v = JObject o' \<and> map_of m q = Some w \<and> b")
    case True
    then obtain o' w where o: "v = JObject o'" "map_of m q = Some w" b by blast
    obtain w' x where w: "json_update True o' w = (w', x)" by (cases "json_update True o' w")
    then have "x = None" "update_members b new (map_put q w' m) = (m', None)"
      using Cons.prems(2) o e by (auto simp: update_members.simps(2) Let_def split: if_splits)
    from Cons.IH [OF s this(2)] show ?thesis
      using o w n e by (cases "k = q") (simp_all add: map_of_map_put updated_def)
  next
    case False
    then have "update_members b new (map_put q v m) = (m', None)"
      using Cons.prems(2) e by (auto simp: update_members.simps(2) split: json.splits option.splits if_splits)
    from Cons.IH [OF s this] show ?thesis
      using n e False by (cases "k = q") (auto simp: map_of_map_put updated_def split: json.splits option.splits)
  qed
qed (simp add: updated_def)

lemma update_members_sorted: "keys_sorted m \<Longrightarrow> keys_sorted (fst (update_members b new m))"
proof (induction new arbitrary: m)
  case (Cons e new)
  obtain q v where e: "e = (q, v)" by (cases e)
  have i: "keys_sorted (fst (update_members b new (map_put q w m)))" for w
    using Cons by (simp add: keys_sorted_put)
  have p: "keys_sorted (map_put q w m)" for w using Cons.prems by (simp add: keys_sorted_put)
  show ?case
  proof (cases b)
    case True
    with i have "keys_sorted (fst (update_members True new (map_put q w m)))" for w by simp
    with True show ?thesis unfolding e update_members.simps(2)
      by (auto simp: p Let_def split: json.splits option.splits prod.splits)
  next
    case False
    with i have "keys_sorted (fst (update_members False new (map_put q w m)))" for w by simp
    with False show ?thesis unfolding e update_members.simps(2)
      by (auto split: json.splits option.splits)
  qed
qed simp

text \<open>Without merging nothing is thrown.\<close>

lemma update_members_plain: "snd (update_members False new m) = None"
proof (induction new arbitrary: m)
  case (Cons e new)
  obtain q v where e: "e = (q, v)" by (cases e)
  show ?case unfolding e update_members.simps(2) using Cons.IH by (auto split: json.splits option.splits)
qed simp

section \<open>Properties\<close>

text \<open>The ways to look a member up agree: \<open>contains\<close>, \<open>count\<close>, \<open>find\<close>, \<open>at\<close>, \<open>operator[]\<close> of a constant and \<open>value\<close> find a
  key in exactly the same objects, and the same value with it.\<close>

theorem lookups_agree:
  "(contains_key key (JObject m) \<longleftrightarrow> count_key key (JObject m) = 1)
   \<and> (contains_key key (JObject m) \<longleftrightarrow> find_key this key (JObject m) \<noteq> json_end this (JObject m))
   \<and> (\<forall>v. json_at_key key (JObject m) = Inr v \<longleftrightarrow> contains_key key (JObject m) \<and> iter_deref (JObject m) (find_key this key (JObject m)) = Inr v)
   \<and> (\<forall>v. json_key_const key (JObject m) = Inr v \<longleftrightarrow> json_at_key key (JObject m) = Inr v)
   \<and> (\<forall>d. json_value Inr key d (JObject m) = Inr (case json_at_key key (JObject m) of Inr v \<Rightarrow> v | Inl _ \<Rightarrow> d))"
proof (cases "map_of m key")
  case None
  then show ?thesis
    by (simp add: contains_key_def count_key_def find_key_def json_at_key_def at_member_def json_key_const_def json_value_def)
next
  case (Some v)
  then show ?thesis using find_index [OF Some]
    by (auto simp: contains_key_def count_key_def find_key_def json_at_key_def at_member_def json_key_const_def json_value_def
        json_end_def end_position_def iter_deref_def initialized_def)
qed

text \<open>Erasing at an iterator removes that element and no other, and the iterator returned stands at the element that followed;
  a primitive value, which is its only element, becomes null. The size goes down by one.\<close>

theorem erase_removes_one:
  assumes "i < json_size j"
  shows "\<exists>j'. erase_iter this (iter_at this j i) j = Inr (iter_at this j' i, j') \<and> json_size j' + 1 = json_size j
    \<and> json_elements j' = take i (json_elements j) @ drop (i + 1) (json_elements j)"
proof -
  have s: "json_size j = length (json_elements j)" for j by (cases j) (simp_all add: json_size_def json_elements_def)
  with erase_at_element [of i j this] assms show ?thesis by (fastforce simp: remove_range_def)
qed

theorem erase_removes_one_witness:
  "\<exists>j'. erase_iter 0 (iter_at 0 (JArray [JNull, JBool True]) 0) (JArray [JNull, JBool True]) = Inr (iter_at 0 j' 0, j')
     \<and> json_elements j' = [JBool True]"
  using erase_removes_one [of 0 "JArray [JNull, JBool True]" 0] by (auto simp: json_size_def json_elements_def)

text \<open>Erasing undoes inserting: the iterator that \<open>insert\<close> returns stands at the new element, and erasing there gives the array
  back.\<close>

theorem erase_insert:
  assumes "i \<le> length xs"
  shows "\<exists>it j'. json_insert this \<lparr>m_object = Some this, m_it = int i\<rparr> v (JArray xs) = Inr (it, j')
    \<and> iter_deref j' it = Inr v \<and> json_size j' = length xs + 1 \<and> erase_iter this it j' = Inr (it, JArray xs)"
  using assms
  by (auto simp: json_insert_def insert_iterator_def position_below_def iter_deref_def initialized_def erase_iter_def remove_range_def
      json_size_def nth_append)

theorem erase_insert_witness:
  "\<exists>it j'. json_insert 0 \<lparr>m_object = Some 0, m_it = int 1\<rparr> JNull (JArray [JBool True]) = Inr (it, j')
     \<and> erase_iter 0 it j' = Inr (it, JArray [JBool True])"
  using erase_insert [of 1 "[JBool True]" 0 JNull] by auto

text \<open>An update that does not throw gives every member of the new object to the old one and keeps the rest; with
  \<open>merge_objects\<close> a new member that is an object updates the old one of its key in the same way. Without it an update of an
  object by an object never throws. The keys stay in order.\<close>

theorem update_members_exactly:
  assumes "json_update merge_objects new (JObject m) = (j', None)" and "keys_sorted new" and "keys_sorted m"
  shows "\<exists>m'. j' = JObject m' \<and> keys_sorted m' \<and> (\<forall>k. map_of m' k = updated merge_objects (map_of new k) (map_of m k))"
proof -
  obtain m' e where m': "update_members merge_objects new m = (m', e)" by (cases "update_members merge_objects new m")
  then have "j' = JObject m'" "e = None" using assms(1) by (simp_all add: json_update.simps)
  then show ?thesis
    using m' update_members_map [OF assms(2)] update_members_sorted [OF assms(3), of merge_objects new] by (metis fst_conv)
qed

theorem update_members_exactly_witness:
  "\<exists>m'. json_update True [(''a'', JObject [(''y'', JNull)])] (JObject [(''a'', JObject [(''x'', JNull)]), (''b'', JNull)]) = (JObject m', None)
     \<and> map_of m' ''a'' = Some (JObject [(''x'', JNull), (''y'', JNull)]) \<and> map_of m' ''b'' = Some JNull"
proof -
  let ?m = "[(''a'', JObject [(''x'', JNull)]), (''b'', JNull)]"
  have i: "json_update True [(''y'', JNull)] (JObject [(''x'', JNull)]) = (JObject [(''x'', JNull), (''y'', JNull)], None)"
    by (simp add: json_update.simps update_members.simps(2) less_char_def)
  then have "snd (json_update True [(''a'', JObject [(''y'', JNull)])] (JObject ?m)) = None"
    by (simp add: json_update.simps [of True "[(''a'', JObject [(''y'', JNull)])]"] update_members.simps(2))
  then obtain j' where j: "json_update True [(''a'', JObject [(''y'', JNull)])] (JObject ?m) = (j', None)"
    by (cases "json_update True [(''a'', JObject [(''y'', JNull)])] (JObject ?m)") simp
  from update_members_exactly [OF j] show ?thesis using j i by (auto simp: updated_def less_char_def)
qed

text \<open>
  With \<open>merge_objects\<close> an object cannot replace a number: the exception comes from inside, and the members before it are
  updated already.
\<close>

lemma update_half_done:
  "json_update_with True (JObject [(''a'', JNull), (''b'', JObject [])]) (JObject [(''a'', JBool True), (''b'', JUnsigned 1)]) =
     (JObject [(''a'', JNull), (''b'', JUnsigned 1)], Some (Type_error 312))"
  by (simp add: json_update_with_def json_update.simps update_members.simps(2) less_char_def)


end
