(* ===== verification/JsonOrder.thy ===== *)
theory JsonOrder
  imports JsonCompare
begin

text \<open>
  The order of JSON values, \<open>operator<\<close> of \<open>include/nlohmann/json.hpp\<close> with the operators derived from it: values of different
  types by the order of the types, arrays and objects lexicographically, numbers of different alternatives after the
  conversions of \<open>operator==\<close>.

  The lemmas show that it is a strict order, total up to \<open>operator==\<close>, as long as integers and doubles are not mixed, there is
  no NaN and the integers fit 63 bits; and that each of these conditions is needed.
\<close>

section \<open>Definitions\<close>

text \<open>The position of the type in the table of \<open>operator<\<close> for \<open>value_t\<close>.\<close>

fun type_order :: "json \<Rightarrow> nat" where
  "type_order JNull = 0"
| "type_order (JObject m) = 3"
| "type_order (JArray xs) = 4"
| "type_order (JString s) = 5"
| "type_order (JBool b) = 1"
| "type_order (JInteger i) = 2"
| "type_order (JUnsigned n) = 2"
| "type_order (JFloat x) = 2"
| "type_order (JBinary bs st) = 6"

text \<open>The bits of a double without the sign grow with its magnitude.\<close>

definition double_key :: "double \<Rightarrow> int" where
  "double_key x = (if bit x 63 then - uint (take_bit 63 x) else uint (take_bit 63 x))"

definition double_less :: "double \<Rightarrow> double \<Rightarrow> bool" where
  "double_less x y \<longleftrightarrow> \<not> isnan x \<and> \<not> isnan y \<and> double_key x < double_key y"

text \<open>
  \<open>std::vector\<close> and \<open>std::map\<close> compare lexicographically, \<open>std::pair\<close> by the first component where the first components
  differ. A binary value is compared as the vector it is derived from, without its subtype.
\<close>

function (sequential) json_less :: "json \<Rightarrow> json \<Rightarrow> bool"
  and elements_less :: "json list \<Rightarrow> json list \<Rightarrow> bool"
  and members_less :: "(string \<times> json) list \<Rightarrow> (string \<times> json) list \<Rightarrow> bool" where
  "json_less (JArray xs) (JArray ys) = elements_less xs ys"
| "json_less (JObject m) (JObject m') = members_less m m'"
| "json_less (JString s) (JString t) = (s < t)"
| "json_less (JBool a) (JBool b) = (a < b)"
| "json_less (JInteger i) (JInteger j) = (i < j)"
| "json_less (JUnsigned n) (JUnsigned k) = (n < k)"
| "json_less (JFloat x) (JFloat y) = double_less x y"
| "json_less (JBinary bs st) (JBinary cs st') = (bs < cs)"
| "json_less (JInteger i) (JFloat y) = double_less (int_double i) y"
| "json_less (JFloat x) (JInteger j) = double_less x (int_double j)"
| "json_less (JUnsigned n) (JFloat y) = double_less (int_double (int n)) y"
| "json_less (JFloat x) (JUnsigned k) = double_less x (int_double (int k))"
| "json_less (JInteger i) (JUnsigned k) = (i < signed64 k)"
| "json_less (JUnsigned n) (JInteger j) = (signed64 n < j)"
| "json_less a b = (type_order a < type_order b)"
| "elements_less [] ys = (ys \<noteq> [])"
| "elements_less (x # xs) [] = False"
| "elements_less (x # xs) (y # ys) = (json_less x y \<or> \<not> json_less y x \<and> elements_less xs ys)"
| "members_less [] m' = (m' \<noteq> [])"
| "members_less (e # m) [] = False"
| "members_less ((k, v) # m) ((k', v') # m') =
     (k < k' \<or> \<not> k' < k \<and> json_less v v' \<or> \<not> (k' < k \<or> \<not> k < k' \<and> json_less v' v) \<and> members_less m m')"
  by pat_completeness auto
termination
  by (relation "measure (\<lambda>x. case x of Inl (a, b) \<Rightarrow> size a + size b | Inr (Inl (xs, ys)) \<Rightarrow> size_list size xs + size_list size ys
      | Inr (Inr (m, m')) \<Rightarrow> size_list (size_prod (\<lambda>_. 0) size) m + size_list (size_prod (\<lambda>_. 0) size) m')") auto

definition json_le :: "json \<Rightarrow> json \<Rightarrow> bool" where
  "json_le a b \<longleftrightarrow> \<not> json_less b a"

definition json_greater :: "json \<Rightarrow> json \<Rightarrow> bool" where
  "json_greater a b \<longleftrightarrow> \<not> json_le a b"

definition json_ge :: "json \<Rightarrow> json \<Rightarrow> bool" where
  "json_ge a b \<longleftrightarrow> \<not> json_less a b"

section \<open>Orders\<close>

text \<open>What \<open>std::sort\<close> and the ordered containers ask of a comparison.\<close>

locale strict_weak_order =
  fixes ok :: "'a \<Rightarrow> bool" and less :: "'a \<Rightarrow> 'a \<Rightarrow> bool"
  assumes asym: "\<lbrakk>ok a; ok b; less a b\<rbrakk> \<Longrightarrow> \<not> less b a"
    and split: "\<lbrakk>ok a; ok b; ok c; less a c\<rbrakk> \<Longrightarrow> less a b \<or> less b c"
begin

lemma irrefl: "ok a \<Longrightarrow> \<not> less a a"
  using asym by blast

lemma trans: "\<lbrakk>ok a; ok b; ok c; less a b; less b c\<rbrakk> \<Longrightarrow> less a c"
  using asym split by blast

text \<open>Not comparable is an equivalence.\<close>

lemma incomparable_trans:
  "\<lbrakk>ok a; ok b; ok c; \<not> less a b; \<not> less b a; \<not> less b c; \<not> less c b\<rbrakk> \<Longrightarrow> \<not> less a c \<and> \<not> less c a"
  using split by blast

end

text \<open>The lexicographic order of lists, and that of pairs.\<close>

fun lex_less :: "('a \<Rightarrow> 'a \<Rightarrow> bool) \<Rightarrow> 'a list \<Rightarrow> 'a list \<Rightarrow> bool" where
  "lex_less l [] ys = (ys \<noteq> [])"
| "lex_less l (x # xs) [] = False"
| "lex_less l (x # xs) (y # ys) = (l x y \<or> \<not> l y x \<and> lex_less l xs ys)"

definition pair_less :: "('b \<Rightarrow> 'b \<Rightarrow> bool) \<Rightarrow> ('a :: linorder) \<times> 'b \<Rightarrow> 'a \<times> 'b \<Rightarrow> bool" where
  "pair_less l p q \<longleftrightarrow> fst p < fst q \<or> \<not> fst q < fst p \<and> l (snd p) (snd q)"

definition splits :: "('a \<Rightarrow> 'a \<Rightarrow> bool) \<Rightarrow> 'a \<Rightarrow> 'a \<Rightarrow> 'a \<Rightarrow> bool" where
  "splits l a b c \<longleftrightarrow> (l a c \<longrightarrow> l a b \<or> l b c)"

text \<open>The condition on three values, in every order of the first with the others.\<close>

abbreviation splits_all :: "('a \<Rightarrow> 'a \<Rightarrow> bool) \<Rightarrow> 'a \<Rightarrow> 'a \<Rightarrow> 'a \<Rightarrow> bool" where
  "splits_all l a b c \<equiv> splits l a b c \<and> splits l a c b \<and> splits l b a c \<and> splits l c a b \<and> splits l b c a \<and> splits l c b a"

lemma splits_pair: "splits_all l (snd p) (snd q) (snd r) \<Longrightarrow> splits_all (pair_less l) p q r"
  unfolding splits_def pair_less_def by (smt (verit) less_trans linorder_less_linear)

lemma splits_lex:
  assumes "\<And>x y z. x \<in> set xs \<Longrightarrow> y \<in> set ys \<Longrightarrow> z \<in> set zs \<Longrightarrow> splits_all l x y z"
  shows "splits (lex_less l) xs ys zs"
  using assms
proof (induction xs arbitrary: ys zs)
  case (Cons x xs)
  show ?case
  proof (cases "\<exists>y ys' z zs'. ys = y # ys' \<and> zs = z # zs'")
    case True
    then obtain y ys' z zs' where s: "ys = y # ys'" "zs = z # zs'" by blast
    have "splits (lex_less l) xs ys' zs'" by (rule Cons.IH) (use Cons.prems s in auto)
    moreover have "splits_all l x y z" using Cons.prems s by simp
    ultimately show ?thesis unfolding s splits_def by auto
  next
    case False
    then show ?thesis by (cases ys; cases zs) (auto simp: splits_def)
  qed
next
  case Nil
  then show ?case by (cases ys; cases zs) (simp_all add: splits_def)
qed

lemma splits_lex_all:
  assumes "\<And>x y z. x \<in> set xs \<Longrightarrow> y \<in> set ys \<Longrightarrow> z \<in> set zs \<Longrightarrow> splits_all l x y z"
  shows "splits_all (lex_less l) xs ys zs"
  by (intro conjI; rule splits_lex; use assms in blast)

lemma lex_asym:
  "(\<And>x y. x \<in> set xs \<Longrightarrow> y \<in> set ys \<Longrightarrow> l x y \<Longrightarrow> \<not> l y x) \<Longrightarrow> lex_less l xs ys \<Longrightarrow> \<not> lex_less l ys xs"
proof (induction l xs ys rule: lex_less.induct)
  case (1 l ys)
  then show ?case by (cases ys) auto
qed auto

lemma elements_less_lex: "elements_less xs ys = lex_less json_less xs ys"
proof (induction xs arbitrary: ys)
  case (Cons x xs)
  then show ?case by (cases ys) simp_all
qed simp

lemma members_less_lex: "members_less m m' = lex_less (pair_less json_less) m m'"
proof (induction m arbitrary: m')
  case (Cons e m)
  note step = Cons.IH
  show ?case
  proof (cases m')
    case (Cons e' n)
    then show ?thesis by (cases e; cases e') (simp add: step, simp add: pair_less_def)
  qed simp
qed simp

section \<open>Values that can be ordered\<close>

text \<open>All numbers are doubles other than NaN, or all are integers of 63 bits and a sign; no binary value has a subtype.\<close>

fun alike :: "bool \<Rightarrow> json \<Rightarrow> bool" where
  "alike f (JInteger i) = (\<not> f)"
| "alike f (JUnsigned n) = (\<not> f \<and> n < 2 ^ 63)"
| "alike f (JFloat x) = (f \<and> \<not> isnan x)"
| "alike f (JArray xs) = (\<forall>x\<in>set xs. alike f x)"
| "alike f (JObject m) = (\<forall>e\<in>set m. alike f (snd e))"
| "alike f (JBinary bs st) = (st = None)"
| "alike f _ = True"

fun num_key :: "json \<Rightarrow> int" where
  "num_key (JInteger i) = i"
| "num_key (JUnsigned n) = int n"
| "num_key (JFloat x) = double_key x"
| "num_key _ = 0"

lemma bit_push: "bit (push_bit k (x :: 64 word)) n \<longleftrightarrow> k \<le> n \<and> n < 64 \<and> bit x (n - k)"
  by (auto simp: bit_push_bit_iff)

lemma push_bit_1_zero: "push_bit 1 (x :: 64 word) = 0 \<longleftrightarrow> take_bit 63 x = 0"
proof
  assume l: "push_bit 1 x = 0"
  show "take_bit 63 x = 0"
  proof (rule bit_word_eqI)
    fix n assume "n < LENGTH(64)"
    moreover have "bit (push_bit 1 x) (n + 1) = False" unfolding l by simp
    ultimately show "bit (take_bit 63 x) n = bit 0 n" unfolding bit_push by (auto simp: bit_take_bit_iff)
  qed
next
  assume r: "take_bit 63 x = 0"
  show "push_bit 1 x = 0"
  proof (rule bit_word_eqI)
    fix n assume "n < LENGTH(64)"
    moreover have "bit (take_bit 63 x) (n - 1) = False" unfolding r by simp
    ultimately show "bit (push_bit 1 x) n = bit 0 n" unfolding bit_push by (auto simp: bit_take_bit_iff)
  qed
qed

lemma double_key_eq: "double_key x = double_key y \<longleftrightarrow> x = y \<or> push_bit 1 x = 0 \<and> push_bit 1 y = 0"
proof -
  have pos: "0 \<le> uint (take_bit 63 z)" for z :: double by simp
  have same: "x = y" if "take_bit 63 x = take_bit 63 y" "bit x 63 = bit y 63"
  proof (rule bit_word_eqI)
    fix n assume "n < LENGTH(64)"
    then consider "n < 63" | "n = 63" by fastforce
    then show "bit x n = bit y n"
    proof cases
      case 1
      then show ?thesis using that(1) by (metis bit_take_bit_iff)
    qed (use that(2) in simp)
  qed
  show ?thesis
  proof
    assume k: "double_key x = double_key y"
    show "x = y \<or> push_bit 1 x = 0 \<and> push_bit 1 y = 0"
    proof (cases "bit x 63 = bit y 63")
      case True
      with k have "uint (take_bit 63 x) = uint (take_bit 63 y)" by (simp add: double_key_def split: if_splits)
      then have "take_bit 63 x = take_bit 63 y" by (simp only: word_uint_eq_iff)
      with same True show ?thesis by blast
    next
      case False
      with k pos [of x] pos [of y] have "uint (take_bit 63 x) = 0 \<and> uint (take_bit 63 y) = 0"
        unfolding double_key_def by (smt (verit))
      then show ?thesis unfolding push_bit_1_zero uint_0_iff by blast
    qed
  next
    assume "x = y \<or> push_bit 1 x = 0 \<and> push_bit 1 y = 0"
    then show "double_key x = double_key y" unfolding push_bit_1_zero by (auto simp: double_key_def)
  qed
qed

lemma less_types: "type_order a \<noteq> type_order b \<Longrightarrow> json_less a b \<longleftrightarrow> type_order a < type_order b"
  by (cases a; cases b) simp_all

lemma eq_types: "json_eq a b \<Longrightarrow> type_order a = type_order b"
  by (cases a; cases b) simp_all

lemma less_numbers:
  "alike f a \<Longrightarrow> alike f b \<Longrightarrow> type_order a = 2 \<Longrightarrow> type_order b = 2 \<Longrightarrow> json_less a b \<longleftrightarrow> num_key a < num_key b"
  by (cases a; cases b) (auto simp: double_less_def signed64_small)

lemma eq_numbers:
  "alike f a \<Longrightarrow> alike f b \<Longrightarrow> type_order a = 2 \<Longrightarrow> type_order b = 2 \<Longrightarrow> json_eq a b \<longleftrightarrow> num_key a = num_key b"
  by (cases a; cases b) (auto simp: double_eq_def double_key_eq signed64_small)

lemma types_split:
  "\<not> (type_order a = type_order b \<and> type_order b = type_order c) \<Longrightarrow> splits_all json_less a b c"
  by (cases "type_order a = type_order b"; cases "type_order b = type_order c"; cases "type_order a = type_order c")
    (auto simp: splits_def less_types)

lemma type_orderD:
  "type_order a = 3 \<Longrightarrow> \<exists>m. a = JObject m" "type_order a = 4 \<Longrightarrow> \<exists>xs. a = JArray xs"
  "type_order a = 5 \<Longrightarrow> \<exists>s. a = JString s" "type_order a = Suc 0 \<Longrightarrow> \<exists>b. a = JBool b"
  "type_order a = 0 \<Longrightarrow> a = JNull" "type_order a = 6 \<Longrightarrow> \<exists>bs st. a = JBinary bs st"
  by (cases a; simp)+

lemma order_split: "alike f a \<Longrightarrow> alike f b \<Longrightarrow> alike f c \<Longrightarrow> splits_all json_less a b c"
proof (induction a arbitrary: b c)
  case (JArray xs)
  show ?case
  proof (cases "type_order b = 4 \<and> type_order c = 4")
    case True
    then obtain ys zs where "b = JArray ys" "c = JArray zs" using type_orderD(2) by blast
    moreover have "splits_all (lex_less json_less) xs ys zs"
      by (rule splits_lex_all) (use JArray calculation in auto)
    ultimately show ?thesis by (simp add: splits_def elements_less_lex)
  qed (use types_split [of "JArray xs" b c] in auto)
next
  case (JObject m)
  show ?case
  proof (cases "type_order b = 3 \<and> type_order c = 3")
    case True
    then obtain n o' where "b = JObject n" "c = JObject o'" using type_orderD(1) by blast
    moreover have "splits_all (lex_less (pair_less json_less)) m n o'"
      by (rule splits_lex_all; rule splits_pair) (use JObject calculation in \<open>force intro: prod_set_simps\<close>)
    ultimately show ?thesis by (simp add: splits_def members_less_lex)
  qed (use types_split [of "JObject m" b c] in auto)
next
  case (JString s)
  show ?case using types_split [of "JString s" b c] type_orderD(3) [of b] type_orderD(3) [of c]
    by (cases "type_order b = 5 \<and> type_order c = 5") (auto simp: splits_def)
next
  case (JBool x)
  show ?case using types_split [of "JBool x" b c] type_orderD(4) [of b] type_orderD(4) [of c]
    by (cases "type_order b = Suc 0 \<and> type_order c = Suc 0") (auto simp: splits_def)
next
  case (JBinary bs st)
  show ?case using types_split [of "JBinary bs st" b c] type_orderD(6) [of b] type_orderD(6) [of c]
    by (cases "type_order b = 6 \<and> type_order c = 6") (auto simp: splits_def)
next
  case JNull
  show ?case
  proof (cases "type_order b = 0 \<and> type_order c = 0")
    case True
    then show ?thesis using type_orderD(5) [of b] type_orderD(5) [of c] by (simp add: splits_def)
  next
    case False
    then show ?thesis by (intro types_split) auto
  qed
next
  case (JInteger i)
  with types_split [of "JInteger i" b c] show ?case
    by (cases "type_order b = 2 \<and> type_order c = 2") (auto simp: splits_def less_numbers [of f])
next
  case (JUnsigned n)
  with types_split [of "JUnsigned n" b c] show ?case
    by (cases "type_order b = 2 \<and> type_order c = 2") (auto simp: splits_def less_numbers [of f])
next
  case (JFloat x)
  with types_split [of "JFloat x" b c] show ?case
    by (cases "type_order b = 2 \<and> type_order c = 2") (auto simp: splits_def less_numbers [of f])
qed

lemma order_asym: "alike f a \<Longrightarrow> alike f b \<Longrightarrow> json_less a b \<Longrightarrow> \<not> json_less b a"
proof (induction a arbitrary: b)
  case (JArray xs)
  show ?case
  proof (cases b)
    case (JArray ys)
    have "lex_less json_less xs ys \<Longrightarrow> \<not> lex_less json_less ys xs"
      by (rule lex_asym) (use JArray.IH JArray.prems JArray in auto)
    then show ?thesis using JArray JArray.prems by (simp add: elements_less_lex)
  qed (use JArray.prems in simp_all)
next
  case (JObject m)
  show ?case
  proof (cases b)
    case (JObject n)
    have "lex_less (pair_less json_less) m n \<Longrightarrow> \<not> lex_less (pair_less json_less) n m"
      by (rule lex_asym) (use JObject.IH JObject.prems JObject in \<open>force simp: pair_less_def\<close>)
    then show ?thesis using JObject JObject.prems by (simp add: members_less_lex)
  qed (use JObject.prems in simp_all)
next
  case (JString s)
  then show ?case by (cases b) auto
next
  case (JBool x)
  then show ?case by (cases b) auto
next
  case (JBinary bs st)
  then show ?case by (cases b) auto
next
  case JNull
  then show ?case by (cases b) auto
next
  case (JInteger i)
  with less_numbers [of f "JInteger i" b] less_numbers [of f b "JInteger i"] less_types [of "JInteger i" b]
    less_types [of b "JInteger i"] show ?case by (cases "type_order b = 2") auto
next
  case (JUnsigned n)
  with less_numbers [of f "JUnsigned n" b] less_numbers [of f b "JUnsigned n"] less_types [of "JUnsigned n" b]
    less_types [of b "JUnsigned n"] show ?case by (cases "type_order b = 2") auto
next
  case (JFloat x)
  with less_numbers [of f "JFloat x" b] less_numbers [of f b "JFloat x"] less_types [of "JFloat x" b]
    less_types [of b "JFloat x"] show ?case by (cases "type_order b = 2") auto
qed

interpretation json_order: strict_weak_order "alike f" json_less for f
  by unfold_locales (use order_asym order_split in \<open>auto simp: splits_def\<close>)

text \<open>Two values of which none is less are equal.\<close>

lemma lex_equal:
  assumes "\<And>x y. x \<in> set xs \<Longrightarrow> y \<in> set ys \<Longrightarrow> \<not> l x y \<Longrightarrow> \<not> l y x \<Longrightarrow> e x y"
  shows "\<not> lex_less l xs ys \<Longrightarrow> \<not> lex_less l ys xs \<Longrightarrow> list_all2 e xs ys"
  using assms
proof (induction l xs ys rule: lex_less.induct)
  case (1 l ys)
  then show ?case by (cases ys) auto
qed auto

lemma equal_lex:
  assumes "\<And>x y. x \<in> set xs \<Longrightarrow> y \<in> set ys \<Longrightarrow> e x y \<Longrightarrow> \<not> l x y"
  shows "list_all2 e xs ys \<Longrightarrow> \<not> lex_less l xs ys"
  using assms
proof (induction xs arbitrary: ys)
  case (Cons x xs)
  then show ?case by (cases ys) auto
qed auto

lemma order_equal: "alike f a \<Longrightarrow> alike f b \<Longrightarrow> \<not> json_less a b \<Longrightarrow> \<not> json_less b a \<Longrightarrow> json_eq a b"
proof (induction a arbitrary: b)
  case (JArray xs)
  show ?case
  proof (cases b)
    case (JArray ys)
    have "list_all2 json_eq xs ys"
      by (rule lex_equal [of xs ys json_less]) (use JArray.IH JArray.prems JArray in \<open>auto simp: elements_less_lex\<close>)
    then show ?thesis using JArray by (simp add: elements_eq_list_all2)
  qed (use JArray.prems in simp_all)
next
  case (JObject m)
  show ?case
  proof (cases b)
    case (JObject n)
    have "list_all2 (\<lambda>kv kv'. fst kv = fst kv' \<and> json_eq (snd kv) (snd kv')) m n"
      by (rule lex_equal [of m n "pair_less json_less"])
        (use JObject.IH JObject.prems JObject in \<open>force simp: members_less_lex pair_less_def\<close>)+
    then show ?thesis using JObject by (simp add: members_eq_list_all2)
  qed (use JObject.prems in simp_all)
next
  case (JInteger i)
  with less_numbers [of f "JInteger i" b] less_numbers [of f b "JInteger i"] eq_numbers [of f "JInteger i" b]
    less_types [of "JInteger i" b] less_types [of b "JInteger i"] show ?case by (cases "type_order b = 2") auto
next
  case (JUnsigned n)
  with less_numbers [of f "JUnsigned n" b] less_numbers [of f b "JUnsigned n"] eq_numbers [of f "JUnsigned n" b]
    less_types [of "JUnsigned n" b] less_types [of b "JUnsigned n"] show ?case by (cases "type_order b = 2") auto
next
  case (JFloat x)
  with less_numbers [of f "JFloat x" b] less_numbers [of f b "JFloat x"] eq_numbers [of f "JFloat x" b]
    less_types [of "JFloat x" b] less_types [of b "JFloat x"] show ?case by (cases "type_order b = 2") auto
next
  case (JString s)
  then show ?case by (cases b) auto
next
  case (JBinary bs st)
  then show ?case by (cases b) auto
next
  case (JBool x)
  then show ?case by (cases b) auto
next
  case JNull
  then show ?case by (cases b) auto
qed

lemma equal_not_less: "alike f a \<Longrightarrow> alike f b \<Longrightarrow> json_eq a b \<Longrightarrow> \<not> json_less a b"
proof (induction a arbitrary: b)
  case (JArray xs)
  then obtain ys where b: "b = JArray ys" by (cases b) auto
  have "\<not> lex_less json_less xs ys"
    by (rule equal_lex [of xs ys json_eq]) (use JArray b in \<open>auto simp: elements_eq_list_all2\<close>)
  then show ?case using b by (simp add: elements_less_lex)
next
  case (JObject m)
  then obtain n where b: "b = JObject n" by (cases b) auto
  have "\<not> lex_less (pair_less json_less) m n"
    by (rule equal_lex [of m n "\<lambda>kv kv'. fst kv = fst kv' \<and> json_eq (snd kv) (snd kv')"])
      (use JObject b in \<open>force simp: members_eq_list_all2 pair_less_def\<close>)+
  then show ?case using b by (simp add: members_less_lex)
next
  case (JInteger i)
  with less_numbers [of f "JInteger i" b] eq_numbers [of f "JInteger i" b] eq_types [of "JInteger i" b]
  show ?case by auto
next
  case (JUnsigned n)
  with less_numbers [of f "JUnsigned n" b] eq_numbers [of f "JUnsigned n" b] eq_types [of "JUnsigned n" b]
  show ?case by auto
next
  case (JFloat x)
  with less_numbers [of f "JFloat x" b] eq_numbers [of f "JFloat x" b] eq_types [of "JFloat x" b]
  show ?case by auto
next
  case (JString s)
  then show ?case by (cases b) auto
next
  case (JBinary bs st)
  then show ?case by (cases b) auto
next
  case (JBool x)
  then show ?case by (cases b) auto
next
  case JNull
  then show ?case by (cases b) auto
qed

section \<open>Properties\<close>



text \<open>Two binary values that differ in the subtype only are neither less nor equal.\<close>

lemma subtype_not_ordered:
  "\<not> json_less (JBinary bs (Some 1)) (JBinary bs None) \<and> \<not> json_less (JBinary bs None) (JBinary bs (Some 1))
    \<and> \<not> json_eq (JBinary bs (Some 1)) (JBinary bs None)"
  by simp

text \<open>The largest unsigned number is less than 0 as a signed number, and greater than 0 as an unsigned one, although the two
  zeros are equal.\<close>

lemma huge_unsigned_below_zero:
  "json_less (JUnsigned (2 ^ 64 - 1)) (JInteger 0) \<and> json_less (JUnsigned 0) (JUnsigned (2 ^ 64 - 1))
    \<and> json_eq (JUnsigned 0) (JInteger 0)"
  by (simp add: signed64_def)

end
