(* ===== verification/JsonSax.thy ===== *)
theory JsonSax
  imports JsonParser
begin

text \<open>
  The SAX interface of \<open>include/nlohmann/json.hpp\<close>: \<open>sax_parse_internal\<close> with the consumer as an argument, which gets one event
  after the other and says whether to go on, and the three consumers of the library: the DOM builder
  \<open>json_sax_dom_parser\<close>, the acceptor of \<open>json::accept\<close>, and \<open>json_sax_dom_callback_parser\<close>, which asks a callback what to keep.

  A consumer is a function of its state and the event. The stack of references into the value that is being built is a stack
  of the containers themselves: a container goes to the place that its reference points at when it is finished.

  The locale \<open>sax_builder\<close> says what a consumer has to do with each event so that the loop computes \<open>parse_value\<close>; the three
  consumers are instances of it, the callback one for a callback that keeps everything.
\<close>

section \<open>Events\<close>

datatype sax_event =
    E_null | E_boolean bool | E_number_integer int | E_number_unsigned nat | E_number_float double | E_string string
  | E_start_object | E_key string | E_end_object | E_start_array | E_end_array
  | E_parse_error json_exn

type_synonym 's consumer = "'s \<Rightarrow> sax_event \<Rightarrow> 's \<times> bool"

fun scalar_event :: "token \<Rightarrow> sax_event option" where
  "scalar_event T_true = Some (E_boolean True)"
| "scalar_event T_false = Some (E_boolean False)"
| "scalar_event T_null = Some E_null"
| "scalar_event (T_string s) = Some (E_string s)"
| "scalar_event (T_unsigned n) = Some (E_number_unsigned n)"
| "scalar_event (T_integer i) = Some (E_number_integer i)"
| "scalar_event _ = None"

section \<open>The loop\<close>

text \<open>
  The result is the state of the consumer and, if the loop returned true, what is left of the input. An event that the consumer
  refuses ends the loop; after \<open>parse_error\<close> it returns what the consumer answered.
\<close>

definition emit :: "'s consumer \<Rightarrow> sax_event \<Rightarrow> 's \<Rightarrow> ('s \<Rightarrow> 's \<times> string option) \<Rightarrow> 's \<times> string option" where
  "emit sax e s continue = (let (s, ok) = sax s e in if ok then continue s else (s, None))"

definition sax_fail :: "'s consumer \<Rightarrow> json_exn \<Rightarrow> string \<Rightarrow> 's \<Rightarrow> 's \<times> string option" where
  "sax_fail sax e r s = emit sax (E_parse_error e) s (\<lambda>s. (s, Some r))"

text \<open>A key, its colon and the first token of the value behind it.\<close>

definition sax_member ::
  "'s consumer \<Rightarrow> token \<Rightarrow> string \<Rightarrow> 's \<Rightarrow> (token \<Rightarrow> string \<Rightarrow> 's \<Rightarrow> 's \<times> string option) \<Rightarrow> 's \<times> string option" where
  "sax_member sax tok r s continue =
     (case tok of
        T_string k \<Rightarrow> emit sax (E_key k) s (\<lambda>s.
          case json_scan r of (t, r1) \<Rightarrow>
            if t = T_name_separator then (case json_scan r1 of (t', r2) \<Rightarrow> continue t' r2 s)
            else sax_fail sax (Parse_error 101) r1 s)
      | _ \<Rightarrow> sax_fail sax (Parse_error 101) r s)"

lemma emit_cong [fundef_cong]:
  "sax s e = sax' s' e' \<Longrightarrow> (\<And>t. continue t = continue' t) \<Longrightarrow> emit sax e s continue = emit sax' e' s' continue'"
  by (auto simp: emit_def split: prod.splits)

lemma sax_member_cong [fundef_cong]:
  assumes "sax = sax'" and "tok = tok'" and "r = r'" and "s = s'"
    and "\<And>t r2 s2. length r2 < length r' \<Longrightarrow> continue t r2 s2 = continue' t r2 s2"
  shows "sax_member sax tok r s continue = sax_member sax' tok' r' s' continue'"
proof -
  have "continue t' r2 s2 = continue' t' r2 s2"
    if "json_scan r = (T_name_separator, r1)" "json_scan r1 = (t', r2)" for r1 t' r2 s2
  proof (rule assms(5))
    show "length r2 < length r'"
      using json_scan_shorter [OF that(1)] json_scan_le [OF that(2)] assms(3) by simp
  qed
  with assms(1-4) show ?thesis
    by (auto simp: sax_member_def emit_def Let_def split: token.splits prod.splits)
qed

definition sax_measure :: "token option \<Rightarrow> string \<Rightarrow> nat" where
  "sax_measure tok r = 3 * length r + (case tok of None \<Rightarrow> 1 | Some t \<Rightarrow> if t = T_end then 0 else 2)"

lemma scalar_event_not_end: "scalar_event tok = Some e \<Longrightarrow> tok \<noteq> T_end"
  by (cases tok) auto

text \<open>The stack of the loop says of each open container whether it is an array.\<close>

function sax_value :: "'s consumer \<Rightarrow> bool list \<Rightarrow> token \<Rightarrow> string \<Rightarrow> 's \<Rightarrow> 's \<times> string option"
  and sax_after :: "'s consumer \<Rightarrow> bool list \<Rightarrow> string \<Rightarrow> 's \<Rightarrow> 's \<times> string option" where
  "sax_value sax states tok r s =
     (case tok of
        T_begin_object \<Rightarrow> emit sax E_start_object s (\<lambda>s.
          case json_scan r of (t, r1) \<Rightarrow>
            if t = T_end_object then emit sax E_end_object s (\<lambda>s. sax_after sax states r1 s)
            else sax_member sax t r1 s (\<lambda>t' r2 s. sax_value sax (False # states) t' r2 s))
      | T_begin_array \<Rightarrow> emit sax E_start_array s (\<lambda>s.
          case json_scan r of (t, r1) \<Rightarrow>
            if t = T_end_array then emit sax E_end_array s (\<lambda>s. sax_after sax states r1 s)
            else sax_value sax (True # states) t r1 s)
      | T_float x \<Rightarrow>
          if isfinite x then emit sax (E_number_float x) s (\<lambda>s. sax_after sax states r s)
          else sax_fail sax (Out_of_range 406) r s
      | _ \<Rightarrow> (case scalar_event tok of
            Some e \<Rightarrow> emit sax e s (\<lambda>s. sax_after sax states r s)
          | None \<Rightarrow> sax_fail sax (Parse_error 101) r s))"
| "sax_after sax [] r s = (s, Some r)"
| "sax_after sax (True # states) r s =
     (case json_scan r of (t, r1) \<Rightarrow>
        if t = T_value_separator then (case json_scan r1 of (t', r2) \<Rightarrow> sax_value sax (True # states) t' r2 s)
        else if t = T_end_array then emit sax E_end_array s (\<lambda>s. sax_after sax states r1 s)
        else sax_fail sax (Parse_error 101) r1 s)"
| "sax_after sax (False # states) r s =
     (case json_scan r of (t, r1) \<Rightarrow>
        if t = T_value_separator then
          (case json_scan r1 of (t', r2) \<Rightarrow>
             sax_member sax t' r2 s (\<lambda>t'' r3 s. sax_value sax (False # states) t'' r3 s))
        else if t = T_end_object then emit sax E_end_object s (\<lambda>s. sax_after sax states r1 s)
        else sax_fail sax (Parse_error 101) r1 s)"
  by pat_completeness auto
termination
  apply (relation "measure (\<lambda>x. case x of Inl (_, _, tok, r, _) \<Rightarrow> sax_measure (Some tok) r | Inr (_, _, r, _) \<Rightarrow> sax_measure None r)")
  apply (auto simp: sax_measure_def dest!: sym [of _ "json_scan _"] dest: scalar_event_not_end)
  apply (auto dest!: json_scan_bound)
  done

declare sax_value.simps [simp del] sax_after.simps [simp del]

text \<open>\<open>sax_parse\<close> in strict mode: behind the value there must be nothing.\<close>

definition sax_parse :: "'s consumer \<Rightarrow> string \<Rightarrow> 's \<Rightarrow> 's \<times> bool" where
  "sax_parse sax inp s =
     (case scan_first inp of (t, r) \<Rightarrow>
        case sax_value sax [] t r s of
          (s, None) \<Rightarrow> (s, False)
        | (s, Some r') \<Rightarrow> if fst (json_scan r') = T_end then (s, True) else sax s (E_parse_error (Parse_error 101)))"

section \<open>Consumers that build a value\<close>

text \<open>
  The interface: \<open>before\<close> is the state in front of a value, with the open containers as \<open>parse_value\<close> has them, \<open>behind\<close> the one
  behind a value, \<open>opened\<close> the one behind an opening brace, and \<open>failed\<close> that of an error.
\<close>

locale sax_builder =
  fixes sax :: "'s consumer"
    and before :: "frame list \<Rightarrow> 's" and behind :: "frame list \<Rightarrow> json \<Rightarrow> 's" and opened :: "frame list \<Rightarrow> 's"
    and failed :: "json_exn \<Rightarrow> 's \<Rightarrow> bool"
  assumes scalars: "\<lbrakk>scalar_event tok = Some e; scalar tok = Some v\<rbrakk> \<Longrightarrow> sax (before fs) e = (behind fs v, True)"
    and floats: "sax (before fs) (E_number_float x) = (behind fs (JFloat x), True)"
    and open_array: "sax (before fs) E_start_array = (before (FArray [] # fs), True)"
    and close_array: "sax (before (FArray xs # fs)) E_end_array = (behind fs (JArray xs), True)"
    and in_array: "behind (FArray xs # fs) v = before (FArray (xs @ [v]) # fs)"
    and open_object: "sax (before fs) E_start_object = (opened fs, True)"
    and first_key: "sax (opened fs) (E_key k) = (before (FObject [] k # fs), True)"
    and close_empty: "sax (opened fs) E_end_object = (behind fs (JObject []), True)"
    and next_key: "sax (behind (FObject m k # fs) v) (E_key k') = (before (FObject (map_put k v m) k' # fs), True)"
    and close_object: "sax (behind (FObject m k # fs) v) E_end_object = (behind fs (JObject (map_put k v m)), True)"
    and errors: "failed exn (fst (sax s (E_parse_error exn))) \<and> \<not> snd (sax s (E_parse_error exn))"
begin

definition builds :: "'s \<times> string option \<Rightarrow> json_exn + (json \<times> string) \<Rightarrow> bool" where
  "builds x result = (case result of Inl e \<Rightarrow> failed e (fst x) \<and> snd x = None | Inr (v, r) \<Rightarrow> x = (behind [] v, Some r))"

lemma builds_error: "builds (sax_fail sax e r s) (Inl e)"
  using errors [of e s] by (auto simp: builds_def sax_fail_def emit_def split: prod.splits)

lemma emits: "sax s e = (s', True) \<Longrightarrow> emit sax e s continue = continue s'"
  by (simp add: emit_def)

lemma emits_scalar:
  "emit sax E_null (before fs) continue = continue (behind fs JNull)"
  "emit sax (E_boolean b) (before fs) continue = continue (behind fs (JBool b))"
  "emit sax (E_number_integer i) (before fs) continue = continue (behind fs (JInteger i))"
  "emit sax (E_number_unsigned n) (before fs) continue = continue (behind fs (JUnsigned n))"
  "emit sax (E_string str) (before fs) continue = continue (behind fs (JString str))"
  using scalars [of T_null E_null JNull fs] scalars [of T_true "E_boolean True" "JBool True" fs]
    scalars [of T_false "E_boolean False" "JBool False" fs]
    scalars [of "T_integer i" "E_number_integer i" "JInteger i" fs]
    scalars [of "T_unsigned n" "E_number_unsigned n" "JUnsigned n" fs] scalars [of "T_string str" "E_string str" "JString str" fs]
  by (cases b; simp add: emits)+

lemma builds_member:
  assumes "\<And>k. sax s (E_key k) = (t k, True)"
    and "\<And>k t' r2. member_head tok r = Inr (k, t', r2) \<Longrightarrow> builds (continue t' r2 (t k)) (parse k t' r2)"
  shows "builds (sax_member sax tok r s continue) (res_bind (member_head tok r) (\<lambda>(k, t', r2). parse k t' r2))"
  using assms builds_error
  by (auto simp: sax_member_def member_head_def emits split: token.splits prod.splits)

lemma builds_parse:
  "builds (sax_value sax (map (\<lambda>f. \<exists>xs. f = FArray xs) fs) tok r (before fs)) (parse_value fs tok r)"
  "builds (sax_after sax (map (\<lambda>f. \<exists>xs. f = FArray xs) gs) q (behind gs w)) (after_value gs w q)"
proof (induction fs tok r and gs w q rule: parse_value_after_value.induct)
  case (1 fs tok r)
  obtain t r1 where sc: "json_scan r = (t, r1)" by fastforce
  show ?case
  proof (cases tok)
    case T_begin_object
    note ih = "1.IH" [unfolded sc, unfolded T_begin_object, simplified]
    show ?thesis
    proof (cases "t = T_end_object")
      case True
      then show ?thesis
        using ih
        by (simp add: T_begin_object sc sax_value.simps [of sax _ T_begin_object] parse_value.simps [of fs T_begin_object] emits [OF open_object] emits [OF close_empty])
    next
      case False
      have "builds (sax_member sax t r1 (opened fs) (\<lambda>t' r2 s. sax_value sax (False # map (\<lambda>f. \<exists>xs. f = FArray xs) fs) t' r2 s))
          (res_bind (member_head t r1) (\<lambda>(k, t', r2). parse_value (FObject [] k # fs) t' r2))"
        by (rule builds_member [OF first_key])
          (use ih False in auto)
      then show ?thesis
        using False by (simp add: T_begin_object sc sax_value.simps [of sax _ T_begin_object] parse_value.simps [of fs T_begin_object] emits [OF open_object])
    qed
  next
    case T_begin_array
    note ih = "1.IH" [unfolded sc, unfolded T_begin_array, simplified]
    show ?thesis
    proof (cases "t = T_end_array")
      case True
      then show ?thesis
        using ih
        by (simp add: T_begin_array sc sax_value.simps [of sax _ T_begin_array] parse_value.simps [of fs T_begin_array] emits [OF open_array] emits [OF close_array])
    next
      case False
      then show ?thesis
        using ih
        by (simp add: T_begin_array sc sax_value.simps [of sax _ T_begin_array] parse_value.simps [of fs T_begin_array] emits [OF open_array])
    qed
  next
    case (T_float x)
    then show ?thesis using "1.IH" [unfolded T_float, simplified] builds_error
      by (simp add: sax_value.simps [of sax] parse_value.simps [of fs] emits [OF floats])
  qed (use "1.IH" builds_error in \<open>auto simp: sax_value.simps [of sax _ _ r] parse_value.simps [of fs _ r] emits_scalar\<close>)
next
  case (2 v r)
  then show ?case by (simp add: after_value.simps sax_after.simps builds_def)
next
  case (3 xs fs v r)
  obtain t r1 where sc: "json_scan r = (t, r1)" by fastforce
  obtain t' r2 where sc': "json_scan r1 = (t', r2)" by fastforce
  show ?case
    using "3.IH"(1) [OF sc [symmetric] _ sc' [symmetric]] "3.IH"(2) [OF sc [symmetric]] builds_error [of "Parse_error 101" r1]
    by (auto simp: after_value.simps sax_after.simps sc sc' in_array emits [OF close_array])
next
  case (4 m key fs v r)
  obtain t r1 where sc: "json_scan r = (t, r1)" by fastforce
  obtain t' r2 where sc': "json_scan r1 = (t', r2)" by fastforce
  have "builds (sax_member sax t' r2 (behind (FObject m key # fs) v)
        (\<lambda>t'' r3 s. sax_value sax (False # map (\<lambda>f. \<exists>xs. f = FArray xs) fs) t'' r3 s))
      (res_bind (member_head t' r2) (\<lambda>(k, t'', r3). parse_value (FObject (map_put key v m) k # fs) t'' r3))"
    if "t = T_value_separator"
    by (rule builds_member [OF next_key]) (use "4.IH"(1) [OF sc [symmetric] that sc' [symmetric]] in auto)
  then show ?case
    using "4.IH"(2) [OF sc [symmetric]] builds_error [of "Parse_error 101" r1]
    by (auto simp: after_value.simps sax_after.simps sc sc' emits [OF close_object])
qed

lemma builds_whole:
  "case json_parse inp of
     Inl e \<Rightarrow> failed e (fst (sax_parse sax inp (before []))) \<and> \<not> snd (sax_parse sax inp (before []))
   | Inr v \<Rightarrow> sax_parse sax inp (before []) = (behind [] v, True)"
proof -
  obtain t r where f: "scan_first inp = (t, r)" by fastforce
  have b: "builds (sax_value sax [] t r (before [])) (parse_value [] t r)" using builds_parse(1) [of "[]"] by simp
  show ?thesis
  proof (cases "parse_value [] t r")
    case (Inl e)
    with b show ?thesis by (auto simp: json_parse_def sax_parse_def f builds_def split: prod.splits option.splits)
  next
    case (Inr p)
    then obtain v r' where "parse_value [] t r = Inr (v, r')" by (cases p) auto
    with b errors [of "Parse_error 101" "behind [] v"] show ?thesis
      by (auto simp: json_parse_def sax_parse_def f builds_def)
  qed
qed

end
section \<open>The DOM builder\<close>

datatype dom_frame = D_array "json list" | D_object "(string \<times> json) list" "string option"

text \<open>
  \<open>object_element\<close> is the key of the innermost object. Where an assertion of the code would fail \<open>d_misuse\<close> is set; a text
  that can be parsed does not get there (\<open>dom_not_misused\<close>).
\<close>

record dom =
  d_root :: json
  d_stack :: "dom_frame list"
  d_error :: "json_exn option"
  d_misuse :: bool

definition dom_init :: dom where
  "dom_init = \<lparr>d_root = JNull, d_stack = [], d_error = None, d_misuse = False\<rparr>"

definition dom_value :: "json \<Rightarrow> dom \<Rightarrow> dom" where
  "dom_value v d =
     (case d_stack d of
        [] \<Rightarrow> d\<lparr>d_root := v\<rparr>
      | D_array xs # fs \<Rightarrow> d\<lparr>d_stack := D_array (xs @ [v]) # fs\<rparr>
      | D_object m (Some k) # fs \<Rightarrow> d\<lparr>d_stack := D_object (map_put k v m) (Some k) # fs\<rparr>
      | D_object m None # fs \<Rightarrow> d\<lparr>d_misuse := True\<rparr>)"

text \<open>\<open>operator[]\<close> of the map: a new key gets a null.\<close>

definition map_ref :: "string \<Rightarrow> 'v \<Rightarrow> (string \<times> 'v) list \<Rightarrow> (string \<times> 'v) list" where
  "map_ref k null m = (if map_of m k = None then map_put k null m else m)"

definition dom_key :: "string \<Rightarrow> dom \<Rightarrow> dom" where
  "dom_key k d =
     (case d_stack d of
        D_object m _ # fs \<Rightarrow> d\<lparr>d_stack := D_object (map_ref k JNull m) (Some k) # fs\<rparr>
      | _ \<Rightarrow> d\<lparr>d_misuse := True\<rparr>)"

fun dom_frame_value :: "dom_frame \<Rightarrow> json" where
  "dom_frame_value (D_array xs) = JArray xs"
| "dom_frame_value (D_object m k) = JObject m"

definition dom_end :: "dom \<Rightarrow> dom" where
  "dom_end d =
     (case d_stack d of
        f # fs \<Rightarrow> dom_value (dom_frame_value f) (d\<lparr>d_stack := fs\<rparr>)
      | [] \<Rightarrow> d\<lparr>d_misuse := True\<rparr>)"

fun dom_step :: "dom consumer" where
  "dom_step d E_null = (dom_value JNull d, True)"
| "dom_step d (E_boolean b) = (dom_value (JBool b) d, True)"
| "dom_step d (E_number_integer i) = (dom_value (JInteger i) d, True)"
| "dom_step d (E_number_unsigned n) = (dom_value (JUnsigned n) d, True)"
| "dom_step d (E_number_float x) = (dom_value (JFloat x) d, True)"
| "dom_step d (E_string s) = (dom_value (JString s) d, True)"
| "dom_step d E_start_object = (d\<lparr>d_stack := D_object [] None # d_stack d\<rparr>, True)"
| "dom_step d (E_key k) = (dom_key k d, True)"
| "dom_step d E_end_object = (dom_end d, True)"
| "dom_step d E_start_array = (d\<lparr>d_stack := D_array [] # d_stack d\<rparr>, True)"
| "dom_step d E_end_array = (dom_end d, True)"
| "dom_step d (E_parse_error e) = (d\<lparr>d_error := Some e\<rparr>, False)"

text \<open>\<open>parse\<close> without a callback; the error is thrown, or makes a discarded value, \<open>None\<close>, if exceptions are not allowed.\<close>

definition json_parse_dom :: "string \<Rightarrow> json_exn + json" where
  "json_parse_dom inp =
     (case sax_parse dom_step inp dom_init of (d, _) \<Rightarrow> case d_error d of Some e \<Rightarrow> Inl e | None \<Rightarrow> Inr (d_root d))"

definition json_parse_quiet :: "string \<Rightarrow> json option" where
  "json_parse_quiet inp =
     (case sax_parse dom_step inp dom_init of (d, _) \<Rightarrow> if d_error d = None then Some (d_root d) else None)"

section \<open>The acceptor\<close>

fun acceptor :: "unit consumer" where
  "acceptor _ (E_parse_error e) = ((), False)"
| "acceptor _ _ = ((), True)"

definition json_accept :: "string \<Rightarrow> bool" where
  "json_accept inp = snd (sax_parse acceptor inp ())"

section \<open>They build what \<open>parse_value\<close> computes\<close>

fun dom_frame_of :: "frame \<Rightarrow> dom_frame" where
  "dom_frame_of (FArray xs) = D_array xs"
| "dom_frame_of (FObject m k) = D_object (map_ref k JNull m) (Some k)"

definition dom_before :: "frame list \<Rightarrow> dom" where
  "dom_before fs = \<lparr>d_root = JNull, d_stack = map dom_frame_of fs, d_error = None, d_misuse = False\<rparr>"

lemma map_put_twice: "map_put k v (map_put k w m) = map_put k v m"
  by (induction k w m rule: map_put.induct) auto

lemma map_put_ref: "map_put k v (map_ref k null m) = map_put k v m"
  by (simp add: map_ref_def map_put_twice)

lemma map_ref_Nil: "map_ref k null [] = [(k, null)]"
  by (simp add: map_ref_def)

interpretation dom_sax: sax_builder dom_step dom_before "\<lambda>fs v. dom_value v (dom_before fs)"
    "\<lambda>fs. (dom_before fs)\<lparr>d_stack := D_object [] None # map dom_frame_of fs\<rparr>" "\<lambda>e d. d_error d = Some e"
proof (unfold_locales, goal_cases)
  case (1 tok e v fs)
  then show ?case by (cases tok) auto
qed (simp_all add: dom_before_def dom_value_def dom_key_def dom_end_def map_put_ref map_ref_Nil)

interpretation acceptor_sax: sax_builder acceptor "\<lambda>_. ()" "\<lambda>_ _. ()" "\<lambda>_. ()" "\<lambda>_ _. True"
proof (unfold_locales, goal_cases)
  case (1 tok e v fs)
  then show ?case by (cases tok) auto
qed simp_all
section \<open>The builder with a callback\<close>

datatype parse_event = Object_start | Object_end | Array_start | Array_end | Key | Value

text \<open>The values that it builds; some of them are discarded.\<close>

datatype built = B_discarded | B_scalar json | B_array "built list" | B_object "(string \<times> built) list"

type_synonym callback = "int \<Rightarrow> parse_event \<Rightarrow> built \<Rightarrow> bool"

datatype cb_frame = C_array "built list" | C_object "(string \<times> built) list" "string option"

text \<open>The reference of a container that is not kept is null. The stacks have their tops in front.\<close>

record cb_parser =
  c_root :: built
  ref_stack :: "cb_frame option list"
  keep_stack :: "bool list"
  key_keep_stack :: "bool list"
  c_error :: "json_exn option"
  c_misuse :: bool

definition cb_init :: cb_parser where
  "cb_init = \<lparr>c_root = B_scalar JNull, ref_stack = [], keep_stack = [True], key_keep_stack = [], c_error = None, c_misuse = False\<rparr>"

definition depth :: "cb_parser \<Rightarrow> int" where
  "depth st = int (length (ref_stack st))"

text \<open>\<open>handle_value\<close>: whether the value is kept, and the place it goes to.\<close>

definition cb_keeps :: "callback \<Rightarrow> built \<Rightarrow> bool \<Rightarrow> cb_parser \<Rightarrow> bool \<times> cb_parser" where
  "cb_keeps cb v skip_callback st =
     (case keep_stack st of
        [] \<Rightarrow> (False, st\<lparr>c_misuse := True\<rparr>)
      | keep # _ \<Rightarrow>
          if \<not> keep \<or> \<not> (skip_callback \<or> cb (depth st) Value v) then (False, st)
          else (case ref_stack st of
              [] \<Rightarrow> (True, st)
            | None # _ \<Rightarrow> (False, st)
            | Some (C_array xs) # _ \<Rightarrow> (True, st)
            | Some (C_object m k) # _ \<Rightarrow>
                (case key_keep_stack st of
                   [] \<Rightarrow> (False, st\<lparr>c_misuse := True\<rparr>)
                 | store_element # ks \<Rightarrow> (store_element, st\<lparr>key_keep_stack := ks\<rparr>))))"

definition cb_store :: "built \<Rightarrow> cb_parser \<Rightarrow> cb_parser" where
  "cb_store v st =
     (case ref_stack st of
        [] \<Rightarrow> st\<lparr>c_root := v\<rparr>
      | Some (C_array xs) # fs \<Rightarrow> st\<lparr>ref_stack := Some (C_array (xs @ [v])) # fs\<rparr>
      | Some (C_object m (Some k)) # fs \<Rightarrow> st\<lparr>ref_stack := Some (C_object (map_put k v m) (Some k)) # fs\<rparr>
      | _ \<Rightarrow> st\<lparr>c_misuse := True\<rparr>)"

definition cb_value :: "callback \<Rightarrow> json \<Rightarrow> cb_parser \<Rightarrow> cb_parser" where
  "cb_value cb v st = (let (keep, st) = cb_keeps cb (B_scalar v) False st in if keep then cb_store (B_scalar v) st else st)"

definition cb_start :: "callback \<Rightarrow> parse_event \<Rightarrow> built \<Rightarrow> cb_frame \<Rightarrow> cb_parser \<Rightarrow> cb_parser" where
  "cb_start cb ev v f st =
     (let keep = cb (depth st) ev B_discarded;
          (stored, st) = cb_keeps cb v True (st\<lparr>keep_stack := keep # keep_stack st\<rparr>)
      in st\<lparr>ref_stack := (if stored then Some f else None) # ref_stack st\<rparr>)"

definition cb_key :: "callback \<Rightarrow> string \<Rightarrow> cb_parser \<Rightarrow> cb_parser" where
  "cb_key cb k st =
     (let keep = cb (depth st) Key (B_scalar (JString k)); st = st\<lparr>key_keep_stack := keep # key_keep_stack st\<rparr>
      in if \<not> keep then st
         else case ref_stack st of
             None # _ \<Rightarrow> st
           | Some (C_object m _) # fs \<Rightarrow> st\<lparr>ref_stack := Some (C_object (map_put k B_discarded m) (Some k)) # fs\<rparr>
           | _ \<Rightarrow> st\<lparr>c_misuse := True\<rparr>)"

fun cb_frame_value :: "cb_frame \<Rightarrow> built" where
  "cb_frame_value (C_array xs) = B_array xs"
| "cb_frame_value (C_object m k) = B_object m"

text \<open>The loop that erases the first discarded element.\<close>

definition drop_first :: "('a \<Rightarrow> bool) \<Rightarrow> 'a list \<Rightarrow> 'a list" where
  "drop_first p xs = takeWhile (\<lambda>x. \<not> p x) xs @ tl (dropWhile (\<lambda>x. \<not> p x) xs)"

fun remove_discarded :: "cb_frame \<Rightarrow> cb_frame" where
  "remove_discarded (C_array xs) = C_array (drop_first (\<lambda>x. x = B_discarded) xs)"
| "remove_discarded (C_object m k) = C_object (drop_first (\<lambda>e. snd e = B_discarded) m) k"

text \<open>The end of a container: the callback decides on the whole of it, and it goes to its place.\<close>

definition cb_close :: "callback \<Rightarrow> parse_event \<Rightarrow> cb_parser \<Rightarrow> bool \<times> cb_parser" where
  "cb_close cb ev st =
     (case (ref_stack st, keep_stack st) of
        (ref # refs, _ # keeps) \<Rightarrow>
          (let keep = (case ref of Some f \<Rightarrow> cb (depth st - 1) ev (cb_frame_value f) | None \<Rightarrow> True);
               st = st\<lparr>ref_stack := refs, keep_stack := keeps\<rparr>
           in (keep, case ref of None \<Rightarrow> st | Some f \<Rightarrow> cb_store (if keep then cb_frame_value f else B_discarded) st))
      | _ \<Rightarrow> (True, st\<lparr>c_misuse := True\<rparr>))"

definition cb_end_object :: "callback \<Rightarrow> cb_parser \<Rightarrow> cb_parser" where
  "cb_end_object cb st =
     (let (_, st) = cb_close cb Object_end st
      in case ref_stack st of
           Some f # fs \<Rightarrow> st\<lparr>ref_stack := Some (remove_discarded f) # fs\<rparr>
         | _ \<Rightarrow> st)"

definition cb_end_array :: "callback \<Rightarrow> cb_parser \<Rightarrow> cb_parser" where
  "cb_end_array cb st =
     (let (keep, st) = cb_close cb Array_end st
      in if keep then st
         else case ref_stack st of
             Some (C_array xs) # fs \<Rightarrow> st\<lparr>ref_stack := Some (C_array (butlast xs)) # fs\<rparr>
           | None # _ \<Rightarrow> st\<lparr>c_misuse := True\<rparr>
           | _ \<Rightarrow> st)"

fun cb_step :: "callback \<Rightarrow> cb_parser consumer" where
  "cb_step cb st E_null = (cb_value cb JNull st, True)"
| "cb_step cb st (E_boolean b) = (cb_value cb (JBool b) st, True)"
| "cb_step cb st (E_number_integer i) = (cb_value cb (JInteger i) st, True)"
| "cb_step cb st (E_number_unsigned n) = (cb_value cb (JUnsigned n) st, True)"
| "cb_step cb st (E_number_float x) = (cb_value cb (JFloat x) st, True)"
| "cb_step cb st (E_string s) = (cb_value cb (JString s) st, True)"
| "cb_step cb st E_start_object = (cb_start cb Object_start (B_object []) (C_object [] None) st, True)"
| "cb_step cb st (E_key k) = (cb_key cb k st, True)"
| "cb_step cb st E_end_object = (cb_end_object cb st, True)"
| "cb_step cb st E_start_array = (cb_start cb Array_start (B_array []) (C_array []) st, True)"
| "cb_step cb st E_end_array = (cb_end_array cb st, True)"
| "cb_step cb st (E_parse_error e) = (st\<lparr>c_error := Some e\<rparr>, False)"

definition json_parse_callback :: "callback \<Rightarrow> string \<Rightarrow> json_exn + built" where
  "json_parse_callback cb inp =
     (case sax_parse (cb_step cb) inp cb_init of (st, _) \<Rightarrow>
        case c_error st of
          Some e \<Rightarrow> Inl e
        | None \<Rightarrow> Inr (if c_root st = B_discarded then B_scalar JNull else c_root st))"

section \<open>A callback that keeps everything\<close>

fun built_of :: "json \<Rightarrow> built" where
  "built_of (JArray xs) = B_array (map built_of xs)"
| "built_of (JObject m) = B_object (map (\<lambda>(k, v). (k, built_of v)) m)"
| "built_of j = B_scalar j"

lemma built_of_kept: "built_of j \<noteq> B_discarded"
  by (cases j) auto

abbreviation built_members :: "(string \<times> json) list \<Rightarrow> (string \<times> built) list" where
  "built_members m \<equiv> map (\<lambda>(k, v). (k, built_of v)) m"

lemma built_members_put: "built_members (map_put k v m) = map_put k (built_of v) (built_members m)"
  by (induction k v m rule: map_put.induct) auto

fun cb_frame_of :: "frame \<Rightarrow> cb_frame" where
  "cb_frame_of (FArray xs) = C_array (map built_of xs)"
| "cb_frame_of (FObject m k) = C_object (map_put k B_discarded (built_members m)) (Some k)"

fun pending_key :: "frame list \<Rightarrow> bool list" where
  "pending_key (FObject m k # fs) = [True]"
| "pending_key fs = []"

definition cb_before :: "frame list \<Rightarrow> cb_parser" where
  "cb_before fs = \<lparr>c_root = B_scalar JNull, ref_stack = map (\<lambda>f. Some (cb_frame_of f)) fs, keep_stack = replicate (length fs + 1) True,
     key_keep_stack = pending_key fs, c_error = None, c_misuse = False\<rparr>"

text \<open>Behind a value: it is in its place, and the flag of its key is gone.\<close>

definition cb_behind :: "frame list \<Rightarrow> json \<Rightarrow> cb_parser" where
  "cb_behind fs v = cb_store (built_of v) ((cb_before fs)\<lparr>key_keep_stack := []\<rparr>)"

lemma drop_first_none: "(\<forall>x\<in>set xs. \<not> p x) \<Longrightarrow> drop_first p xs = xs"
  by (simp add: drop_first_def dropWhile_eq_Nil_conv [THEN iffD2] takeWhile_eq_all_conv [THEN iffD2])

lemma set_map_put_snd: "set (map_put k v m) \<subseteq> insert (k, v) (set m)"
  by (rule set_map_put)

lemma remove_from_members:
  "drop_first (\<lambda>e. snd e = B_discarded) (map_put k (built_of v) (built_members m)) = map_put k (built_of v) (built_members m)"
proof (rule drop_first_none)
  show "\<forall>e\<in>set (map_put k (built_of v) (built_members m)). snd e \<noteq> B_discarded"
    unfolding built_members_put [symmetric] by (auto simp: built_of_kept)
qed

lemma remove_from_array: "drop_first (\<lambda>x. x = B_discarded) (map built_of xs @ [built_of v]) = map built_of xs @ [built_of v]"
  by (rule drop_first_none) (auto simp: built_of_kept)
definition cb_opened :: "frame list \<Rightarrow> cb_parser" where
  "cb_opened fs = (cb_before fs)\<lparr>ref_stack := Some (C_object [] None) # map (\<lambda>f. Some (cb_frame_of f)) fs,
     keep_stack := replicate (length fs + 2) True, key_keep_stack := []\<rparr>"

abbreviation keep_all :: callback where
  "keep_all \<equiv> \<lambda>_ _ _. True"

lemma cb_keeps_before: "cb_keeps keep_all v skip (cb_before fs) = (True, (cb_before fs)\<lparr>key_keep_stack := []\<rparr>)"
  by (cases fs rule: pending_key.cases) (simp_all add: cb_keeps_def cb_before_def)

lemma cb_value_before: "built_of j = B_scalar j \<Longrightarrow> cb_value keep_all j (cb_before fs) = cb_behind fs j"
  by (simp add: cb_value_def cb_keeps_before cb_behind_def)

lemma cb_start_before:
  "cb_start keep_all ev v f (cb_before fs) =
     (cb_before fs)\<lparr>ref_stack := Some f # ref_stack (cb_before fs), keep_stack := True # keep_stack (cb_before fs), key_keep_stack := []\<rparr>"
  by (cases fs rule: pending_key.cases) (simp_all add: cb_start_def cb_keeps_def cb_before_def)

text \<open>The end of a container, when it is on top of the frames \<open>fs\<close>.\<close>

lemma cb_close_top:
  assumes "st = (cb_before fs)\<lparr>ref_stack := Some f # ref_stack (cb_before fs), keep_stack := True # keep_stack (cb_before fs), key_keep_stack := []\<rparr>"
    and "cb_frame_value f = built_of v"
  shows "cb_close keep_all ev st = (True, cb_behind fs v)"
  using assms by (simp add: cb_close_def cb_behind_def cb_before_def)

lemma cb_end_object_behind:
  assumes "cb_close keep_all Object_end st = (True, cb_behind fs v)"
  shows "cb_end_object keep_all st = cb_behind fs v"
  using assms
  by (cases fs rule: pending_key.cases)
    (simp_all add: cb_end_object_def cb_behind_def cb_store_def cb_before_def map_put_twice remove_from_members remove_from_array)

interpretation cb_sax: sax_builder "cb_step keep_all" cb_before cb_behind cb_opened "\<lambda>e st. c_error st = Some e"
proof (unfold_locales, goal_cases)
  case (1 tok e v fs)
  then show ?case by (cases tok) (auto simp: cb_value_before)
next
  case (2 fs x)
  then show ?case by (simp add: cb_value_before)
next
  case (3 fs)
  then show ?case by (simp add: cb_start_before) (simp add: cb_before_def)
next
  case (4 xs fs)
  have "cb_close keep_all Array_end (cb_before (FArray xs # fs)) = (True, cb_behind fs (JArray xs))"
    by (rule cb_close_top [of _ _ "C_array (map built_of xs)"]) (simp_all add: cb_before_def)
  then show ?case by (simp add: cb_end_array_def)
next
  case (5 xs fs v)
  then show ?case by (simp add: cb_behind_def cb_before_def cb_store_def)
next
  case (6 fs)
  then show ?case by (simp add: cb_start_before) (simp add: cb_before_def cb_opened_def)
next
  case (7 fs k)
  then show ?case by (simp add: cb_key_def cb_opened_def cb_before_def)
next
  case (8 fs)
  have "cb_close keep_all Object_end (cb_opened fs) = (True, cb_behind fs (JObject []))"
    by (rule cb_close_top [of _ _ "C_object [] None"]) (simp_all add: cb_before_def cb_opened_def)
  then show ?case by (simp add: cb_end_object_behind)
next
  case (9 m k fs v k')
  then show ?case by (simp add: cb_behind_def cb_before_def cb_store_def cb_key_def map_put_twice built_members_put)
next
  case (10 m k fs v)
  have "cb_close keep_all Object_end (cb_behind (FObject m k # fs) v) = (True, cb_behind fs (JObject (map_put k v m)))"
    by (rule cb_close_top [of _ _ "C_object (map_put k (built_of v) (built_members m)) (Some k)"])
      (simp_all add: cb_before_def cb_behind_def cb_store_def map_put_twice built_members_put)
  then show ?case by (simp add: cb_end_object_behind)
qed simp_all

section \<open>Arrays hold no discarded values\<close>

fun arrays_clean :: "built \<Rightarrow> bool" where
  "arrays_clean (B_array xs) = (\<forall>x\<in>set xs. x \<noteq> B_discarded \<and> arrays_clean x)"
| "arrays_clean (B_object m) = (\<forall>e\<in>set m. arrays_clean (snd e))"
| "arrays_clean v = True"

fun clean_ref :: "cb_frame option \<Rightarrow> bool" where
  "clean_ref None = True"
| "clean_ref (Some f) = arrays_clean (cb_frame_value f)"

definition cb_clean :: "cb_parser \<Rightarrow> bool" where
  "cb_clean st \<longleftrightarrow> arrays_clean (c_root st) \<and> list_all clean_ref (ref_stack st)"

text \<open>What every event keeps of a consumer's state, a parse keeps.\<close>

locale sax_invariant =
  fixes sax :: "'s consumer" and inv :: "'s \<Rightarrow> bool"
  assumes step: "inv s \<Longrightarrow> inv (fst (sax s ev))"
begin

lemma inv_emit: "inv s \<Longrightarrow> (\<And>t. inv t \<Longrightarrow> inv (fst (continue t))) \<Longrightarrow> inv (fst (emit sax e s continue))"
  using step [of s e] by (auto simp: emit_def split: prod.splits)

lemma inv_fail: "inv s \<Longrightarrow> inv (fst (sax_fail sax e r s))"
  unfolding sax_fail_def by (rule inv_emit) auto

lemma inv_member:
  "inv s \<Longrightarrow> (\<And>t r2 q. length r2 < length r \<Longrightarrow> inv q \<Longrightarrow> inv (fst (continue t r2 q))) \<Longrightarrow> inv (fst (sax_member sax tok r s continue))"
  by (auto simp: sax_member_def intro!: inv_emit inv_fail split: token.splits prod.splits
      dest!: json_scan_bound)

lemma inv_run:
  "sx = sax \<Longrightarrow> inv s \<Longrightarrow> inv (fst (sax_value sx states tok r s))"
  "sx = sax \<Longrightarrow> inv t \<Longrightarrow> inv (fst (sax_after sx sts q t))"
proof (induction sx states tok r s and sx sts q t rule: sax_value_sax_after.induct)
  case (1 sx states tok r s)
  obtain t r1 where sc: "json_scan r = (t, r1)" by fastforce
  show ?case
  proof (cases tok)
    case T_begin_object
    note ih = "1.IH" [unfolded sc, unfolded T_begin_object, simplified]
    show ?thesis
      using ih "1.prems" by (auto simp: sax_value.simps [of _ _ T_begin_object] T_begin_object sc intro!: inv_emit inv_member)
  next
    case T_begin_array
    note ih = "1.IH" [unfolded sc, unfolded T_begin_array, simplified]
    show ?thesis
      using ih "1.prems" by (auto simp: sax_value.simps [of _ _ T_begin_array] T_begin_array sc intro!: inv_emit)
  next
    case (T_float x)
    show ?thesis
      using "1.IH" [unfolded T_float, simplified] "1.prems"
      by (auto simp: sax_value.simps [of _ _ "T_float x"] T_float intro!: inv_emit inv_fail)
  qed (use "1.IH" "1.prems" in \<open>auto simp: sax_value.simps [of sax states _ r] intro!: inv_emit inv_fail\<close>)
next
  case (3 sx states r s)
  then show ?case
    by (auto simp: sax_after.simps intro!: inv_emit inv_fail split: prod.splits)
next
  case (4 sx states r s)
  then show ?case
    by (auto simp: sax_after.simps intro!: inv_emit inv_fail inv_member split: prod.splits)
qed (simp add: sax_after.simps)

lemma inv_sax_parse: "inv s \<Longrightarrow> inv (fst (sax_parse sax inp s))"
proof -
  assume s: "inv s"
  obtain t r where f: "scan_first inp = (t, r)" by fastforce
  obtain s' x where v: "sax_value sax [] t r s = (s', x)" by fastforce
  have "inv s'" using inv_run(1) [OF refl s, of "[]" t r] v by simp
  then show ?thesis using step [of s'] by (auto simp: sax_parse_def f v split: option.splits)
qed

end
text \<open>The invariant, event by event.\<close>

lemma set_drop_first: "set (drop_first p xs) \<subseteq> set xs"
proof -
  have "set (tl ys) \<subseteq> set ys" for ys :: "'a list" by (cases ys) auto
  then show ?thesis by (auto simp: drop_first_def dest!: subsetD set_takeWhileD set_dropWhileD)
qed

lemma drop_first_last:
  assumes "\<forall>x\<in>set xs. x \<noteq> B_discarded"
  shows "drop_first (\<lambda>x. x = B_discarded) (xs @ [v]) = (if v = B_discarded then xs else xs @ [v])"
  using assms by (simp add: drop_first_def takeWhile_append dropWhile_append takeWhile_eq_all_conv [THEN iffD2])

lemma arrays_clean_put: "arrays_clean (B_object m) \<Longrightarrow> arrays_clean v \<Longrightarrow> arrays_clean (B_object (map_put k v m))"
  using set_map_put [of k v m] by fastforce

lemma clean_keeps:
  "cb_keeps cb v skip st = (keep, st') \<Longrightarrow> ref_stack st' = ref_stack st \<and> c_root st' = c_root st"
  by (auto simp: cb_keeps_def split: list.splits option.splits cb_frame.splits if_splits)

lemma clean_keeps_iff: "cb_keeps cb v skip st = (keep, st') \<Longrightarrow> cb_clean st' = cb_clean st"
  by (simp add: clean_keeps cb_clean_def)

lemma clean_store: "cb_clean st \<Longrightarrow> arrays_clean v \<Longrightarrow> v \<noteq> B_discarded \<Longrightarrow> cb_clean (cb_store v st)"
  unfolding cb_clean_def cb_store_def
  by (auto simp: arrays_clean_put simp del: arrays_clean.simps(2) split: list.splits option.splits cb_frame.splits)

lemma clean_value: "cb_clean st \<Longrightarrow> cb_clean (cb_value cb v st)"
  using clean_keeps_iff [of cb "B_scalar v" False st] clean_store [of _ "B_scalar v"]
  by (auto simp: cb_value_def split: prod.splits)

lemma clean_start: "cb_clean st \<Longrightarrow> arrays_clean (cb_frame_value f) \<Longrightarrow> cb_clean (cb_start cb ev v f st)"
proof -
  assume c: "cb_clean st" "arrays_clean (cb_frame_value f)"
  obtain stored st' where k: "cb_keeps cb v True (st\<lparr>keep_stack := cb (depth st) ev B_discarded # keep_stack st\<rparr>) = (stored, st')"
    by fastforce
  show ?thesis using c clean_keeps [OF k] by (simp add: cb_start_def cb_clean_def k)
qed

lemma clean_key: "cb_clean st \<Longrightarrow> cb_clean (cb_key cb k st)"
  unfolding cb_clean_def cb_key_def Let_def
  by (auto simp: arrays_clean_put simp del: arrays_clean.simps(2) split: list.splits option.splits cb_frame.splits)

text \<open>The end of a container stores it, or a discarded value, in a clean state.\<close>

lemma clean_close:
  assumes "cb_clean st" and "cb_close cb ev st = (keep, st')"
  shows "cb_clean st' \<and> keep \<or> (\<exists>t. cb_clean t \<and> st' = cb_store B_discarded t \<and> \<not> keep)"
proof (cases "\<exists>ref refs k keeps. ref_stack st = ref # refs \<and> keep_stack st = k # keeps")
  case True
  then obtain ref refs k keeps where s: "ref_stack st = ref # refs" "keep_stack st = k # keeps" by blast
  let ?t = "st\<lparr>ref_stack := refs, keep_stack := keeps\<rparr>"
  have t: "cb_clean ?t" and r: "clean_ref ref" using assms(1) s by (auto simp: cb_clean_def)
  show ?thesis
  proof (cases ref)
    case None
    then show ?thesis using assms(2) s t by (auto simp: cb_close_def)
  next
    case (Some f)
    have "cb_frame_value f \<noteq> B_discarded" by (cases f) auto
    with clean_store [OF t] r Some have "cb_clean (cb_store (cb_frame_value f) ?t)" by simp
    then show ?thesis using assms(2) s t Some by (auto simp: cb_close_def Let_def split: if_splits)
  qed
next
  case False
  then show ?thesis using assms by (auto simp: cb_close_def cb_clean_def split: list.splits)
qed

lemma clean_remove: "arrays_clean (cb_frame_value f) \<Longrightarrow> arrays_clean (cb_frame_value (remove_discarded f))"
proof (cases f)
  case (C_array xs)
  then show "arrays_clean (cb_frame_value f) \<Longrightarrow> ?thesis" using set_drop_first [of _ xs] by fastforce
next
  case (C_object m k)
  then show "arrays_clean (cb_frame_value f) \<Longrightarrow> ?thesis" using set_drop_first [of _ m] by fastforce
qed

lemma clean_end_object: "cb_clean st \<Longrightarrow> cb_clean (cb_end_object cb st)"
proof -
  assume c: "cb_clean st"
  obtain keep st' where e: "cb_close cb Object_end st = (keep, st')" by fastforce
  from clean_close [OF c e] show ?thesis
  proof (elim disjE exE conjE)
    assume "cb_clean st'"
    then show ?thesis
      using clean_remove by (auto simp: cb_end_object_def e cb_clean_def split: list.splits option.splits)
  next
    fix t assume t: "cb_clean t" "st' = cb_store B_discarded t"
    show ?thesis
    proof (cases "\<exists>xs fs. ref_stack t = Some (C_array xs) # fs")
      case True
      then show ?thesis
        using t by (auto simp: cb_end_object_def e cb_clean_def cb_store_def drop_first_last)
    next
      case False
      then have "cb_clean st'"
        using t arrays_clean_put unfolding cb_clean_def cb_store_def
        by (auto simp del: arrays_clean.simps(2) split: list.splits option.splits cb_frame.splits)
      then show ?thesis
        using clean_remove by (auto simp: cb_end_object_def e cb_clean_def split: list.splits option.splits)
    qed
  qed
qed

lemma clean_end_array: "cb_clean st \<Longrightarrow> cb_clean (cb_end_array cb st)"
proof -
  assume c: "cb_clean st"
  obtain keep st' where e: "cb_close cb Array_end st = (keep, st')" by fastforce
  from clean_close [OF c e] show ?thesis
  proof (elim disjE exE conjE)
    assume "cb_clean st'" keep
    then show ?thesis by (simp add: cb_end_array_def e)
  next
    fix t assume t: "cb_clean t" "st' = cb_store B_discarded t" "\<not> keep"
    then show ?thesis unfolding cb_end_array_def e cb_clean_def cb_store_def
      by (auto simp: arrays_clean_put simp del: arrays_clean.simps(2) split: list.splits option.splits cb_frame.splits)
  qed
qed

interpretation cb_invariant: sax_invariant "cb_step cb" cb_clean for cb
proof
  fix st ev
  assume "cb_clean st"
  then show "cb_clean (fst (cb_step cb st ev))"
    by (cases ev) (simp_all add: clean_value clean_start clean_key clean_end_object clean_end_array, simp add: cb_clean_def)
qed

lemma dom_not_misused: "json_parse inp = Inr v \<Longrightarrow> \<not> d_misuse (fst (sax_parse dom_step inp (dom_before [])))"
  using dom_sax.builds_whole [of inp] by (simp add: dom_value_def dom_before_def)

section \<open>Properties\<close>

text \<open>C29. The consumers agree with \<open>json::parse\<close>: the DOM builder, fed event by event, builds the value that the parser yields or
  throws its error, and makes a discarded value of it where exceptions are not allowed; the acceptor accepts exactly the texts
  that can be parsed; and the builder with a callback that keeps everything builds that value, too, with nothing discarded.\<close>

theorem sax_consumers_agree:
  "json_parse_dom inp = json_parse inp
   \<and> json_parse_quiet inp = (case json_parse inp of Inl _ \<Rightarrow> None | Inr v \<Rightarrow> Some v)
   \<and> (json_accept inp \<longleftrightarrow> (\<exists>v. json_parse inp = Inr v))
   \<and> json_parse_callback (\<lambda>_ _ _. True) inp = (case json_parse inp of Inl e \<Rightarrow> Inl e | Inr v \<Rightarrow> Inr (built_of v))"
proof -
  have i: "dom_before [] = dom_init" "cb_before [] = cb_init"
    by (simp_all add: dom_before_def dom_init_def cb_before_def cb_init_def)
  show ?thesis
    using dom_sax.builds_whole [of inp] acceptor_sax.builds_whole [of inp] cb_sax.builds_whole [of inp]
    by (cases "json_parse inp")
      (auto simp: json_parse_dom_def json_parse_quiet_def json_accept_def json_parse_callback_def i dom_value_def dom_init_def
        cb_behind_def cb_store_def cb_init_def built_of_kept split: prod.splits)
qed

text \<open>Whatever a callback rejects, no array of the result holds a discarded value: a rejected element is not added, a rejected
  array is taken out again, and so is a rejected object.\<close>

theorem callback_arrays_clean:
  assumes "json_parse_callback cb inp = Inr v"
  shows "arrays_clean v"
proof -
  have "cb_clean (fst (sax_parse (cb_step cb) inp cb_init))"
    by (rule cb_invariant.inv_sax_parse) (simp add: cb_clean_def cb_init_def)
  then show ?thesis using assms
    by (auto simp: json_parse_callback_def cb_clean_def split: prod.splits option.splits if_splits)
qed

lemmas sax_eval = sax_parse_def sax_value.simps sax_after.simps emit_def sax_member_def json_parse_callback_def cb_init_def
  cb_value_def cb_start_def cb_key_def cb_keeps_def cb_store_def cb_close_def cb_end_object_def cb_end_array_def depth_def drop_first_def

lemma example_rejecting:
  "json_parse_callback (\<lambda>d ev v. ev \<noteq> Object_end) [CHR 0x5B, CHR 0x7B, CHR 0x7D, CHR '','', CHR ''1'', CHR 0x5D] =
     Inr (B_array [B_scalar (JUnsigned 1)])"
  by (simp add: sax_eval json_eval)

theorem callback_arrays_clean_witness: "arrays_clean (B_array [B_scalar (JUnsigned 1)])"
  by (rule callback_arrays_clean [OF example_rejecting])

text \<open>
  In an object that is different: the place of a rejected value stays, with a discarded value in it, unless an object that follows
  in the same object takes it away.
\<close>

lemma rejected_value_stays:
  "json_parse_callback (\<lambda>d ev v. ev \<noteq> Value) [CHR 0x7B, quote, CHR ''a'', quote, CHR '':'', CHR ''1'', CHR 0x7D] =
     Inr (B_object [(''a'', B_discarded)])"
  by (simp add: sax_eval json_eval)

end
