(* ===== verification/MessagePack.thy ===== *)
theory MessagePack
  imports BinaryFormat
begin

text \<open>
  MessagePack, \<open>to_msgpack\<close> and \<open>from_msgpack\<close> of \<open>include/nlohmann/json.hpp\<close>: the writer picks the shortest head for a
  number or a length, the reader dispatches on the first byte.

  The C++ reader recurses for the elements of arrays and maps; \<open>parse_msgpack\<close> counts that depth down from the number of
  bytes, which is never used up. The maximal size of a vector, against which the DOM parser compares the announced length, is
  beyond \<open>2 ^ 32\<close> and not modelled, nor is lack of stack or memory.

  The lemmas show that reading undoes writing, that the reader never runs out of fuel, and which lengths are lost.
\<close>

unbundle bit_operations_syntax

section \<open>Writing\<close>

definition write_unsigned :: "nat \<Rightarrow> string" where
  "write_unsigned n =
     (if n < 128 then write_number 1 n
      else if n \<le> 0xFF then CHR 0xCC # write_number 1 n
      else if n \<le> 0xFFFF then CHR 0xCD # write_number 2 n
      else if n \<le> 0xFFFFFFFF then CHR 0xCE # write_number 4 n
      else if n \<le> 0xFFFFFFFFFFFFFFFF then CHR 0xCF # write_number 8 n
      else [])"

definition write_negative :: "int \<Rightarrow> string" where
  "write_negative i =
     (if - 32 \<le> i then write_signed 1 i
      else if - (2 ^ 7) \<le> i \<and> i < 2 ^ 7 then CHR 0xD0 # write_signed 1 i
      else if - (2 ^ 15) \<le> i \<and> i < 2 ^ 15 then CHR 0xD1 # write_signed 2 i
      else if - (2 ^ 31) \<le> i \<and> i < 2 ^ 31 then CHR 0xD2 # write_signed 4 i
      else if - (2 ^ 63) \<le> i \<and> i < 2 ^ 63 then CHR 0xD3 # write_signed 8 i
      else [])"

definition write_integer :: "int \<Rightarrow> string" where
  "write_integer i = (if 0 \<le> i then write_unsigned (nat i) else write_negative i)"

text \<open>The heads of strings, arrays, maps and binary values. A length of \<open>2 ^ 32\<close> or more has no head.\<close>

definition string_head :: "nat \<Rightarrow> string" where
  "string_head N =
     (if N \<le> 31 then write_number 1 (0xA0 OR N)
      else if N \<le> 0xFF then CHR 0xD9 # write_number 1 N
      else if N \<le> 0xFFFF then CHR 0xDA # write_number 2 N
      else if N \<le> 0xFFFFFFFF then CHR 0xDB # write_number 4 N
      else [])"

definition write_string :: "string \<Rightarrow> string" where
  "write_string s = string_head (length s) @ s"

definition array_head :: "nat \<Rightarrow> string" where
  "array_head N =
     (if N \<le> 15 then write_number 1 (0x90 OR N)
      else if N \<le> 0xFFFF then CHR 0xDC # write_number 2 N
      else if N \<le> 0xFFFFFFFF then CHR 0xDD # write_number 4 N
      else [])"

definition map_head :: "nat \<Rightarrow> string" where
  "map_head N =
     (if N \<le> 15 then write_number 1 (0x80 OR (N AND 0xF))
      else if N \<le> 0xFFFF then CHR 0xDE # write_number 2 N
      else if N \<le> 0xFFFFFFFF then CHR 0xDF # write_number 4 N
      else [])"

text \<open>A binary value with a subtype is an ext, with a head of its own for the sizes 1, 2, 4, 8 and 16.\<close>

definition binary_head :: "bool \<Rightarrow> nat \<Rightarrow> string" where
  "binary_head use_ext N =
     (if N \<le> 0xFF then
        (if use_ext then
           (if N = 1 then [CHR 0xD4] else if N = 2 then [CHR 0xD5] else if N = 4 then [CHR 0xD6]
            else if N = 8 then [CHR 0xD7] else if N = 16 then [CHR 0xD8] else CHR 0xC7 # write_number 1 N)
         else CHR 0xC4 # write_number 1 N)
      else if N \<le> 0xFFFF then (if use_ext then CHR 0xC8 else CHR 0xC5) # write_number 2 N
      else if N \<le> 0xFFFFFFFF then (if use_ext then CHR 0xC9 else CHR 0xC6) # write_number 4 N
      else [])"

definition write_binary :: "string \<Rightarrow> nat option \<Rightarrow> string" where
  "write_binary bs st =
     binary_head (st \<noteq> None) (length bs) @ (case st of None \<Rightarrow> [] | Some t \<Rightarrow> write_signed 1 (int t)) @ bs"

fun write_msgpack :: "json \<Rightarrow> string"
  and write_elements :: "json list \<Rightarrow> string"
  and write_members :: "(string \<times> json) list \<Rightarrow> string" where
  "write_msgpack JNull = [CHR 0xC0]"
| "write_msgpack (JBool b) = (if b then [CHR 0xC3] else [CHR 0xC2])"
| "write_msgpack (JInteger i) = write_integer i"
| "write_msgpack (JUnsigned n) = write_unsigned n"
| "write_msgpack (JFloat x) = write_compact_float CHR 0xCA CHR 0xCB x"
| "write_msgpack (JString s) = write_string s"
| "write_msgpack (JArray xs) = array_head (length xs) @ write_elements xs"
| "write_msgpack (JBinary bs st) = write_binary bs st"
| "write_msgpack (JObject m) = map_head (length m) @ write_members m"
| "write_elements [] = []"
| "write_elements (x # xs) = write_msgpack x @ write_elements xs"
| "write_members [] = []"
| "write_members ((k, v) # m) = write_string k @ write_msgpack v @ write_members m"

section \<open>Reading\<close>

definition get_msgpack_string :: "nat \<Rightarrow> string reader" where
  "get_msgpack_string current r =
     (if 0xA0 \<le> current \<and> current \<le> 0xBF then get_bytes (current AND 0x1F) r
      else if current = 0xD9 then get_sized 1 r
      else if current = 0xDA then get_sized 2 r
      else if current = 0xDB then get_sized 4 r
      else Inl (Bexn (Parse_error 113)))"

text \<open>The subtype is kept as an unsigned byte.\<close>

definition get_ext :: "nat \<Rightarrow> json reader" where
  "get_ext len r =
     res_bind (get_signed 1 r) (\<lambda>(subtype, r). res_bind (get_bytes len r) (\<lambda>(bs, r).
       Inr (JBinary bs (Some (nat (subtype mod 256))), r)))"

definition get_plain :: "nat \<Rightarrow> json reader" where
  "get_plain k r = res_bind (get_sized k r) (\<lambda>(bs, r). Inr (JBinary bs None, r))"

definition get_msgpack_binary :: "nat \<Rightarrow> json reader" where
  "get_msgpack_binary current r =
     (if current = 0xC4 then get_plain 1 r
      else if current = 0xC5 then get_plain 2 r
      else if current = 0xC6 then get_plain 4 r
      else if current = 0xC7 then res_bind (get_number 1 r) (\<lambda>(len, r). get_ext len r)
      else if current = 0xC8 then res_bind (get_number 2 r) (\<lambda>(len, r). get_ext len r)
      else if current = 0xC9 then res_bind (get_number 4 r) (\<lambda>(len, r). get_ext len r)
      else get_ext (if current = 0xD4 then 1 else if current = 0xD5 then 2 else if current = 0xD6 then 4
                    else if current = 0xD7 then 8 else 16) r)"

text \<open>The numbers behind the bytes CA to D3.\<close>

definition get_msgpack_number :: "nat \<Rightarrow> json reader" where
  "get_msgpack_number current r =
     (if current = 0xCA then res_bind (get_float r) (\<lambda>(x, r). Inr (JFloat x, r))
      else if current = 0xCB then res_bind (get_double r) (\<lambda>(x, r). Inr (JFloat x, r))
      else if current \<le> 0xCF then
        res_bind (get_number (2 ^ (current - 0xCC)) r) (\<lambda>(n, r). Inr (JUnsigned n, r))
      else res_bind (get_signed (2 ^ (current - 0xD0)) r) (\<lambda>(i, r). Inr (JInteger i, r)))"

text \<open>The dispatch on the first byte; the ranges are those of the case labels, in their order.\<close>

function parse_msgpack :: "nat \<Rightarrow> json reader"
  and get_msgpack_array :: "nat \<Rightarrow> nat \<Rightarrow> json list reader"
  and get_msgpack_object :: "nat \<Rightarrow> nat \<Rightarrow> (string \<times> json) list \<Rightarrow> (string \<times> json) list reader" where
  "parse_msgpack 0 inp = Inl No_fuel"
| "parse_msgpack (Suc n) inp =
     res_bind (get_byte inp) (\<lambda>(c, r). let current = byte_of c in
       if current \<le> 0x7F then Inr (JUnsigned current, r)
       else if current \<le> 0x8F then
         res_bind (get_msgpack_object n (current AND 0xF) [] r) (\<lambda>(m, r). Inr (JObject m, r))
       else if current \<le> 0x9F then
         res_bind (get_msgpack_array n (current AND 0xF) r) (\<lambda>(xs, r). Inr (JArray xs, r))
       else if current \<le> 0xBF \<or> current \<in> {0xD9, 0xDA, 0xDB} then
         res_bind (get_msgpack_string current r) (\<lambda>(s, r). Inr (JString s, r))
       else if current = 0xC0 then Inr (JNull, r)
       else if current = 0xC2 then Inr (JBool False, r)
       else if current = 0xC3 then Inr (JBool True, r)
       else if 0xC4 \<le> current \<and> current \<le> 0xC9 \<or> 0xD4 \<le> current \<and> current \<le> 0xD8 then get_msgpack_binary current r
       else if 0xCA \<le> current \<and> current \<le> 0xD3 then get_msgpack_number current r
       else if current = 0xDC \<or> current = 0xDD then
         res_bind (get_number (if current = 0xDC then 2 else 4) r) (\<lambda>(len, r).
         res_bind (get_msgpack_array n len r) (\<lambda>(xs, r). Inr (JArray xs, r)))
       else if current = 0xDE \<or> current = 0xDF then
         res_bind (get_number (if current = 0xDE then 2 else 4) r) (\<lambda>(len, r).
         res_bind (get_msgpack_object n len [] r) (\<lambda>(m, r). Inr (JObject m, r)))
       else if 0xE0 \<le> current then Inr (JInteger (to_signed 1 current), r)
       else Inl (Bexn (Parse_error 112)))"
| "get_msgpack_array n 0 inp = Inr ([], inp)"
| "get_msgpack_array n (Suc len) inp =
     res_bind (parse_msgpack n inp) (\<lambda>(x, r).
     res_bind (get_msgpack_array n len r) (\<lambda>(xs, r). Inr (x # xs, r)))"
| "get_msgpack_object n 0 m inp = Inr (m, inp)"
| "get_msgpack_object n (Suc len) m inp =
     res_bind (get_byte inp) (\<lambda>(c, r).
     res_bind (get_msgpack_string (byte_of c) r) (\<lambda>(key, r).
     res_bind (parse_msgpack n r) (\<lambda>(v, r). get_msgpack_object n len (map_put key v m) r)))"
  by pat_completeness auto
termination
  by (relation "measures [\<lambda>x. case x of Inl (n, _) \<Rightarrow> n | Inr (Inl (n, _, _)) \<Rightarrow> n | Inr (Inr (n, _, _, _)) \<Rightarrow> n,
      \<lambda>x. case x of Inl _ \<Rightarrow> 0 | Inr (Inl (_, len, _)) \<Rightarrow> Suc len | Inr (Inr (_, len, _, _)) \<Rightarrow> Suc len]") auto

text \<open>The public function: the whole input must be one value.\<close>

definition from_msgpack :: "string \<Rightarrow> bin_fail + json" where
  "from_msgpack inp =
     res_bind (parse_msgpack (Suc (length inp)) inp) (\<lambda>(j, r). if r = [] then Inr j else Inl (Bexn (Parse_error 110)))"
section \<open>Reading undoes writing\<close>

text \<open>Values that a reader can return: ordered keys, numbers of 64 bits, lengths of 32 bits, subtypes of a byte.\<close>

fun msgpack_value :: "json \<Rightarrow> bool" where
  "msgpack_value (JInteger i) = (- (2 ^ 63) \<le> i \<and> i < 0)"
| "msgpack_value (JUnsigned n) = (n < 2 ^ 64)"
| "msgpack_value (JString s) = (length s < 2 ^ 32)"
| "msgpack_value (JBinary bs st) = (length bs < 2 ^ 32 \<and> (case st of None \<Rightarrow> True | Some t \<Rightarrow> t < 256))"
| "msgpack_value (JArray xs) = (length xs < 2 ^ 32 \<and> (\<forall>x\<in>set xs. msgpack_value x))"
| "msgpack_value (JObject m) =
     (keys_sorted m \<and> length m < 2 ^ 32 \<and> (\<forall>kv\<in>set m. length (fst kv) < 2 ^ 32 \<and> msgpack_value (snd kv)))"
| "msgpack_value _ = True"

lemma or_plus: "a AND l = 0 \<Longrightarrow> N AND l = N \<Longrightarrow> a OR N = a + N" for a l N :: nat
  using disjunctive_add_eq_or [of a N] by (metis and.commute and.left_commute and_zero_eq)

lemma or_bits:
  "N \<le> 31 \<Longrightarrow> (0xA0::nat) OR N = 0xA0 + N" "N \<le> 15 \<Longrightarrow> (0x90::nat) OR N = 0x90 + N"
  "N \<le> 15 \<Longrightarrow> (0x80::nat) OR (N AND 0xF) = 0x80 + N"
  using or_plus [of "0xA0" "0x1F" N] or_plus [of "0x90" "0xF" N] or_plus [of "0x80" "0xF" N] by (simp_all add: and_low)

lemma and_bits:
  "N \<le> 31 \<Longrightarrow> (0xA0 + N) AND 0x1F = N" "N \<le> 15 \<Longrightarrow> (0x90 + N) AND 0xF = N" "N \<le> 15 \<Longrightarrow> (0x80 + N) AND 0xF = N"
  for N :: nat
  using mod_base(1) [of N 5] mod_base(2) [of N 9] mod_base(2) [of N 8] by (simp_all add: and_low add.commute)

text \<open>What the reader does behind the heads.\<close>

declare parse_msgpack.simps(2) [simp del]

lemmas parse_head = parse_msgpack.simps(2) Let_def or_bits and_bits write_number_1 write_number_1 [unfolded One_nat_def]
  get_number_256 get_number_256 [unfolded One_nat_def]

lemma parse_array_head:
  "N < 2 ^ 32 \<Longrightarrow> parse_msgpack (Suc n) (array_head N @ r) =
     res_bind (get_msgpack_array n N r) (\<lambda>(xs, r). Inr (JArray xs, r))"
  by (cases "N \<le> 15"; cases "N \<le> 0xFFFF") (simp_all add: array_head_def parse_head)

lemma parse_map_head:
  "N < 2 ^ 32 \<Longrightarrow> parse_msgpack (Suc n) (map_head N @ r) =
     res_bind (get_msgpack_object n N [] r) (\<lambda>(m, r). Inr (JObject m, r))"
  by (cases "N \<le> 15"; cases "N \<le> 0xFFFF") (simp_all add: map_head_def parse_head)

lemma length_cases:
  "N < 2 ^ 32 \<Longrightarrow> (N \<le> b \<Longrightarrow> P) \<Longrightarrow> (b < N \<Longrightarrow> N \<le> 0xFF \<Longrightarrow> P) \<Longrightarrow> (0xFF < N \<Longrightarrow> N \<le> 0xFFFF \<Longrightarrow> P) \<Longrightarrow>
     (0xFFFF < N \<Longrightarrow> N \<le> 0xFFFFFFFF \<Longrightarrow> P) \<Longrightarrow> b \<le> 0xFF \<Longrightarrow> P" for N b :: nat
  by (cases "N \<le> b"; cases "N \<le> 0xFF"; cases "N \<le> 0xFFFF") auto

lemma parse_string:
  assumes "length s < 2 ^ 32"
  shows "parse_msgpack (Suc n) (write_string s @ r) = Inr (JString s, r)"
  by (rule length_cases [OF assms, of 31])
    (simp_all add: write_string_def string_head_def get_msgpack_string_def get_sized_def parse_head)

lemma get_key:
  assumes "length s < 2 ^ 32"
  shows "res_bind (get_byte (write_string s @ r)) (\<lambda>(c, r). res_bind (get_msgpack_string (byte_of c) r) f) = f (s, r)"
  by (rule length_cases [OF assms, of 31])
    (simp_all add: write_string_def string_head_def get_msgpack_string_def get_sized_def parse_head)

lemma parse_unsigned: "k < 2 ^ 64 \<Longrightarrow> parse_msgpack (Suc n) (write_unsigned k @ r) = Inr (JUnsigned k, r)"
proof -
  assume k: "k < 2 ^ 64"
  consider "k < 128" | "128 \<le> k" "k \<le> 0xFF" | "0xFF < k" "k \<le> 0xFFFF" | "0xFFFF < k" "k \<le> 0xFFFFFFFF" | "0xFFFFFFFF < k"
    by linarith
  then show ?thesis
    using k by cases (simp_all add: write_unsigned_def get_msgpack_number_def parse_head)
qed


lemma parse_negative:
  assumes "- (2 ^ 63) \<le> i" and "i < 0"
  shows "parse_msgpack (Suc n) (write_negative i @ r) = Inr (JInteger i, r)"
proof -
  consider "- 32 \<le> i" | "- (2 ^ 7) \<le> i" "i < - 32" | "- (2 ^ 15) \<le> i" "i < - (2 ^ 7)" | "- (2 ^ 31) \<le> i" "i < - (2 ^ 15)"
    | "i < - (2 ^ 31)" by linarith
  then show ?thesis
  proof cases
    case 1
    then have "(i + 256) mod 256 = i + 256" using assms(2) by (intro mod_pos_pos_trivial) auto
    then have m: "i mod 256 = i + 256" by simp
    with 1 assms(2) have w: "write_negative i = [char_of (nat (i + 256))]"
      by (simp add: write_negative_def write_signed_def parse_head)
    define k where "k = nat (i + 256)"
    have "224 \<le> k" "k < 256" "to_signed 1 k = i" using 1 assms(2) by (auto simp: k_def to_signed_def)
    then show ?thesis by (simp add: w k_def [symmetric] parse_msgpack.simps(2) Let_def)
  next
    case 2
    then show ?thesis using assms get_signed_write [of 1 i r]
      by (simp add: write_negative_def get_msgpack_number_def parse_msgpack.simps(2))
  next
    case 3
    then show ?thesis using assms get_signed_write [of 2 i r]
      by (simp add: write_negative_def get_msgpack_number_def parse_msgpack.simps(2))
  next
    case 4
    then show ?thesis using assms get_signed_write [of 4 i r]
      by (simp add: write_negative_def get_msgpack_number_def parse_msgpack.simps(2))
  next
    case 5
    then show ?thesis using assms get_signed_write [of 8 i r]
      by (simp add: write_negative_def get_msgpack_number_def parse_msgpack.simps(2))
  qed
qed

lemma parse_float: "parse_msgpack (Suc n) (write_compact_float CHR 0xCA CHR 0xCB x @ r) = Inr (JFloat x, r)"
  by (cases rule: compact_float_cases [of "CHR 0xCA" "CHR 0xCB" x])
    (simp_all add: parse_msgpack.simps(2) get_msgpack_number_def get_float_write get_double_write)

lemma get_ext_write:
  assumes "t < 256"
  shows "get_ext (length bs) (write_signed 1 (int t) @ bs @ r) = Inr (JBinary bs (Some t), r)"
proof -
  have "write_signed 1 (int t) = [char_of t]" using assms by (simp add: write_signed_def parse_head)
  moreover have "nat (to_signed (Suc 0) t mod 256) = t" using assms by (auto simp: to_signed_def)
  ultimately show ?thesis using assms by (simp add: get_ext_def get_signed_def)
qed

lemma parse_plain:
  assumes "length bs < 2 ^ 32"
  shows "parse_msgpack (Suc n) (write_binary bs None @ r) = Inr (JBinary bs None, r)"
  by (rule length_cases [OF assms, of 0])
    (simp_all add: write_binary_def binary_head_def get_msgpack_binary_def get_plain_def get_sized_def parse_head)

lemma parse_ext:
  assumes "length bs < 2 ^ 32" and "t < 256"
  shows "parse_msgpack (Suc n) (write_binary bs (Some t) @ r) = Inr (JBinary bs (Some t), r)"
proof (cases "length bs \<in> {1, 2, 4, 8, 16}")
  case True
  then consider "length bs = 1" | "length bs = 2" | "length bs = 4" | "length bs = 8" | "length bs = 16" by auto
  then show ?thesis
    using get_ext_write [OF assms(2), of bs r]
    by cases (simp_all add: write_binary_def binary_head_def get_msgpack_binary_def parse_msgpack.simps(2))
next
  case False
  define w where "w = write_signed 1 (int t) @ bs @ r"
  have e: "get_ext (length bs) w = Inr (JBinary bs (Some t), r)"
    unfolding w_def using assms(2) by (rule get_ext_write)
  have h: "binary_head True (length bs) =
      (if length bs \<le> 0xFF then CHR 0xC7 # write_number 1 (length bs)
       else if length bs \<le> 0xFFFF then CHR 0xC8 # write_number 2 (length bs)
       else if length bs \<le> 0xFFFFFFFF then CHR 0xC9 # write_number 4 (length bs) else [])"
    using False unfolding binary_head_def by simp
  have "parse_msgpack (Suc n) (binary_head True (length bs) @ w) = Inr (JBinary bs (Some t), r)"
    unfolding h using e by (rule_tac length_cases [OF assms(1), of 0]) (simp_all add: get_msgpack_binary_def parse_head)
  then show ?thesis by (simp add: write_binary_def w_def)
qed
text \<open>Every value has at least one byte, so that the depth of the calls is bounded by the number of bytes.\<close>

lemma head_length: "0 < length (array_head N)" "0 < length (map_head N)" if "N < 2 ^ 32"
  using that by (auto simp: array_head_def map_head_def)

lemma write_nonempty: "msgpack_value j \<Longrightarrow> 0 < length (write_msgpack j)"
proof (cases j)
  case (JFloat x)
  then show ?thesis by (simp add: write_compact_float_def)
qed (auto simp: write_integer_def write_negative_def write_unsigned_def write_string_def string_head_def write_binary_def
    binary_head_def array_head_def map_head_def)

lemma length_split: "length a + length b \<le> n \<Longrightarrow> length a \<le> n \<and> length b \<le> n"
  by simp

lemma parse_write:
  "msgpack_value j \<Longrightarrow> length (write_msgpack j) \<le> n \<Longrightarrow> parse_msgpack n (write_msgpack j @ r) = Inr (j, r)"
  "\<forall>x\<in>set xs. msgpack_value x \<Longrightarrow> length (write_elements xs) \<le> n \<Longrightarrow>
     get_msgpack_array n (length xs) (write_elements xs @ r) = Inr (xs, r)"
  "\<forall>kv\<in>set m. length (fst kv) < 2 ^ 32 \<and> msgpack_value (snd kv) \<Longrightarrow> length (write_members m) \<le> n \<Longrightarrow>
     get_msgpack_object n (length m) acc (write_members m @ r) = Inr (tsm.put_all m acc, r)"
proof (induction j and xs and m arbitrary: n r and n r and n r acc rule: write_msgpack_write_elements_write_members.induct)
  case (3 i)
  then obtain k where "n = Suc k" using write_nonempty [of "JInteger i"] by (cases n) auto
  with 3 show ?case by (simp add: write_integer_def parse_negative)
next
  case (4 u)
  then obtain k where "n = Suc k" using write_nonempty [of "JUnsigned u"] by (cases n) auto
  with 4 show ?case by (simp add: parse_unsigned)
next
  case (5 x)
  then obtain k where "n = Suc k" using write_nonempty [of "JFloat x"] by (cases n) auto
  then show ?case by (simp add: parse_float)
next
  case (6 s)
  then obtain k where "n = Suc k" using write_nonempty [of "JString s"] by (cases n) auto
  with 6 show ?case by (simp add: parse_string)
next
  case (7 xs)
  then have h: "0 < length (array_head (length xs))" using head_length by simp
  have "length (write_elements xs) < n" using h 7(3) unfolding write_msgpack.simps length_append by linarith
  then obtain k where k: "n = Suc k" "length (write_elements xs) \<le> k" by (cases n) auto
  with 7 show ?case by (simp add: parse_array_head)
next
  case (8 bs st)
  then obtain k where "n = Suc k" using write_nonempty [of "JBinary bs st"] by (cases n) auto
  with 8 show ?case by (cases st) (simp_all add: parse_plain parse_ext)
next
  case (9 m)
  then have h: "0 < length (map_head (length m))" using head_length by simp
  have "length (write_members m) < n" using h 9(3) unfolding write_msgpack.simps length_append by linarith
  then obtain k where k: "n = Suc k" "length (write_members m) \<le> k" by (cases n) auto
  moreover have "tsm.put_all m [] = m" using 9(2) put_all_sorted [of "[]" m] by simp
  ultimately show ?case using 9 by (simp add: parse_map_head)
next
  case (13 k v m)
  then show ?case by (simp add: get_key)
next
  case 1
  then obtain k where "n = Suc k" by (cases n) auto
  then show ?case by (simp add: parse_msgpack.simps(2))
next
  case (2 b)
  then obtain k where "n = Suc k" by (cases n) (auto split: if_splits)
  then show ?case by (simp add: parse_msgpack.simps(2))
qed simp_all

section \<open>Enough fuel\<close>

lemma get_string_length: "get_msgpack_string c inp = Inr (s, r) \<Longrightarrow> length r \<le> length inp"
  by (auto simp: get_msgpack_string_def split: if_splits dest: get_bytes_length get_sized_length)

lemma get_ext_length: "get_ext k inp = Inr (j, r) \<Longrightarrow> length r \<le> length inp"
  by (auto simp: get_ext_def get_signed_def elim!: res_bindE dest!: get_bytes_length get_number_length)

lemma get_binary_length: "get_msgpack_binary c inp = Inr (j, r) \<Longrightarrow> length r \<le> length inp"
  by (auto simp: get_msgpack_binary_def get_plain_def elim!: res_bindE split: if_splits
      dest!: get_ext_length get_sized_length get_number_length)

lemma get_msgpack_number_length: "get_msgpack_number c inp = Inr (j, r) \<Longrightarrow> length r \<le> length inp"
  by (auto simp: get_msgpack_number_def get_signed_def elim!: res_bindE split: if_splits
      dest!: get_float_length get_number_length)
lemma no_fuel_msgpack:
  "get_ext k inp \<noteq> Inl No_fuel" "get_plain k inp \<noteq> Inl No_fuel" "get_msgpack_string c inp \<noteq> Inl No_fuel" "get_msgpack_binary c inp \<noteq> Inl No_fuel"
  "get_msgpack_number c inp \<noteq> Inl No_fuel"
proof -
  show e: "get_ext k inp \<noteq> Inl No_fuel" "get_plain k inp \<noteq> Inl No_fuel" for k inp
    by (auto simp: get_ext_def get_plain_def res_simps no_fuel_error)
  show "get_msgpack_string c inp \<noteq> Inl No_fuel" "get_msgpack_binary c inp \<noteq> Inl No_fuel"
    "get_msgpack_number c inp \<noteq> Inl No_fuel"
    by (auto simp: get_msgpack_string_def get_msgpack_binary_def get_msgpack_number_def res_simps no_fuel_error e)
qed

lemma settled_parts:
  "settled (length inp) (get_msgpack_string c inp)"
  "settled (length inp) (get_msgpack_binary c inp)" "settled (length inp) (get_msgpack_number c inp)"
  using no_fuel_error no_fuel_msgpack get_string_length get_binary_length get_msgpack_number_length
  unfolding settled_def by (fastforce split: sum.splits)+

lemma array_settled:
  assumes "\<And>inp. length inp < n \<Longrightarrow> settled (length inp - 1) (parse_msgpack n inp)"
  shows "length inp < n \<Longrightarrow> settled (length inp) (get_msgpack_array n len inp)"
proof (induction len arbitrary: inp)
  case (Suc len)
  show ?case unfolding get_msgpack_array.simps
  proof (rule settled_bind)
    show 1: "settled (length inp) (parse_msgpack n inp)"
      using settled_mono [OF assms [OF Suc.prems]] by simp
    fix x and r :: string assume "length r \<le> length inp"
    then have "settled (length inp) (get_msgpack_array n len r)"
      using settled_mono [OF Suc.IH [of r]] Suc.prems by simp
    then show "settled (length inp) ((\<lambda>(x, r). res_bind (get_msgpack_array n len r) (\<lambda>(xs, r). Inr (x # xs, r))) (x, r))"
      by (simp add: settled_map)
  qed
qed simp

lemma object_settled:
  assumes "\<And>inp. length inp < n \<Longrightarrow> settled (length inp - 1) (parse_msgpack n inp)"
  shows "length inp < n \<Longrightarrow> settled (length inp) (get_msgpack_object n len m inp)"
proof (induction len arbitrary: inp m)
  case (Suc len)
  have rest: "settled (length inp) (get_msgpack_object n len m' r)" if "length r \<le> length inp" for m' r
    using settled_mono [OF Suc.IH that] Suc.prems that by simp
  have val: "settled (length inp) (parse_msgpack n r)" if "length r \<le> length inp" for r
    using settled_mono [OF assms, of r "length inp"] Suc.prems that by simp
  have key: "settled (length inp) (get_msgpack_string c r)" if "length r \<le> length inp" for c r
    using settled_mono [OF settled_parts(1) that] .
  have byte: "settled (length inp) (get_byte inp)" by (cases inp) (simp_all add: get_byte_def)
  show ?case unfolding get_msgpack_object.simps
    by (rule settled_bind [OF byte], simp, rule settled_bind [OF key], assumption, simp, rule settled_bind [OF val], assumption)
      (simp add: rest)
qed simp

lemma parse_settled: "length inp < n \<Longrightarrow> settled (length inp - 1) (parse_msgpack n inp)"
proof (induction n arbitrary: inp)
  case (Suc n)
  show ?case
  proof (cases inp)
    case Nil
    then show ?thesis by (simp add: parse_msgpack.simps(2) get_byte_def)
  next
    case (Cons c r)
    with Suc.prems have r: "length r < n" by simp
    have arr: "settled (length r) (get_msgpack_array n len r')" if "length r' \<le> length r" for len r'
      using settled_mono [OF array_settled [OF Suc.IH] that] r that by simp
    have obj: "settled (length r) (get_msgpack_object n len m r')" if "length r' \<le> length r" for len m r'
      using settled_mono [OF object_settled [OF Suc.IH] that] r that by simp
    have "settled (length r) (parse_msgpack (Suc n) (c # r))"
      unfolding parse_msgpack.simps(2) get_byte_Cons res_bind_Inr prod.case Let_def
      by (intro settled_if settled_map settled_number settled_parts arr obj settled_error order_refl)
        (simp_all add: settled_map arr obj)
    then show ?thesis by (simp add: Cons)
  qed
qed simp

section \<open>Properties\<close>

lemma from_msgpack_written: "msgpack_value j \<Longrightarrow> from_msgpack (write_msgpack j) = Inr j"
  using parse_write(1) [of j "Suc (length (write_msgpack j))" "[]"] by (simp add: from_msgpack_def)



text \<open>Reading MessagePack ends for every input, however malformed: the depth of the calls never exceeds the number of bytes, so
  that the result is a value, or one of the library's parse errors.\<close>

theorem from_msgpack_total: "from_msgpack inp \<noteq> Inl No_fuel"
  using parse_settled [of inp "Suc (length inp)"]
  by (auto simp: from_msgpack_def settled_def res_simps split: sum.splits if_splits)

text \<open>A length of 2 to the 32 or more is written without any head: the bytes of such a string are its characters.\<close>

lemma msgpack_headless: "2 ^ 32 \<le> length s \<Longrightarrow> write_msgpack (JString s) = s"
  by (simp add: write_string_def string_head_def)

end
