(* ===== verification/Cbor.thy ===== *)
theory Cbor
  imports BinaryFormat
begin

text \<open>
  CBOR (RFC 7049), \<open>to_cbor\<close> and \<open>from_cbor\<close> of \<open>include/nlohmann/json.hpp\<close>: heads of one to nine bytes, half, single
  and double precision, items of unknown length, and tags, which the tag handler rejects, ignores or, for binary
  values, keeps as the subtype.

  As in \<open>MessagePack\<close> the recursion of the C++ reader counts a fuel down. The largest array and object that the
  announced length is compared with are those of \<open>std::vector\<close> and \<open>std::map\<close> of the GNU library on 64-bit machines.

  The lemmas show that reading undoes writing, that the reader never runs out of fuel, and which inputs it misreads.
\<close>

unbundle bit_operations_syntax

section \<open>Writing\<close>

text \<open>The head of a number, or of an item with a length: the chain of comparisons that every case repeats.\<close>

definition cbor_head :: "nat \<Rightarrow> nat \<Rightarrow> string" where
  "cbor_head base N =
     (if N \<le> 0x17 then write_number 1 (base + N)
      else if N \<le> 0xFF then char_of (base + 0x18) # write_number 1 N
      else if N \<le> 0xFFFF then char_of (base + 0x19) # write_number 2 N
      else if N \<le> 0xFFFFFFFF then char_of (base + 0x1A) # write_number 4 N
      else char_of (base + 0x1B) # write_number 8 N)"

definition cbor_unsigned :: "nat \<Rightarrow> string" where
  "cbor_unsigned n = cbor_head 0x00 n"

text \<open>The sign is in the first byte and the rest is the number \<open>-1 - i\<close>, which is not negative.\<close>

definition cbor_integer :: "int \<Rightarrow> string" where
  "cbor_integer i = (if 0 \<le> i then cbor_unsigned (nat i) else cbor_head 0x20 (nat (- 1 - i)))"

definition isinf :: "double \<Rightarrow> bool" where
  "isinf bits \<longleftrightarrow> drop_bit 52 bits AND 0x7FF = 0x7FF \<and> bits AND mask 52 = 0"

definition cbor_float :: "double \<Rightarrow> string" where
  "cbor_float x =
     (if isnan x then [CHR 0xF9, CHR 0x7E, CHR 0x00]
      else if isinf x then [CHR 0xF9, if signbit x then CHR 0xFC else CHR 0x7C, CHR 0x00]
      else write_compact_float CHR 0xFA CHR 0xFB x)"

definition cbor_string :: "string \<Rightarrow> string" where
  "cbor_string s = cbor_head 0x60 (length s) @ s"

text \<open>A subtype is written as a tag in front.\<close>

definition cbor_tag :: "nat option \<Rightarrow> string" where
  "cbor_tag st = (case st of
     None \<Rightarrow> []
   | Some t \<Rightarrow>
       if t \<le> 0xFF then write_number 1 0xD8 @ write_number 1 t
       else if t \<le> 0xFFFF then write_number 1 0xD9 @ write_number 2 t
       else if t \<le> 0xFFFFFFFF then write_number 1 0xDA @ write_number 4 t
       else write_number 1 0xDB @ write_number 8 t)"

definition cbor_binary :: "string \<Rightarrow> nat option \<Rightarrow> string" where
  "cbor_binary bs st = cbor_tag st @ cbor_head 0x40 (length bs) @ bs"

fun write_cbor :: "json \<Rightarrow> string"
  and cbor_elements :: "json list \<Rightarrow> string"
  and cbor_members :: "(string \<times> json) list \<Rightarrow> string" where
  "write_cbor JNull = [CHR 0xF6]"
| "write_cbor (JBool b) = (if b then [CHR 0xF5] else [CHR 0xF4])"
| "write_cbor (JInteger i) = cbor_integer i"
| "write_cbor (JUnsigned n) = cbor_unsigned n"
| "write_cbor (JFloat x) = cbor_float x"
| "write_cbor (JString s) = cbor_string s"
| "write_cbor (JArray xs) = cbor_head 0x80 (length xs) @ cbor_elements xs"
| "write_cbor (JBinary bs st) = cbor_binary bs st"
| "write_cbor (JObject m) = cbor_head 0xA0 (length m) @ cbor_members m"
| "cbor_elements [] = []"
| "cbor_elements (x # xs) = write_cbor x @ cbor_elements xs"
| "cbor_members [] = []"
| "cbor_members ((k, v) # m) = cbor_string k @ write_cbor v @ cbor_members m"

section \<open>Reading\<close>

datatype tag_handler = Tag_error | Tag_ignore | Tag_store

text \<open>\<open>static_cast<number_integer_t>(-1) - static_cast<number_integer_t>(number)\<close>\<close>

definition cbor_negative :: "nat \<Rightarrow> int" where
  "cbor_negative n = - 1 - signed64 n"

text \<open>Half precision: the sign, five bits of the exponent and ten of the fraction, widened exactly.\<close>

definition half_to_double :: "nat \<Rightarrow> double" where
  "half_to_double half =
     (let e = half div 2 ^ 10 mod 2 ^ 5; mant = half mod 2 ^ 10;
          val = (if e = 0 then
                   (if mant = 0 then 0
                    else let l = floorlog 2 mant in (l + 998) * 2 ^ 52 + (mant - 2 ^ (l - 1)) * 2 ^ (53 - l))
                 else if e = 31 then (if mant = 0 then 0x7FF * 2 ^ 52 else 0x7FF * 2 ^ 52 + 2 ^ 51)
                 else (e + 1008) * 2 ^ 52 + mant * 2 ^ 42)
      in of_nat ((if half AND 0x8000 \<noteq> 0 then 2 ^ 63 else 0) + val))"

text \<open>
  Strings and binary values differ in their base only. A piece of unknown length is a sequence of pieces, ended by FF;
  \<open>n\<close> is the fuel, \<open>current\<close> the byte read last.
\<close>

function get_run :: "nat \<Rightarrow> nat \<Rightarrow> nat \<Rightarrow> string reader"
  and get_chunks :: "nat \<Rightarrow> nat \<Rightarrow> string reader" where
  "get_run base 0 current r = Inl No_fuel"
| "get_run base (Suc n) current r =
     (if base \<le> current \<and> current \<le> base + 0x17 then get_bytes (current AND 0x1F) r
      else if base + 0x18 \<le> current \<and> current \<le> base + 0x1B then get_sized (2 ^ (current - (base + 0x18))) r
      else if current = base + 0x1F then get_chunks base (Suc n) r
      else Inl (Bexn (Parse_error 113)))"
| "get_chunks base 0 inp = Inl No_fuel"
| "get_chunks base (Suc n) inp =
     res_bind (get_byte inp) (\<lambda>(c, r).
       if c = CHR 0xFF then Inr ([], r)
       else res_bind (get_run base n (byte_of c) r) (\<lambda>(chunk, r).
            res_bind (get_chunks base n r) (\<lambda>(result, r). Inr (chunk @ result, r))))"
  by pat_completeness auto
termination
  by (relation "measures [\<lambda>x. case x of Inl (_, n, _) \<Rightarrow> n | Inr (_, n, _) \<Rightarrow> n, \<lambda>x. case x of Inl _ \<Rightarrow> 1 | Inr _ \<Rightarrow> 0]") auto

definition get_cbor_string :: "nat \<Rightarrow> nat \<Rightarrow> string reader" where
  "get_cbor_string n current r = get_run 0x60 n current r"

definition get_cbor_binary :: "nat \<Rightarrow> nat \<Rightarrow> string reader" where
  "get_cbor_binary n current r = get_run 0x40 n current r"

text \<open>The number behind a tag.\<close>

definition get_tag :: "nat \<Rightarrow> (nat option) reader" where
  "get_tag current r =
     (if 0xD8 \<le> current then res_bind (get_number (2 ^ (current - 0xD8)) r) (\<lambda>(t, r). Inr (Some t, r))
      else Inr (None, r))"

definition get_cbor_float :: "nat \<Rightarrow> double reader" where
  "get_cbor_float current r =
     (if current = 0xF9 then res_bind (get_byte r) (\<lambda>(b1, r). res_bind (get_byte r) (\<lambda>(b2, r).
        Inr (half_to_double (byte_of b1 * 2 ^ 8 + byte_of b2), r)))
      else if current = 0xFA then get_float r
      else get_double r)"

text \<open>The number of elements of an array and of members of an object, in the byte itself or behind it.\<close>

definition array_length :: "nat \<Rightarrow> nat reader" where
  "array_length current r =
     (if current \<le> 0x97 then Inr (current AND 0x1F, r)
      else if current \<le> 0x9B then get_number (2 ^ (current - 0x98)) r
      else Inr (UNKNOWN, r))"

definition object_length :: "nat \<Rightarrow> nat reader" where
  "object_length current r =
     (if current \<le> 0xB7 then Inr (current AND 0x1F, r)
      else if current \<le> 0xBB then get_number (2 ^ (current - 0xB8)) r
      else Inr (UNKNOWN, r))"

text \<open>
  The dispatch on the byte read last, \<open>current\<close>. For arrays and objects of known length the elements follow; otherwise they
  end with FF, and the byte behind an element is looked at before the element is read (\<open>get_char\<close> is false).
\<close>

function parse_cbor :: "tag_handler \<Rightarrow> nat \<Rightarrow> nat \<Rightarrow> json reader"
  and get_cbor_array :: "tag_handler \<Rightarrow> nat \<Rightarrow> nat \<Rightarrow> json list reader"
  and array_loop :: "tag_handler \<Rightarrow> nat \<Rightarrow> nat \<Rightarrow> json list reader"
  and array_until :: "tag_handler \<Rightarrow> nat \<Rightarrow> json list reader"
  and get_cbor_object :: "tag_handler \<Rightarrow> nat \<Rightarrow> nat \<Rightarrow> (string \<times> json) list reader"
  and object_loop :: "tag_handler \<Rightarrow> nat \<Rightarrow> nat \<Rightarrow> (string \<times> json) list \<Rightarrow> (string \<times> json) list reader"
  and object_until :: "tag_handler \<Rightarrow> nat \<Rightarrow> (string \<times> json) list \<Rightarrow> (string \<times> json) list reader" where
  "parse_cbor h 0 current r = Inl No_fuel"
| "parse_cbor h (Suc n) current r =
     (if current \<le> 0x17 then Inr (JUnsigned current, r)
      else if current \<le> 0x1B then
        res_bind (get_number (2 ^ (current - 0x18)) r) (\<lambda>(k, r). Inr (JUnsigned k, r))
      else if 0x20 \<le> current \<and> current \<le> 0x37 then Inr (JInteger (0x20 - 1 - int current), r)
      else if 0x38 \<le> current \<and> current \<le> 0x3B then
        res_bind (get_number (2 ^ (current - 0x38)) r) (\<lambda>(k, r). Inr (JInteger (cbor_negative k), r))
      else if 0x40 \<le> current \<and> current \<le> 0x5B \<or> current = 0x5F then
        res_bind (get_cbor_binary (Suc n) current r) (\<lambda>(bs, r). Inr (JBinary bs None, r))
      else if 0x60 \<le> current \<and> current \<le> 0x7B \<or> current = 0x7F then
        res_bind (get_cbor_string (Suc n) current r) (\<lambda>(s, r). Inr (JString s, r))
      else if 0x80 \<le> current \<and> current \<le> 0x9B \<or> current = 0x9F then
        res_bind (array_length current r) (\<lambda>(len, r).
        res_bind (get_cbor_array h n len r) (\<lambda>(xs, r). Inr (JArray xs, r)))
      else if 0xA0 \<le> current \<and> current \<le> 0xBB \<or> current = 0xBF then
        res_bind (object_length current r) (\<lambda>(len, r).
        res_bind (get_cbor_object h n len r) (\<lambda>(m, r). Inr (JObject m, r)))
      else if 0xC6 \<le> current \<and> current \<le> 0xD4 \<or> 0xD8 \<le> current \<and> current \<le> 0xDB then
        (case h of
           Tag_error \<Rightarrow> Inl (Bexn (Parse_error 112))
         | Tag_ignore \<Rightarrow> res_bind (get_tag current r) (\<lambda>(_, r).
             res_bind (get_byte r) (\<lambda>(c, r). parse_cbor h n (byte_of c) r))
         | Tag_store \<Rightarrow> res_bind (get_tag current r) (\<lambda>(t, r). res_bind (get_byte r) (\<lambda>(c, r).
             if t = None then parse_cbor h n (byte_of c) r
             else res_bind (get_cbor_binary (Suc n) (byte_of c) r) (\<lambda>(bs, r). Inr (JBinary bs t, r)))))
      else if current = 0xF4 then Inr (JBool False, r)
      else if current = 0xF5 then Inr (JBool True, r)
      else if current = 0xF6 then Inr (JNull, r)
      else if 0xF9 \<le> current \<and> current \<le> 0xFB then res_bind (get_cbor_float current r) (\<lambda>(x, r). Inr (JFloat x, r))
      else Inl (Bexn (Parse_error 112)))"
| "get_cbor_array h n len inp =
     (if len \<noteq> UNKNOWN \<and> MAX_ARRAY < len then Inl (Bexn (Out_of_range 408))
      else if len \<noteq> UNKNOWN then array_loop h n len inp
      else array_until h (Suc n) inp)"
| "array_loop h n 0 inp = Inr ([], inp)"
| "array_loop h n (Suc len) inp =
     res_bind (get_byte inp) (\<lambda>(c, r).
     res_bind (parse_cbor h n (byte_of c) r) (\<lambda>(x, r).
     res_bind (array_loop h n len r) (\<lambda>(xs, r). Inr (x # xs, r))))"
| "array_until h 0 inp = Inl No_fuel"
| "array_until h (Suc n) inp =
     res_bind (get_byte inp) (\<lambda>(c, r).
       if c = CHR 0xFF then Inr ([], r)
       else res_bind (parse_cbor h n (byte_of c) r) (\<lambda>(x, r).
            res_bind (array_until h n r) (\<lambda>(xs, r). Inr (x # xs, r))))"
| "get_cbor_object h n len inp =
     (if len \<noteq> UNKNOWN \<and> MAX_OBJECT < len then Inl (Bexn (Out_of_range 408))
      else if len \<noteq> UNKNOWN then object_loop h n len [] inp
      else object_until h (Suc n) [] inp)"
| "object_loop h n 0 m inp = Inr (m, inp)"
| "object_loop h n (Suc len) m inp =
     res_bind (get_byte inp) (\<lambda>(c, r).
     res_bind (get_cbor_string n (byte_of c) r) (\<lambda>(key, r).
     res_bind (get_byte r) (\<lambda>(c, r).
     res_bind (parse_cbor h n (byte_of c) r) (\<lambda>(v, r). object_loop h n len (map_put key v m) r))))"
| "object_until h 0 m inp = Inl No_fuel"
| "object_until h (Suc n) m inp =
     res_bind (get_byte inp) (\<lambda>(c, r).
       if c = CHR 0xFF then Inr (m, r)
       else res_bind (get_cbor_string n (byte_of c) r) (\<lambda>(key, r).
            res_bind (get_byte r) (\<lambda>(c, r).
            res_bind (parse_cbor h n (byte_of c) r) (\<lambda>(v, r). object_until h n (map_put key v m) r))))"
  by pat_completeness auto
termination
  by (relation "measures
      [\<lambda>x. case x of Inl (Inl (_, n, _)) \<Rightarrow> n | Inl (Inr (Inl (_, n, _))) \<Rightarrow> Suc n | Inl (Inr (Inr (_, n, _))) \<Rightarrow> n
         | Inr (Inl (Inl (_, n, _))) \<Rightarrow> n | Inr (Inl (Inr (_, n, _))) \<Rightarrow> Suc n
         | Inr (Inr (Inl (_, n, _))) \<Rightarrow> n | Inr (Inr (Inr (_, n, _))) \<Rightarrow> n,
       \<lambda>x. case x of Inl (Inl _) \<Rightarrow> 2 | Inl (Inr (Inl _)) \<Rightarrow> 1 | Inl (Inr (Inr (_, _, len, _))) \<Rightarrow> 3 + len
         | Inr (Inl (Inl _)) \<Rightarrow> 0 | Inr (Inl (Inr _)) \<Rightarrow> 1
         | Inr (Inr (Inl (_, _, len, _))) \<Rightarrow> 3 + len | Inr (Inr (Inr _)) \<Rightarrow> 0]") auto

declare parse_cbor.simps(2) [simp del]

text \<open>The public function: the whole input must be one item.\<close>

definition from_cbor :: "tag_handler \<Rightarrow> string \<Rightarrow> bin_fail + json" where
  "from_cbor h inp =
     res_bind (get_byte inp) (\<lambda>(c, r). res_bind (parse_cbor h (length inp) (byte_of c) r) (\<lambda>(j, r).
       if r = [] then Inr j else Inl (Bexn (Parse_error 110))))"
section \<open>Reading undoes writing\<close>

text \<open>
  Values that a reader with the tag handler \<open>h\<close> can return: a NaN is the one that is written; a binary value has a subtype
  only if the handler keeps it.
\<close>

fun cbor_value :: "tag_handler \<Rightarrow> json \<Rightarrow> bool" where
  "cbor_value h (JInteger i) = (- (2 ^ 63) \<le> i \<and> i < 0)"
| "cbor_value h (JUnsigned n) = (n < 2 ^ 64)"
| "cbor_value h (JFloat x) = (isnan x \<longrightarrow> x = 0x7FF8000000000000)"
| "cbor_value h (JString s) = (length s < 2 ^ 64)"
| "cbor_value h (JBinary bs st) =
     (length bs < 2 ^ 64 \<and> (case st of None \<Rightarrow> True | Some t \<Rightarrow> h = Tag_store \<and> t < 2 ^ 64))"
| "cbor_value h (JArray xs) = (length xs \<le> MAX_ARRAY \<and> (\<forall>x\<in>set xs. cbor_value h x))"
| "cbor_value h (JObject m) =
     (keys_sorted m \<and> length m \<le> MAX_OBJECT \<and> (\<forall>kv\<in>set m. length (fst kv) < 2 ^ 64 \<and> cbor_value h (snd kv)))"
| "cbor_value h _ = True"

abbreviation cbor_item :: "tag_handler \<Rightarrow> nat \<Rightarrow> json reader" where
  "cbor_item h n inp \<equiv> res_bind (get_byte inp) (\<lambda>(c, r). parse_cbor h n (byte_of c) r)"

lemma head_cases:
  fixes N :: nat
  assumes "N < 2 ^ 64"
  obtains "N \<le> 0x17" | "0x17 < N" "N \<le> 0xFF" | "0xFF < N" "N \<le> 0xFFFF" | "0xFFFF < N" "N \<le> 0xFFFFFFFF"
    | "0xFFFFFFFF < N" "N \<le> 0xFFFFFFFFFFFFFFFF"
proof -
  have "N \<le> 0xFFFFFFFFFFFFFFFF" using assms by simp
  then show thesis using that by linarith
qed

lemma and_base:
  "N \<le> 0x17 \<Longrightarrow> (0x40 + N) AND 0x1F = N" "N \<le> 0x17 \<Longrightarrow> (0x60 + N) AND 0x1F = N"
  "N \<le> 0x17 \<Longrightarrow> (0x80 + N) AND 0x1F = N" "N \<le> 0x17 \<Longrightarrow> (0xA0 + N) AND 0x1F = N" for N :: nat
  unfolding and_low using mod_base(1) [of N 2] mod_base(1) [of N 3] mod_base(1) [of N 4] mod_base(1) [of N 5] by (simp_all add: add.commute)

lemmas head_simps = cbor_head_def and_base write_number_1 write_number_1 [unfolded One_nat_def]
  get_number_256 get_number_256 [unfolded One_nat_def]

lemma get_cbor_string_head:
  assumes "length s < 2 ^ 64"
  shows "res_bind (get_byte (cbor_string s @ r)) (\<lambda>(c, r). res_bind (get_cbor_string (Suc n) (byte_of c) r) f) = f (s, r)"
  by (cases rule: head_cases [OF assms]) (simp_all add: cbor_string_def get_cbor_string_def get_sized_def head_simps)

lemma get_cbor_binary_head:
  assumes "length s < 2 ^ 64"
  shows "res_bind (get_byte (cbor_head 0x40 (length s) @ s @ r)) (\<lambda>(c, r). res_bind (get_cbor_binary (Suc n) (byte_of c) r) f) =
    f (s, r)"
  by (cases rule: head_cases [OF assms]) (simp_all add: get_cbor_binary_def get_sized_def head_simps)

lemma parse_cbor_string:
  assumes "length s < 2 ^ 64"
  shows "cbor_item h (Suc n) (cbor_string s @ r) = Inr (JString s, r)"
  by (cases rule: head_cases [OF assms])
    (simp_all add: cbor_string_def get_cbor_string_def get_sized_def head_simps parse_cbor.simps(2))

lemma parse_cbor_binary:
  assumes "length s < 2 ^ 64"
  shows "cbor_item h (Suc n) (cbor_head 0x40 (length s) @ s @ r) = Inr (JBinary s None, r)"
  by (cases rule: head_cases [OF assms])
    (simp_all add: get_cbor_binary_def get_sized_def head_simps parse_cbor.simps(2))

lemma parse_cbor_array:
  assumes "N < 2 ^ 64"
  shows "cbor_item h (Suc n) (cbor_head 0x80 N @ r) = res_bind (get_cbor_array h n N r) (\<lambda>(xs, r). Inr (JArray xs, r))"
  by (cases rule: head_cases [OF assms]) (simp_all add: head_simps parse_cbor.simps(2) array_length_def del: get_cbor_array.simps)

lemma parse_cbor_object:
  assumes "N < 2 ^ 64"
  shows "cbor_item h (Suc n) (cbor_head 0xA0 N @ r) = res_bind (get_cbor_object h n N r) (\<lambda>(m, r). Inr (JObject m, r))"
  by (cases rule: head_cases [OF assms]) (simp_all add: head_simps parse_cbor.simps(2) object_length_def del: get_cbor_object.simps)

lemma parse_cbor_unsigned:
  assumes "k < 2 ^ 64"
  shows "cbor_item h (Suc n) (cbor_unsigned k @ r) = Inr (JUnsigned k, r)"
  by (cases rule: head_cases [OF assms]) (simp_all add: cbor_unsigned_def head_simps parse_cbor.simps(2))
lemma parse_cbor_negative:
  assumes "- (2 ^ 63) \<le> i" and "i < 0"
  shows "cbor_item h (Suc n) (cbor_integer i @ r) = Inr (JInteger i, r)"
proof -
  define N where "N = nat (- 1 - i)"
  have N: "N < 2 ^ 63" "int N = - 1 - i" using assms by (simp_all add: N_def)
  then have v: "cbor_negative N = i" "31 - (32 + int N) = i" "N < 2 ^ 64" by (simp_all add: cbor_negative_def signed64_small)
  have "cbor_item h (Suc n) (cbor_head 0x20 N @ r) = Inr (JInteger i, r)"
    by (cases rule: head_cases [OF v(3)]) (simp_all add: head_simps parse_cbor.simps(2) v(1,2))
  then show ?thesis using assms(2) by (simp add: cbor_integer_def N_def)
qed

text \<open>A number that is neither finite nor a NaN is one of the two infinities.\<close>

lemma half_values:
  "half_to_double 0x7E00 = 0x7FF8000000000000" "half_to_double 0x7C00 = 0x7FF0000000000000"
  "half_to_double 0xFC00 = 0xFFF0000000000000"
  by (simp_all add: half_to_double_def Let_def)

lemma infinities: "isinf x \<Longrightarrow> x = (if signbit x then 0xFFF0000000000000 else 0x7FF0000000000000)"
proof -
  assume a: "isinf x"
  define n where "n = unat x"
  have lt: "n < 2 ^ 64" using unsigned_less [of x, where 'a = nat] by (simp add: n_def)
  have "drop_bit 52 x AND 0x7FF = take_bit 11 (drop_bit 52 x)" by (simp add: take_bit_eq_mask mask_eq_exp_minus_1)
  with a have "unat (take_bit 11 (drop_bit 52 x)) = 2047" by (simp add: isinf_def)
  then have e: "n div 2 ^ 52 mod 2 ^ 11 = 2047"
    by (simp add: n_def take_bit_eq_mod drop_bit_eq_div unat_div unat_mod)
  have "unat (x AND mask 52) = 0" using a by (simp add: isinf_def)
  then have m: "n mod 2 ^ 52 = 0"
    by (simp add: n_def take_bit_eq_mod unat_mod flip: take_bit_eq_mask)
  define q where "q = n div 2 ^ 52"
  have q: "n = 2 ^ 52 * q" unfolding q_def by (rule dvd_mult_div_cancel [OF mod_0_imp_dvd [OF m], symmetric])
  have "q mod 2048 = 2047" using e by (simp add: q)
  moreover have "q < 4096" using lt by (simp add: q)
  moreover have "q div 2048 * 2048 + q mod 2048 = q" by (rule div_mult_mod_eq)
  moreover from calculation have "q div 2048 = 0 \<or> q div 2048 = 1" by linarith
  ultimately have "q = 2047 \<or> q = 4095" by fastforce
  with q have "n = 0x7FF0000000000000 \<or> n = 0xFFF0000000000000" by auto
  then have "x = 0x7FF0000000000000 \<or> x = 0xFFF0000000000000" by (simp add: n_def word_unat_eq_iff)
  then show ?thesis by (auto simp: signbit_def bit_simps)
qed

lemma parse_cbor_float:
  assumes "isnan x \<longrightarrow> x = 0x7FF8000000000000"
  shows "cbor_item h (Suc n) (cbor_float x @ r) = Inr (JFloat x, r)"
proof (cases "isnan x \<or> isinf x")
  case True
  then show ?thesis using assms infinities [of x]
    by (auto simp: cbor_float_def parse_cbor.simps(2) get_cbor_float_def half_values split: if_splits)
next
  case False
  then have w: "cbor_float x = write_compact_float CHR 0xFA CHR 0xFB x" by (simp add: cbor_float_def)
  show ?thesis unfolding w
    by (cases rule: compact_float_cases [of "CHR 0xFA" "CHR 0xFB" x])
      (simp_all add: parse_cbor.simps(2) get_cbor_float_def get_float_write get_double_write)
qed

lemma parse_cbor_tagged:
  assumes "length bs < 2 ^ 64" and "t < 2 ^ 64"
  shows "cbor_item Tag_store (Suc n) (cbor_binary bs (Some t) @ r) = Inr (JBinary bs (Some t), r)"
proof -
  define w where "w = cbor_head 0x40 (length bs) @ bs @ r"
  have b: "res_bind (get_byte w) (\<lambda>(c, r).
      res_bind (get_cbor_binary (Suc n) (byte_of c) r) (\<lambda>(bs, r). Inr (JBinary bs (Some t), r))) = Inr (JBinary bs (Some t), r)"
    using get_cbor_binary_head [OF assms(1), of r n "\<lambda>(bs, r). Inr (JBinary bs (Some t), r)"] by (simp add: w_def)
  have "cbor_item Tag_store (Suc n) (cbor_tag (Some t) @ w) = Inr (JBinary bs (Some t), r)"
    by (cases rule: head_cases [OF assms(2)]) (simp_all add: cbor_tag_def parse_cbor.simps(2) get_tag_def b head_simps)
  then show ?thesis by (simp add: cbor_binary_def w_def)
qed

text \<open>Every value has at least one byte, so that the depth of the calls is bounded by the number of bytes.\<close>

lemma cbor_head_nonempty [simp]: "cbor_head base N \<noteq> []"
  by (simp add: cbor_head_def)

lemma cbor_head_length: "0 < length (cbor_head base N)"
  by simp

lemma cbor_string_nonempty: "0 < length (cbor_string s)"
  by (simp add: cbor_string_def)

lemma cbor_nonempty: "0 < length (write_cbor j)"
  by (cases j) (simp_all add: cbor_integer_def cbor_unsigned_def cbor_float_def cbor_string_def cbor_binary_def write_compact_float_def)

lemma max_lengths: "N \<le> MAX_ARRAY \<Longrightarrow> N < 2 ^ 64 \<and> N \<noteq> UNKNOWN" "N \<le> MAX_OBJECT \<Longrightarrow> N < 2 ^ 64 \<and> N \<noteq> UNKNOWN"
  by (simp_all add: MAX_ARRAY_def MAX_OBJECT_def UNKNOWN_def)

lemma fuel_left: "length (cbor_head base N @ w) \<le> n \<Longrightarrow> \<exists>k. n = Suc k \<and> length w \<le> k"
  using cbor_head_length [of base N] unfolding length_append by presburger

lemma bind_item:
  "cbor_item h n inp = Inr y \<Longrightarrow>
     res_bind (get_byte inp) (\<lambda>(c, r). res_bind (parse_cbor h n (byte_of c) r) f) = f y"
  by (cases inp) (auto simp: get_byte_def)

lemma parse_cbor_write:
  "cbor_value h j \<Longrightarrow> length (write_cbor j) \<le> n \<Longrightarrow> cbor_item h n (write_cbor j @ r) = Inr (j, r)"
  "\<forall>x\<in>set xs. cbor_value h x \<Longrightarrow> length (cbor_elements xs) \<le> n \<Longrightarrow>
     array_loop h n (length xs) (cbor_elements xs @ r) = Inr (xs, r)"
  "\<forall>kv\<in>set m. length (fst kv) < 2 ^ 64 \<and> cbor_value h (snd kv) \<Longrightarrow> length (cbor_members m) \<le> n \<Longrightarrow>
     object_loop h n (length m) acc (cbor_members m @ r) = Inr (tsm.put_all m acc, r)"
proof (induction j and xs and m arbitrary: n r and n r and n r acc rule: write_cbor_cbor_elements_cbor_members.induct)
  case 1
  then obtain k where "n = Suc k" by (cases n) auto
  then show ?case by (simp add: parse_cbor.simps(2))
next
  case (2 b)
  then obtain k where "n = Suc k" by (cases n) (auto split: if_splits)
  then show ?case by (simp add: parse_cbor.simps(2))
next
  case (3 i)
  then obtain k where "n = Suc k" using cbor_nonempty [of "JInteger i"] by (cases n) auto
  with 3 show ?case by (simp add: parse_cbor_negative)
next
  case (4 u)
  then obtain k where "n = Suc k" using cbor_nonempty [of "JUnsigned u"] by (cases n) auto
  with 4 show ?case by (simp add: parse_cbor_unsigned)
next
  case (5 x)
  then obtain k where "n = Suc k" using cbor_nonempty [of "JFloat x"] by (cases n) auto
  with 5 show ?case by (simp add: parse_cbor_float)
next
  case (6 s)
  then obtain k where "n = Suc k" using cbor_nonempty [of "JString s"] by (cases n) auto
  with 6 show ?case by (simp add: parse_cbor_string)
next
  case (7 xs)
  then obtain k where k: "n = Suc k" "length (cbor_elements xs) \<le> k"
    using 7(3) fuel_left [of "0x80" "length xs" "cbor_elements xs" n] by auto
  have "length xs \<le> MAX_ARRAY" using 7(2) by simp
  with 7 k max_lengths(1) [OF this] show ?case by (simp add: parse_cbor_array)
next
  case (8 bs st)
  then obtain k where "n = Suc k" using cbor_nonempty [of "JBinary bs st"] by (cases n) auto
  with 8 show ?case
    by (cases st) (simp_all add: parse_cbor_tagged cbor_binary_def [of bs None] cbor_tag_def parse_cbor_binary)
next
  case (9 m)
  then obtain k where k: "n = Suc k" "length (cbor_members m) \<le> k"
    using 9(3) fuel_left [of "0xA0" "length m" "cbor_members m" n] by auto
  have "length m \<le> MAX_OBJECT" using 9(2) by simp
  moreover have "tsm.put_all m [] = m" using 9(2) put_all_sorted [of "[]" m] by simp
  ultimately show ?case using 9 k max_lengths(2) [of "length m"] by (simp add: parse_cbor_object)
next
  case (11 x xs)
  have v: "cbor_item h n (write_cbor x @ cbor_elements xs @ r) = Inr (x, cbor_elements xs @ r)"
    using 11(3,4) by (intro 11(1)) auto
  have l: "array_loop h n (length xs) (cbor_elements xs @ r) = Inr (xs, r)"
    using 11(3,4) by (intro 11(2)) auto
  show ?case
    using bind_item [OF v, of "\<lambda>(x, r). res_bind (array_loop h n (length xs) r) (\<lambda>(xs, r). Inr (x # xs, r))"]
    by (simp add: l)
next
  case (13 k v m)
  obtain f where n: "n = Suc f" using 13(4) cbor_string_nonempty [of k] by (cases n) auto
  have k: "length k < 2 ^ 64" using 13(3) by simp
  have v: "cbor_item h n (write_cbor v @ cbor_members m @ r) = Inr (v, cbor_members m @ r)"
    using 13(3,4) by (intro 13(1)) auto
  have l: "object_loop h n (length m) (map_put k v acc) (cbor_members m @ r) = Inr (tsm.put_all m (map_put k v acc), r)"
    using 13(3,4) by (intro 13(2)) auto
  show ?case
    using bind_item [OF v, of "\<lambda>(v, r). object_loop h n (length m) (map_put k v acc) r"]
    by (simp add: l [unfolded n] n get_cbor_string_head [OF k])
qed simp_all

section \<open>Enough fuel\<close>

lemma run_settled:
  "\<forall>r. length r < n \<longrightarrow> settled (length r) (get_chunks base n r) \<and> (\<forall>c. settled (length r) (get_run base n c r))"
proof (induction n)
  case (Suc n)
  have run: "settled (length r) (get_run base n c r)" if "length r < n" for c r
    using Suc that by simp
  have rest: "settled l (res_bind (get_chunks base n r) (\<lambda>(result, r). Inr (chunk @ result, r)))"
    if "length r < n" "length r \<le> l" for chunk r l
    using Suc that by (intro settled_map) (auto intro: settled_mono)
  have chunks: "settled (length r) (get_chunks base (Suc n) r)" if "length r < Suc n" for r
    unfolding get_chunks.simps
    using that by (intro settled_byte) (auto intro!: settled_then [OF run] rest)
  then show ?case by (simp add: settled_bytes)
qed simp

lemma settled_strings:
  "length r < n \<Longrightarrow> settled (length r) (get_cbor_string n c r)" "length r < n \<Longrightarrow> settled (length r) (get_cbor_binary n c r)"
  using run_settled by (auto simp: get_cbor_string_def get_cbor_binary_def)

lemma settled_tag: "settled (length r) (get_tag c r)"
  by (simp add: get_tag_def settled_number)

lemma settled_lengths: "settled (length r) (array_length c r)" "settled (length r) (object_length c r)"
  by (simp_all add: array_length_def object_length_def settled_bytes)

lemma settled_cbor_float: "settled (length r) (get_cbor_float c r)"
  by (auto simp: get_cbor_float_def settled_bytes intro!: settled_byte)

text \<open>The loops, when the values inside are read with fuel \<open>n\<close>.\<close>

lemma loops_settled:
  assumes "\<And>c r. length r < n \<Longrightarrow> settled (length r) (parse_cbor h n c r)"
  shows "length inp \<le> n \<Longrightarrow> settled (length inp) (array_loop h n len inp)"
    and "length inp \<le> n \<Longrightarrow> settled (length inp) (object_loop h n len m inp)"
proof -
  show "length inp \<le> n \<Longrightarrow> settled (length inp) (array_loop h n len inp)"
  proof (induction len arbitrary: inp)
    case (Suc len)
    have rest: "settled l (res_bind (array_loop h n len r) (\<lambda>(xs, r). Inr (x # xs, r)))"
      if "length r \<le> n" "length r \<le> l" for x r l
      using Suc.IH that by (intro settled_map) (auto intro: settled_mono)
    show ?case unfolding array_loop.simps
      using Suc.prems by (intro settled_byte) (auto intro!: settled_then [OF assms] rest)
  qed simp
  show "length inp \<le> n \<Longrightarrow> settled (length inp) (object_loop h n len m inp)"
  proof (induction len arbitrary: inp m)
    case (Suc len)
    have rest: "settled l (object_loop h n len m r)" if "length r \<le> n" "length r \<le> l" for m r l
      using Suc.IH that by (auto intro: settled_mono)
    show ?case unfolding object_loop.simps
      using Suc.prems by (intro settled_byte)
        (auto intro!: settled_then [OF settled_strings(1)] settled_then [OF assms] settled_byte rest)
  qed simp
qed

lemma until_settled:
  assumes "\<And>c r. length r < n \<Longrightarrow> settled (length r) (parse_cbor h n c r)"
  shows "(\<And>inp. length inp < n \<Longrightarrow> settled (length inp) (array_until h n inp)) \<Longrightarrow>
      length inp \<le> n \<Longrightarrow> settled (length inp) (array_until h (Suc n) inp)"
    and "(\<And>m inp. length inp < n \<Longrightarrow> settled (length inp) (object_until h n m inp)) \<Longrightarrow>
      length inp \<le> n \<Longrightarrow> settled (length inp) (object_until h (Suc n) m inp)"
proof -
  assume IH: "\<And>inp. length inp < n \<Longrightarrow> settled (length inp) (array_until h n inp)" and l: "length inp \<le> n"
  have rest: "settled l (res_bind (array_until h n r) (\<lambda>(xs, r). Inr (x # xs, r)))"
    if "length r < n" "length r \<le> l" for x r l
    using IH that by (intro settled_map) (auto intro: settled_mono)
  show "settled (length inp) (array_until h (Suc n) inp)" unfolding array_until.simps
    using l by (intro settled_byte) (auto intro!: settled_then [OF assms] rest)
next
  assume IH: "\<And>m inp. length inp < n \<Longrightarrow> settled (length inp) (object_until h n m inp)" and l: "length inp \<le> n"
  have rest: "settled l (object_until h n m r)" if "length r < n" "length r \<le> l" for m r l
    using IH that by (auto intro: settled_mono)
  show "settled (length inp) (object_until h (Suc n) m inp)" unfolding object_until.simps
    using l by (intro settled_byte)
      (auto intro!: settled_then [OF settled_strings(1)] settled_then [OF assms] settled_byte rest)
qed

lemma settled_handler:
  "settled l a \<Longrightarrow> settled l b \<Longrightarrow> settled l c \<Longrightarrow>
     settled l (case h of Tag_error \<Rightarrow> a | Tag_ignore \<Rightarrow> b | Tag_store \<Rightarrow> c)"
  by (cases h) simp_all

lemma parse_cbor_settled:
  "(\<forall>c r. length r < n \<longrightarrow> settled (length r) (parse_cbor h n c r)) \<and>
   (\<forall>inp. length inp < n \<longrightarrow> settled (length inp) (array_until h n inp)) \<and>
   (\<forall>m inp. length inp < n \<longrightarrow> settled (length inp) (object_until h n m inp))"
proof (induction n)
  case (Suc n)
  have val: "settled (length r) (parse_cbor h n c r)" if "length r < n" for c r
    using Suc that by simp
  have val': "settled l (parse_cbor h n c r)" if "length r < n" "length r \<le> l" for c r l
    using settled_mono [OF val] that by simp
  have until: "settled (length inp) (array_until h (Suc n) inp)" "settled (length inp) (object_until h (Suc n) m inp)"
    if "length inp \<le> n" for inp m
    using Suc until_settled [OF val] that by simp_all
  have arr: "settled l (get_cbor_array h n len r)" if "length r \<le> n" "length r \<le> l" for len r l
    using settled_mono [OF until(1)] settled_mono [OF loops_settled(1) [OF val]] that by simp
  have obj: "settled l (get_cbor_object h n len r)" if "length r \<le> n" "length r \<le> l" for len r l
    using settled_mono [OF until(2)] settled_mono [OF loops_settled(2) [OF val]] that by simp
  have "settled (length r) (parse_cbor h (Suc n) c r)" if r: "length r < Suc n" for c r
  proof -
    have "settled (length r) (res_bind (get_tag c r) (\<lambda>(_, r).
             res_bind (get_byte r) (\<lambda>(c, r). parse_cbor h n (byte_of c) r)))"
      and "settled (length r) (res_bind (get_tag c r) (\<lambda>(t, r). res_bind (get_byte r) (\<lambda>(c, r).
             if t = None then parse_cbor h n (byte_of c) r
             else res_bind (get_cbor_binary (Suc n) (byte_of c) r) (\<lambda>(bs, r). Inr (JBinary bs t, r)))))"
      using r by (auto intro!: settled_then [OF settled_tag] settled_byte val' settled_mono [OF settled_strings(2)] settled_map)
    note tagged = settled_handler [OF settled_error(1) this]
    show ?thesis unfolding parse_cbor.simps(2)
      by (intro settled_if tagged settled_map settled_strings settled_cbor_float settled_number settled_error
          settled_then [OF settled_lengths(1)] settled_then [OF settled_lengths(2)])
        (use r in \<open>simp_all add: settled_map settled_bytes arr obj del: get_cbor_array.simps get_cbor_object.simps\<close>)
  qed
  with until show ?case by simp
qed simp

section \<open>Properties\<close>

lemma from_cbor_written: "cbor_value h j \<Longrightarrow> from_cbor h (write_cbor j) = Inr j"
  using bind_item [OF parse_cbor_write(1) [of h j "length (write_cbor j)" "[]"], of "\<lambda>(j, r). if r = [] then Inr j else Inl (Bexn (Parse_error 110))"]
  by (simp add: from_cbor_def)



text \<open>Reading CBOR ends for every input and every tag handler, however malformed the input or deep its nesting: the depth of the
  calls never exceeds the number of bytes, so that the result is a value or one of the library's errors.\<close>

theorem from_cbor_total: "from_cbor h inp \<noteq> Inl No_fuel"
  using settled_byte [of inp "length inp" "\<lambda>(c, r). parse_cbor h (length inp) (byte_of c) r"] parse_cbor_settled [of "length inp" h]
  by (cases inp) (auto simp: from_cbor_def settled_def res_simps get_byte_def split: sum.splits if_splits)

text \<open>A negative number below the smallest 64-bit integer is read as another number: the head 3B with an argument \<open>n\<close> of at least
  2 to the 63 means \<open>-1 - n\<close>, but the conversion wraps around and the result is \<open>2^64 - 1 - n\<close>, which is not negative.\<close>

theorem cbor_negative_wraps:
  assumes "2 ^ 63 \<le> n" and "n < 2 ^ 64"
  shows "from_cbor h (CHR 0x3B # write_number 8 n) = Inr (JInteger (2 ^ 64 - 1 - int n))"
proof -
  have "parse_cbor h (Suc 8) 0x3B (write_number 8 n) = Inr (JInteger (2 ^ 64 - 1 - int n), [])"
    using assms get_number_write [of n 8 "[]"] unfolding parse_cbor.simps(2) by (simp add: cbor_negative_def signed64_large)
  then show ?thesis by (simp add: from_cbor_def)
qed

theorem cbor_negative_wraps_witness:
  "from_cbor Tag_error (CHR 0x3B # write_number 8 (2 ^ 64 - 1)) = Inr (JInteger 0)"
  using cbor_negative_wraps [of "2 ^ 64 - 1" Tag_error] by simp

text \<open>The announced length 2 to the 64 minus one is taken for an unknown one: the elements up to FF are read.\<close>

lemma cbor_length_all_ones:
  "parse_cbor h (Suc n) 0x9B (write_number 8 (2 ^ 64 - 1) @ r) = parse_cbor h (Suc n) 0x9F r"
  by (simp add: parse_cbor.simps(2) get_number_256 UNKNOWN_def array_length_def del: get_cbor_array.simps)

end
