(* ===== verification/Bson.thy ===== *)
theory Bson
  imports BinaryFormat
begin

text \<open>
  BSON, \<open>to_bson\<close> and \<open>from_bson\<close> of \<open>include/nlohmann/json.hpp\<close>. A document is its size in bytes, its elements, each a
  type byte, a name that ends with NUL and a value, and a closing NUL. Numbers are in little-endian order; an array is a
  document whose names are the indices.

  The sizes are computed before anything is written, and there all names are checked. The reader skips the size of a
  document; its recursion counts a fuel down, and each element takes at least one byte.

  The lemmas show that the announced size of a document is its length, when writing fails, and that reading undoes
  writing up to the types that BSON does not have.
\<close>

section \<open>Sizes\<close>

definition calc_bson_entry_header_size :: "string \<Rightarrow> json_exn + nat" where
  "calc_bson_entry_header_size name = (if NUL \<in> set name then Inl (Out_of_range 409) else Inr (1 + length name + 1))"

definition calc_bson_string_size :: "string \<Rightarrow> nat" where
  "calc_bson_string_size s = 4 + length s + 1"

definition calc_bson_integer_size :: "int \<Rightarrow> nat" where
  "calc_bson_integer_size i = (if - (2 ^ 31) \<le> i \<and> i \<le> 2 ^ 31 - 1 then 4 else 8)"

definition calc_bson_unsigned_size :: "nat \<Rightarrow> nat" where
  "calc_bson_unsigned_size n = (if n \<le> 2 ^ 31 - 1 then 4 else 8)"

definition calc_bson_binary_size :: "string \<Rightarrow> nat" where
  "calc_bson_binary_size bs = 4 + length bs + 1"

text \<open>\<open>entry_sizes\<close> and \<open>element_sizes\<close> are the sums that \<open>std::accumulate\<close> computes, from the sum so far.\<close>

function calc_bson_element_size :: "string \<Rightarrow> json \<Rightarrow> json_exn + nat"
  and calc_bson_object_size :: "(string \<times> json) list \<Rightarrow> json_exn + nat"
  and entry_sizes :: "nat \<Rightarrow> (string \<times> json) list \<Rightarrow> json_exn + nat"
  and calc_bson_array_size :: "json list \<Rightarrow> json_exn + nat"
  and element_sizes :: "nat \<Rightarrow> nat \<Rightarrow> json list \<Rightarrow> json_exn + nat" where
  "calc_bson_element_size name j =
     res_bind (calc_bson_entry_header_size name) (\<lambda>header_size.
       (case j of
          JObject m \<Rightarrow> res_bind (calc_bson_object_size m) (\<lambda>n. Inr (header_size + n))
        | JArray xs \<Rightarrow> res_bind (calc_bson_array_size xs) (\<lambda>n. Inr (header_size + n))
        | JBinary bs st \<Rightarrow> Inr (header_size + calc_bson_binary_size bs)
        | JBool b \<Rightarrow> Inr (header_size + 1)
        | JFloat x \<Rightarrow> Inr (header_size + 8)
        | JInteger i \<Rightarrow> Inr (header_size + calc_bson_integer_size i)
        | JUnsigned n \<Rightarrow> Inr (header_size + calc_bson_unsigned_size n)
        | JString s \<Rightarrow> Inr (header_size + calc_bson_string_size s)
        | JNull \<Rightarrow> Inr (header_size + 0)))"
| "calc_bson_object_size m = res_bind (entry_sizes 0 m) (\<lambda>document_size. Inr (4 + document_size + 1))"
| "entry_sizes result [] = Inr result"
| "entry_sizes result ((k, v) # m) = res_bind (calc_bson_element_size k v) (\<lambda>n. entry_sizes (result + n) m)"
| "calc_bson_array_size xs = res_bind (element_sizes 0 0 xs) (\<lambda>embedded_document_size. Inr (4 + embedded_document_size + 1))"
| "element_sizes array_index result [] = Inr result"
| "element_sizes array_index result (x # xs) =
     res_bind (calc_bson_element_size (dec array_index) x) (\<lambda>n. element_sizes (array_index + 1) (result + n) xs)"
  by pat_completeness auto
termination
  by (relation "measures
      [\<lambda>x. case x of Inl (Inl (_, j)) \<Rightarrow> size j | Inl (Inr m) \<Rightarrow> size_list (size_prod (\<lambda>_. 0) size) m
         | Inr (Inl (_, m)) \<Rightarrow> size_list (size_prod (\<lambda>_. 0) size) m
         | Inr (Inr (Inl xs)) \<Rightarrow> size_list size xs | Inr (Inr (Inr (_, _, xs))) \<Rightarrow> size_list size xs,
       \<lambda>x. case x of Inl (Inl _) \<Rightarrow> 0 | Inl (Inr _) \<Rightarrow> 1 | Inr (Inl _) \<Rightarrow> 0 | Inr (Inr (Inl _)) \<Rightarrow> 1 | Inr (Inr (Inr _)) \<Rightarrow> 0]") auto
section \<open>Writing\<close>

text \<open>\<open>c_str()\<close> of the name with the NUL behind it.\<close>

definition write_bson_entry_header :: "string \<Rightarrow> nat \<Rightarrow> string" where
  "write_bson_entry_header name element_type = char_of element_type # name @ [NUL]"

definition write_bson_boolean :: "string \<Rightarrow> bool \<Rightarrow> string" where
  "write_bson_boolean name b = write_bson_entry_header name 0x08 @ [if b then CHR 0x01 else CHR 0x00]"

definition write_bson_double :: "string \<Rightarrow> double \<Rightarrow> string" where
  "write_bson_double name x = write_bson_entry_header name 0x01 @ le_bytes 8 (unat x)"

definition write_bson_string :: "string \<Rightarrow> string \<Rightarrow> string" where
  "write_bson_string name s = write_bson_entry_header name 0x02 @ le_bytes 4 (length s + 1) @ s @ [NUL]"

definition write_bson_null :: "string \<Rightarrow> string" where
  "write_bson_null name = write_bson_entry_header name 0x0A"

definition write_bson_integer :: "string \<Rightarrow> int \<Rightarrow> string" where
  "write_bson_integer name i =
     (if - (2 ^ 31) \<le> i \<and> i \<le> 2 ^ 31 - 1
      then write_bson_entry_header name 0x10 @ le_bytes 4 (nat (i mod 2 ^ 32))
      else write_bson_entry_header name 0x12 @ le_bytes 8 (nat (i mod 2 ^ 64)))"

definition write_bson_unsigned :: "string \<Rightarrow> nat \<Rightarrow> json_exn + string" where
  "write_bson_unsigned name n =
     (if n \<le> 2 ^ 31 - 1 then Inr (write_bson_entry_header name 0x10 @ le_bytes 4 n)
      else if n \<le> 2 ^ 63 - 1 then Inr (write_bson_entry_header name 0x12 @ le_bytes 8 n)
      else Inl (Out_of_range 407))"

text \<open>Every binary value has a subtype, cut to a byte.\<close>

definition write_bson_binary :: "string \<Rightarrow> string \<Rightarrow> nat option \<Rightarrow> string" where
  "write_bson_binary name bs st =
     write_bson_entry_header name 0x05 @ le_bytes 4 (length bs)
     @ write_number 1 (case st of None \<Rightarrow> 0 | Some t \<Rightarrow> t mod 256) @ bs"

function write_bson_element :: "string \<Rightarrow> json \<Rightarrow> json_exn + string"
  and write_bson_object :: "(string \<times> json) list \<Rightarrow> json_exn + string"
  and write_entries :: "(string \<times> json) list \<Rightarrow> json_exn + string"
  and write_bson_array :: "string \<Rightarrow> json list \<Rightarrow> json_exn + string"
  and write_items :: "nat \<Rightarrow> json list \<Rightarrow> json_exn + string" where
  "write_bson_element name j =
     (case j of
        JObject m \<Rightarrow> res_bind (write_bson_object m) (\<lambda>s. Inr (write_bson_entry_header name 0x03 @ s))
      | JArray xs \<Rightarrow> write_bson_array name xs
      | JBinary bs st \<Rightarrow> Inr (write_bson_binary name bs st)
      | JBool b \<Rightarrow> Inr (write_bson_boolean name b)
      | JFloat x \<Rightarrow> Inr (write_bson_double name x)
      | JInteger i \<Rightarrow> Inr (write_bson_integer name i)
      | JUnsigned n \<Rightarrow> write_bson_unsigned name n
      | JString s \<Rightarrow> Inr (write_bson_string name s)
      | JNull \<Rightarrow> Inr (write_bson_null name))"
| "write_bson_object m =
     res_bind (calc_bson_object_size m) (\<lambda>n. res_bind (write_entries m) (\<lambda>s. Inr (le_bytes 4 n @ s @ [NUL])))"
| "write_entries [] = Inr []"
| "write_entries ((k, v) # m) =
     res_bind (write_bson_element k v) (\<lambda>s. res_bind (write_entries m) (\<lambda>t. Inr (s @ t)))"
| "write_bson_array name xs =
     res_bind (calc_bson_array_size xs) (\<lambda>n. res_bind (write_items 0 xs) (\<lambda>s.
       Inr (write_bson_entry_header name 0x04 @ le_bytes 4 n @ s @ [NUL])))"
| "write_items array_index [] = Inr []"
| "write_items array_index (x # xs) =
     res_bind (write_bson_element (dec array_index) x) (\<lambda>s. res_bind (write_items (array_index + 1) xs) (\<lambda>t. Inr (s @ t)))"
  by pat_completeness auto
termination
  by (relation "measures
      [\<lambda>x. case x of Inl (Inl (_, j)) \<Rightarrow> size j | Inl (Inr m) \<Rightarrow> size_list (size_prod (\<lambda>_. 0) size) m
         | Inr (Inl m) \<Rightarrow> size_list (size_prod (\<lambda>_. 0) size) m
         | Inr (Inr (Inl (_, xs))) \<Rightarrow> size_list size xs | Inr (Inr (Inr (_, xs))) \<Rightarrow> size_list size xs,
       \<lambda>x. case x of Inl (Inl _) \<Rightarrow> 0 | Inl (Inr _) \<Rightarrow> 1 | Inr (Inl _) \<Rightarrow> 0 | Inr (Inr (Inl _)) \<Rightarrow> 1 | Inr (Inr (Inr _)) \<Rightarrow> 0]") auto

definition write_bson :: "json \<Rightarrow> json_exn + string" where
  "write_bson j = (case j of JObject m \<Rightarrow> write_bson_object m | _ \<Rightarrow> Inl (Type_error 317))"

section \<open>Reading\<close>

fun get_bson_cstr :: "string reader" where
  "get_bson_cstr [] = Inl (Bexn (Parse_error 110))"
| "get_bson_cstr (c # r) = (if c = NUL then Inr ([], r) else res_bind (get_bson_cstr r) (\<lambda>(s, r). Inr (c # s, r)))"

text \<open>The last byte is skipped whatever it is; if it is missing the reader gives up without an exception.\<close>

definition get_bson_string :: "int \<Rightarrow> string reader" where
  "get_bson_string len inp =
     (if len < 1 then Inl (Bexn (Parse_error 112))
      else res_bind (get_bytes (nat (len - 1)) inp) (\<lambda>(s, r).
        case r of [] \<Rightarrow> Inl Discarded | _ # r \<Rightarrow> Inr (s, r)))"

definition get_bson_binary :: "int \<Rightarrow> json reader" where
  "get_bson_binary len inp =
     (if len < 0 then Inl (Bexn (Parse_error 112))
      else res_bind (get_number 1 inp) (\<lambda>(subtype, r).
        res_bind (get_bytes (nat len) r) (\<lambda>(bs, r). Inr (JBinary bs (Some subtype), r))))"

text \<open>At the end of the input \<open>get\<close> returns -1, which is true.\<close>

definition get_bson_boolean :: "json reader" where
  "get_bson_boolean inp = (case inp of [] \<Rightarrow> Inr (JBool True, []) | c # r \<Rightarrow> Inr (JBool (c \<noteq> NUL), r))"

definition get_bson_scalar :: "nat \<Rightarrow> json reader" where
  "get_bson_scalar element_type inp =
     (if element_type = 0x01 then res_bind (get_number_le 8 inp) (\<lambda>(n, r). Inr (JFloat (of_nat n), r))
      else if element_type = 0x02 then res_bind (get_signed_le 4 inp) (\<lambda>(len, r).
        res_bind (get_bson_string len r) (\<lambda>(s, r). Inr (JString s, r)))
      else if element_type = 0x05 then res_bind (get_signed_le 4 inp) (\<lambda>(len, r). get_bson_binary len r)
      else if element_type = 0x08 then get_bson_boolean inp
      else if element_type = 0x0A then Inr (JNull, inp)
      else if element_type = 0x10 then res_bind (get_signed_le 4 inp) (\<lambda>(i, r). Inr (JInteger i, r))
      else if element_type = 0x12 then res_bind (get_signed_le 8 inp) (\<lambda>(i, r). Inr (JInteger i, r))
      else Inl (Bexn (Parse_error 114)))"

text \<open>
  The element lists of objects and of arrays, the loop of \<open>parse_bson_element_list\<close>. Behind the size, which is skipped,
  stands the list of a document.
\<close>

function parse_bson_element :: "nat \<Rightarrow> nat \<Rightarrow> json reader"
  and parse_bson_internal :: "nat \<Rightarrow> (string \<times> json) list reader"
  and object_list :: "nat \<Rightarrow> (string \<times> json) list \<Rightarrow> (string \<times> json) list reader"
  and parse_bson_array :: "nat \<Rightarrow> json list reader"
  and array_list :: "nat \<Rightarrow> json list reader" where
  "parse_bson_element n element_type inp =
     (if element_type = 0x03 then res_bind (parse_bson_internal n inp) (\<lambda>(m, r). Inr (JObject m, r))
      else if element_type = 0x04 then res_bind (parse_bson_array n inp) (\<lambda>(xs, r). Inr (JArray xs, r))
      else get_bson_scalar element_type inp)"
| "parse_bson_internal n inp = res_bind (get_number_le 4 inp) (\<lambda>(_, r). object_list n [] r)"
| "object_list 0 m inp = Inl No_fuel"
| "object_list (Suc n) m inp =
     res_bind (get_byte inp) (\<lambda>(c, r).
       if c = NUL then Inr (m, r)
       else res_bind (get_bson_cstr r) (\<lambda>(key, r).
            res_bind (parse_bson_element n (byte_of c) r) (\<lambda>(v, r). object_list n (map_put key v m) r)))"
| "parse_bson_array n inp = res_bind (get_number_le 4 inp) (\<lambda>(_, r). array_list n r)"
| "array_list 0 inp = Inl No_fuel"
| "array_list (Suc n) inp =
     res_bind (get_byte inp) (\<lambda>(c, r).
       if c = NUL then Inr ([], r)
       else res_bind (get_bson_cstr r) (\<lambda>(_, r).
            res_bind (parse_bson_element n (byte_of c) r) (\<lambda>(x, r).
            res_bind (array_list n r) (\<lambda>(xs, r). Inr (x # xs, r)))))"
  by pat_completeness auto
termination
  by (relation "measures
      [\<lambda>x. case x of Inl (Inl (n, _)) \<Rightarrow> n | Inl (Inr (n, _)) \<Rightarrow> n | Inr (Inl (n, _)) \<Rightarrow> n
         | Inr (Inr (Inl (n, _))) \<Rightarrow> n | Inr (Inr (Inr (n, _))) \<Rightarrow> n,
       \<lambda>x. case x of Inl (Inl _) \<Rightarrow> 2 | Inl (Inr _) \<Rightarrow> 1 | Inr (Inl _) \<Rightarrow> 0 | Inr (Inr (Inl _)) \<Rightarrow> 1 | Inr (Inr (Inr _)) \<Rightarrow> 0]") auto

definition from_bson :: "string \<Rightarrow> bin_fail + json" where
  "from_bson inp =
     res_bind (parse_bson_internal (length inp) inp) (\<lambda>(m, r).
       if r = [] then Inr (JObject m) else Inl (Bexn (Parse_error 110)))"

section \<open>The announced size\<close>

lemmas bson_defs = write_bson_entry_header_def write_bson_boolean_def write_bson_double_def write_bson_string_def
  write_bson_null_def write_bson_integer_def write_bson_unsigned_def write_bson_binary_def

lemmas bson_sizes = calc_bson_string_size_def calc_bson_integer_size_def calc_bson_unsigned_size_def
  calc_bson_binary_size_def calc_bson_entry_header_size_def

lemmas document_simps = calc_bson_object_size.simps calc_bson_array_size.simps write_bson_object.simps write_bson_array.simps

declare calc_bson_element_size.simps [simp del] write_bson_element.simps [simp del] document_simps [simp del]

lemma size_is_length:
  "write_bson_element k j = Inr s \<Longrightarrow> calc_bson_element_size k j = Inr n \<Longrightarrow> n = length s"
  "write_bson_object m = Inr s \<Longrightarrow> calc_bson_object_size m = Inr n \<Longrightarrow> n = length s"
  "write_entries m = Inr s \<Longrightarrow> entry_sizes a m = Inr n \<Longrightarrow> n = a + length s"
  "write_bson_array k xs = Inr s \<Longrightarrow> calc_bson_array_size xs = Inr n \<Longrightarrow> length k + 2 + n = length s"
  "write_items i xs = Inr s \<Longrightarrow> element_sizes i a xs = Inr n \<Longrightarrow> n = a + length s"
proof (induction k j and m and m and k xs and i xs arbitrary: s n and s n and s n a and s n and s n a
    rule: write_bson_element_write_bson_object_write_entries_write_bson_array_write_items.induct)
  case (1 k j)
  then show ?case
    by (cases j) (auto simp: calc_bson_element_size.simps write_bson_element.simps bson_defs bson_sizes res_simps
        split: if_splits)
next
  case (2 m)
  then show ?case by (fastforce simp: document_simps res_simps)
next
  case (4 k v m)
  then show ?case by (fastforce simp: res_simps)
next
  case (5 k xs)
  then show ?case by (fastforce simp: document_simps res_simps bson_defs)
next
  case (7 i x xs)
  then show ?case by (fastforce simp: res_simps)
qed simp_all

section \<open>When writing fails\<close>

text \<open>No name in the value has a NUL, and no unsigned number exceeds 63 bits.\<close>

fun names_ok :: "json \<Rightarrow> bool" where
  "names_ok (JObject m) = (\<forall>kv\<in>set m. NUL \<notin> set (fst kv) \<and> names_ok (snd kv))"
| "names_ok (JArray xs) = (\<forall>x\<in>set xs. names_ok x)"
| "names_ok _ = True"

fun numbers_ok :: "json \<Rightarrow> bool" where
  "numbers_ok (JObject m) = (\<forall>kv\<in>set m. numbers_ok (snd kv))"
| "numbers_ok (JArray xs) = (\<forall>x\<in>set xs. numbers_ok x)"
| "numbers_ok (JUnsigned n) = (n \<le> 2 ^ 63 - 1)"
| "numbers_ok _ = True"

lemma dec_names: "NUL \<notin> set (dec n)"
  using dec_isdigit [of NUL n] by (auto simp: isdigit_def)

lemma size_fails:
  "calc_bson_element_size k j = Inl e \<longleftrightarrow> \<not> (NUL \<notin> set k \<and> names_ok j) \<and> e = Out_of_range 409"
  "calc_bson_object_size m = Inl e \<longleftrightarrow> \<not> names_ok (JObject m) \<and> e = Out_of_range 409"
  "entry_sizes a m = Inl e \<longleftrightarrow> \<not> names_ok (JObject m) \<and> e = Out_of_range 409"
  "calc_bson_array_size xs = Inl e \<longleftrightarrow> \<not> names_ok (JArray xs) \<and> e = Out_of_range 409"
  "element_sizes i a xs = Inl e \<longleftrightarrow> \<not> names_ok (JArray xs) \<and> e = Out_of_range 409"
proof (induction k j and m and a m and xs and i a xs arbitrary: e and e and e and e and e
    rule: calc_bson_element_size_calc_bson_object_size_entry_sizes_calc_bson_array_size_element_sizes.induct)
  case (1 k j)
  then show ?case
    by (cases j) (auto simp: calc_bson_element_size.simps bson_sizes res_simps)
next
  case (4 a k v m)
  then show ?case by (cases "calc_bson_element_size k v") (auto simp: dec_names)
next
  case (7 i a x xs)
  then show ?case by (cases "calc_bson_element_size (dec i) x") (auto simp: dec_names)
qed (auto simp: document_simps res_simps)

lemma size_succeeds:
  "(\<exists>n. calc_bson_object_size m = Inr n) \<longleftrightarrow> names_ok (JObject m)"
  "(\<exists>n. calc_bson_array_size xs = Inr n) \<longleftrightarrow> names_ok (JArray xs)"
  using size_fails(2) [of m] size_fails(4) [of xs] by (metis sum.exhaust sum.distinct(1))+

lemma write_fails:
  "names_ok j \<Longrightarrow> write_bson_element k j = Inl e \<longleftrightarrow> \<not> numbers_ok j \<and> e = Out_of_range 407"
  "names_ok (JObject m) \<Longrightarrow> write_bson_object m = Inl e \<longleftrightarrow> \<not> numbers_ok (JObject m) \<and> e = Out_of_range 407"
  "names_ok (JObject m) \<Longrightarrow> write_entries m = Inl e \<longleftrightarrow> \<not> numbers_ok (JObject m) \<and> e = Out_of_range 407"
  "names_ok (JArray xs) \<Longrightarrow> write_bson_array k xs = Inl e \<longleftrightarrow> \<not> numbers_ok (JArray xs) \<and> e = Out_of_range 407"
  "names_ok (JArray xs) \<Longrightarrow> write_items i xs = Inl e \<longleftrightarrow> \<not> numbers_ok (JArray xs) \<and> e = Out_of_range 407"
proof (induction k j and m and m and k xs and i xs arbitrary: e and e and e and e and e
    rule: write_bson_element_write_bson_object_write_entries_write_bson_array_write_items.induct)
  case (1 k j)
  then show ?case by (cases j) (auto simp: write_bson_element.simps write_bson_unsigned_def res_simps)
next
  case (2 m)
  then obtain n where "calc_bson_object_size m = Inr n" using size_succeeds(1) [of m] by auto
  with 2 show ?case by (auto simp: write_bson_object.simps res_simps)
next
  case (4 k v m)
  then show ?case by (cases "write_bson_element k v"; cases "write_entries m") (auto simp: res_simps)
next
  case (5 k xs)
  then obtain n where "calc_bson_array_size xs = Inr n" using size_succeeds(2) [of xs] by auto
  with 5 show ?case by (auto simp: write_bson_array.simps res_simps)
next
  case (7 i x xs)
  then show ?case by (cases "write_bson_element (dec i) x"; cases "write_items (i + 1) xs") (auto simp: res_simps)
qed simp_all

section \<open>Reading undoes writing\<close>

text \<open>What is left of a value: a number without a fraction is a signed one, and every binary value has a subtype of a byte.\<close>

fun bson_view :: "json \<Rightarrow> json" where
  "bson_view (JUnsigned n) = JInteger (int n)"
| "bson_view (JBinary bs st) = JBinary bs (Some (case st of None \<Rightarrow> 0 | Some t \<Rightarrow> t mod 256))"
| "bson_view (JArray xs) = JArray (map bson_view xs)"
| "bson_view (JObject m) = JObject (map (\<lambda>(k, v). (k, bson_view v)) m)"
| "bson_view j = j"

text \<open>Sorted names, numbers of 64 bits, and lengths that the 32-bit sizes can hold.\<close>

fun bson_value :: "json \<Rightarrow> bool" where
  "bson_value (JInteger i) = (- (2 ^ 63) \<le> i \<and> i < 2 ^ 63)"
| "bson_value (JString s) = (length s + 1 < 2 ^ 31)"
| "bson_value (JBinary bs st) = (length bs < 2 ^ 31)"
| "bson_value (JArray xs) = (\<forall>x\<in>set xs. bson_value x)"
| "bson_value (JObject m) = (keys_sorted m \<and> (\<forall>kv\<in>set m. bson_value (snd kv)))"
| "bson_value _ = True"

lemma cstr_read [simp]: "NUL \<notin> set k \<Longrightarrow> get_bson_cstr (k @ NUL # r) = Inr (k, r)"
  by (induction k) auto

lemma le_bytes_mod: "le_bytes k (n mod 256 ^ k) = le_bytes k n"
proof (induction k arbitrary: n)
  case (Suc k)
  have "n mod (256 * 256 ^ k) div 256 = n div 256 mod 256 ^ k" by (simp add: mod_mult2_eq)
  moreover have "n mod (256 * 256 ^ k) mod 256 = n mod 256" by (simp add: mod_mod_cancel)
  ultimately show ?case using Suc by simp
qed simp

lemma get_any_le: "get_number_le k (le_bytes k n @ r) = Inr (n mod 256 ^ k, r)"
  by (simp add: get_number_le_def le_val_bytes)

lemma read_length: "n < 2 ^ 31 \<Longrightarrow> get_signed_le 4 (le_bytes 4 n @ r) = Inr (int n, r)"
  by (simp add: get_signed_le_def get_any_le to_signed_def)

lemma read_scalars:
  "length s + 1 < 2 ^ 31 \<Longrightarrow> get_bson_scalar 2 (le_bytes 4 (length s + 1) @ s @ NUL # r) = Inr (JString s, r)"
  "length bs < 2 ^ 31 \<Longrightarrow> t < 256 \<Longrightarrow>
     get_bson_scalar 5 (le_bytes 4 (length bs) @ write_number 1 t @ bs @ r) = Inr (JBinary bs (Some t), r)"
  "get_bson_scalar 1 (le_bytes 8 (unat x) @ r) = Inr (JFloat x, r)"
proof -
  show "length s + 1 < 2 ^ 31 \<Longrightarrow> get_bson_scalar 2 (le_bytes 4 (length s + 1) @ s @ NUL # r) = Inr (JString s, r)"
    by (simp add: get_bson_scalar_def get_bson_string_def read_length)
  show "length bs < 2 ^ 31 \<Longrightarrow> t < 256 \<Longrightarrow>
     get_bson_scalar 5 (le_bytes 4 (length bs) @ write_number 1 t @ bs @ r) = Inr (JBinary bs (Some t), r)"
    using get_number_256 [of 1 t "bs @ r"] by (simp add: get_bson_scalar_def get_bson_binary_def read_length)
  show "get_bson_scalar 1 (le_bytes 8 (unat x) @ r) = Inr (JFloat x, r)"
    using unsigned_less [of x, where 'a = nat] by (simp add: get_bson_scalar_def get_any_le)
qed

lemma read_integers:
  "- (2 ^ 31) \<le> i \<Longrightarrow> i \<le> 2 ^ 31 - 1 \<Longrightarrow>
     get_bson_scalar 0x10 (le_bytes 4 (nat (i mod 2 ^ 32)) @ r) = Inr (JInteger i, r)"
  "- (2 ^ 63) \<le> i \<Longrightarrow> i < 2 ^ 63 \<Longrightarrow> get_bson_scalar 0x12 (le_bytes 8 (nat (i mod 2 ^ 64)) @ r) = Inr (JInteger i, r)"
  "n \<le> 2 ^ 31 - 1 \<Longrightarrow> get_bson_scalar 0x10 (le_bytes 4 n @ r) = Inr (JInteger (int n), r)"
  "n \<le> 2 ^ 63 - 1 \<Longrightarrow> get_bson_scalar 0x12 (le_bytes 8 n @ r) = Inr (JInteger (int n), r)"
proof -
  show "- (2 ^ 31) \<le> i \<Longrightarrow> i \<le> 2 ^ 31 - 1 \<Longrightarrow>
     get_bson_scalar 0x10 (le_bytes 4 (nat (i mod 2 ^ 32)) @ r) = Inr (JInteger i, r)"
    using get_signed_le_bytes [of 4 i r] by (simp add: get_bson_scalar_def)
  show "- (2 ^ 63) \<le> i \<Longrightarrow> i < 2 ^ 63 \<Longrightarrow> get_bson_scalar 0x12 (le_bytes 8 (nat (i mod 2 ^ 64)) @ r) = Inr (JInteger i, r)"
    using get_signed_le_bytes [of 8 i r] by (simp add: get_bson_scalar_def)
qed (simp_all add: get_bson_scalar_def get_signed_le_def get_any_le to_signed_def)

text \<open>An element is a type, a name and a body that the reader for this type turns into the value.\<close>

definition readable :: "nat \<Rightarrow> string \<Rightarrow> json \<Rightarrow> string \<Rightarrow> bool" where
  "readable n k j s \<longleftrightarrow> (\<exists>t body. 0 < t \<and> t < 256 \<and> s = write_bson_entry_header k t @ body
     \<and> (\<forall>r. parse_bson_element n t (body @ r) = Inr (bson_view j, r)))"

lemma readableI:
  "0 < t \<Longrightarrow> t < 256 \<Longrightarrow> s = write_bson_entry_header k t @ body \<Longrightarrow>
     (\<And>r. parse_bson_element n t (body @ r) = Inr (bson_view j, r)) \<Longrightarrow> readable n k j s"
  unfolding readable_def by blast

lemma char_of_nz: "0 < t \<Longrightarrow> t < 256 \<Longrightarrow> char_of t \<noteq> NUL" for t :: nat
proof
  assume t: "0 < t" "t < 256" and "char_of t = NUL"
  then have "byte_of (char_of t) = byte_of NUL" by simp
  then show False using t by simp
qed

lemma list_steps:
  assumes "readable n k j s" and "NUL \<notin> set k"
  shows "object_list (Suc n) m (s @ w) = object_list n (map_put k (bson_view j) m) w"
    and "array_list (Suc n) (s @ w) = res_bind (array_list n w) (\<lambda>(xs, r). Inr (bson_view j # xs, r))"
proof -
  obtain t body where t: "0 < t" "t < 256" "s = write_bson_entry_header k t @ body"
    "\<And>r. parse_bson_element n t (body @ r) = Inr (bson_view j, r)"
    using assms(1) unfolding readable_def by blast
  then have w: "s @ w = char_of t # k @ NUL # body @ w" by (simp add: write_bson_entry_header_def)
  show "object_list (Suc n) m (s @ w) = object_list n (map_put k (bson_view j) m) w"
    and "array_list (Suc n) (s @ w) = res_bind (array_list n w) (\<lambda>(xs, r). Inr (bson_view j # xs, r))"
    using t(1,2,4) assms(2) unfolding w by (simp_all add: char_of_nz del: parse_bson_element.simps)
qed

lemma readable_scalar:
  assumes "\<And>r. get_bson_scalar t (body @ r) = Inr (bson_view j, r)" and "0 < t" "t < 256" "t \<noteq> 3" "t \<noteq> 4"
  shows "readable n k j (write_bson_entry_header k t @ body)"
  using assms by (intro readableI) auto

lemma read_bson_scalar:
  assumes "write_bson_element k j = Inr s" and "bson_value j" and "\<And>m. j \<noteq> JObject m" and "\<And>xs. j \<noteq> JArray xs"
  shows "readable n k j s"
proof (cases j)
  case JNull
  then show ?thesis using assms(1) readable_scalar [of 10 "[]" JNull n k]
    by (simp add: write_bson_element.simps write_bson_null_def get_bson_scalar_def)
next
  case (JBool b)
  then show ?thesis using assms(1) readable_scalar [of 8 "[if b then CHR 0x01 else CHR 0x00]" j n k]
    by (simp add: write_bson_element.simps write_bson_boolean_def get_bson_scalar_def get_bson_boolean_def split: if_splits)
next
  case (JInteger i)
  then show ?thesis using assms(1,2) read_integers(1,2) [of i]
    by (auto simp: write_bson_element.simps write_bson_integer_def intro!: readable_scalar split: if_splits)
next
  case (JUnsigned u)
  then show ?thesis using assms(1,2) read_integers(3,4) [of u]
    by (auto simp: write_bson_element.simps write_bson_unsigned_def intro!: readable_scalar split: if_splits)
next
  case (JFloat x)
  then show ?thesis using assms(1) read_scalars(3) [of x]
    by (auto simp: write_bson_element.simps write_bson_double_def intro!: readable_scalar)
next
  case (JString t)
  then show ?thesis using assms(1,2) read_scalars(1) [of t] readable_scalar [of 2 "le_bytes 4 (length t + 1) @ t @ [NUL]" j n k]
    by (simp add: write_bson_element.simps write_bson_string_def)
next
  case (JBinary bs st)
  define u where "u = (case st of None \<Rightarrow> 0 | Some t \<Rightarrow> t mod 256)"
  have "u < 256" by (simp add: u_def split: option.splits)
  then show ?thesis using JBinary assms(1,2) read_scalars(2) [of bs u] readable_scalar [of 5 "le_bytes 4 (length bs) @ write_number 1 u @ bs" j n k]
    by (simp add: write_bson_element.simps write_bson_binary_def u_def)
qed (use assms in auto)

lemma read_bson_written:
  "write_bson_element k j = Inr s \<Longrightarrow> names_ok j \<Longrightarrow> bson_value j \<Longrightarrow> length s \<le> n \<Longrightarrow> readable n k j s"
  "write_bson_object m = Inr s \<Longrightarrow> names_ok (JObject m) \<Longrightarrow> bson_value (JObject m) \<Longrightarrow> length s \<le> n \<Longrightarrow>
     parse_bson_internal n (s @ r) = Inr (map (\<lambda>(k, v). (k, bson_view v)) m, r)"
  "write_entries m = Inr s \<Longrightarrow> names_ok (JObject m) \<Longrightarrow> \<forall>kv\<in>set m. bson_value (snd kv) \<Longrightarrow> length s < n \<Longrightarrow>
     object_list n acc (s @ NUL # r) = Inr (tsm.put_all (map (\<lambda>(k, v). (k, bson_view v)) m) acc, r)"
  "write_bson_array k xs = Inr s \<Longrightarrow> names_ok (JArray xs) \<Longrightarrow> bson_value (JArray xs) \<Longrightarrow> length s \<le> n \<Longrightarrow>
     readable n k (JArray xs) s"
  "write_items i xs = Inr s \<Longrightarrow> names_ok (JArray xs) \<Longrightarrow> bson_value (JArray xs) \<Longrightarrow> length s < n \<Longrightarrow>
     array_list n (s @ NUL # r) = Inr (map bson_view xs, r)"
proof (induction k j and m and m and k xs and i xs
    arbitrary: s n and s n r and s n acc r and s n and s n r
    rule: write_bson_element_write_bson_object_write_entries_write_bson_array_write_items.induct)
  case (1 k j)
  show ?case
  proof (cases j)
    case (JObject m)
    with 1(3) obtain b where b: "write_bson_object m = Inr b" "s = write_bson_entry_header k 3 @ b"
      by (auto simp: write_bson_element.simps res_simps)
    have "length b \<le> n" using 1(6) b(2) by simp
    with 1 JObject b show ?thesis by (intro readableI [of 3 s k b]) (auto simp del: parse_bson_internal.simps)
  next
    case (JArray xs)
    with 1 show ?thesis by (auto simp: write_bson_element.simps)
  qed (use 1(3,5) read_bson_scalar [of k j s n] in auto)
next
  case (2 m)
  then obtain z b where b: "write_entries m = Inr b" "s = le_bytes 4 z @ b @ [NUL]" "calc_bson_object_size m = Inr z"
    by (auto simp: write_bson_object.simps res_simps)
  let ?f = "\<lambda>(k, v). (k, bson_view v)"
  have "map fst (map ?f m) = map fst m" by (simp add: case_prod_unfold comp_def)
  moreover have "keys_sorted m" using 2(4) by simp
  ultimately have "keys_sorted (map ?f m)" by (simp only: keys_sorted_def)
  then have p: "tsm.put_all (map ?f m) [] = map ?f m" using put_all_sorted [of "[]"] by simp
  have "length b < n" using 2(5) b(2) by simp
  then have "object_list n [] (b @ NUL # r) = Inr (tsm.put_all (map ?f m) [], r)"
    using 2 b by (intro 2(1)) auto
  then show ?case by (simp add: b(2) get_any_le p)
next
  case 3
  then show ?case by (cases n) auto
next
  case (4 k v m)
  then obtain a b where s: "write_bson_element k v = Inr a" "write_entries m = Inr b" "s = a @ b"
    by (auto simp: res_simps)
  obtain n' where n: "n = Suc n'" using 4(6) by (cases n) auto
  have "readable n' k v a" using 4 s n by (intro 4(1)) auto
  moreover have "length b < n'" if "a \<noteq> []" using 4(6) s(3) n that by (cases a) auto
  moreover from calculation(1) have "a \<noteq> []" by (auto simp: readable_def write_bson_entry_header_def)
  ultimately show ?case
    using 4(2) [OF s(1,2), of n' "map_put k (bson_view v) acc"] 4(4,5) list_steps(1) [of n' k v a acc "b @ NUL # r"]
    by (simp add: n s(3))
next
  case (5 k xs)
  then obtain z b where b: "write_items 0 xs = Inr b" "s = write_bson_entry_header k 4 @ le_bytes 4 z @ b @ [NUL]"
    "calc_bson_array_size xs = Inr z"
    by (auto simp: write_bson_array.simps res_simps)
  have "length b < n" using 5(5) b(2) by simp
  then have "array_list n (b @ NUL # r) = Inr (map bson_view xs, r)" for r
    using 5 b by (intro 5(1)) auto
  then show ?case
    by (intro readableI [of 4 s k "le_bytes 4 z @ b @ [NUL]"]) (simp_all add: b(2) get_any_le)
next
  case 6
  then show ?case by (cases n) auto
next
  case (7 i x xs)
  then obtain a b where s: "write_bson_element (dec i) x = Inr a" "write_items (i + 1) xs = Inr b" "s = a @ b"
    by (auto simp: res_simps)
  obtain n' where n: "n = Suc n'" using 7(6) by (cases n) auto
  have "readable n' (dec i) x a" using 7 s n by (intro 7(1)) auto
  moreover have "length b < n'" if "a \<noteq> []" using 7(6) s(3) n that by (cases a) auto
  moreover from calculation(1) have "a \<noteq> []" by (auto simp: readable_def write_bson_entry_header_def)
  ultimately show ?case
    using 7(2) [OF s(1,2), of n'] 7(4,5) list_steps(2) [of n' "dec i" x a "b @ NUL # r"] dec_names
    by (simp add: n s(3))
qed

section \<open>Enough fuel\<close>

declare parse_bson_element.simps [simp del] parse_bson_internal.simps [simp del] parse_bson_array.simps [simp del]

lemma settled_le: "settled (length inp) (get_number_le k inp)"
  using settled_map [OF settled_bytes(2)] by (simp add: get_number_le_def)

lemma settled_signed_le: "settled (length inp) (get_signed_le k inp)"
  using settled_map [OF settled_le] by (simp add: get_signed_le_def)

lemma settled_cstr: "settled (length inp) (get_bson_cstr inp)"
proof (induction inp)
  case (Cons c r)
  then have "settled (length (c # r)) (get_bson_cstr r)" by (rule settled_mono) simp
  then show ?case by (simp add: settled_map)
qed simp

lemma settled_bson_string: "settled (length inp) (get_bson_string len inp)"
  unfolding get_bson_string_def
  by (intro settled_if settled_error settled_then [OF settled_bytes(2)]) (auto split: list.splits)

lemma settled_bson_binary: "settled (length inp) (get_bson_binary len inp)"
  unfolding get_bson_binary_def
  by (intro settled_if settled_error settled_number) (auto intro!: settled_map settled_mono [OF settled_bytes(2)])

lemma settled_scalar: "settled (length inp) (get_bson_scalar t inp)"
  unfolding get_bson_scalar_def
  by (intro settled_if settled_error settled_map settled_le settled_signed_le settled_then [OF settled_signed_le])
    (auto simp: get_bson_boolean_def split: list.splits
      intro!: settled_map settled_mono [OF settled_bson_string] settled_mono [OF settled_bson_binary])

text \<open>The document of an element has its size in front, and each element of a list starts with its type byte.\<close>

lemma element_settled:
  assumes "\<And>m inp. length inp < n \<Longrightarrow> settled (length inp) (object_list n m inp)"
    and "\<And>inp. length inp < n \<Longrightarrow> settled (length inp) (array_list n inp)"
  shows "length inp < n \<Longrightarrow> settled (length inp) (parse_bson_element n t inp)"
    and "length inp < n \<Longrightarrow> settled (length inp) (parse_bson_internal n inp)"
proof -
  assume l: "length inp < n"
  have o: "settled (length inp) (parse_bson_internal n inp)"
    unfolding parse_bson_internal.simps using l by (auto intro!: settled_then [OF settled_le] settled_mono [OF assms(1)])
  have a: "settled (length inp) (parse_bson_array n inp)"
    unfolding parse_bson_array.simps using l by (auto intro!: settled_then [OF settled_le] settled_mono [OF assms(2)])
  show "settled (length inp) (parse_bson_internal n inp)" by (rule o)
  show "settled (length inp) (parse_bson_element n t inp)"
    using o a settled_scalar by (simp add: settled_map parse_bson_element.simps)
qed

lemma lists_settled:
  "(\<forall>m inp. length inp < n \<longrightarrow> settled (length inp) (object_list n m inp)) \<and>
   (\<forall>inp. length inp < n \<longrightarrow> settled (length inp) (array_list n inp))"
proof (induction n)
  case (Suc n)
  have el: "settled (length r) (parse_bson_element n t r)" if "length r < n" for t r
    using Suc that by (intro element_settled(1)) auto
  have obj: "settled l (object_list n m r)" if "length r < n" "length r \<le> l" for m r l
    using Suc that by (auto intro: settled_mono)
  have arr: "settled l (res_bind (array_list n r) (\<lambda>(xs, r). Inr (x # xs, r)))" if "length r < n" "length r \<le> l" for x r l
    using Suc that by (intro settled_map) (auto intro: settled_mono)
  have "settled (length inp) (object_list (Suc n) m inp)" if "length inp < Suc n" for m inp
    unfolding object_list.simps
    using that by (intro settled_byte) (auto intro!: settled_then [OF settled_cstr] settled_then [OF el] obj)
  moreover have "settled (length inp) (array_list (Suc n) inp)" if "length inp < Suc n" for inp
    unfolding array_list.simps
    using that by (intro settled_byte) (auto intro!: settled_then [OF settled_cstr] settled_then [OF el] arr)
  ultimately show ?case by simp
qed simp

section \<open>Properties\<close>





text \<open>C40. Writing BSON fails for exactly three reasons, checked in this order: the value is not an object (type error 317), a name
  somewhere in it contains a NUL (out of range 409), or an unsigned number somewhere in it exceeds 63 bits (out of range 407).\<close>

theorem bson_write_errors:
  "write_bson j = Inl e \<longleftrightarrow>
     e = (if \<nexists>m. j = JObject m then Type_error 317 else if \<not> names_ok j then Out_of_range 409 else Out_of_range 407)
     \<and> \<not> ((\<exists>m. j = JObject m) \<and> names_ok j \<and> numbers_ok j)"
proof (cases j)
  case (JObject m)
  show ?thesis
  proof (cases "names_ok j")
    case True
    then show ?thesis using JObject write_fails(2) [of m e] by (auto simp: write_bson_def)
  next
    case False
    then have "calc_bson_object_size m = Inl (Out_of_range 409)" using JObject size_fails(2) by simp
    with False JObject show ?thesis by (auto simp: write_bson_def write_bson_object.simps)
  qed
qed (auto simp: write_bson_def)

text \<open>Reading BSON ends for every input: each element takes at least one byte, so that the nesting is bounded by the number of
  bytes, and the result is a value, a discarded value or one of the library's errors.\<close>

theorem from_bson_total: "from_bson inp \<noteq> Inl No_fuel"
proof (cases "get_number_le 4 inp")
  case (Inl f)
  then show ?thesis using settled_le [of inp 4] by (auto simp: from_bson_def parse_bson_internal.simps settled_def)
next
  case (Inr p)
  then obtain n r where p: "get_number_le 4 inp = Inr (n, r)" by (cases p) auto
  then have "length r < length inp" by (auto simp: get_number_le_def elim!: res_bindE dest!: get_bytes_length)
  then have "settled (length r) (object_list (length inp) [] r)" using lists_settled [of "length inp"] by simp
  then show ?thesis by (auto simp: from_bson_def parse_bson_internal.simps p settled_def res_simps split: sum.splits if_splits)
qed

text \<open>
  A string whose last byte is missing makes the reader return a discarded value: it reports no error, although every
  other premature end is parse error 110.
\<close>

lemma bson_gives_up:
  assumes "length s + 1 < 2 ^ 31" and "NUL \<notin> set k"
  shows "from_bson (le_bytes 4 z @ write_bson_entry_header k 2 @ le_bytes 4 (length s + 1) @ s) = Inl Discarded"
proof -
  have e: "get_bson_scalar 2 (le_bytes 4 (length s + 1) @ s) = Inl Discarded"
    using assms(1) read_length [of "length s + 1" s] get_bytes_append [of "length s" s "[]"]
    by (simp add: get_bson_scalar_def get_bson_string_def)
  define n where "n = length (k @ le_bytes 4 (length s + 1) @ s) + 5"
  have "object_list (Suc n) [] (write_bson_entry_header k 2 @ le_bytes 4 (length s + 1) @ s) = Inl Discarded"
    using assms(2) e by (simp add: write_bson_entry_header_def parse_bson_element.simps char_of_nz)
  moreover have "length (le_bytes 4 z @ write_bson_entry_header k 2 @ le_bytes 4 (length s + 1) @ s) = Suc n"
    by (simp add: n_def write_bson_entry_header_def)
  ultimately show ?thesis by (simp only: from_bson_def parse_bson_internal.simps get_any_le res_bind_Inr prod.case res_bind_Inl)
qed

end
