(* ===== verification/Ubjson.thy ===== *)
theory Ubjson
  imports BinaryFormat JsonRoundTrip
begin

text \<open>
  Universal Binary JSON, \<open>to_ubjson\<close> and \<open>from_ubjson\<close> of \<open>include/nlohmann/json.hpp\<close>: every value has a type character,
  containers end with a bracket or have a count, and a container whose elements share their type may have it in front
  once. Numbers that fit no other type are written as decimal text.

  The byte that the reader looks at, \<open>current\<close>, is the head of the input that is left; the input is empty at its end.
  A fuel that exceeds the number of bytes bounds the depth of the calls.

  The lemmas show that reading undoes writing in all three forms, up to the types that the format does not have, and that
  the reader never runs out of fuel.
\<close>

section \<open>Writing\<close>

text \<open>Numbers of up to 63 bits; the prefix is left out inside a typed container.\<close>

definition ubjson_small :: "nat \<Rightarrow> bool \<Rightarrow> string" where
  "ubjson_small n add_prefix =
     (let (c, k) = (if n \<le> 0x7F then (CHR ''i'', 1) else if n \<le> 0xFF then (CHR ''U'', 1)
                    else if n \<le> 2 ^ 15 - 1 then (CHR ''I'', 2) else if n \<le> 2 ^ 31 - 1 then (CHR ''l'', 4)
                    else (CHR ''L'', 8))
      in (if add_prefix then [c] else []) @ write_number k n)"

text \<open>Larger ones are texts, whose length is one of the numbers above.\<close>

definition ubjson_unsigned :: "nat \<Rightarrow> bool \<Rightarrow> string" where
  "ubjson_unsigned n add_prefix =
     (if n \<le> 2 ^ 63 - 1 then ubjson_small n add_prefix
      else let number = dump_integer (int n)
           in (if add_prefix then [CHR ''H''] else []) @ ubjson_small (length number) True @ number)"

definition ubjson_integer :: "int \<Rightarrow> bool \<Rightarrow> string" where
  "ubjson_integer n add_prefix =
     (let (c, k) = (if - (2 ^ 7) \<le> n \<and> n \<le> 2 ^ 7 - 1 then (CHR ''i'', 1) else if 0 \<le> n \<and> n \<le> 0xFF then (CHR ''U'', 1)
                    else if - (2 ^ 15) \<le> n \<and> n \<le> 2 ^ 15 - 1 then (CHR ''I'', 2)
                    else if - (2 ^ 31) \<le> n \<and> n \<le> 2 ^ 31 - 1 then (CHR ''l'', 4) else (CHR ''L'', 8))
      in (if add_prefix then [c] else []) @ write_signed k n)"

definition ubjson_float :: "double \<Rightarrow> bool \<Rightarrow> string" where
  "ubjson_float x add_prefix = (if add_prefix then [CHR ''D''] else []) @ write_number 8 (unat x)"

fun ubjson_prefix :: "json \<Rightarrow> char" where
  "ubjson_prefix JNull = CHR ''Z''"
| "ubjson_prefix (JBool b) = (if b then CHR ''T'' else CHR ''F'')"
| "ubjson_prefix (JInteger n) =
     (if - (2 ^ 7) \<le> n \<and> n \<le> 2 ^ 7 - 1 then CHR ''i''
      else if 0 \<le> n \<and> n \<le> 0xFF then CHR ''U''
      else if - (2 ^ 15) \<le> n \<and> n \<le> 2 ^ 15 - 1 then CHR ''I''
      else if - (2 ^ 31) \<le> n \<and> n \<le> 2 ^ 31 - 1 then CHR ''l''
      else CHR ''L'')"
| "ubjson_prefix (JUnsigned n) =
     (if n \<le> 0x7F then CHR ''i'' else if n \<le> 0xFF then CHR ''U''
      else if n \<le> 2 ^ 15 - 1 then CHR ''I'' else if n \<le> 2 ^ 31 - 1 then CHR ''l''
      else if n \<le> 2 ^ 63 - 1 then CHR ''L'' else CHR ''H'')"
| "ubjson_prefix (JFloat x) = CHR ''D''"
| "ubjson_prefix (JString s) = CHR ''S''"
| "ubjson_prefix (JArray xs) = CHR 0x5B"
| "ubjson_prefix (JBinary bs st) = CHR 0x5B"
| "ubjson_prefix (JObject m) = CHR 0x7B"

text \<open>A container with the bytes of its elements: the bracket, type and count in front, and the bracket behind.\<close>

definition same_prefix :: "json list \<Rightarrow> bool" where
  "same_prefix xs \<longleftrightarrow> xs \<noteq> [] \<and> list_all (\<lambda>v. ubjson_prefix v = ubjson_prefix (hd xs)) xs"

definition ubjson_container :: "char \<Rightarrow> char \<Rightarrow> bool \<Rightarrow> char option \<Rightarrow> bool \<Rightarrow> nat \<Rightarrow> string \<Rightarrow> string" where
  "ubjson_container opening closing add_prefix type use_count count body =
     (if add_prefix then [opening] else [])
     @ (case type of None \<Rightarrow> [] | Some t \<Rightarrow> [CHR ''$'', t])
     @ (if use_count then CHR ''#'' # ubjson_unsigned count True else [])
     @ body @ (if use_count then [] else [closing])"

definition element_type :: "bool \<Rightarrow> json list \<Rightarrow> char option" where
  "element_type use_type xs = (if use_type \<and> same_prefix xs then Some (ubjson_prefix (hd xs)) else None)"

text \<open>The elements of a binary value are bytes, with their type unless it is in front.\<close>

definition ubjson_binary :: "string \<Rightarrow> bool \<Rightarrow> bool \<Rightarrow> bool \<Rightarrow> string res" where
  "ubjson_binary bs use_count use_type add_prefix =
     asserting (use_type \<and> bs \<noteq> [] \<longrightarrow> use_count)
       (Inr (ubjson_container (CHR 0x5B) (CHR 0x5D) add_prefix (if use_type \<and> bs \<noteq> [] then Some CHR ''U'' else None)
          use_count (length bs) (if use_type then bs else concat (map (\<lambda>b. [CHR ''U'', b]) bs))))"

fun write_ubjson :: "json \<Rightarrow> bool \<Rightarrow> bool \<Rightarrow> bool \<Rightarrow> string res"
  and ubjson_elements :: "json list \<Rightarrow> bool \<Rightarrow> bool \<Rightarrow> bool \<Rightarrow> string res"
  and ubjson_members :: "(string \<times> json) list \<Rightarrow> bool \<Rightarrow> bool \<Rightarrow> bool \<Rightarrow> string res" where
  "write_ubjson JNull uc ut add_prefix = Inr (if add_prefix then ''Z'' else [])"
| "write_ubjson (JBool b) uc ut add_prefix = Inr (if add_prefix then (if b then ''T'' else ''F'') else [])"
| "write_ubjson (JInteger n) uc ut add_prefix = Inr (ubjson_integer n add_prefix)"
| "write_ubjson (JUnsigned n) uc ut add_prefix = Inr (ubjson_unsigned n add_prefix)"
| "write_ubjson (JFloat x) uc ut add_prefix = Inr (ubjson_float x add_prefix)"
| "write_ubjson (JString s) uc ut add_prefix =
     Inr ((if add_prefix then ''S'' else []) @ ubjson_unsigned (length s) True @ s)"
| "write_ubjson (JArray xs) uc ut add_prefix =
     asserting (ut \<and> xs \<noteq> [] \<longrightarrow> uc)
       (res_bind (ubjson_elements xs uc ut (element_type ut xs = None)) (\<lambda>body.
          Inr (ubjson_container (CHR 0x5B) (CHR 0x5D) add_prefix (element_type ut xs) uc (length xs) body)))"
| "write_ubjson (JBinary bs st) uc ut add_prefix = ubjson_binary bs uc ut add_prefix"
| "write_ubjson (JObject m) uc ut add_prefix =
     asserting (ut \<and> m \<noteq> [] \<longrightarrow> uc)
       (res_bind (ubjson_members m uc ut (element_type ut (map snd m) = None)) (\<lambda>body.
          Inr (ubjson_container (CHR 0x7B) (CHR 0x7D) add_prefix (element_type ut (map snd m)) uc (length m) body)))"
| "ubjson_elements [] uc ut p = Inr []"
| "ubjson_elements (x # xs) uc ut p =
     res_bind (write_ubjson x uc ut p) (\<lambda>a. res_bind (ubjson_elements xs uc ut p) (\<lambda>b. Inr (a @ b)))"
| "ubjson_members [] uc ut p = Inr []"
| "ubjson_members ((k, v) # m) uc ut p =
     res_bind (write_ubjson v uc ut p) (\<lambda>a. res_bind (ubjson_members m uc ut p) (\<lambda>b.
       Inr (ubjson_unsigned (length k) True @ k @ a @ b)))"

section \<open>Reading\<close>

definition get_ignore_noop :: "string \<Rightarrow> string" where
  "get_ignore_noop inp = dropWhile (\<lambda>c. c = CHR ''N'') inp"

text \<open>The numbers that a length can have, by their type character.\<close>

definition get_ubjson_int :: "char \<Rightarrow> int reader" where
  "get_ubjson_int c r =
     (if c = CHR ''U'' then res_bind (get_number 1 r) (\<lambda>(n, r). Inr (int n, r))
      else if c = CHR ''i'' then get_signed 1 r
      else if c = CHR ''I'' then get_signed 2 r
      else if c = CHR ''l'' then get_signed 4 r
      else if c = CHR ''L'' then get_signed 8 r
      else Inl (Bexn (Parse_error 113)))"

text \<open>A string from its length on. A negative length makes an empty string.\<close>

definition get_ubjson_string :: "string reader" where
  "get_ubjson_string inp =
     res_bind (get_byte inp) (\<lambda>(c, r). res_bind (get_ubjson_int c r) (\<lambda>(len, r). get_bytes (nat len) r))"

text \<open>The end of the input has no message of its own here. The size is the number cast to \<open>size_t\<close>.\<close>

definition get_ubjson_size_value :: "nat reader" where
  "get_ubjson_size_value inp =
     (case get_ignore_noop inp of
        [] \<Rightarrow> Inl (Bexn (Parse_error 113))
      | c # r \<Rightarrow> res_bind (get_ubjson_int c r) (\<lambda>(i, r). Inr (nat (i mod 2 ^ 64), r)))"

text \<open>
  Size and type of a container; without them they are \<open>UNKNOWN\<close> and NUL. If a size has been read that is
  \<open>UNKNOWN\<close>, the current byte is the last of its number, FF.
\<close>

definition get_ubjson_size_type :: "(nat \<times> char) reader" where
  "get_ubjson_size_type inp =
     (let inp = get_ignore_noop inp;
          sized = (\<lambda>t r. res_bind (get_ubjson_size_value r) (\<lambda>(n, r).
            Inr ((n, t), if n = UNKNOWN then CHR 0xFF # r else r)))
      in case inp of
           [] \<Rightarrow> Inr ((UNKNOWN, NUL), [])
         | c # r \<Rightarrow>
             if c = CHR ''$'' then
               res_bind (get_byte r) (\<lambda>(t, r).
                 case get_ignore_noop r of
                   [] \<Rightarrow> Inl (Bexn (Parse_error 110))
                 | d # r \<Rightarrow> if d \<noteq> CHR ''#'' then Inl (Bexn (Parse_error 112)) else sized t r)
             else if c = CHR ''#'' then sized NUL r
             else Inr ((UNKNOWN, NUL), inp))"

text \<open>The decimal text of a large number is read with the lexer of JSON texts.\<close>

definition get_ubjson_high_precision_number :: "json reader" where
  "get_ubjson_high_precision_number inp =
     res_bind (get_ubjson_size_value inp) (\<lambda>(size, r).
     res_bind (get_bytes size r) (\<lambda>(number_vector, r).
       let (result_number, number_rest) = scan_first number_vector
       in if fst (json_scan number_rest) \<noteq> T_end then Inl (Bexn (Parse_error 115))
          else case result_number of
              T_integer i \<Rightarrow> Inr (JInteger i, r)
            | T_unsigned n \<Rightarrow> Inr (JUnsigned n, r)
            | T_float x \<Rightarrow> Inr (JFloat x, r)
            | _ \<Rightarrow> Inl (Bexn (Parse_error 115))))"

definition get_ubjson_scalar :: "char \<Rightarrow> json reader" where
  "get_ubjson_scalar prefix r =
     (if prefix = CHR ''T'' then Inr (JBool True, r)
      else if prefix = CHR ''F'' then Inr (JBool False, r)
      else if prefix = CHR ''Z'' then Inr (JNull, r)
      else if prefix = CHR ''U'' then res_bind (get_number 1 r) (\<lambda>(n, r). Inr (JUnsigned n, r))
      else if prefix = CHR ''i'' then res_bind (get_signed 1 r) (\<lambda>(i, r). Inr (JInteger i, r))
      else if prefix = CHR ''I'' then res_bind (get_signed 2 r) (\<lambda>(i, r). Inr (JInteger i, r))
      else if prefix = CHR ''l'' then res_bind (get_signed 4 r) (\<lambda>(i, r). Inr (JInteger i, r))
      else if prefix = CHR ''L'' then res_bind (get_signed 8 r) (\<lambda>(i, r). Inr (JInteger i, r))
      else if prefix = CHR ''d'' then res_bind (get_float r) (\<lambda>(x, r). Inr (JFloat x, r))
      else if prefix = CHR ''D'' then res_bind (get_double r) (\<lambda>(x, r). Inr (JFloat x, r))
      else if prefix = CHR ''H'' then get_ubjson_high_precision_number r
      else if prefix = CHR ''C'' then res_bind (get_byte r) (\<lambda>(c, r).
        if 127 < byte_of c then Inl (Bexn (Parse_error 113)) else Inr (JString [c], r))
      else if prefix = CHR ''S'' then res_bind (get_ubjson_string r) (\<lambda>(s, r). Inr (JString s, r))
      else Inl (Bexn (Parse_error 112)))"

text \<open>
  Elements with their types (\<open>items\<close>), of one type (\<open>typed_items\<close>), and up to the bracket (\<open>items_until\<close>), where the input
  starts with the current byte; and the members of objects in the same three ways.
\<close>

function get_ubjson_value :: "nat \<Rightarrow> char \<Rightarrow> json reader"
  and get_ubjson_array :: "nat \<Rightarrow> json list reader"
  and items :: "nat \<Rightarrow> nat \<Rightarrow> json list reader"
  and typed_items :: "nat \<Rightarrow> char \<Rightarrow> nat \<Rightarrow> json list reader"
  and items_until :: "nat \<Rightarrow> json list reader"
  and get_ubjson_object :: "nat \<Rightarrow> (string \<times> json) list reader"
  and members :: "nat \<Rightarrow> nat \<Rightarrow> (string \<times> json) list \<Rightarrow> (string \<times> json) list reader"
  and typed_members :: "nat \<Rightarrow> char \<Rightarrow> nat \<Rightarrow> (string \<times> json) list \<Rightarrow> (string \<times> json) list reader"
  and members_until :: "nat \<Rightarrow> (string \<times> json) list \<Rightarrow> (string \<times> json) list reader" where
  "get_ubjson_value 0 prefix r = Inl No_fuel"
| "get_ubjson_value (Suc n) prefix r =
     (if prefix = CHR 0x5B then res_bind (get_ubjson_array n r) (\<lambda>(xs, r). Inr (JArray xs, r))
      else if prefix = CHR 0x7B then res_bind (get_ubjson_object n r) (\<lambda>(m, r). Inr (JObject m, r))
      else get_ubjson_scalar prefix r)"
| "get_ubjson_array n inp =
     res_bind (get_ubjson_size_type inp) (\<lambda>((size, type), r).
       if size \<noteq> UNKNOWN then
         (if MAX_ARRAY < size then Inl (Bexn (Out_of_range 408))
          else if type \<noteq> NUL then (if type \<noteq> CHR ''N'' then typed_items n type size r else Inr ([], r))
          else items n size r)
       else items_until (Suc n) r)"
| "items n 0 inp = Inr ([], inp)"
| "items n (Suc len) inp =
     res_bind (get_byte (get_ignore_noop inp)) (\<lambda>(c, r).
     res_bind (get_ubjson_value n c r) (\<lambda>(x, r).
     res_bind (items n len r) (\<lambda>(xs, r). Inr (x # xs, r))))"
| "typed_items n type 0 inp = Inr ([], inp)"
| "typed_items n type (Suc len) inp =
     res_bind (get_ubjson_value n type inp) (\<lambda>(x, r).
     res_bind (typed_items n type len r) (\<lambda>(xs, r). Inr (x # xs, r)))"
| "items_until 0 inp = Inl No_fuel"
| "items_until (Suc n) inp =
     res_bind (get_byte inp) (\<lambda>(c, r).
       if c = CHR 0x5D then Inr ([], r)
       else res_bind (get_ubjson_value n c r) (\<lambda>(x, r).
            res_bind (items_until n (get_ignore_noop r)) (\<lambda>(xs, r). Inr (x # xs, r))))"
| "get_ubjson_object n inp =
     res_bind (get_ubjson_size_type inp) (\<lambda>((size, type), r).
       if size \<noteq> UNKNOWN then
         (if MAX_OBJECT < size then Inl (Bexn (Out_of_range 408))
          else if type \<noteq> NUL then typed_members n type size [] r
          else members n size [] r)
       else members_until (Suc n) [] r)"
| "members n 0 m inp = Inr (m, inp)"
| "members n (Suc len) m inp =
     res_bind (get_ubjson_string inp) (\<lambda>(key, r).
     res_bind (get_byte (get_ignore_noop r)) (\<lambda>(c, r).
     res_bind (get_ubjson_value n c r) (\<lambda>(v, r). members n len (map_put key v m) r)))"
| "typed_members n type 0 m inp = Inr (m, inp)"
| "typed_members n type (Suc len) m inp =
     res_bind (get_ubjson_string inp) (\<lambda>(key, r).
     res_bind (get_ubjson_value n type r) (\<lambda>(v, r). typed_members n type len (map_put key v m) r))"
| "members_until 0 m inp = Inl No_fuel"
| "members_until (Suc n) m inp =
     (if inp \<noteq> [] \<and> hd inp = CHR 0x7D then Inr (m, tl inp)
      else res_bind (get_ubjson_string inp) (\<lambda>(key, r).
           res_bind (get_byte (get_ignore_noop r)) (\<lambda>(c, r).
           res_bind (get_ubjson_value n c r) (\<lambda>(v, r). members_until n (map_put key v m) (get_ignore_noop r)))))"
  by pat_completeness auto
termination
  by (relation "measures
      [\<lambda>x. case x of Inl (Inl (Inl (n, _))) \<Rightarrow> n | Inl (Inl (Inr (n, _))) \<Rightarrow> Suc n
         | Inl (Inr (Inl (n, _))) \<Rightarrow> n | Inl (Inr (Inr (n, _))) \<Rightarrow> n
         | Inr (Inl (Inl (n, _))) \<Rightarrow> n | Inr (Inl (Inr (n, _))) \<Rightarrow> Suc n
         | Inr (Inr (Inl (n, _))) \<Rightarrow> n | Inr (Inr (Inr (Inl (n, _)))) \<Rightarrow> n | Inr (Inr (Inr (Inr (n, _)))) \<Rightarrow> n,
       \<lambda>x. case x of Inl (Inl (Inl _)) \<Rightarrow> 2 | Inl (Inl (Inr _)) \<Rightarrow> 1
         | Inl (Inr (Inl (_, len, _))) \<Rightarrow> 3 + len | Inl (Inr (Inr (_, _, len, _))) \<Rightarrow> 3 + len
         | Inr (Inl (Inl _)) \<Rightarrow> 0 | Inr (Inl (Inr _)) \<Rightarrow> 1
         | Inr (Inr (Inl (_, len, _))) \<Rightarrow> 3 + len | Inr (Inr (Inr (Inl (_, _, len, _)))) \<Rightarrow> 3 + len
         | Inr (Inr (Inr (Inr _))) \<Rightarrow> 0]") auto

declare get_ubjson_value.simps(2) [simp del] get_ubjson_array.simps [simp del] get_ubjson_object.simps [simp del]

text \<open>The public function: behind the value only noops may follow.\<close>

definition from_ubjson :: "string \<Rightarrow> bin_fail + json" where
  "from_ubjson inp =
     res_bind (get_byte (get_ignore_noop inp)) (\<lambda>(c, r). res_bind (get_ubjson_value (length inp) c r) (\<lambda>(j, r).
       if get_ignore_noop r = [] then Inr j else Inl (Bexn (Parse_error 110))))"

section \<open>Reading undoes writing\<close>

text \<open>
  What is left of a value: numbers below 128 are signed, the other unsigned bytes are unsigned, and whatever exceeds a byte
  is signed if it fits; a binary value is an array of numbers.
\<close>

fun ubjson_view :: "json \<Rightarrow> json" where
  "ubjson_view (JInteger n) = (if 128 \<le> n \<and> n \<le> 255 then JUnsigned (nat n) else JInteger n)"
| "ubjson_view (JUnsigned n) = (if 128 \<le> n \<and> n \<le> 255 \<or> 2 ^ 63 \<le> n then JUnsigned n else JInteger (int n))"
| "ubjson_view (JBinary bs st) = JArray (map (\<lambda>b. JUnsigned (byte_of b)) bs)"
| "ubjson_view (JArray xs) = JArray (map ubjson_view xs)"
| "ubjson_view (JObject m) = JObject (map (\<lambda>(k, v). (k, ubjson_view v)) m)"
| "ubjson_view j = j"

fun ubjson_json :: "json \<Rightarrow> bool" where
  "ubjson_json (JInteger i) = (- (2 ^ 63) \<le> i \<and> i < 2 ^ 63)"
| "ubjson_json (JUnsigned n) = (n < 2 ^ 64)"
| "ubjson_json (JString s) = (length s < 2 ^ 63)"
| "ubjson_json (JBinary bs st) = (length bs \<le> MAX_ARRAY)"
| "ubjson_json (JArray xs) = (length xs \<le> MAX_ARRAY \<and> (\<forall>x\<in>set xs. ubjson_json x))"
| "ubjson_json (JObject m) =
     (keys_sorted m \<and> length m \<le> MAX_OBJECT \<and> (\<forall>kv\<in>set m. length (fst kv) < 2 ^ 63 \<and> ubjson_json (snd kv)))"
| "ubjson_json _ = True"

lemma get_signed_small: "n < 2 ^ (8 * k - 1) \<Longrightarrow> 0 < k \<Longrightarrow> get_signed k (write_number k n @ r) = Inr (int n, r)"
  using get_number_write [of n k r] power_strict_increasing [of "8 * k - 1" "8 * k" "2::nat"]
  by (simp add: get_signed_def to_signed_def power_mult)

lemma read_size:
  assumes "N < 2 ^ 63"
  shows "\<exists>c b. ubjson_unsigned N True = c # b \<and> c \<in> {CHR ''i'', CHR ''U'', CHR ''I'', CHR ''l'', CHR ''L''}
    \<and> (\<forall>r. get_ubjson_int c (b @ r) = Inr (int N, r))"
proof -
  consider "N \<le> 0x7F" | "0x7F < N" "N \<le> 0xFF" | "0xFF < N" "N \<le> 2 ^ 15 - 1" | "2 ^ 15 - 1 < N" "N \<le> 2 ^ 31 - 1"
    | "2 ^ 31 - 1 < N" by linarith
  then show ?thesis
    using assms get_signed_small [of N 1] get_number_256 [of 1 N] get_signed_small [of N 2] get_signed_small [of N 4]
      get_signed_small [of N 8]
    by cases (simp_all add: ubjson_unsigned_def ubjson_small_def get_ubjson_int_def)
qed

lemma read_string: "length k < 2 ^ 63 \<Longrightarrow> get_ubjson_string (ubjson_unsigned (length k) True @ k @ r) = Inr (k, r)"
  using read_size [of "length k"] by (auto simp: get_ubjson_string_def)

lemma noop_Cons [simp]: "c \<noteq> CHR ''N'' \<Longrightarrow> get_ignore_noop (c # r) = c # r" "get_ignore_noop [] = []"
  by (simp_all add: get_ignore_noop_def)

lemma read_count: "N < 2 ^ 63 \<Longrightarrow> get_ubjson_size_value (ubjson_unsigned N True @ r) = Inr (N, r)"
  using read_size [of N] by (auto simp: get_ubjson_size_value_def)

lemma prefix_char: "ubjson_prefix j \<notin> {CHR ''N'', CHR ''$'', CHR ''#'', CHR 0x5D, NUL}"
  by (cases j) auto

lemma prefix_neq [simp]:
  "ubjson_prefix j \<noteq> CHR ''N''" "ubjson_prefix j \<noteq> CHR ''$''" "ubjson_prefix j \<noteq> CHR ''#''" "ubjson_prefix j \<noteq> CHR 0x5D"
  "ubjson_prefix j \<noteq> NUL"
  using prefix_char [of j] by auto

lemma read_head:
  "N < 2 ^ 63 \<Longrightarrow> get_ubjson_size_type (CHR ''$'' # t # CHR ''#'' # ubjson_unsigned N True @ r) = Inr ((N, t), r)"
  "N < 2 ^ 63 \<Longrightarrow> get_ubjson_size_type (CHR ''#'' # ubjson_unsigned N True @ r) = Inr ((N, NUL), r)"
  "c \<notin> {CHR ''N'', CHR ''$'', CHR ''#''} \<Longrightarrow> get_ubjson_size_type (c # r) = Inr ((UNKNOWN, NUL), c # r)"
  by (simp_all add: get_ubjson_size_type_def read_count UNKNOWN_def)

text \<open>With a prefix, the prefix comes first.\<close>

lemma with_prefix:
  "write_ubjson j uc ut True = Inr s \<longleftrightarrow> (\<exists>s'. write_ubjson j uc ut False = Inr s' \<and> s = ubjson_prefix j # s')"
proof (cases j)
  case (JArray xs)
  then show ?thesis by (cases "ut \<and> xs \<noteq> [] \<longrightarrow> uc") (auto simp: ubjson_container_def res_simps)
next
  case (JObject m)
  then show ?thesis by (cases "ut \<and> m \<noteq> [] \<longrightarrow> uc") (auto simp: ubjson_container_def res_simps)
next
  case (JBinary bs st)
  then show ?thesis by (cases "ut \<and> bs \<noteq> [] \<longrightarrow> uc") (auto simp: ubjson_binary_def ubjson_container_def)
qed (auto simp: ubjson_integer_def ubjson_unsigned_def ubjson_small_def ubjson_float_def Let_def)

text \<open>The lists of elements, if each element is read back.\<close>

definition read_back :: "bool \<Rightarrow> bool \<Rightarrow> json \<Rightarrow> bool" where
  "read_back uc ut j \<longleftrightarrow> (\<forall>s n r. write_ubjson j uc ut False = Inr s \<longrightarrow> length s < n \<longrightarrow>
     get_ubjson_value n (ubjson_prefix j) (s @ r) = Inr (ubjson_view j, r))"

lemma read_backD: "read_back uc ut j \<Longrightarrow> write_ubjson j uc ut False = Inr s \<Longrightarrow> length s < n \<Longrightarrow>
    get_ubjson_value n (ubjson_prefix j) (s @ r) = Inr (ubjson_view j, r)"
  by (simp add: read_back_def)

lemma read_items:
  "\<forall>x\<in>set xs. read_back uc ut x \<Longrightarrow> ubjson_elements xs uc ut True = Inr s \<Longrightarrow> length s \<le> n \<Longrightarrow>
     items n (length xs) (s @ r) = Inr (map ubjson_view xs, r)"
  by (induction xs arbitrary: s) (auto simp: res_simps with_prefix read_backD)

lemma read_typed_items:
  "\<forall>x\<in>set xs. read_back uc ut x \<and> ubjson_prefix x = t \<Longrightarrow> ubjson_elements xs uc ut False = Inr s \<Longrightarrow> length s < n \<Longrightarrow>
     typed_items n t (length xs) (s @ r) = Inr (map ubjson_view xs, r)"
proof (induction xs arbitrary: s)
  case (Cons x xs)
  then obtain a b where s: "write_ubjson x uc ut False = Inr a" "ubjson_elements xs uc ut False = Inr b" "s = a @ b"
    by (auto simp: res_simps)
  then have "get_ubjson_value n t (a @ b @ r) = Inr (ubjson_view x, b @ r)"
    using read_backD [of uc ut x a n "b @ r"] Cons.prems by auto
  then show ?case using Cons s by simp
qed simp

lemma noop_elements: "ubjson_elements xs uc ut True = Inr s \<Longrightarrow> get_ignore_noop (s @ CHR 0x5D # r) = s @ CHR 0x5D # r"
  by (cases xs) (auto simp: res_simps with_prefix)

lemma read_items_until:
  "\<forall>x\<in>set xs. read_back uc ut x \<Longrightarrow> ubjson_elements xs uc ut True = Inr s \<Longrightarrow> length s \<le> n \<Longrightarrow>
     items_until (Suc n) (s @ CHR 0x5D # r) = Inr (map ubjson_view xs, r)"
proof (induction xs arbitrary: s n)
  case (Cons x xs)
  then obtain a b where s: "write_ubjson x uc ut False = Inr a" "ubjson_elements xs uc ut True = Inr b"
    "s = ubjson_prefix x # a @ b" by (auto simp: res_simps with_prefix)
  obtain m where m: "n = Suc m" using Cons.prems(3) s(3) by (cases n) auto
  have "get_ubjson_value n (ubjson_prefix x) (a @ b @ CHR 0x5D # r) = Inr (ubjson_view x, b @ CHR 0x5D # r)"
    using read_backD [of uc ut x a n "b @ CHR 0x5D # r"] Cons.prems s by auto
  moreover have "items_until n (b @ CHR 0x5D # r) = Inr (map ubjson_view xs, r)"
    using Cons s m by (simp del: items_until.simps)
  ultimately show ?case using s noop_elements [OF s(2)] by simp
qed simp

abbreviation view_members :: "(string \<times> json) list \<Rightarrow> (string \<times> json) list" where
  "view_members m \<equiv> map (\<lambda>(k, v). (k, ubjson_view v)) m"

lemma read_members:
  "\<forall>kv\<in>set m. length (fst kv) < 2 ^ 63 \<and> read_back uc ut (snd kv) \<Longrightarrow> ubjson_members m uc ut True = Inr s \<Longrightarrow>
     length s \<le> n \<Longrightarrow> members n (length m) acc (s @ r) = Inr (tsm.put_all (view_members m) acc, r)"
  by (induction m arbitrary: s acc) (auto simp: res_simps with_prefix read_backD read_string)

lemma read_typed_members:
  "\<forall>kv\<in>set m. length (fst kv) < 2 ^ 63 \<and> read_back uc ut (snd kv) \<and> ubjson_prefix (snd kv) = t \<Longrightarrow>
     ubjson_members m uc ut False = Inr s \<Longrightarrow> length s < n \<Longrightarrow>
     typed_members n t (length m) acc (s @ r) = Inr (tsm.put_all (view_members m) acc, r)"
proof (induction m arbitrary: s acc)
  case (Cons kv m)
  obtain k v where kv: "kv = (k, v)" by (cases kv)
  with Cons.prems(2) obtain a b where s: "write_ubjson v uc ut False = Inr a" "ubjson_members m uc ut False = Inr b"
    "s = ubjson_unsigned (length k) True @ k @ a @ b" by (auto simp: res_simps)
  then have "get_ubjson_value n t (a @ b @ r) = Inr (ubjson_view v, b @ r)"
    using read_backD [of uc ut v a n "b @ r"] Cons.prems kv by auto
  then show ?case using Cons s kv by (simp add: read_string)
qed simp

lemma size_char: "N < 2 ^ 63 \<Longrightarrow> \<exists>c b. ubjson_unsigned N True = c # b \<and> c \<notin> {CHR ''N'', CHR ''$'', CHR ''#'', CHR 0x7D}"
  using read_size [of N] by fastforce

lemma members_head:
  assumes "\<forall>kv\<in>set m. length (fst kv) < 2 ^ 63" and "ubjson_members m uc ut p = Inr s"
  shows "\<exists>c b. s @ CHR 0x7D # r = c # b \<and> c \<notin> {CHR ''N'', CHR ''$'', CHR ''#''} \<and> (c = CHR 0x7D \<longleftrightarrow> m = [])"
proof (cases m)
  case (Cons kv m')
  obtain k v where kv: "kv = (k, v)" by (cases kv)
  with Cons assms size_char [of "length k"] show ?thesis by (auto simp: res_simps)
qed (use assms in simp)

lemma read_members_until:
  "\<forall>kv\<in>set m. length (fst kv) < 2 ^ 63 \<and> read_back uc ut (snd kv) \<Longrightarrow> ubjson_members m uc ut True = Inr s \<Longrightarrow>
     length s \<le> n \<Longrightarrow> members_until (Suc n) acc (s @ CHR 0x7D # r) = Inr (tsm.put_all (view_members m) acc, r)"
proof (induction m arbitrary: s n acc)
  case (Cons kv m)
  obtain k v where kv: "kv = (k, v)" by (cases kv)
  with Cons.prems(2) obtain a b where s: "write_ubjson v uc ut False = Inr a" "ubjson_members m uc ut True = Inr b"
    "s = ubjson_unsigned (length k) True @ k @ ubjson_prefix v # a @ b" by (auto simp: res_simps with_prefix)
  have k: "length k < 2 ^ 63" "\<forall>kv\<in>set m. length (fst kv) < 2 ^ 63" using Cons.prems(1) kv by auto
  obtain c w where c: "s @ CHR 0x7D # r = c # w" "c \<noteq> CHR 0x7D"
    using members_head [OF _ Cons.prems(2), of r] Cons.prems(1) by auto
  obtain d u where d: "b @ CHR 0x7D # r = d # u" "d \<noteq> CHR ''N''"
    using members_head [OF k(2) s(2), of r] by auto
  obtain l where l: "n = Suc l" using Cons.prems(3) s(3) by (cases n) auto
  have v: "get_ubjson_value n (ubjson_prefix v) (a @ b @ CHR 0x7D # r) = Inr (ubjson_view v, b @ CHR 0x7D # r)"
    using read_backD [of uc ut v a n "b @ CHR 0x7D # r"] Cons.prems s kv by auto
  have "members_until n (map_put k (ubjson_view v) acc) (b @ CHR 0x7D # r)
      = Inr (tsm.put_all (view_members m) (map_put k (ubjson_view v) acc), r)"
    unfolding l using Cons.prems s kv l by (intro Cons.IH) auto
  moreover have "get_ubjson_string (s @ CHR 0x7D # r) = Inr (k, ubjson_prefix v # a @ b @ CHR 0x7D # r)"
    using read_string [OF k(1), of "ubjson_prefix v # a @ b @ CHR 0x7D # r"] s(3) by simp
  moreover have "get_ignore_noop (b @ CHR 0x7D # r) = b @ CHR 0x7D # r" using d by simp
  ultimately show ?case using c v by (simp add: kv)
qed simp

lemma read_high_precision:
  assumes "n < 2 ^ 64"
  shows "get_ubjson_high_precision_number (ubjson_small (length (dump_integer (int n))) True @ dump_integer (int n) @ r) =
    Inr (JUnsigned n, r)"
proof -
  define e where "e = dump_integer (int n)"
  have d: "e = dec n" "length e \<le> 21" using assms dump_integer_show [of "int n"] by (simp_all add: e_def show_int_def)
  have c: "get_ubjson_size_value (ubjson_small (length e) True @ w) = Inr (length e, w)" for w
    using read_count [of "length e" w] d(2) by (simp add: ubjson_unsigned_def)
  have "reads e (JUnsigned n)" unfolding e_def using assms by (intro reads_unsigned) simp
  from no_bom [OF this, of 0] have f: "scan_first e = json_scan e" by (simp add: zeros_def)
  obtain dg ds where "dec n = dg # ds" "isdigit dg" "scan_number dg (ds @ []) = (T_unsigned n, [])"
    using scan_unsigned [OF assms, of "[]"] by (auto simp: number_stops_def)
  then have "json_scan e = (T_unsigned n, [])" using d(1) by (simp add: json_scan_number)
  then show ?thesis unfolding e_def [symmetric] by (simp add: get_ubjson_high_precision_number_def c f)
qed

lemma write_high_precision:
  "2 ^ 63 - 1 < n \<Longrightarrow> ubjson_unsigned n False = ubjson_small (length (dump_integer (int n))) True @ dump_integer (int n)"
  by (simp add: ubjson_unsigned_def Let_def)

lemma read_scalar:
  assumes "write_ubjson j uc ut False = Inr s" and "ubjson_json j"
    and "\<And>m. j \<noteq> JObject m" and "\<And>xs. j \<noteq> JArray xs" and "\<And>bs st. j \<noteq> JBinary bs st"
  shows "get_ubjson_scalar (ubjson_prefix j) (s @ r) = Inr (ubjson_view j, r)"
proof (cases j)
  case (JInteger n)
  then have s: "s = ubjson_integer n False" and b: "- (2 ^ 63) \<le> n" "n < 2 ^ 63" using assms(1,2) by simp_all
  consider "- (2 ^ 7) \<le> n" "n \<le> 2 ^ 7 - 1" | "2 ^ 7 - 1 < n" "n \<le> 0xFF"
    | "n < - (2 ^ 7) \<or> 0xFF < n" "- (2 ^ 15) \<le> n" "n \<le> 2 ^ 15 - 1"
    | "n < - (2 ^ 15) \<or> 2 ^ 15 - 1 < n" "- (2 ^ 31) \<le> n" "n \<le> 2 ^ 31 - 1"
    | "n < - (2 ^ 31) \<or> 2 ^ 31 - 1 < n" by linarith
  then show ?thesis
  proof cases
    case 2
    then have "write_signed 1 n = write_number 1 (nat n)" by (simp add: write_signed_def)
    with 2 get_number_256 [of 1 "nat n" r] show ?thesis
      by (simp add: JInteger s ubjson_integer_def get_ubjson_scalar_def nat_le_iff)
  qed (use b get_signed_write [of 1 n r] get_signed_write [of 2 n r] get_signed_write [of 4 n r] get_signed_write [of 8 n r]
      in \<open>auto simp: JInteger s ubjson_integer_def get_ubjson_scalar_def\<close>)
next
  case (JUnsigned n)
  then have s: "s = ubjson_unsigned n False" and b: "n < 2 ^ 64" using assms(1,2) by simp_all
  consider "n \<le> 0x7F" | "0x7F < n" "n \<le> 0xFF" | "0xFF < n" "n \<le> 2 ^ 15 - 1" | "2 ^ 15 - 1 < n" "n \<le> 2 ^ 31 - 1"
    | "2 ^ 31 - 1 < n" "n \<le> 2 ^ 63 - 1" | "2 ^ 63 - 1 < n" by linarith
  then show ?thesis
  proof cases
    case 6
    with read_high_precision [OF b, of r] show ?thesis
      by (simp add: JUnsigned s write_high_precision get_ubjson_scalar_def)
  qed (use get_signed_small [of n 1] get_number_256 [of 1 n] get_signed_small [of n 2] get_signed_small [of n 4]
        get_signed_small [of n 8]
      in \<open>simp_all add: JUnsigned s ubjson_unsigned_def ubjson_small_def get_ubjson_scalar_def\<close>)
next
  case (JString t)
  then show ?thesis using assms(1,2) read_string [of t r] by (auto simp: get_ubjson_scalar_def)
next
  case (JFloat x)
  then show ?thesis using assms(1) get_double_write [of x r] by (auto simp: get_ubjson_scalar_def ubjson_float_def)
qed (use assms in \<open>auto simp: get_ubjson_scalar_def\<close>)

text \<open>The bytes of a binary value, in front of the same three readers.\<close>

lemma get_number_one: "get_number 1 (b # r) = Inr (byte_of b, r)"
  using get_number_256 [of 1 "byte_of b" r] by (simp add: write_number_def)

lemma read_byte: "get_ubjson_value (Suc n) (CHR ''U'') (b # r) = Inr (JUnsigned (byte_of b), r)"
  by (simp add: get_ubjson_value.simps(2) get_ubjson_scalar_def get_number_one)

abbreviation "bytes_view bs \<equiv> map (\<lambda>b. JUnsigned (byte_of b)) bs"
abbreviation "typed_bytes bs \<equiv> concat (map (\<lambda>b. [CHR ''U'', b]) bs)"

lemma read_bytes:
  "typed_items (Suc n) (CHR ''U'') (length bs) (bs @ r) = Inr (bytes_view bs, r)"
  "items (Suc n) (length bs) (typed_bytes bs @ r) = Inr (bytes_view bs, r)"
  by (induction bs) (simp_all add: read_byte)

lemma read_bytes_until:
  "length bs < n \<Longrightarrow> items_until (Suc n) (typed_bytes bs @ CHR 0x5D # r) = Inr (bytes_view bs, r)"
proof (induction bs arbitrary: n)
  case (Cons b bs)
  obtain m where m: "n = Suc m" using Cons.prems by (cases n) auto
  have "get_ignore_noop (typed_bytes bs @ CHR 0x5D # r) = typed_bytes bs @ CHR 0x5D # r" by (cases bs) simp_all
  moreover have "items_until n (typed_bytes bs @ CHR 0x5D # r) = Inr (bytes_view bs, r)" using Cons m by simp
  ultimately show ?case by (simp add: m read_byte del: items_until.simps) (simp add: read_byte)
qed simp

text \<open>A container: its front is read back, whichever form it has.\<close>

lemma counted:
  "N \<le> MAX_ARRAY \<Longrightarrow> N < 2 ^ 63 \<and> N \<noteq> UNKNOWN" "N \<le> MAX_OBJECT \<Longrightarrow> N < 2 ^ 63 \<and> N \<noteq> UNKNOWN"
  by (simp_all add: MAX_ARRAY_def MAX_OBJECT_def UNKNOWN_def)

lemma element_typeE:
  assumes "element_type ut xs = Some t"
  shows "\<forall>x\<in>set xs. ubjson_prefix x = t" "t \<notin> {CHR ''N'', NUL}" "ut \<and> xs \<noteq> []"
proof -
  have t: "t = ubjson_prefix (hd xs)" "same_prefix xs" "ut" using assms by (simp_all add: element_type_def split: if_splits)
  then show "\<forall>x\<in>set xs. ubjson_prefix x = t" "ut \<and> xs \<noteq> []" unfolding same_prefix_def list_all_iff by blast+
  show "t \<notin> {CHR ''N'', NUL}" using t(1) by simp
qed

lemma elements_head: "ubjson_elements xs uc ut True = Inr s \<Longrightarrow>
    \<exists>c b. s @ CHR 0x5D # r = c # b \<and> c \<notin> {CHR ''N'', CHR ''$'', CHR ''#''}"
  by (cases xs) (auto simp: res_simps with_prefix)

lemma read_array:
  assumes "write_ubjson (JArray xs) uc ut False = Inr s" and "\<forall>x\<in>set xs. read_back uc ut x" and "length xs \<le> MAX_ARRAY"
    and "length s \<le> n"
  shows "get_ubjson_array n (s @ r) = Inr (map ubjson_view xs, r)"
proof -
  have u: "ut \<and> xs \<noteq> [] \<longrightarrow> uc" using assms(1) by (cases "ut \<and> xs \<noteq> [] \<longrightarrow> uc") simp_all
  then obtain body where b: "ubjson_elements xs uc ut (element_type ut xs = None) = Inr body"
    "s = ubjson_container (CHR 0x5B) (CHR 0x5D) False (element_type ut xs) uc (length xs) body"
    using assms(1) by (auto simp: res_simps)
  have c: "length xs < 2 ^ 63" "length xs \<noteq> UNKNOWN" "\<not> MAX_ARRAY < length xs" using counted(1) assms(3) by auto
  show ?thesis
  proof (cases "element_type ut xs")
    case None
    show ?thesis
    proof (cases uc)
      case True
      then show ?thesis using b None c assms(2,4) read_items [of xs uc ut body n r]
        by (simp add: ubjson_container_def get_ubjson_array.simps read_head)
    next
      case False
      with b None have e: "ubjson_elements xs uc ut True = Inr body" "s = body @ [CHR 0x5D]"
        by (simp_all add: ubjson_container_def)
      from elements_head [OF e(1)] read_head(3)
      have "get_ubjson_size_type (body @ CHR 0x5D # r) = Inr ((UNKNOWN, NUL), body @ CHR 0x5D # r)" by metis
      moreover have "items_until (Suc n) (body @ CHR 0x5D # r) = Inr (map ubjson_view xs, r)"
        using assms(2,4) e by (intro read_items_until) simp_all
      ultimately show ?thesis by (simp add: e(2) get_ubjson_array.simps del: items_until.simps)
    qed
  next
    case (Some t)
    with u element_typeE(3) have uc by auto
    then show ?thesis using b c Some element_typeE(1,2) [OF Some] assms(2,4) read_typed_items [of xs uc ut t body n r]
      by (simp add: ubjson_container_def get_ubjson_array.simps read_head)
  qed
qed

lemma read_object:
  assumes "write_ubjson (JObject m) uc ut False = Inr s"
    and "\<forall>kv\<in>set m. length (fst kv) < 2 ^ 63 \<and> read_back uc ut (snd kv)" and "length m \<le> MAX_OBJECT" and "length s \<le> n"
  shows "get_ubjson_object n (s @ r) = Inr (tsm.put_all (view_members m) [], r)"
proof -
  have u: "ut \<and> m \<noteq> [] \<longrightarrow> uc" using assms(1) by (cases "ut \<and> m \<noteq> [] \<longrightarrow> uc") simp_all
  then obtain body where b: "ubjson_members m uc ut (element_type ut (map snd m) = None) = Inr body"
    "s = ubjson_container (CHR 0x7B) (CHR 0x7D) False (element_type ut (map snd m)) uc (length m) body"
    using assms(1) by (auto simp: res_simps)
  have c: "length m < 2 ^ 63" "length m \<noteq> UNKNOWN" "\<not> MAX_OBJECT < length m" using counted(2) assms(3) by auto
  show ?thesis
  proof (cases "element_type ut (map snd m)")
    case None
    show ?thesis
    proof (cases uc)
      case True
      then show ?thesis using b None c assms(2,4) read_members [of m uc ut body n "[]" r]
        by (simp add: ubjson_container_def get_ubjson_object.simps read_head)
    next
      case False
      with b None have e: "ubjson_members m uc ut True = Inr body" "s = body @ [CHR 0x7D]"
        by (simp_all add: ubjson_container_def)
      have "\<forall>kv\<in>set m. length (fst kv) < 2 ^ 63" using assms(2) by simp
      from members_head [OF this e(1)] read_head(3)
      have "get_ubjson_size_type (body @ CHR 0x7D # r) = Inr ((UNKNOWN, NUL), body @ CHR 0x7D # r)" by metis
      moreover have "members_until (Suc n) [] (body @ CHR 0x7D # r) = Inr (tsm.put_all (view_members m) [], r)"
        using assms(2,4) e by (intro read_members_until) simp_all
      ultimately show ?thesis by (simp add: e(2) get_ubjson_object.simps del: members_until.simps)
    qed
  next
    case (Some t)
    with u element_typeE(3) have uc by auto
    then show ?thesis using b c Some element_typeE(1,2) [OF Some] assms(2,4) read_typed_members [of m uc ut t body n "[]" r]
      by (simp add: ubjson_container_def get_ubjson_object.simps read_head)
  qed
qed

lemma read_binary:
  assumes "write_ubjson (JBinary bs st) uc ut False = Inr s" and "length bs \<le> MAX_ARRAY" and "length s \<le> n"
  shows "get_ubjson_array n (s @ r) = Inr (bytes_view bs, r)"
proof -
  have u: "ut \<and> bs \<noteq> [] \<longrightarrow> uc" using assms(1) by (cases "ut \<and> bs \<noteq> [] \<longrightarrow> uc") (simp_all add: ubjson_binary_def)
  with assms(1) have s: "s = ubjson_container (CHR 0x5B) (CHR 0x5D) False (if ut \<and> bs \<noteq> [] then Some CHR ''U'' else None)
      uc (length bs) (if ut then bs else typed_bytes bs)" by (simp add: ubjson_binary_def)
  have c: "length bs < 2 ^ 63" "length bs \<noteq> UNKNOWN" "\<not> MAX_ARRAY < length bs" using counted(1) assms(2) by auto
  have l: "length bs \<le> length (typed_bytes bs)" by (induction bs) auto
  show ?thesis
  proof (cases uc)
    case True
    then obtain k where "n = Suc k" using assms(3) s by (cases n) (auto simp: ubjson_container_def)
    then show ?thesis using s True c read_bytes
      by (cases "bs = []") (simp_all add: ubjson_container_def get_ubjson_array.simps read_head)
  next
    case False
    obtain d w where d: "typed_bytes bs @ CHR 0x5D # r = d # w" "d \<notin> {CHR ''N'', CHR ''$'', CHR ''#''}"
      by (cases bs) simp_all
    have "length bs < n" using s False u assms(3) l by (auto simp: ubjson_container_def)
    then show ?thesis using s u False d read_bytes_until [of bs n r] read_head(3) [of d w]
      by (auto simp: ubjson_container_def get_ubjson_array.simps simp del: items_until.simps)
  qed
qed

lemma read_container:
  "(\<And>s k r. write_ubjson (JArray xs) uc ut False = Inr s \<Longrightarrow> length s \<le> k \<Longrightarrow> get_ubjson_array k (s @ r) = Inr (ys, r)) \<Longrightarrow>
     ubjson_view (JArray xs) = JArray ys \<Longrightarrow> read_back uc ut (JArray xs)"
  "(\<And>s k r. write_ubjson (JBinary bs st) uc ut False = Inr s \<Longrightarrow> length s \<le> k \<Longrightarrow> get_ubjson_array k (s @ r) = Inr (ys, r)) \<Longrightarrow>
     ubjson_view (JBinary bs st) = JArray ys \<Longrightarrow> read_back uc ut (JBinary bs st)"
  "(\<And>s k r. write_ubjson (JObject m) uc ut False = Inr s \<Longrightarrow> length s \<le> k \<Longrightarrow> get_ubjson_object k (s @ r) = Inr (v, r)) \<Longrightarrow>
     ubjson_view (JObject m) = JObject v \<Longrightarrow> read_back uc ut (JObject m)"
  by (auto simp: read_back_def get_ubjson_value.simps(2) dest!: less_imp_Suc_add simp del: write_ubjson.simps ubjson_view.simps)

lemma read_scalar_back:
  assumes "ubjson_json j" and "\<And>m. j \<noteq> JObject m" and "\<And>xs. j \<noteq> JArray xs" and "\<And>bs st. j \<noteq> JBinary bs st"
  shows "read_back uc ut j"
  unfolding read_back_def
proof (intro allI impI)
  fix s n r
  assume "write_ubjson j uc ut False = Inr s" "length s < n"
  moreover have "ubjson_prefix j \<noteq> CHR 0x5B" "ubjson_prefix j \<noteq> CHR 0x7B" using assms by (cases j; simp)+
  ultimately show "get_ubjson_value n (ubjson_prefix j) (s @ r) = Inr (ubjson_view j, r)"
    using read_scalar [OF _ assms, of uc ut s r] by (cases n) (simp_all add: get_ubjson_value.simps(2))
qed

lemma read_written: "ubjson_json j \<Longrightarrow> read_back uc ut j"
proof (induction j)
  case (JArray xs)
  then show ?case by (intro read_container(1) [OF read_array]) auto
next
  case (JBinary bs st)
  then show ?case by (intro read_container(2) [OF read_binary]) auto
next
  case (JObject m)
  have "map fst (view_members m) = map fst m" by (simp add: case_prod_unfold comp_def)
  moreover have "keys_sorted m" using JObject.prems by simp
  ultimately have "keys_sorted (view_members m)" by (simp only: keys_sorted_def)
  then have v: "tsm.put_all (view_members m) [] = view_members m" using put_all_sorted [of "[]"] by simp
  have k: "\<forall>kv\<in>set m. length (fst kv) < 2 ^ 63 \<and> read_back uc ut (snd kv)" using JObject by (auto simp: snds.simps)
  from JObject.prems k show ?case by (intro read_container(3) [OF read_object]) (auto simp: v)
qed (rule read_scalar_back; simp)+

section \<open>Reading ends\<close>

lemma ignore_length: "length (get_ignore_noop inp) \<le> length inp"
  by (simp add: get_ignore_noop_def length_dropWhile_le)

lemma settled_signed: "settled (length inp) (get_signed k inp)"
  unfolding get_signed_def by (rule settled_map [OF settled_bytes(3)])

lemma settled_int: "settled (length r) (get_ubjson_int c r)"
  unfolding get_ubjson_int_def by (intro settled_if settled_map settled_signed settled_bytes settled_error)

lemma settled_ubjson_string: "settled (length inp - 1) (get_ubjson_string inp)"
  unfolding get_ubjson_string_def
  by (cases inp) (auto simp: get_byte_def intro!: settled_then [OF settled_int] settled_mono [OF settled_bytes(2)])

lemma settled_size_value: "settled (length inp - 1) (get_ubjson_size_value inp)"
proof (cases "get_ignore_noop inp")
  case (Cons c r)
  then have "length r \<le> length inp - 1" using ignore_length [of inp] by simp
  then show ?thesis
    by (auto simp: get_ubjson_size_value_def Cons intro!: settled_map intro: settled_mono [OF settled_int])
qed (simp add: get_ubjson_size_value_def)

text \<open>A size has been read from at least one byte; a size that is unknown has left one byte at most.\<close>

definition size_settled :: "nat \<Rightarrow> bin_fail + (nat \<times> char) \<times> string \<Rightarrow> bool" where
  "size_settled len res \<longleftrightarrow> settled len res \<and> (\<forall>n t r. res = Inr ((n, t), r) \<longrightarrow> n \<noteq> UNKNOWN \<longrightarrow> length r < len)"

lemma size_settled_sized:
  "length r < len \<Longrightarrow> size_settled len (res_bind (get_ubjson_size_value r) (\<lambda>(n, r). Inr ((n, t), if n = UNKNOWN then CHR 0xFF # r else r)))"
  using settled_size_value [of r]
  by (cases "get_ubjson_size_value r") (auto simp: size_settled_def settled_def)

lemma settled_size_type: "size_settled (length inp) (get_ubjson_size_type inp)"
proof (cases "get_ignore_noop inp")
  case Nil
  then show ?thesis by (simp add: get_ubjson_size_type_def size_settled_def)
next
  case (Cons c r)
  have l: "length r < length inp" using ignore_length [of inp] Cons by simp
  show ?thesis
  proof (cases r)
    case Nil
    then show ?thesis using l size_settled_sized [of r "length inp" NUL]
      by (auto simp: get_ubjson_size_type_def Cons get_byte_def size_settled_def Suc_le_eq)
  next
    case (Cons t r')
    have e: "size_settled (length inp) (Inl (Bexn x))" for x by (simp add: size_settled_def)
    have "size_settled (length inp) (case get_ignore_noop r' of [] \<Rightarrow> Inl (Bexn (Parse_error 110))
        | d # r \<Rightarrow> if d \<noteq> CHR ''#'' then Inl (Bexn (Parse_error 112))
            else res_bind (get_ubjson_size_value r) (\<lambda>(n, r). Inr ((n, t), if n = UNKNOWN then CHR 0xFF # r else r)))"
      using ignore_length [of r'] l Cons by (auto simp: e size_settled_sized split: list.splits)
    moreover have "size_settled (length inp) (Inr ((UNKNOWN, NUL), c # r))" using l by (simp add: size_settled_def)
    ultimately show ?thesis
      using l size_settled_sized [of r "length inp" NUL] \<open>get_ignore_noop inp = c # r\<close>
      by (simp add: get_ubjson_size_type_def Cons get_byte_def)
  qed
qed

lemma settled_high_precision: "settled (length inp) (get_ubjson_high_precision_number inp)"
  unfolding get_ubjson_high_precision_number_def
  by (rule settled_mono [OF settled_then [OF settled_mono [OF settled_size_value diff_le_self]]], simp,
      rule settled_mono [OF settled_then [OF settled_bytes(2)]])
    (auto simp: split: prod.splits token.splits)

lemma settled_ubjson_scalar: "settled (length r) (get_ubjson_scalar c r)"
  unfolding get_ubjson_scalar_def
  by (intro settled_if settled_map settled_signed settled_bytes settled_error settled_high_precision
        settled_mono [OF settled_ubjson_string diff_le_self])
    (auto intro!: settled_byte)

text \<open>The lists, if the values are settled.\<close>

definition value_settled :: "nat \<Rightarrow> bool" where
  "value_settled n \<longleftrightarrow> (\<forall>c r. length r < n \<longrightarrow> settled (length r) (get_ubjson_value n c r))"

lemma value_settledD: "value_settled n \<Longrightarrow> length r < n \<Longrightarrow> settled (length r) (get_ubjson_value n c r)"
  by (simp add: value_settled_def)

lemma settled_item:
  assumes "value_settled n" and "length inp \<le> n"
    and "\<And>x r. length r < length inp \<Longrightarrow> settled l (f (x, r))"
  shows "settled l (res_bind (get_byte inp) (\<lambda>(c, r). res_bind (get_ubjson_value n c r) f))"
  using assms(2,3) by (intro settled_byte) (auto intro!: settled_then [OF value_settledD [OF assms(1)]])

lemma items_settled: "value_settled n \<Longrightarrow> length inp \<le> n \<Longrightarrow> settled (length inp) (items n len inp)"
proof (induction len arbitrary: inp)
  case (Suc len)
  have r: "settled (length inp) (res_bind (items n len r) (\<lambda>(xs, r). Inr (x # xs, r)))" if "length r < length inp" for x r
    using settled_mono [OF settled_map [OF Suc.IH [of r]], of "length inp"] Suc.prems that by simp
  show ?case unfolding items.simps using ignore_length [of inp] Suc.prems by (intro settled_item) (auto intro!: r)
qed simp

lemma typed_items_settled: "value_settled n \<Longrightarrow> length inp < n \<Longrightarrow> settled (length inp) (typed_items n t len inp)"
proof (induction len arbitrary: inp)
  case (Suc len)
  have r: "settled (length inp) (res_bind (typed_items n t len r) (\<lambda>(xs, r). Inr (x # xs, r)))" if "length r \<le> length inp" for x r
    using settled_mono [OF settled_map [OF Suc.IH [of r]], of "length inp"] Suc.prems that by simp
  show ?case unfolding typed_items.simps
    using Suc.prems by (intro settled_then [OF value_settledD]) (auto intro!: r)
qed simp

declare items_until.simps [simp del] members_until.simps [simp del] members.simps(2) [simp del] typed_members.simps(2) [simp del]

lemma items_until_settled:
  "(\<And>m. m \<le> n \<Longrightarrow> value_settled m) \<Longrightarrow> length inp \<le> n \<Longrightarrow> settled (length inp) (items_until (Suc n) inp)"
proof (induction n arbitrary: inp)
  case (Suc n)
  have r: "settled (length inp) (res_bind (items_until (Suc n) (get_ignore_noop r)) (\<lambda>(xs, r). Inr (x # xs, r)))"
    if "length r < length inp" for x r
  proof -
    have "length (get_ignore_noop r) \<le> n" using ignore_length [of r] that Suc.prems(2) by simp
    then have "settled (length (get_ignore_noop r)) (items_until (Suc n) (get_ignore_noop r))"
      using Suc.prems(1) by (intro Suc.IH) auto
    then have "settled (length inp) (items_until (Suc n) (get_ignore_noop r))"
      using ignore_length [of r] that by (elim settled_mono) simp
    then show ?thesis by (rule settled_map)
  qed
  have v: "value_settled (Suc n)" using Suc.prems(1) by simp
  show ?case unfolding items_until.simps(2) [of "Suc n"]
    using Suc.prems(2) by (intro settled_byte) (auto intro!: settled_then [OF value_settledD [OF v]] r)
qed (simp add: get_byte_def items_until.simps)

text \<open>A member: its name, and a value that has its type in front or not.\<close>

lemma settled_name:
  "(\<And>k r. length r < length inp \<Longrightarrow> settled l (f (k, r))) \<Longrightarrow> settled l (res_bind (get_ubjson_string inp) f)"
  using settled_ubjson_string [of inp]
  by (cases inp) (auto simp: get_ubjson_string_def get_byte_def intro: settled_then)

lemma settled_member:
  assumes "value_settled n" and "length inp \<le> n" and "\<And>k v r. length r < length inp \<Longrightarrow> settled l (f k (v, r))"
  shows "settled l (res_bind (get_ubjson_string inp) (\<lambda>(k, r). res_bind (get_byte (get_ignore_noop r)) (\<lambda>(c, r).
    res_bind (get_ubjson_value n c r) (f k))))"
proof (rule settled_name)
  fix k and r :: string
  assume "length r < length inp"
  then have "settled l (res_bind (get_byte (get_ignore_noop r)) (\<lambda>(c, r). res_bind (get_ubjson_value n c r) (f k)))"
    using ignore_length [of r] assms(2) by (intro settled_item [OF assms(1)] assms(3)) auto
  then show "settled l (case (k, r) of (k, r) \<Rightarrow> res_bind (get_byte (get_ignore_noop r)) (\<lambda>(c, r).
    res_bind (get_ubjson_value n c r) (f k)))" by simp
qed

lemma members_settled: "value_settled n \<Longrightarrow> length inp \<le> n \<Longrightarrow> settled (length inp) (members n len m inp)"
proof (induction len arbitrary: m inp)
  case (Suc len)
  have r: "settled (length inp) (members n len m r)" if "length r < length inp" for m r
    using settled_mono [OF Suc.IH [of r m], of "length inp"] Suc.prems that by simp
  show ?case unfolding members.simps(2) using Suc.prems by (rule settled_member) (simp add: r)
qed simp

lemma typed_members_settled: "value_settled n \<Longrightarrow> length inp \<le> n \<Longrightarrow> settled (length inp) (typed_members n t len m inp)"
proof (induction len arbitrary: m inp)
  case (Suc len)
  have r: "settled (length inp) (typed_members n t len m r)" if "length r < length inp" for m r
    using settled_mono [OF Suc.IH [of r m], of "length inp"] Suc.prems that by simp
  show ?case unfolding typed_members.simps(2)
    using Suc.prems by (intro settled_name) (auto intro!: settled_then [OF value_settledD] r)
qed simp

lemma members_until_settled:
  "(\<And>m. m \<le> n \<Longrightarrow> value_settled m) \<Longrightarrow> length inp \<le> n \<Longrightarrow> settled (length inp) (members_until (Suc n) m inp)"
proof (induction n arbitrary: m inp)
  case 0
  then show ?case by (simp add: get_ubjson_string_def get_byte_def members_until.simps)
next
  case (Suc n)
  have r: "settled (length inp) (members_until (Suc n) m (get_ignore_noop r))" if "length r < length inp" for m r
  proof -
    have "length (get_ignore_noop r) \<le> n" using ignore_length [of r] that Suc.prems(2) by simp
    then have "settled (length (get_ignore_noop r)) (members_until (Suc n) m (get_ignore_noop r))"
      using Suc.prems(1) by (intro Suc.IH) auto
    then show ?thesis using ignore_length [of r] that by (elim settled_mono) simp
  qed
  have v: "value_settled (Suc n)" using Suc.prems(1) by simp
  have "settled (length inp) (res_bind (get_ubjson_string inp) (\<lambda>(key, r). res_bind (get_byte (get_ignore_noop r))
      (\<lambda>(c, r). res_bind (get_ubjson_value (Suc n) c r) (\<lambda>(v, r). members_until (Suc n) (map_put key v m) (get_ignore_noop r)))))"
    using v Suc.prems(2) by (rule settled_member) (simp add: r)
  then show ?case by (simp add: members_until.simps(2) [of "Suc n"])
qed

text \<open>The containers and the values.\<close>

lemma settled_sized:
  assumes "\<And>n t r. length r \<le> length inp \<Longrightarrow> (n \<noteq> UNKNOWN \<Longrightarrow> length r < length inp) \<Longrightarrow> settled (length inp) (f ((n, t), r))"
  shows "settled (length inp) (res_bind (get_ubjson_size_type inp) f)"
  using settled_size_type [of inp] assms by (intro settled_bind) (auto simp: size_settled_def)

lemma containers_settled:
  assumes "\<And>m. m \<le> n \<Longrightarrow> value_settled m" and "length inp \<le> n"
  shows "settled (length inp) (get_ubjson_array n inp)" and "settled (length inp) (get_ubjson_object n inp)"
proof -
  have v: "value_settled n" using assms(1) by simp
  show "settled (length inp) (get_ubjson_array n inp)" unfolding get_ubjson_array.simps
    using assms(2)
    by (intro settled_sized) (auto intro!: settled_mono [OF typed_items_settled [OF v]] settled_mono [OF items_settled [OF v]]
        settled_mono [OF items_until_settled] assms(1))
  show "settled (length inp) (get_ubjson_object n inp)" unfolding get_ubjson_object.simps
    using assms(2)
    by (intro settled_sized) (auto intro!: settled_mono [OF typed_members_settled [OF v]] settled_mono [OF members_settled [OF v]]
        settled_mono [OF members_until_settled] assms(1))
qed

lemma values_settled: "value_settled n"
proof (induction n rule: less_induct)
  case (less n)
  show ?case unfolding value_settled_def
  proof (intro allI impI)
    fix c and r :: string
    assume "length r < n"
    then obtain k where k: "n = Suc k" "length r \<le> k" by (cases n) auto
    have "value_settled m" if "m \<le> k" for m using less that k by simp
    then show "settled (length r) (get_ubjson_value n c r)"
      using containers_settled [of k r] k by (simp add: get_ubjson_value.simps(2) settled_map settled_ubjson_scalar)
  qed
qed

section \<open>Properties\<close>

lemma write_total:
  "uc \<or> \<not> ut \<Longrightarrow> \<exists>s. write_ubjson j uc ut p = Inr s"
  "uc \<or> \<not> ut \<Longrightarrow> \<exists>s. ubjson_elements xs uc ut p = Inr s"
  "uc \<or> \<not> ut \<Longrightarrow> \<exists>s. ubjson_members m uc ut p = Inr s"
proof (induction j uc ut p and xs uc ut p and m uc ut p rule: write_ubjson_ubjson_elements_ubjson_members.induct)
  case (7 xs uc ut p)
  then show ?case by (cases "ut \<and> xs \<noteq> [] \<longrightarrow> uc") auto
next
  case (9 m uc ut p)
  then show ?case by (cases "ut \<and> m \<noteq> [] \<longrightarrow> uc") auto
next
  case (11 x xs uc ut p)
  then show ?case by (auto simp: res_simps)
next
  case (13 k v m uc ut p)
  then show ?case by (auto simp: res_simps)
qed (auto simp: ubjson_binary_def)



text \<open>C24. Reading UBJSON ends for every input: every value and every element has bytes of its own, except those of containers with a
  type and a count, whose depth is bounded by the bytes of their fronts.\<close>

theorem from_ubjson_total: "from_ubjson inp \<noteq> Inl No_fuel"
proof (cases "get_ignore_noop inp")
  case (Cons c r)
  then have "length r < length inp" using ignore_length [of inp] by simp
  from value_settledD [OF values_settled this, of c]
  show ?thesis by (auto simp: from_ubjson_def Cons get_byte_def settled_def res_simps split: sum.splits if_splits)
qed (simp add: from_ubjson_def get_byte_def)

end
