(* ===== verification/PlogRecord.thy ===== *)
theory PlogRecord
  imports CLib
begin

text \<open>
  The part of the logging library plog (\<open>include/plog\<close>) that has no effects: severities, the names of functions and files,
  the record of a message and its formatters. The code is read as it is compiled on Linux without wide characters.

  Broken-down times (\<open>localtime_r\<close>, \<open>gmtime_r\<close>) come from the C library and the text of a pointer is the implementation's
  choice; both are arguments.
\<close>

section \<open>Severities\<close>

datatype severity = none | fatal | error | warning | info | debug | verbose

fun severity_value :: "severity \<Rightarrow> nat" where
  "severity_value none = 0"
| "severity_value fatal = 1"
| "severity_value error = 2"
| "severity_value warning = 3"
| "severity_value info = 4"
| "severity_value debug = 5"
| "severity_value verbose = 6"

instantiation severity :: linorder
begin

definition less_eq_severity :: "severity \<Rightarrow> severity \<Rightarrow> bool" where
  "a \<le> b \<longleftrightarrow> severity_value a \<le> severity_value b"

definition less_severity :: "severity \<Rightarrow> severity \<Rightarrow> bool" where
  "a < b \<longleftrightarrow> severity_value a < severity_value b"

instance
proof
  fix a b :: severity
  show "a \<le> b \<Longrightarrow> b \<le> a \<Longrightarrow> a = b"
    by (cases a; cases b; simp add: less_eq_severity_def)
qed (auto simp: less_eq_severity_def less_severity_def)

end

fun severityToString :: "severity \<Rightarrow> string" where
  "severityToString fatal = ''FATAL''"
| "severityToString error = ''ERROR''"
| "severityToString warning = ''WARN''"
| "severityToString info = ''INFO''"
| "severityToString debug = ''DEBUG''"
| "severityToString verbose = ''VERB''"
| "severityToString none = ''NONE''"

text \<open>\<open>toupper\<close> in the C locale. A plain \<open>char\<close> of 128 or more is a negative argument, undefined except for \<open>EOF\<close>.\<close>

definition toupper :: "char \<Rightarrow> char res" where
  "toupper c =
     (if 128 \<le> (of_char c :: nat) \<and> c \<noteq> CHR 0xFF then Inl OverRead
      else Inr (if 97 \<le> (of_char c :: nat) \<and> (of_char c :: nat) \<le> 122 then char_of (of_char c - 32 :: nat) else c))"

definition severityFromString :: "string \<Rightarrow> severity res" where
  "severityFromString str =
     res_bind (toupper (case str of [] \<Rightarrow> NUL | c # _ \<Rightarrow> c)) (\<lambda>c. Inr
       (if c = CHR ''F'' then fatal
        else if c = CHR ''E'' then error
        else if c = CHR ''W'' then warning
        else if c = CHR ''I'' then info
        else if c = CHR ''D'' then debug
        else if c = CHR ''V'' then verbose
        else none))"

section \<open>Names\<close>

text \<open>The name in a pretty function: from the last space in front of the first parenthesis up to it.\<close>

definition processFuncName :: "string \<Rightarrow> string" where
  "processFuncName func =
     (if CHR ''('' \<notin> set func then func
      else rev (takeWhile (\<lambda>c. c \<noteq> CHR '' '') (rev (takeWhile (\<lambda>c. c \<noteq> CHR ''('') func))))"

text \<open>\<open>strrchr (fileName, '.')\<close>: the text in front of the last dot and the text from it on.\<close>

definition findExtensionDot :: "string \<Rightarrow> (string \<times> string) option" where
  "findExtensionDot fileName =
     (if CHR ''.'' \<notin> set fileName then None
      else let k = length (takeWhile (\<lambda>c. c \<noteq> CHR ''.'') (rev fileName)) + 1
           in Some (take (length fileName - k) fileName, drop (length fileName - k) fileName))"

definition splitFileName :: "string \<Rightarrow> string \<times> string" where
  "splitFileName fileName =
     (case findExtensionDot fileName of
        Some (noext, dot) \<Rightarrow> (noext, tl dot)
      | None \<Rightarrow> (fileName, []))"

definition isCsv :: "string \<Rightarrow> bool" where
  "isCsv fileName = (case findExtensionDot fileName of None \<Rightarrow> False | Some (_, dot) \<Rightarrow> dot = ''.csv'')"

section \<open>Records\<close>

record log_record =
  m_time :: int
  m_millitm :: nat
  m_severity :: severity
  m_tid :: nat
  m_object :: nat
  m_line :: nat
  m_message :: string
  m_func :: string
  m_srcfile :: string
  m_instanceId :: int

definition Record :: "int \<Rightarrow> nat \<Rightarrow> nat \<Rightarrow> severity \<Rightarrow> string \<Rightarrow> nat \<Rightarrow> string \<Rightarrow> nat \<Rightarrow> int \<Rightarrow> log_record" where
  "Record now millis tid severity func line file object instanceId =
     \<lparr>m_time = now, m_millitm = millis, m_severity = severity, m_tid = tid, m_object = object, m_line = line,
      m_message = [], m_func = func, m_srcfile = file, m_instanceId = instanceId\<rparr>"

text \<open>What \<open>gettimeofday\<close> gives, in milliseconds.\<close>

definition ftime :: "int \<times> nat \<Rightarrow> int \<times> nat" where
  "ftime tv = (fst tv, (snd tv div 1000) mod 2 ^ 16)"

text \<open>The operands of \<open>operator<<\<close>. Characters and strings are all printed as C strings, up to the first NUL.\<close>

datatype operand = Char char | C_string "string option" | Std_string string | Number int

definition c_text :: "string \<Rightarrow> string" where
  "c_text s = takeWhile (\<lambda>c. c \<noteq> NUL) s"

fun stream_text :: "operand \<Rightarrow> string" where
  "stream_text (C_string p) = (case p of None \<Rightarrow> ''(null)'' | Some s \<Rightarrow> c_text s)"
| "stream_text (Std_string s) = c_text s"
| "stream_text (Char c) = c_text [c, NUL]"
| "stream_text (Number n) = show_int n"

definition stream_out :: "log_record \<Rightarrow> operand \<Rightarrow> log_record" where
  "stream_out r x = r\<lparr>m_message := m_message r @ stream_text x\<rparr>"

text \<open>\<open>printf\<close>: the text that \<open>vasprintf\<close> made is an argument.\<close>

definition record_printf :: "log_record \<Rightarrow> string \<Rightarrow> log_record" where
  "record_printf r formatted = stream_out r (C_string (Some formatted))"

definition getMessage :: "log_record \<Rightarrow> string" where
  "getMessage r = c_text (m_message r)"

definition getFunc :: "log_record \<Rightarrow> string" where
  "getFunc r = processFuncName (m_func r)"

section \<open>Formatters\<close>

record tm =
  tm_sec :: int
  tm_min :: int
  tm_hour :: int
  tm_mday :: int
  tm_mon :: int
  tm_year :: int

definition setw :: "char \<Rightarrow> nat \<Rightarrow> string \<Rightarrow> string" where
  "setw fill n s = replicate (n - length s) fill @ s"

definition setw_left :: "char \<Rightarrow> nat \<Rightarrow> string \<Rightarrow> string" where
  "setw_left fill n s = s @ replicate (n - length s) fill"

definition two :: "int \<Rightarrow> string" where
  "two n = setw (CHR ''0'') 2 (show_int n)"

definition clock :: "tm \<Rightarrow> nat \<Rightarrow> string" where
  "clock t millitm = two (tm_hour t) @ '':'' @ two (tm_min t) @ '':'' @ two (tm_sec t) @ ''.'' @ setw (CHR ''0'') 3 (dec millitm)"

definition txt_header :: string where
  "txt_header = []"

definition txt_format :: "(int \<Rightarrow> tm) \<Rightarrow> log_record \<Rightarrow> string" where
  "txt_format time_s r =
     (let t = time_s (m_time r)
      in show_int (tm_year t + 1900) @ ''-'' @ two (tm_mon t + 1) @ ''-'' @ two (tm_mday t) @ '' ''
         @ clock t (m_millitm r) @ '' ''
         @ setw_left (CHR '' '') 5 (severityToString (m_severity r)) @ '' ''
         @ ''['' @ dec (m_tid r) @ ''] ''
         @ ''['' @ getFunc r @ ''@'' @ dec (m_line r) @ ''] ''
         @ getMessage r @ [CHR 0x0A])"

definition message_only_format :: "log_record \<Rightarrow> string" where
  "message_only_format r = getMessage r @ [CHR 0x0A]"

definition func_message_format :: "log_record \<Rightarrow> string" where
  "func_message_format r = getFunc r @ ''@'' @ dec (m_line r) @ '': '' @ getMessage r @ [CHR 0x0A]"

definition csv_header :: string where
  "csv_header = ''Date;Time;Severity;TID;This;Function;Message'' @ [CHR 0x0A]"

definition kMaxMessageSize :: nat where
  "kMaxMessageSize = 32000"

text \<open>\<open>std::getline\<close>: the token, the rest, and whether the end of the stream was met.\<close>

definition getline :: "string \<Rightarrow> char \<Rightarrow> string \<times> string \<times> bool" where
  "getline split delim =
     (let token = takeWhile (\<lambda>c. c \<noteq> delim) split
      in if delim \<in> set split then (token, drop (length token + 1) split, False) else (token, [], True))"

function csv_tokens :: "string \<Rightarrow> string" where
  "csv_tokens split =
     (let (token, rest, eof) = getline split (CHR 0x22)
      in CHR 0x22 # token @ CHR 0x22 # (if eof then [] else csv_tokens rest))"
  by pat_completeness auto
termination
proof (relation "measure length")
  fix split x token y rest eof
  assume a: "x = getline split (CHR 0x22)" "(token, y) = x" "(rest, eof) = y" "\<not> eof"
  then have "split \<noteq> []" by (auto simp: getline_def Let_def split: if_splits)
  with a show "(rest, split) \<in> measure length" by (auto simp: getline_def Let_def split: if_splits)
qed simp

declare csv_tokens.simps [simp del]

definition csv_message :: "log_record \<Rightarrow> string" where
  "csv_message r =
     (let message = getMessage r
      in if kMaxMessageSize < length message then take kMaxMessageSize message @ ''...'' else message)"

definition csv_fields :: "(int \<Rightarrow> tm) \<Rightarrow> (nat \<Rightarrow> string) \<Rightarrow> log_record \<Rightarrow> string" where
  "csv_fields time_s pointer r =
     (let t = time_s (m_time r)
      in show_int (tm_year t + 1900) @ ''/'' @ two (tm_mon t + 1) @ ''/'' @ two (tm_mday t) @ '';''
         @ clock t (m_millitm r) @ '';''
         @ severityToString (m_severity r) @ '';''
         @ dec (m_tid r) @ '';''
         @ pointer (m_object r) @ '';''
         @ getFunc r @ ''@'' @ dec (m_line r) @ '';'')"

definition csv_format :: "(int \<Rightarrow> tm) \<Rightarrow> (nat \<Rightarrow> string) \<Rightarrow> log_record \<Rightarrow> string" where
  "csv_format time_s pointer r = csv_fields time_s pointer r @ csv_tokens (csv_message r) @ [CHR 0x0A]"


section \<open>Lemmas\<close>

text \<open>
  Reading a quoted field back, as the format of such files has it: the quotes around the field are not part of it, two
  quotes inside are one. The result has the field and what follows it.
\<close>

fun csv_rest :: "string \<Rightarrow> (string \<times> string) option" where
  "csv_rest [] = None"
| "csv_rest (c # r) =
     (if c = CHR 0x22 then
        (case r of
           [] \<Rightarrow> Some ([], [])
         | d # r' \<Rightarrow> if d = CHR 0x22 then map_option (\<lambda>(f, t). (d # f, t)) (csv_rest r') else Some ([], r))
      else map_option (\<lambda>(f, t). (c # f, t)) (csv_rest r))"

fun csv_unquote :: "string \<Rightarrow> (string \<times> string) option" where
  "csv_unquote [] = None"
| "csv_unquote (c # r) = (if c = CHR 0x22 then csv_rest r else None)"

lemma csv_rest_token:
  "CHR 0x22 \<notin> set t \<Longrightarrow> csv_rest (t @ r) = map_option (\<lambda>(f, w). (t @ f, w)) (csv_rest r)"
  by (induction t) (auto simp: option.map_comp comp_def case_prod_unfold option.map_ident)

lemma getline_cases:
  obtains (last) "getline s d = (s, [], True)" "d \<notin> set s"
  | (more) t r where "getline s d = (t, r, False)" "s = t @ d # r" "d \<notin> set t"
proof (cases "d \<in> set s")
  case True
  then obtain t r where s: "s = t @ d # r" "d \<notin> set t" by (meson split_list_first)
  then have "takeWhile (\<lambda>c. c \<noteq> d) s = t" by (auto simp: takeWhile_append)
  then have "getline s d = (t, r, False)" using s by (simp add: getline_def)
  with s more show ?thesis by blast
next
  case False
  then have "getline s d = (s, [], True)" by (auto simp: getline_def)
  with False last show ?thesis by blast
qed

lemma csv_tokens_back:
  assumes "r = [] \<or> hd r \<noteq> CHR 0x22"
  shows "csv_unquote (csv_tokens s @ r) = Some (s, r)"
proof (induction s rule: csv_tokens.induct)
  case (1 s)
  show ?case
  proof (cases rule: getline_cases [of s "CHR 0x22"])
    case last
    with assms show ?thesis
      by (cases r) (simp_all add: csv_tokens.simps [of s] csv_rest_token)
  next
    case (more t w)
    with 1 have "csv_unquote (csv_tokens w @ r) = Some (w, r)" by simp
    moreover have "\<exists>v. csv_tokens w = CHR 0x22 # v" by (subst csv_tokens.simps) (simp add: split_beta Let_def)
    moreover have "csv_tokens s = CHR 0x22 # t @ CHR 0x22 # csv_tokens w"
      unfolding csv_tokens.simps [of s] more(1) by simp
    ultimately show ?thesis using more(2,3) by (auto simp: csv_rest_token)
  qed
qed

lemma severity_from_to: "severityFromString (severityToString s) = Inr s"
  by (cases s) (simp_all add: severityFromString_def toupper_def)

lemma takeWhile_stop_at: "d \<notin> set s \<Longrightarrow> takeWhile (\<lambda>c. c \<noteq> d) (s @ d # r) = s"
  by (induction s) auto

lemma processFuncName_pretty:
  "CHR ''('' \<notin> set ret \<Longrightarrow> CHR ''('' \<notin> set name \<Longrightarrow> CHR '' '' \<notin> set name \<Longrightarrow>
     processFuncName (ret @ CHR '' '' # name @ CHR ''('' # args) = name"
proof -
  assume a: "CHR ''('' \<notin> set ret" "CHR ''('' \<notin> set name" "CHR '' '' \<notin> set name"
  have "takeWhile (\<lambda>c. c \<noteq> CHR ''('') ((ret @ CHR '' '' # name) @ CHR ''('' # args) = ret @ CHR '' '' # name"
    using a by (intro takeWhile_stop_at) auto
  then show ?thesis using a takeWhile_stop_at [of "CHR '' ''" "rev name" "rev ret"] by (simp add: processFuncName_def)
qed

lemma extension_dot: "CHR ''.'' \<notin> set ext \<Longrightarrow> findExtensionDot (base @ CHR ''.'' # ext) = Some (base, CHR ''.'' # ext)"
proof -
  assume a: "CHR ''.'' \<notin> set ext"
  then have "takeWhile (\<lambda>c. c \<noteq> CHR ''.'') (rev (base @ CHR ''.'' # ext)) = rev ext"
    using takeWhile_stop_at [of "CHR ''.''" "rev ext" "rev base"] by simp
  then show ?thesis by (simp add: findExtensionDot_def)
qed

lemma splitFileName_iff:
  "splitFileName (base @ CHR ''.'' # ext) = (base, ext) \<longleftrightarrow> CHR ''.'' \<notin> set ext"
  "CHR ''.'' \<notin> set f \<Longrightarrow> splitFileName f = (f, [])"
proof -
  show "splitFileName (base @ CHR ''.'' # ext) = (base, ext) \<longleftrightarrow> CHR ''.'' \<notin> set ext"
  proof
    assume s: "splitFileName (base @ CHR ''.'' # ext) = (base, ext)"
    have "CHR ''.'' \<in> set (base @ CHR ''.'' # ext)" by simp
    then obtain b e where e: "base @ CHR ''.'' # ext = b @ CHR ''.'' # e" "CHR ''.'' \<notin> set e"
      by (meson split_list_last)
    from extension_dot [OF e(2), of b] have "splitFileName (b @ CHR ''.'' # e) = (b, e)" by (simp add: splitFileName_def)
    from trans [OF sym [OF this [folded e(1)]] s] have "ext = e" by simp
    with e(2) show "CHR ''.'' \<notin> set ext" by simp
  qed (simp add: splitFileName_def extension_dot)
qed (simp add: splitFileName_def findExtensionDot_def)

lemma split_file_back:
  assumes "splitFileName f = (base, ext)"
  shows "f = base @ (if CHR ''.'' \<in> set f then CHR ''.'' # ext else [])"
proof (cases "CHR ''.'' \<in> set f")
  case True
  then obtain b e where e: "f = b @ CHR ''.'' # e" "CHR ''.'' \<notin> set e" by (meson split_list_last)
  with assms extension_dot [OF e(2), of b] show ?thesis by (auto simp: splitFileName_def)
qed (use assms in \<open>simp add: splitFileName_iff(2)\<close>)

text \<open>The separators of a line.\<close>

abbreviation semicolons :: "string \<Rightarrow> nat" where
  "semicolons s \<equiv> length (filter (\<lambda>c. c = CHR '';'') s)"

lemma semicolons_none: "CHR '';'' \<notin> set s \<Longrightarrow> semicolons s = 0"
  by (auto simp: filter_empty_conv)

lemma dec_semicolons [simp]: "filter (\<lambda>c. c = CHR '';'') (dec n) = []"
  by (auto simp: filter_empty_conv isdigit_def dest!: dec_isdigit)

lemma show_int_semicolons [simp]: "filter (\<lambda>c. c = CHR '';'') (show_int v) = []"
  by (simp add: show_int_def)

lemma setw_semicolons [simp]: "semicolons (setw (CHR ''0'') n s) = semicolons s"
  by (simp add: setw_def)

lemma severity_semicolons [simp]: "filter (\<lambda>c. c = CHR '';'') (severityToString s) = []"
  by (cases s) simp_all

section \<open>Properties\<close>

text \<open>A line of a CSV log has one field per column of the header, and the last one is the message: a reader that knows the usual
  quoting gets the (possibly shortened) message back, with all quotes, separators and line ends in it.\<close>

theorem csv_row_readable:
  assumes "CHR '';'' \<notin> set (pointer (m_object r))" and "CHR '';'' \<notin> set (getFunc r)"
  shows "\<exists>fields rest. csv_format time_s pointer r = fields @ rest
    \<and> length (filter (\<lambda>c. c = CHR '';'') fields) = length (filter (\<lambda>c. c = CHR '';'') csv_header)
    \<and> csv_unquote rest = Some (csv_message r, [CHR 0x0A])"
proof (intro exI conjI)
  show "csv_format time_s pointer r = csv_fields time_s pointer r @ (csv_tokens (csv_message r) @ [CHR 0x0A])"
    by (simp add: csv_format_def)
  show "semicolons (csv_fields time_s pointer r) = semicolons csv_header"
    using semicolons_none [OF assms(1)] semicolons_none [OF assms(2)]
    by (simp add: csv_fields_def csv_header_def Let_def two_def clock_def)
  show "csv_unquote (csv_tokens (csv_message r) @ [CHR 0x0A]) = Some (csv_message r, [CHR 0x0A])"
    by (rule csv_tokens_back) simp
qed

theorem csv_row_readable_witness:
  "\<exists>fields rest. csv_format (\<lambda>n. \<lparr>tm_sec = 0, tm_min = 0, tm_hour = 0, tm_mday = 1, tm_mon = 0, tm_year = 70\<rparr>) (\<lambda>n. ''0'')
       (stream_out (Record 0 0 1 warning ''int f(int)'' 7 [] 0 0) (Std_string (''a'' @ [CHR 0x22] @ ''b;c''))) = fields @ rest
     \<and> length (filter (\<lambda>c. c = CHR '';'') fields) = 6 \<and> csv_unquote rest = Some (''a'' @ [CHR 0x22] @ ''b;c'', [CHR 0x0A])"
proof -
  let ?r = "stream_out (Record 0 0 1 warning ''int f(int)'' 7 [] 0 0) (Std_string (''a'' @ [CHR 0x22] @ ''b;c''))"
  have "csv_message ?r = ''a'' @ [CHR 0x22] @ ''b;c''"
    by (simp add: csv_message_def getMessage_def stream_out_def Record_def c_text_def kMaxMessageSize_def)
  moreover have "CHR '';'' \<notin> set (getFunc ?r)" by (simp add: getFunc_def stream_out_def Record_def processFuncName_def)
  moreover have "length (filter (\<lambda>c. c = CHR '';'') csv_header) = 6" by (simp add: csv_header_def)
  ultimately show ?thesis
    using csv_row_readable [of "\<lambda>n. ''0''" ?r "\<lambda>n. \<lparr>tm_sec = 0, tm_min = 0, tm_hour = 0, tm_mday = 1, tm_mon = 0, tm_year = 70\<rparr>"]
    by simp
qed

text \<open>The name of a call operator ends at its own parenthesis: what is left is the name up to the word operator.\<close>

lemma func_name_of_operator: "processFuncName ''void A::operator()(int)'' = ''A::operator''"
  by (simp add: processFuncName_def)

text \<open>A dot in the name of a directory is taken for the dot of an extension.\<close>

lemma extension_of_directory: "splitFileName ''./log'' = ('''', ''/log'')"
  by (simp add: splitFileName_def findExtensionDot_def)


end
