(* ===== verification/PlogAppenders.thy ===== *)
theory PlogAppenders
  imports PlogRecord "HOL-Library.Sublist"
begin

text \<open>
  The part of plog (\<open>include/plog\<close>) that writes: the rolling file appender, the console appenders, the logger with its list of
  appenders, and the functions that set all of this up.

  \<open>files\<close> maps the name of every file to its bytes. Which names can be created, opened, renamed and removed is the system's
  answer and an argument; a write to an open file is complete. An open file is the name that it was opened with: the code
  closes it before it renames it. Appenders are objects that live for ever, and a pointer to one is its number.
\<close>

section \<open>Files\<close>

record system =
  localtime_s :: "int \<Rightarrow> tm"
  pointer_text :: "nat \<Rightarrow> string"
  openable :: "string \<Rightarrow> bool"

type_synonym files = "string \<Rightarrow> string option"

abbreviation size_minus_one :: nat where
  "size_minus_one \<equiv> 2 ^ 64 - 1"

definition file_open :: "system \<Rightarrow> string \<Rightarrow> files \<Rightarrow> string option \<times> nat \<times> files" where
  "file_open sys fileName fs =
     (if openable sys fileName then
        (let bytes = (case fs fileName of None \<Rightarrow> [] | Some b \<Rightarrow> b)
         in (Some fileName, length bytes mod 2 ^ 64, fs(fileName \<mapsto> bytes)))
      else (None, size_minus_one, fs))"

definition file_write :: "string option \<Rightarrow> string \<Rightarrow> files \<Rightarrow> nat \<times> files" where
  "file_write m str fs =
     (case m of
        None \<Rightarrow> (size_minus_one, fs)
      | Some f \<Rightarrow> (length str mod 2 ^ 64, fs(f \<mapsto> (case fs f of None \<Rightarrow> [] | Some b \<Rightarrow> b) @ str)))"

definition file_unlink :: "system \<Rightarrow> string \<Rightarrow> files \<Rightarrow> files" where
  "file_unlink sys f fs = (if openable sys f then fs(f := None) else fs)"

definition file_rename :: "system \<Rightarrow> string \<Rightarrow> string \<Rightarrow> files \<Rightarrow> files" where
  "file_rename sys old new fs =
     (if fs old \<noteq> None \<and> openable sys old \<and> openable sys new \<and> old \<noteq> new then fs(new := fs old, old := None) else fs)"

section \<open>Formatters and converters\<close>

datatype formatter = Txt | Csv | Message_only | Func_message

definition formatter_header :: "formatter \<Rightarrow> string" where
  "formatter_header fm = (if fm = Csv then csv_header else [])"

fun formatter_format :: "system \<Rightarrow> formatter \<Rightarrow> log_record \<Rightarrow> string" where
  "formatter_format sys Txt r = txt_format (localtime_s sys) r"
| "formatter_format sys Csv r = csv_format (localtime_s sys) (pointer_text sys) r"
| "formatter_format sys Message_only r = message_only_format r"
| "formatter_format sys Func_message r = func_message_format r"

definition utf8_convert :: "string \<Rightarrow> string" where
  "utf8_convert str = str"

definition utf8_header :: "string \<Rightarrow> string" where
  "utf8_header str = [CHR 0xEF, CHR 0xBB, CHR 0xBF] @ utf8_convert str"

section \<open>The rolling file appender\<close>

record rolling =
  m_file :: "string option"
  m_fileSize :: nat
  m_maxFileSize :: nat
  m_maxFiles :: int
  m_fileExt :: string
  m_fileNameNoExt :: string
  m_firstWrite :: bool

definition setMaxFiles :: "int \<Rightarrow> rolling \<Rightarrow> rolling" where
  "setMaxFiles maxFiles ap = ap\<lparr>m_maxFiles := maxFiles\<rparr>"

definition setMaxFileSize :: "nat \<Rightarrow> rolling \<Rightarrow> rolling" where
  "setMaxFileSize maxFileSize ap = ap\<lparr>m_maxFileSize := max maxFileSize 1000\<rparr>"

definition setFileName :: "string \<Rightarrow> rolling \<Rightarrow> rolling" where
  "setFileName fileName ap =
     (let (noext, ext) = splitFileName fileName
      in ap\<lparr>m_fileNameNoExt := noext, m_fileExt := ext, m_file := None, m_firstWrite := True\<rparr>)"

definition RollingFileAppender :: "string \<Rightarrow> nat \<Rightarrow> int \<Rightarrow> rolling" where
  "RollingFileAppender fileName maxFileSize maxFiles =
     setMaxFileSize maxFileSize (setFileName fileName
       \<lparr>m_file = None, m_fileSize = 0, m_maxFileSize = 0, m_maxFiles = maxFiles, m_fileExt = [], m_fileNameNoExt = [],
        m_firstWrite = True\<rparr>)"

definition buildFileName :: "rolling \<Rightarrow> int \<Rightarrow> string" where
  "buildFileName ap fileNumber =
     m_fileNameNoExt ap
     @ (if fileNumber > 0 then CHR ''.'' # show_int fileNumber else [])
     @ (if m_fileExt ap \<noteq> [] then CHR ''.'' # m_fileExt ap else [])"

definition openLogFile :: "system \<Rightarrow> formatter \<Rightarrow> rolling \<times> files \<Rightarrow> rolling \<times> files" where
  "openLogFile sys fm s =
     (let (ap, fs) = s;
          (m, size, fs) = file_open sys (buildFileName ap 0) fs;
          ap = ap\<lparr>m_file := m, m_fileSize := size\<rparr>
      in if size = 0 then
           (let (bytesWritten, fs) = file_write m (utf8_header (formatter_header fm)) fs
            in if bytesWritten \<noteq> size_minus_one
               then (ap\<lparr>m_fileSize := (size + bytesWritten) mod 2 ^ 64\<rparr>, fs) else (ap, fs))
         else (ap, fs))"

text \<open>The loop over the file numbers: with \<open>k\<close> rounds left, the next number is \<open>k - 1\<close>.\<close>

fun rename_files :: "system \<Rightarrow> rolling \<Rightarrow> nat \<Rightarrow> files \<Rightarrow> files" where
  "rename_files sys ap 0 fs = fs"
| "rename_files sys ap (Suc k) fs =
     rename_files sys ap k (file_rename sys (buildFileName ap (int k)) (buildFileName ap (int k + 1)) fs)"

definition rollLogFiles :: "system \<Rightarrow> formatter \<Rightarrow> rolling \<times> files \<Rightarrow> rolling \<times> files" where
  "rollLogFiles sys fm s =
     (let (ap, fs) = s;
          ap = ap\<lparr>m_file := None\<rparr>;
          fs = file_unlink sys (buildFileName ap (m_maxFiles ap - 1)) fs;
          fs = rename_files sys ap (nat (m_maxFiles ap - 1)) fs;
          (ap, fs) = openLogFile sys fm (ap, fs)
      in (ap\<lparr>m_firstWrite := False\<rparr>, fs))"

text \<open>The file that a record goes to, and the writing of it.\<close>

definition rolling_prepare :: "system \<Rightarrow> formatter \<Rightarrow> rolling \<times> files \<Rightarrow> rolling \<times> files" where
  "rolling_prepare sys fm s =
     (let ap = fst s
      in if m_firstWrite ap then (let (ap, fs) = openLogFile sys fm s in (ap\<lparr>m_firstWrite := False\<rparr>, fs))
         else if m_maxFiles ap > 0 \<and> m_fileSize ap > m_maxFileSize ap \<and> size_minus_one \<noteq> m_fileSize ap
         then rollLogFiles sys fm s
         else s)"

definition rolling_write :: "system \<Rightarrow> formatter \<Rightarrow> log_record \<Rightarrow> rolling \<times> files \<Rightarrow> rolling \<times> files" where
  "rolling_write sys fm r s =
     (let (ap, fs) = rolling_prepare sys fm s;
          (bytesWritten, fs) = file_write (m_file ap) (utf8_convert (formatter_format sys fm r)) fs
      in if bytesWritten \<noteq> size_minus_one then (ap\<lparr>m_fileSize := (m_fileSize ap + bytesWritten) mod 2 ^ 64\<rparr>, fs)
         else (ap, fs))"

section \<open>The console appenders\<close>

text \<open>Whether the stream is a terminal is found out once; the text is what the stream has got.\<close>

datatype output_stream = streamStdOut | streamStdErr

record console =
  m_isatty :: bool
  m_outputStream :: output_stream

type_synonym streams = "output_stream \<Rightarrow> string"

definition ConsoleAppender :: "(output_stream \<Rightarrow> bool) \<Rightarrow> output_stream \<Rightarrow> console" where
  "ConsoleAppender isatty outStream = \<lparr>m_isatty = isatty outStream, m_outputStream = outStream\<rparr>"

definition writestr :: "console \<Rightarrow> string \<Rightarrow> streams \<Rightarrow> streams" where
  "writestr c str out = out(m_outputStream c := out (m_outputStream c) @ str)"

definition console_write :: "system \<Rightarrow> formatter \<Rightarrow> console \<Rightarrow> log_record \<Rightarrow> streams \<Rightarrow> streams" where
  "console_write sys fm c r out = writestr c (formatter_format sys fm r) out"

definition color_code :: "severity \<Rightarrow> string" where
  "color_code severity =
     (case severity of
        fatal \<Rightarrow> CHR 0x1B # ''[97m'' @ CHR 0x1B # ''[41m''
      | error \<Rightarrow> CHR 0x1B # ''[91m''
      | warning \<Rightarrow> CHR 0x1B # ''[93m''
      | debug \<Rightarrow> CHR 0x1B # ''[96m''
      | verbose \<Rightarrow> CHR 0x1B # ''[96m''
      | _ \<Rightarrow> [])"

definition setColor :: "console \<Rightarrow> severity \<Rightarrow> streams \<Rightarrow> streams" where
  "setColor c severity out = (if m_isatty c then writestr c (color_code severity) out else out)"

definition resetColor :: "console \<Rightarrow> streams \<Rightarrow> streams" where
  "resetColor c out = (if m_isatty c then writestr c (CHR 0x1B # ''[0m'' @ CHR 0x1B # ''[0K'') out else out)"

definition color_console_write :: "system \<Rightarrow> formatter \<Rightarrow> console \<Rightarrow> log_record \<Rightarrow> streams \<Rightarrow> streams" where
  "color_console_write sys fm c r out =
     resetColor c (writestr c (formatter_format sys fm r) (setColor c (m_severity r) out))"

section \<open>Loggers\<close>

datatype appender = Rolling formatter rolling | Console formatter console | Color_console formatter console

record logger =
  m_maxSeverity :: severity
  m_appenders :: "nat list"

text \<open>
  The state of the process: the singleton logger of every instance number, the appenders by their pointers, the appender
  that each instance of the function template \<open>init\<close> has as its static variable, and what has been written.
\<close>

record plog_state =
  loggers :: "int \<Rightarrow> logger option"
  appenders :: "appender list"
  static_appenders :: "formatter \<times> int \<Rightarrow> nat option"
  all_files :: files
  all_streams :: streams

definition Logger :: "severity \<Rightarrow> logger" where
  "Logger maxSeverity = \<lparr>m_maxSeverity = maxSeverity, m_appenders = []\<rparr>"

definition addAppender :: "nat \<Rightarrow> logger \<Rightarrow> logger" where
  "addAppender p lg = lg\<lparr>m_appenders := m_appenders lg @ [p]\<rparr>"

definition setMaxSeverity :: "severity \<Rightarrow> logger \<Rightarrow> logger" where
  "setMaxSeverity severity lg = lg\<lparr>m_maxSeverity := severity\<rparr>"

definition checkSeverity :: "logger \<Rightarrow> severity \<Rightarrow> bool" where
  "checkSeverity lg severity \<longleftrightarrow> severity \<le> m_maxSeverity lg"

text \<open>The virtual function \<open>write\<close> of the appender behind a pointer.\<close>

definition appender_write :: "system \<Rightarrow> log_record \<Rightarrow> nat \<Rightarrow> plog_state \<Rightarrow> plog_state" where
  "appender_write sys r p st =
     (case appenders st ! p of
        Rolling fm ap \<Rightarrow>
          (let (ap, fs) = rolling_write sys fm r (ap, all_files st)
           in st\<lparr>appenders := (appenders st)[p := Rolling fm ap], all_files := fs\<rparr>)
      | Console fm c \<Rightarrow> st\<lparr>all_streams := console_write sys fm c r (all_streams st)\<rparr>
      | Color_console fm c \<Rightarrow> st\<lparr>all_streams := color_console_write sys fm c r (all_streams st)\<rparr>)"

definition logger_append :: "system \<Rightarrow> logger \<Rightarrow> log_record \<Rightarrow> plog_state \<Rightarrow> plog_state" where
  "logger_append sys lg r st = fold (appender_write sys r) (m_appenders lg) st"

definition logger_write :: "system \<Rightarrow> logger \<Rightarrow> log_record \<Rightarrow> plog_state \<Rightarrow> plog_state" where
  "logger_write sys lg r st = (if checkSeverity lg (m_severity r) then logger_append sys lg r st else st)"

text \<open>The macro \<open>PLOG_\<close>: the record is made only if the logger exists and takes the severity.\<close>

definition plog_macro :: "system \<Rightarrow> int \<Rightarrow> severity \<Rightarrow> (severity \<Rightarrow> log_record) \<Rightarrow> plog_state \<Rightarrow> plog_state" where
  "plog_macro sys instanceId severity record_of st =
     (case loggers st instanceId of
        None \<Rightarrow> st
      | Some lg \<Rightarrow> if \<not> checkSeverity lg severity then st else logger_append sys lg (record_of severity) st)"

text \<open>The functions \<open>init\<close>. Static variables are initialised by the first call only.\<close>

definition init_logger :: "int \<Rightarrow> severity \<Rightarrow> nat option \<Rightarrow> plog_state \<Rightarrow> plog_state" where
  "init_logger instanceId maxSeverity appender st =
     (let lg = (case loggers st instanceId of Some lg \<Rightarrow> lg | None \<Rightarrow> Logger maxSeverity);
          lg = (case appender of Some p \<Rightarrow> addAppender p lg | None \<Rightarrow> lg)
      in st\<lparr>loggers := (loggers st)(instanceId \<mapsto> lg)\<rparr>)"

definition init_with :: "formatter \<Rightarrow> int \<Rightarrow> severity \<Rightarrow> string \<Rightarrow> nat \<Rightarrow> int \<Rightarrow> plog_state \<Rightarrow> plog_state" where
  "init_with fm instanceId maxSeverity fileName maxFileSize maxFiles st =
     (case static_appenders st (fm, instanceId) of
        Some p \<Rightarrow> init_logger instanceId maxSeverity (Some p) st
      | None \<Rightarrow>
          (let p = length (appenders st);
               st = st\<lparr>appenders := appenders st @ [Rolling fm (RollingFileAppender fileName maxFileSize maxFiles)],
                       static_appenders := (static_appenders st)((fm, instanceId) \<mapsto> p)\<rparr>
           in init_logger instanceId maxSeverity (Some p) st))"

definition init_file :: "int \<Rightarrow> severity \<Rightarrow> string \<Rightarrow> nat \<Rightarrow> int \<Rightarrow> plog_state \<Rightarrow> plog_state" where
  "init_file instanceId maxSeverity fileName maxFileSize maxFiles st =
     init_with (if isCsv fileName then Csv else Txt) instanceId maxSeverity fileName maxFileSize maxFiles st"

section \<open>Rolling\<close>

text \<open>The numbered files have names of their own.\<close>

definition log_name :: "rolling \<Rightarrow> nat \<Rightarrow> string" where
  "log_name ap i = buildFileName ap (int i)"

lemma dec_inj: "dec i = dec j \<Longrightarrow> i = j"
  by (metis digits_val_dec)

lemma log_name_inj [simp]: "log_name ap i = log_name ap j \<longleftrightarrow> i = j"
  by (auto simp: log_name_def buildFileName_def show_int_def dest: dec_inj)

lemma log_names [simp]:
  "buildFileName ap 0 = log_name ap 0" "buildFileName ap (int i) = log_name ap i" "buildFileName ap (int i + 1) = log_name ap (Suc i)"
  by (simp_all add: log_name_def add.commute)

lemma log_name_update [simp]:
  "log_name (ap\<lparr>m_file := x\<rparr>) = log_name ap" "log_name (ap\<lparr>m_fileSize := n\<rparr>) = log_name ap"
  "log_name (ap\<lparr>m_firstWrite := b\<rparr>) = log_name ap" "log_name (ap\<lparr>m_maxFileSize := n\<rparr>) = log_name ap"
  "log_name (ap\<lparr>m_maxFiles := k\<rparr>) = log_name ap"
  by (simp_all add: log_name_def buildFileName_def fun_eq_iff)

definition all_openable :: "system \<Rightarrow> rolling \<Rightarrow> bool" where
  "all_openable sys ap \<longleftrightarrow> (\<forall>i. openable sys (log_name ap i))"

text \<open>A rename into a free name moves the file, and does nothing if there is none: the name is free all the same.\<close>

lemma rename_log:
  assumes "all_openable sys ap" and "fs (log_name ap (Suc k)) = None"
  shows "file_rename sys (log_name ap k) (log_name ap (Suc k)) fs =
    fs(log_name ap (Suc k) := fs (log_name ap k), log_name ap k := None)"
proof (cases "fs (log_name ap k)")
  case None
  with assms have "fs(log_name ap (Suc k) := fs (log_name ap k), log_name ap k := None) = fs" by (auto simp: fun_eq_iff)
  then show ?thesis using None by (simp only: file_rename_def) simp
next
  case (Some b)
  with assms show ?thesis by (simp add: file_rename_def all_openable_def)
qed

lemma rename_files_moves:
  assumes "all_openable sys ap"
  shows "fs (log_name ap k) = None \<Longrightarrow> rename_files sys ap k fs (log_name ap (Suc i)) =
      (if i < k then fs (log_name ap i) else fs (log_name ap (Suc i)))"
    and "fs (log_name ap k) = None \<Longrightarrow> rename_files sys ap k fs (log_name ap 0) = None"
    and "fs (log_name ap k) = None \<Longrightarrow> f \<notin> range (log_name ap) \<Longrightarrow> rename_files sys ap k fs f = fs f"
proof (induction k arbitrary: fs)
  case (Suc k)
  let ?fs = "\<lambda>fs. fs(log_name ap (Suc k) := fs (log_name ap k), log_name ap k := None)"
  have r: "rename_files sys ap (Suc k) fs = rename_files sys ap k (?fs fs)" if "fs (log_name ap (Suc k)) = None" for fs
    using rename_log [of sys ap fs k, OF assms that] by simp
  have n: "?fs fs (log_name ap k) = None" for fs by simp
  { case (1 fs)
    show ?case unfolding r [of fs, OF 1] Suc(1) [of "?fs fs", OF n [of fs]] using 1 by (auto simp: less_Suc_eq)
  next
    case (2 fs)
    show ?case unfolding r [of fs, OF 2] by (rule Suc(2) [of "?fs fs", OF n [of fs]])
  next
    case (3 fs)
    show ?case unfolding r [of fs, OF 3(1)] Suc(3) [of "?fs fs", OF n [of fs] 3(2)] using 3(2) by auto }
qed simp_all

text \<open>The log as a list of files, the current one first: rolling puts a new file in front and drops the last one.\<close>

definition logs :: "rolling \<Rightarrow> files \<Rightarrow> string option list" where
  "logs ap fs = map (\<lambda>i. fs (log_name ap i)) [0..<nat (m_maxFiles ap)]"

abbreviation new_file :: "formatter \<Rightarrow> string" where
  "new_file fm \<equiv> utf8_header (formatter_header fm)"

lemma new_file_length: "0 < length (new_file fm)" "length (new_file fm) < 100"
  by (simp_all add: utf8_header_def utf8_convert_def formatter_header_def csv_header_def)

lemma open_new:
  assumes "openable sys (log_name ap 0)" and "fs (log_name ap 0) = None"
  shows "openLogFile sys fm (ap, fs) =
    (ap\<lparr>m_file := Some (log_name ap 0), m_fileSize := length (new_file fm)\<rparr>, fs(log_name ap 0 \<mapsto> new_file fm))"
  using assms new_file_length [of fm] by (simp add: openLogFile_def file_open_def file_write_def Let_def)

lemma roll_steps:
  assumes "all_openable sys ap" and "0 < m_maxFiles ap"
  obtains fs' where
    "rollLogFiles sys fm (ap, fs) =
       (ap\<lparr>m_file := Some (log_name ap 0), m_fileSize := length (new_file fm), m_firstWrite := False\<rparr>, fs')"
    "fs' (log_name ap 0) = Some (new_file fm)"
    "\<And>i. fs' (log_name ap (Suc i)) =
       (if Suc i < nat (m_maxFiles ap) then fs (log_name ap i) else fs (log_name ap (Suc i)))"
    "\<And>f. f \<notin> range (log_name ap) \<Longrightarrow> fs' f = fs f"
proof -
  let ?k = "nat (m_maxFiles ap - 1)"
  define fs1 where "fs1 = file_unlink sys (buildFileName (ap\<lparr>m_file := None\<rparr>) (m_maxFiles ap - 1)) fs"
  define fs2 where "fs2 = rename_files sys (ap\<lparr>m_file := None\<rparr>) ?k fs1"
  have k: "buildFileName (ap\<lparr>m_file := None\<rparr>) (m_maxFiles ap - 1) = log_name ap ?k"
    using assms(2) log_names(2) [of "ap\<lparr>m_file := None\<rparr>" ?k] by simp
  have u: "fs1 = fs(log_name ap ?k := None)" using assms(1) by (simp add: fs1_def file_unlink_def k all_openable_def)
  have a: "all_openable sys (ap\<lparr>m_file := None\<rparr>)" using assms(1) by (simp add: all_openable_def)
  have n: "fs1 (log_name (ap\<lparr>m_file := None\<rparr>) ?k) = None" by (simp add: u)
  note m = rename_files_moves [of sys "ap\<lparr>m_file := None\<rparr>" fs1 ?k, OF a n, folded fs2_def]
  have "rollLogFiles sys fm (ap, fs) = (ap\<lparr>m_file := Some (log_name ap 0), m_fileSize := length (new_file fm), m_firstWrite := False\<rparr>,
      fs2(log_name ap 0 \<mapsto> new_file fm))"
    using open_new [of sys "ap\<lparr>m_file := None\<rparr>" fs2 fm] m(2) assms(1)
    by (simp add: rollLogFiles_def Let_def all_openable_def flip: fs1_def fs2_def)
  then show thesis
    by (rule that) (use m assms(2) in \<open>auto simp: u\<close>)
qed

text \<open>What an open appender knows of its file.\<close>

definition log_ok :: "system \<Rightarrow> rolling \<Rightarrow> files \<Rightarrow> bool" where
  "log_ok sys ap fs \<longleftrightarrow> all_openable sys ap \<and> 0 < m_maxFiles ap \<and>
     (\<not> m_firstWrite ap \<longrightarrow> m_file ap = Some (log_name ap 0)
        \<and> (\<exists>b. fs (log_name ap 0) = Some b \<and> m_fileSize ap = length b))"

text \<open>The log as a list, written to: the specification that the appender implements.\<close>

definition log_append :: "string \<Rightarrow> nat \<Rightarrow> bool \<Rightarrow> string \<Rightarrow> string option list \<Rightarrow> string option list" where
  "log_append header maxFileSize firstWrite text ls =
     (case hd ls of
        None \<Rightarrow> Some (header @ text) # tl ls
      | Some b \<Rightarrow>
          if firstWrite then Some ((if b = [] then header else b) @ text) # tl ls
          else if maxFileSize < length b then Some (header @ text) # butlast ls
          else Some (b @ text) # tl ls)"

lemma logs_Cons:
  "0 < m_maxFiles ap \<Longrightarrow> logs ap fs = fs (log_name ap 0) # map (\<lambda>i. fs (log_name ap (Suc i))) [0..<nat (m_maxFiles ap) - 1]"
  by (cases "nat (m_maxFiles ap)") (simp_all add: logs_def map_upt_Suc del: upt_Suc)

lemma logs_update [simp]:
  "logs (ap\<lparr>m_file := x\<rparr>) = logs ap" "logs (ap\<lparr>m_fileSize := n\<rparr>) = logs ap" "logs (ap\<lparr>m_firstWrite := b\<rparr>) = logs ap"
  by (simp_all add: logs_def fun_eq_iff)

lemma logs_append: "0 < m_maxFiles ap \<Longrightarrow> logs ap (fs(log_name ap 0 \<mapsto> b)) = Some b # tl (logs ap fs)"
  by (simp add: logs_Cons)

lemma logs_roll:
  assumes "all_openable sys ap" and "0 < m_maxFiles ap"
  obtains fs' where
    "rollLogFiles sys fm (ap, fs) =
       (ap\<lparr>m_file := Some (log_name ap 0), m_fileSize := length (new_file fm), m_firstWrite := False\<rparr>, fs')"
    "logs ap fs' = Some (new_file fm) # butlast (logs ap fs)" "fs' (log_name ap 0) = Some (new_file fm)"
    "\<And>f. f \<notin> log_name ap ` {..<nat (m_maxFiles ap)} \<Longrightarrow> fs' f = fs f"
proof -
  from roll_steps [OF assms, of fm fs] obtain fs' where r: "rollLogFiles sys fm (ap, fs) =
       (ap\<lparr>m_file := Some (log_name ap 0), m_fileSize := length (new_file fm), m_firstWrite := False\<rparr>, fs')"
    "fs' (log_name ap 0) = Some (new_file fm)"
    "\<And>i. fs' (log_name ap (Suc i)) = (if Suc i < nat (m_maxFiles ap) then fs (log_name ap i) else fs (log_name ap (Suc i)))"
    "\<And>f. f \<notin> range (log_name ap) \<Longrightarrow> fs' f = fs f" by metis
  obtain k where k: "nat (m_maxFiles ap) = Suc k" using assms(2) by (cases "nat (m_maxFiles ap)") auto
  have "logs ap fs' = Some (new_file fm) # butlast (logs ap fs)"
    unfolding logs_Cons [OF assms(2), of fs'] using r(2,3) by (simp add: logs_def k butlast_append)
  moreover have "fs' f = fs f" if "f \<notin> log_name ap ` {..<nat (m_maxFiles ap)}" for f
  proof (cases "f \<in> range (log_name ap)")
    case True
    then obtain i where i: "f = log_name ap i" by auto
    with that have "\<not> i < Suc k" by (auto simp: k)
    then show ?thesis using r(3) [of "i - 1"] by (simp add: i k)
  qed (use r(4) in simp)
  ultimately show thesis using r(1,2) that by blast
qed

lemma open_existing:
  assumes "openable sys (log_name ap 0)" and "fs (log_name ap 0) = Some b" and "length b < 2 ^ 64" and "b \<noteq> []"
  shows "openLogFile sys fm (ap, fs) = (ap\<lparr>m_file := Some (log_name ap 0), m_fileSize := length b\<rparr>, fs)"
  using assms by (simp add: openLogFile_def file_open_def Let_def fun_upd_idem)

lemma open_empty:
  assumes "openable sys (log_name ap 0)" and "fs (log_name ap 0) = Some []"
  shows "openLogFile sys fm (ap, fs) =
    (ap\<lparr>m_file := Some (log_name ap 0), m_fileSize := length (new_file fm)\<rparr>, fs(log_name ap 0 \<mapsto> new_file fm))"
  using assms new_file_length [of fm] by (simp add: openLogFile_def file_open_def file_write_def Let_def)

text \<open>Writing: the decision to open or roll, and the whole.\<close>

definition log_prepare :: "string \<Rightarrow> nat \<Rightarrow> bool \<Rightarrow> string option list \<Rightarrow> string option list" where
  "log_prepare header maxFileSize firstWrite ls =
     (case hd ls of
        None \<Rightarrow> Some header # tl ls
      | Some b \<Rightarrow>
          if firstWrite then Some (if b = [] then header else b) # tl ls
          else if maxFileSize < length b then Some header # butlast ls
          else ls)"

lemma log_append_prepare:
  "log_append h m f t ls = (case log_prepare h m f ls of [] \<Rightarrow> [] | b # ls \<Rightarrow> map_option (\<lambda>b. b @ t) b # ls)"
  if "ls \<noteq> []"
  using that by (cases ls) (auto simp: log_append_def log_prepare_def split: option.splits)

lemma logs_ne: "0 < m_maxFiles ap \<Longrightarrow> logs ap fs \<noteq> []"
  by (simp add: logs_Cons)

lemma prepare_refines:
  assumes ok: "log_ok sys ap fs" and b: "\<forall>b. fs (log_name ap 0) = Some b \<longrightarrow> length b < 2 ^ 62"
  obtains fs' b where
    "rolling_prepare sys fm (ap, fs) = (ap\<lparr>m_file := Some (log_name ap 0), m_fileSize := length b, m_firstWrite := False\<rparr>, fs')"
    "logs ap fs' = log_prepare (new_file fm) (m_maxFileSize ap) (m_firstWrite ap) (logs ap fs)"
    "fs' (log_name ap 0) = Some b" "length b < 2 ^ 62"
    "\<And>f. f \<notin> log_name ap ` {..<nat (m_maxFiles ap)} \<Longrightarrow> fs' f = fs f"
proof -
  have a: "all_openable sys ap" "0 < m_maxFiles ap" using ok by (simp_all add: log_ok_def)
  have o: "openable sys (log_name ap 0)" using a(1) by (simp add: all_openable_def)
  have h: "hd (logs ap fs) = fs (log_name ap 0)" using a(2) by (simp add: logs_Cons)
  have l: "length (new_file fm) < 2 ^ 62" using new_file_length(2) [of fm] by simp
  have n: "f \<noteq> log_name ap 0" if "f \<notin> log_name ap ` {..<nat (m_maxFiles ap)}" for f using that a(2) by auto
  consider (new) "m_firstWrite ap" "fs (log_name ap 0) = None" | (empty) "m_firstWrite ap" "fs (log_name ap 0) = Some []"
    | (old) c where "m_firstWrite ap" "fs (log_name ap 0) = Some c" "c \<noteq> []"
    | (roll) c where "\<not> m_firstWrite ap" "fs (log_name ap 0) = Some c" "m_maxFileSize ap < length c"
    | (stay) c where "\<not> m_firstWrite ap" "fs (log_name ap 0) = Some c" "\<not> m_maxFileSize ap < length c"
    using ok by (cases "fs (log_name ap 0)") (auto simp: log_ok_def)
  then show thesis
  proof cases
    case new
    then show thesis using open_new [of sys ap fs fm, OF o] n a(2) l h
      by (intro that [of "new_file fm" "fs(log_name ap 0 \<mapsto> new_file fm)"])
        (simp_all add: rolling_prepare_def logs_append log_prepare_def)
  next
    case empty
    then show thesis using open_empty [of sys ap fs fm, OF o] n a(2) l h
      by (intro that [of "new_file fm" "fs(log_name ap 0 \<mapsto> new_file fm)"])
        (simp_all add: rolling_prepare_def logs_append log_prepare_def)
  next
    case (old c)
    then have c: "length c < 2 ^ 62" using b by simp
    then show thesis using old open_existing [of sys ap fs c fm, OF o] n a(2) h
      by (intro that [of c fs]) (simp_all add: rolling_prepare_def log_prepare_def logs_Cons)
  next
    case (roll c)
    then have c: "m_fileSize ap = length c" "length c < 2 ^ 62" using ok b by (auto simp: log_ok_def)
    from logs_roll [OF a, of fm fs] obtain fs' where r: "rollLogFiles sys fm (ap, fs) =
       (ap\<lparr>m_file := Some (log_name ap 0), m_fileSize := length (new_file fm), m_firstWrite := False\<rparr>, fs')"
      "logs ap fs' = Some (new_file fm) # butlast (logs ap fs)" "fs' (log_name ap 0) = Some (new_file fm)"
      "\<And>f. f \<notin> log_name ap ` {..<nat (m_maxFiles ap)} \<Longrightarrow> fs' f = fs f" by metis
    then show thesis using roll c a(2) l h
      by (intro that [of "new_file fm" fs']) (simp_all add: rolling_prepare_def log_prepare_def)
  next
    case (stay c)
    then have c: "m_fileSize ap = length c" "length c < 2 ^ 62" "m_file ap = Some (log_name ap 0)" using ok b by (auto simp: log_ok_def)
    then have "ap\<lparr>m_file := Some (log_name ap 0), m_fileSize := length c, m_firstWrite := False\<rparr> = ap" using stay(1) by simp
    then show thesis using stay c h
      by (intro that [of c fs]) (simp_all add: rolling_prepare_def log_prepare_def)
  qed
qed

definition write_ok :: "system \<Rightarrow> formatter \<Rightarrow> log_record \<Rightarrow> rolling \<Rightarrow> files \<Rightarrow> bool" where
  "write_ok sys fm r ap fs \<longleftrightarrow> length (formatter_format sys fm r) < 2 ^ 62 \<and>
     (\<forall>b. fs (log_name ap 0) = Some b \<longrightarrow> length b < 2 ^ 62)"

lemma write_refines:
  assumes ok: "log_ok sys ap fs" and w: "write_ok sys fm r ap fs"
  obtains ap' fs' where "rolling_write sys fm r (ap, fs) = (ap', fs')" "log_ok sys ap' fs'" "\<not> m_firstWrite ap'"
    "m_maxFiles ap' = m_maxFiles ap" "m_maxFileSize ap' = m_maxFileSize ap" "log_name ap' = log_name ap"
    "logs ap' fs' = log_append (new_file fm) (m_maxFileSize ap) (m_firstWrite ap) (formatter_format sys fm r) (logs ap fs)"
    "\<And>f. f \<notin> log_name ap ` {..<nat (m_maxFiles ap)} \<Longrightarrow> fs' f = fs f"
proof -
  let ?t = "formatter_format sys fm r"
  have a: "all_openable sys ap" "0 < m_maxFiles ap" using ok by (simp_all add: log_ok_def)
  have t: "length ?t < 2 ^ 62" "\<forall>b. fs (log_name ap 0) = Some b \<longrightarrow> length b < 2 ^ 62" using w by (simp_all add: write_ok_def)
  from prepare_refines [OF ok t(2), of fm] obtain fs0 b where p:
    "rolling_prepare sys fm (ap, fs) = (ap\<lparr>m_file := Some (log_name ap 0), m_fileSize := length b, m_firstWrite := False\<rparr>, fs0)"
    "logs ap fs0 = log_prepare (new_file fm) (m_maxFileSize ap) (m_firstWrite ap) (logs ap fs)"
    "fs0 (log_name ap 0) = Some b" "length b < 2 ^ 62"
    "\<And>f. f \<notin> log_name ap ` {..<nat (m_maxFiles ap)} \<Longrightarrow> fs0 f = fs f" by metis
  let ?ap = "ap\<lparr>m_file := Some (log_name ap 0), m_fileSize := length (b @ ?t), m_firstWrite := False\<rparr>"
  let ?fs = "fs0(log_name ap 0 \<mapsto> b @ ?t)"
  have r: "rolling_write sys fm r (ap, fs) = (?ap, ?fs)"
    using p(1,3,4) t(1) by (simp add: rolling_write_def file_write_def utf8_convert_def)
  have "logs ap ?fs = log_append (new_file fm) (m_maxFileSize ap) (m_firstWrite ap) ?t (logs ap fs)"
    using logs_Cons [OF a(2), of fs0] p(2,3)
    by (simp add: logs_append [OF a(2)] log_append_prepare [OF logs_ne [OF a(2)]] split: list.splits)
  moreover have "log_ok sys ?ap ?fs" using a by (simp add: log_ok_def all_openable_def)
  moreover have "?fs f = fs f" if "f \<notin> log_name ap ` {..<nat (m_maxFiles ap)}" for f
    using p(5) [OF that] that a(2) by auto
  ultimately show thesis using r that [of ?ap ?fs] by simp
qed

section \<open>Runs\<close>

text \<open>
  What the files hold after some writes: the newest file first, each with the header in front; together they hold the end
  of the text, and what is lost is lost because all files were full.
\<close>

definition log_inv :: "string \<Rightarrow> nat \<Rightarrow> nat \<Rightarrow> string \<Rightarrow> string option list \<Rightarrow> bool" where
  "log_inv h m l text ls \<longleftrightarrow> (\<exists>bs k lost. ls = map Some bs @ replicate k None
     \<and> (\<forall>b\<in>set bs. prefix h b \<and> length b \<le> m + l) \<and> (\<forall>b\<in>set (tl bs). m < length b)
     \<and> text = lost @ concat (map (drop (length h)) (rev bs)) \<and> (lost \<noteq> [] \<longrightarrow> k = 0))"

lemma log_inv_intro:
  "ls = map Some bs @ replicate k None \<Longrightarrow> \<forall>b\<in>set bs. prefix h b \<and> length b \<le> m + l \<Longrightarrow> \<forall>b\<in>set (tl bs). m < length b \<Longrightarrow>
     text = lost @ concat (map (drop (length h)) (rev bs)) \<Longrightarrow> (lost \<noteq> [] \<longrightarrow> k = 0) \<Longrightarrow> log_inv h m l text ls"
  unfolding log_inv_def by blast

lemma log_inv_first:
  assumes "length h \<le> m" and "length t \<le> l" and "0 < n"
  shows "log_inv h m l t (log_append h m f t (replicate n None))"
proof -
  obtain k where "n = Suc k" using assms(3) by (cases n) auto
  then have "log_append h m f t (replicate n None) = map Some [h @ t] @ replicate k None" by (simp add: log_append_def)
  then show ?thesis using assms by (intro log_inv_intro [where bs = "[h @ t]" and lost = "[]"]) auto
qed

lemma log_inv_next:
  assumes i: "log_inv h m l text ls" and hd: "hd ls \<noteq> None" and ne: "ls \<noteq> []" and h: "length h \<le> m" and t: "length t \<le> l"
  shows "log_inv h m l (text @ t) (log_append h m False t ls)"
proof -
  obtain bs k lost where ls: "ls = map Some bs @ replicate k None" and b: "\<forall>b\<in>set bs. prefix h b \<and> length b \<le> m + l"
    and tl: "\<forall>b\<in>set (tl bs). m < length b" and tx: "text = lost @ concat (map (drop (length h)) (rev bs))"
    and lost: "lost \<noteq> [] \<longrightarrow> k = 0" using i unfolding log_inv_def by blast
  from hd ne ls obtain c cs where bs: "bs = c # cs" by (cases bs; cases k) auto
  show ?thesis
  proof (cases "m < length c")
    case False
    moreover have "length h \<le> length c" using b bs prefix_length_le by auto
    ultimately show ?thesis using ls b tl tx lost bs t
      by (intro log_inv_intro [where bs = "(c @ t) # cs" and k = k and lost = lost]) (auto simp: log_append_def)
  next
    case True
    then have a: "log_append h m False t ls = Some (h @ t) # butlast ls" using ls bs by (simp add: log_append_def)
    show ?thesis
    proof (cases k)
      case 0
      have s: "bs = butlast bs @ [last bs]" using bs by simp
      have "log_append h m False t ls = map Some ((h @ t) # butlast bs) @ replicate 0 None"
        using a 0 ls by (simp add: map_butlast)
      moreover have "text = (lost @ drop (length h) (last bs)) @ concat (map (drop (length h)) (rev (butlast bs)))"
        using tx by (subst (asm) s) simp
      ultimately show ?thesis using b tl True bs h t
        by (intro log_inv_intro [where bs = "(h @ t) # butlast bs" and k = 0 and lost = "lost @ drop (length h) (last bs)"])
          (auto dest: in_set_butlastD split: if_splits)
    next
      case (Suc k')
      then have "ls = (map Some bs @ replicate k' None) @ [None]" using ls by (simp add: replicate_append_same)
      then have "butlast ls = map Some bs @ replicate k' None" by (simp only: butlast_snoc)
      then show ?thesis using a b tl tx lost True bs h t Suc
        by (intro log_inv_intro [where bs = "(h @ t) # bs" and k = k' and lost = lost]) auto
    qed
  qed
qed

definition rolling_run :: "system \<Rightarrow> formatter \<Rightarrow> log_record list \<Rightarrow> rolling \<times> files \<Rightarrow> rolling \<times> files" where
  "rolling_run sys fm rs s = fold (rolling_write sys fm) rs s"

lemma RollingFileAppender_simps [simp]:
  "m_maxFiles (RollingFileAppender f m n) = n" "m_maxFileSize (RollingFileAppender f m n) = max m 1000"
  "m_firstWrite (RollingFileAppender f m n)"
  by (simp_all add: RollingFileAppender_def setMaxFileSize_def setFileName_def split_beta)

lemma run_invariant:
  assumes a: "all_openable sys ap" "ap = RollingFileAppender fileName maxFileSize maxFiles" "0 < maxFiles"
    and fresh: "\<forall>i. fs (log_name ap i) = None"
    and l: "\<forall>r\<in>set rs. length (formatter_format sys fm r) \<le> l" "max maxFileSize 1000 + l < 2 ^ 62"
  shows "\<exists>ap' fs'. rolling_run sys fm rs (ap, fs) = (ap', fs') \<and> log_ok sys ap' fs' \<and> m_maxFiles ap' = maxFiles
    \<and> m_maxFileSize ap' = max maxFileSize 1000 \<and> log_name ap' = log_name ap \<and> m_firstWrite ap' = (rs = [])
    \<and> log_inv (new_file fm) (max maxFileSize 1000) l (concat (map (formatter_format sys fm) rs)) (logs ap' fs')
    \<and> (\<forall>f. f \<notin> log_name ap ` {..<nat maxFiles} \<longrightarrow> fs' f = fs f)"
  using l(1)
proof (induction rs rule: rev_induct)
  case Nil
  have "logs ap fs = map Some [] @ replicate (nat maxFiles) None" using fresh a(2) by (simp add: logs_def map_replicate_const)
  then have "log_inv (new_file fm) (max maxFileSize 1000) l [] (logs ap fs)" by (rule log_inv_intro) auto
  then show ?case using a by (simp add: rolling_run_def log_ok_def)
next
  case (snoc r rs)
  let ?m = "max maxFileSize 1000"
  obtain ap1 fs1 where r1: "rolling_run sys fm rs (ap, fs) = (ap1, fs1)" "log_ok sys ap1 fs1" "m_maxFiles ap1 = maxFiles"
    "m_maxFileSize ap1 = ?m" "log_name ap1 = log_name ap" "m_firstWrite ap1 = (rs = [])"
    "log_inv (new_file fm) ?m l (concat (map (formatter_format sys fm) rs)) (logs ap1 fs1)"
    "\<forall>f. f \<notin> log_name ap ` {..<nat maxFiles} \<longrightarrow> fs1 f = fs f" using snoc by auto
  have n: "0 < m_maxFiles ap1" using a(3) r1(3) by simp
  have t: "length (formatter_format sys fm r) \<le> l" using snoc.prems by simp
  have hd: "hd (logs ap1 fs1) = fs1 (log_name ap1 0)" using n by (simp add: logs_Cons)
  have "length b < 2 ^ 62" if "fs1 (log_name ap1 0) = Some b" for b
  proof -
    have "Some b \<in> set (logs ap1 fs1)" using that hd logs_ne [OF n, of fs1] by (metis hd_in_set)
    then have "length b \<le> ?m + l" using r1(7) by (auto simp: log_inv_def)
    with l(2) show ?thesis by simp
  qed
  then have w: "write_ok sys fm r ap1 fs1" using t l(2) by (simp add: write_ok_def)
  from write_refines [OF r1(2) w] obtain ap2 fs2 where r2: "rolling_write sys fm r (ap1, fs1) = (ap2, fs2)" "log_ok sys ap2 fs2"
    "\<not> m_firstWrite ap2" "m_maxFiles ap2 = m_maxFiles ap1" "m_maxFileSize ap2 = m_maxFileSize ap1" "log_name ap2 = log_name ap1"
    "logs ap2 fs2 = log_append (new_file fm) (m_maxFileSize ap1) (m_firstWrite ap1) (formatter_format sys fm r) (logs ap1 fs1)"
    "\<And>f. f \<notin> log_name ap1 ` {..<nat (m_maxFiles ap1)} \<Longrightarrow> fs2 f = fs1 f" by metis
  have h: "length (new_file fm) \<le> ?m" using new_file_length(2) [of fm] by simp
  have "log_inv (new_file fm) ?m l (concat (map (formatter_format sys fm) (rs @ [r]))) (logs ap2 fs2)"
  proof (cases "rs = []")
    case True
    then have "ap1 = ap" "fs1 = fs" using r1(1) by (simp_all add: rolling_run_def)
    then have "logs ap1 fs1 = replicate (nat maxFiles) None" using fresh a(2) by (simp add: logs_def map_replicate_const)
    then show ?thesis using log_inv_first [OF h t, of "nat maxFiles" True] a(3) r2(7) r1(4,6) True by simp
  next
    case False
    moreover have "hd (logs ap1 fs1) \<noteq> None" using r1(2,6) False hd by (auto simp: log_ok_def)
    ultimately show ?thesis using log_inv_next [OF r1(7) _ logs_ne [OF n] h t] r2(7) r1(4,6) by simp
  qed
  then show ?case using r1 r2 by (simp add: rolling_run_def)
qed

section \<open>Sinks\<close>

text \<open>What the logger expects of an appender without limits: a record's text is added to what has been written.\<close>

locale sink =
  fixes add :: "'r \<Rightarrow> 'w \<Rightarrow> 'w"
    and written :: "'w \<Rightarrow> string"
    and text_of :: "'r \<Rightarrow> string"
  assumes written_add: "written (add r w) = written w @ text_of r"
begin

lemma written_all: "written (fold add rs w) = written w @ concat (map text_of rs)"
  by (induction rs arbitrary: w) (simp_all add: written_add)

lemma written_prefix: "\<exists>z. written (fold add rs w) = written w @ z"
  using written_all by blast

end

text \<open>The colours are part of the text on a terminal.\<close>

definition color_text :: "system \<Rightarrow> formatter \<Rightarrow> console \<Rightarrow> log_record \<Rightarrow> string" where
  "color_text sys fm c r =
     (if m_isatty c then color_code (m_severity r) @ formatter_format sys fm r @ CHR 0x1B # ''[0m'' @ CHR 0x1B # ''[0K''
      else formatter_format sys fm r)"

interpretation con: sink "console_write sys fm c" "\<lambda>out. out (m_outputStream c)" "formatter_format sys fm"
  for sys fm c
  by unfold_locales (simp add: console_write_def writestr_def)

interpretation col: sink "color_console_write sys fm c" "\<lambda>out. out (m_outputStream c)" "color_text sys fm c"
  for sys fm c
  by unfold_locales (simp add: color_console_write_def writestr_def setColor_def resetColor_def color_text_def)

section \<open>Properties\<close>


definition example_system :: system where
  "example_system = \<lparr>localtime_s = (\<lambda>n. \<lparr>tm_sec = 0, tm_min = 0, tm_hour = 0, tm_mday = 1, tm_mon = 0, tm_year = 70\<rparr>),
     pointer_text = (\<lambda>n. ''0''), openable = (\<lambda>f. True)\<rparr>"

definition example_record :: log_record where
  "example_record = stream_out (Record 0 0 1 info ''int main()'' 7 [] 0 0) (C_string (Some ''hi''))"

lemma example_text: "formatter_format example_system Message_only example_record = ''hi'' @ [CHR 0x0A]"
  by (simp add: example_record_def message_only_format_def getMessage_def stream_out_def Record_def c_text_def)



text \<open>The log never takes more than its share: whatever is written, a file that was not there before is one of the \<open>maxFiles\<close>
  numbered ones and is at most the size limit and one record long.\<close>

theorem log_files_bounded:
  assumes "ap = RollingFileAppender fileName maxFileSize maxFiles" and "0 < maxFiles" and "all_openable sys ap"
    and "\<forall>i. fs (log_name ap i) = None" and "\<forall>r\<in>set rs. length (formatter_format sys fm r) \<le> l"
    and "max maxFileSize 1000 + l < 2 ^ 62" and "rolling_run sys fm rs (ap, fs) = (ap', fs')"
    and "fs' f \<noteq> fs f"
  shows "\<exists>i < nat maxFiles. \<exists>b. f = buildFileName ap (int i) \<and> fs' f = Some b \<and> length b \<le> max maxFileSize 1000 + l"
proof -
  have r: "m_maxFiles ap' = maxFiles" "log_name ap' = log_name ap"
    "log_inv (new_file fm) (max maxFileSize 1000) l (concat (map (formatter_format sys fm) rs)) (logs ap' fs')"
    "f \<notin> log_name ap ` {..<nat maxFiles} \<Longrightarrow> fs' f = fs f"
    using run_invariant [OF assms(3,1,2,4-6)] assms(7) by auto
  then obtain i where i: "i < nat maxFiles" "f = log_name ap i" using assms(8) by blast
  then obtain b where b: "fs' f = Some b" using assms(4,8) by (cases "fs' f") auto
  then have "Some b \<in> set (logs ap' fs')" using i r(1,2) by (force simp: logs_def)
  then have "length b \<le> max maxFileSize 1000 + l" using r(3) by (auto simp: log_inv_def)
  with i b show ?thesis by auto
qed


theorem log_files_bounded_witness:
  "\<exists>i < 2. \<exists>b. ''a.log'' = buildFileName (RollingFileAppender ''a.log'' 0 2) (int i)
     \<and> snd (rolling_run example_system Message_only [example_record] (RollingFileAppender ''a.log'' 0 2, Map.empty)) ''a.log'' = Some b
     \<and> length b \<le> 1003"
proof -
  let ?ap = "RollingFileAppender ''a.log'' 0 2"
  obtain ap' fs' where r: "rolling_run example_system Message_only [example_record] (?ap, Map.empty) = (ap', fs')"
    by (cases "rolling_run example_system Message_only [example_record] (?ap, Map.empty)")
  have t: "length (formatter_format example_system Message_only example_record) \<le> 3" using example_text by simp
  have n: "log_name ?ap 0 = ''a.log''"
    by (simp add: log_name_def buildFileName_def RollingFileAppender_def setMaxFileSize_def setFileName_def splitFileName_def
        findExtensionDot_def)
  have ok: "log_ok example_system ?ap Map.empty" by (simp add: log_ok_def all_openable_def example_system_def)
  have w: "write_ok example_system Message_only example_record ?ap Map.empty" using t by (simp add: write_ok_def)
  from write_refines [OF ok w] obtain ap2 fs2 where "rolling_write example_system Message_only example_record (?ap, Map.empty) = (ap2, fs2)"
    "m_maxFiles ap2 = m_maxFiles ?ap" "log_name ap2 = log_name ?ap"
    "logs ap2 fs2 = log_append (new_file Message_only) (m_maxFileSize ?ap) (m_firstWrite ?ap)
       (formatter_format example_system Message_only example_record) (logs ?ap Map.empty)" by metis
  then have "m_maxFiles ap' = 2" "log_name ap' = log_name ?ap" "hd (logs ap' fs') \<noteq> None"
    using r by (simp_all add: rolling_run_def log_append_def logs_Cons)
  then have "fs' ''a.log'' \<noteq> Map.empty ''a.log''" using n by (simp add: logs_Cons)
  then have "\<exists>i < nat 2. \<exists>b. ''a.log'' = buildFileName ?ap (int i) \<and> fs' ''a.log'' = Some b \<and> length b \<le> max 0 1000 + 3"
    by (intro log_files_bounded [OF refl _ _ _ _ _ r]) (use t in \<open>auto simp: all_openable_def example_system_def\<close>)
  then show ?thesis by (simp only: r snd_conv) simp
qed

text \<open>Log statements: the macro looks up the logger, and an appender that is a sink gets the text of those that pass.\<close>

definition log_statements :: "system \<Rightarrow> int \<Rightarrow> (severity \<times> (severity \<Rightarrow> log_record)) list \<Rightarrow> plog_state \<Rightarrow> plog_state" where
  "log_statements sys instanceId = fold (\<lambda>(severity, record_of). plog_macro sys instanceId severity record_of)"

abbreviation passing :: "severity \<Rightarrow> (severity \<times> (severity \<Rightarrow> log_record)) list \<Rightarrow> log_record list" where
  "passing m ls \<equiv> map (\<lambda>(severity, record_of). record_of severity) (filter (\<lambda>(severity, _). severity \<le> m) ls)"

lemma statements_to_console:
  assumes "loggers st i = Some lg" and "m_appenders lg = [p]" and "appenders st ! p = Console fm c"
  shows "log_statements sys i ls st = st\<lparr>all_streams := fold (console_write sys fm c) (passing (m_maxSeverity lg) ls) (all_streams st)\<rparr>"
  using assms
proof (induction ls arbitrary: st)
  case (Cons l ls)
  obtain s f where l: "l = (s, f)" by (cases l)
  have "plog_macro sys i s f st = (if s \<le> m_maxSeverity lg then st\<lparr>all_streams := console_write sys fm c (f s) (all_streams st)\<rparr> else st)"
    using Cons.prems by (simp add: plog_macro_def checkSeverity_def logger_append_def appender_write_def)
  moreover have "log_statements sys i (l # ls) st = log_statements sys i ls (plog_macro sys i s f st)"
    by (simp add: log_statements_def l)
  ultimately show ?case using Cons l by simp
qed (simp add: log_statements_def)

text \<open>A console gets the text of exactly the statements whose severity the logger takes, in order and complete; the other stream,
  the files and the loggers are as before.\<close>

theorem console_gets_passing_records:
  assumes "loggers st instanceId = Some lg" and "m_appenders lg = [p]" and "appenders st ! p = Console fm c"
  shows "all_streams (log_statements sys instanceId ls st) (m_outputStream c) =
      all_streams st (m_outputStream c) @ concat (map (formatter_format sys fm) (passing (m_maxSeverity lg) ls))
    \<and> all_files (log_statements sys instanceId ls st) = all_files st
    \<and> loggers (log_statements sys instanceId ls st) = loggers st"
  using con.written_all [of sys fm c "passing (m_maxSeverity lg) ls" "all_streams st"]
  by (simp add: statements_to_console [OF assms])

theorem console_gets_passing_records_witness:
  "all_streams (log_statements example_system 0 [(info, \<lambda>_. example_record), (debug, \<lambda>_. example_record)]
     \<lparr>loggers = [0 \<mapsto> \<lparr>m_maxSeverity = info, m_appenders = [0]\<rparr>], appenders = [Console Message_only \<lparr>m_isatty = False, m_outputStream = streamStdErr\<rparr>],
      static_appenders = Map.empty, all_files = Map.empty, all_streams = (\<lambda>_. [])\<rparr>) streamStdErr = ''hi'' @ [CHR 0x0A]"
  using console_gets_passing_records [of "\<lparr>loggers = [0 \<mapsto> \<lparr>m_maxSeverity = info, m_appenders = [0]\<rparr>],
      appenders = [Console Message_only \<lparr>m_isatty = False, m_outputStream = streamStdErr\<rparr>],
      static_appenders = Map.empty, all_files = Map.empty, all_streams = (\<lambda>_. [])\<rparr>" 0 "\<lparr>m_maxSeverity = info, m_appenders = [0]\<rparr>" 0
      Message_only "\<lparr>m_isatty = False, m_outputStream = streamStdErr\<rparr>" example_system
      "[(info, \<lambda>_. example_record), (debug, \<lambda>_. example_record)]"]
  by (simp add: example_text [simplified] less_eq_severity_def)

text \<open>
  Initialising again does not start anew: the severity stays that of the first call, and with the same format the appender
  is the first one, whatever file is named, which is then listed twice.
\<close>

lemma init_again:
  assumes "loggers st i = Some lg" and "static_appenders st (fm, i) = Some p"
  shows "init_with fm i sev f m n st = st\<lparr>loggers := (loggers st)(i \<mapsto> lg\<lparr>m_appenders := m_appenders lg @ [p]\<rparr>)\<rparr>"
  using assms by (simp add: init_with_def init_logger_def addAppender_def)

text \<open>Rolling by hand, without a limit on the number of files, removes the current file.\<close>

lemma roll_without_limit:
  assumes "all_openable sys ap" and "m_maxFiles ap = 0"
  shows "snd (rollLogFiles sys fm (ap, fs)) (log_name ap 0) = Some (new_file fm)"
proof -
  have "buildFileName (ap\<lparr>m_file := None\<rparr>) (- 1) = log_name ap 0" by (simp add: log_name_def buildFileName_def)
  then show ?thesis
    using assms open_new [of sys "ap\<lparr>m_file := None\<rparr>" "fs(log_name ap 0 := None)" fm]
    by (simp add: rollLogFiles_def file_unlink_def all_openable_def)
qed

text \<open>Behind a dot in a directory's name the rolled files are in directories of other names.\<close>

lemma rolled_in_other_directory: "buildFileName (RollingFileAppender ''./log'' 0 2) 1 = ''.1./log''"
  by (simp add: buildFileName_def RollingFileAppender_def setMaxFileSize_def setFileName_def splitFileName_def
      findExtensionDot_def show_int_def dec.simps digit_char_def)


end
