(* ===== verification/RtcHeaders.thy ===== *)
theory RtcHeaders
  imports Prelude "HOL-Library.Sublist"
begin

unbundle bit_operations_syntax

text \<open>
  The parts of the libdatachannel headers (\<open>include/rtc\<close>) that have code in them: the packed headers of H.264 NAL units and
  their fragments (\<open>nalunit.hpp\<close>), messages (\<open>message.hpp\<close>), and callbacks with a lock and a memory (\<open>utils.hpp\<close>). The
  functions that are only declared there are in the library, which is not part of the repository.

  A byte is an \<open>8 word\<close>; shifts of a byte are shifts of an \<open>int\<close>, which has room for them, cut to a byte by the assignment.
\<close>

section \<open>Bit fields\<close>

text \<open>A part of a word that can be read and written, and its independence of another one.\<close>

locale bit_field =
  fixes get :: "'w \<Rightarrow> 'v"
    and put :: "'v \<Rightarrow> 'w \<Rightarrow> 'w"
    and valid :: "'v \<Rightarrow> bool"
  assumes get_put: "valid v \<Longrightarrow> get (put v w) = v"
    and put_get: "put (get w) w = w"
    and put_put: "put v (put u w) = put v w"
    and valid_get: "valid (get w)"
begin

lemma put_cong: "get w = get w' \<Longrightarrow> put v w = put v w' \<Longrightarrow> w = w'"
  by (metis put_get put_put)

lemma put_same: "get w = v \<Longrightarrow> put v w = w"
  using put_get by blast

end

locale two_fields = a: bit_field get_a put_a valid_a + b: bit_field get_b put_b valid_b
  for get_a :: "'w \<Rightarrow> 'u" and put_a valid_a and get_b :: "'w \<Rightarrow> 'v" and put_b valid_b +
  assumes keep_a: "get_a (put_b v w) = get_a w"
    and keep_b: "get_b (put_a u w) = get_b w"
begin

lemma both: "valid_a u \<Longrightarrow> valid_b v \<Longrightarrow> get_a (put_b v (put_a u w)) = u \<and> get_b (put_b v (put_a u w)) = v"
  by (simp add: keep_a a.get_put b.get_put)

end

section \<open>NAL unit headers\<close>

type_synonym byte = "8 word"

definition forbiddenBit :: "byte \<Rightarrow> bool" where
  "forbiddenBit first \<longleftrightarrow> drop_bit 7 first \<noteq> 0"

definition nri :: "byte \<Rightarrow> byte" where
  "nri first = drop_bit 5 first AND 0x03"

definition unitType :: "byte \<Rightarrow> byte" where
  "unitType first = first AND 0x1F"

definition setForbiddenBit :: "bool \<Rightarrow> byte \<Rightarrow> byte" where
  "setForbiddenBit isSet first = (first AND 0x7F) OR push_bit 7 (of_bool isSet)"

definition setNRI :: "byte \<Rightarrow> byte \<Rightarrow> byte" where
  "setNRI v first = (first AND 0x9F) OR push_bit 5 (v AND 0x03)"

definition setUnitType :: "byte \<Rightarrow> byte \<Rightarrow> byte" where
  "setUnitType type first = (first AND 0xE0) OR (type AND 0x1F)"

text \<open>The header of a fragment.\<close>

definition isStart :: "byte \<Rightarrow> bool" where
  "isStart first \<longleftrightarrow> drop_bit 7 first \<noteq> 0"

definition reservedBit6 :: "byte \<Rightarrow> bool" where
  "reservedBit6 first \<longleftrightarrow> drop_bit 5 first AND 0x01 \<noteq> 0"

definition isEnd :: "byte \<Rightarrow> bool" where
  "isEnd first \<longleftrightarrow> drop_bit 6 first AND 0x01 \<noteq> 0"

definition setStart :: "bool \<Rightarrow> byte \<Rightarrow> byte" where
  "setStart isSet first = (first AND 0x7F) OR push_bit 7 (of_bool isSet)"

definition setEnd :: "bool \<Rightarrow> byte \<Rightarrow> byte" where
  "setEnd isSet first = (first AND 0xBF) OR push_bit 6 (of_bool isSet)"

definition setReservedBit6 :: "bool \<Rightarrow> byte \<Rightarrow> byte" where
  "setReservedBit6 isSet first = (first AND 0xDF) OR push_bit 5 (of_bool isSet)"

lemmas nal_defs = forbiddenBit_def nri_def unitType_def setForbiddenBit_def setNRI_def setUnitType_def
  isStart_def reservedBit6_def isEnd_def setStart_def setEnd_def setReservedBit6_def

lemma byte_eq_iff: "(v::byte) = w \<longleftrightarrow> (\<forall>n \<in> {0, 1, 2, 3, 4, 5, 6, 7}. bit v n \<longleftrightarrow> bit w n)"
proof
  assume a: "\<forall>n \<in> {0, 1, 2, 3, 4, 5, 6, 7}. bit v n \<longleftrightarrow> bit w n"
  show "v = w"
  proof (rule bit_word_eqI)
    fix n :: nat
    assume "n < LENGTH(8)"
    then have "n \<in> {0, 1, 2, 3, 4, 5, 6, 7}" by auto
    with a show "bit v n \<longleftrightarrow> bit w n" by blast
  qed
qed simp

lemma bit_beyond: "8 \<le> n \<Longrightarrow> \<not> bit (w::byte) n"
  using bit_imp_le_length [of w n] by auto

text \<open>Every getter and setter, bit by bit.\<close>

lemma single_bits:
  "forbiddenBit w \<longleftrightarrow> bit w 7" "isStart w \<longleftrightarrow> bit w 7" "isEnd w \<longleftrightarrow> bit w 6" "reservedBit6 w \<longleftrightarrow> bit w 5"
  by (simp_all add: nal_defs byte_eq_iff bit_simps bit_beyond)

lemma field_bits:
  "n < 8 \<Longrightarrow> bit (nri w) n \<longleftrightarrow> n < 2 \<and> bit w (n + 5)" "n < 8 \<Longrightarrow> bit (unitType w) n \<longleftrightarrow> n < 5 \<and> bit w n"
  "n < 8 \<Longrightarrow> bit (setForbiddenBit b w) n \<longleftrightarrow> (if n = 7 then b else bit w n)"
  "n < 8 \<Longrightarrow> bit (setStart b w) n \<longleftrightarrow> (if n = 7 then b else bit w n)"
  "n < 8 \<Longrightarrow> bit (setEnd b w) n \<longleftrightarrow> (if n = 6 then b else bit w n)"
  "n < 8 \<Longrightarrow> bit (setReservedBit6 b w) n \<longleftrightarrow> (if n = 5 then b else bit w n)"
  "n < 8 \<Longrightarrow> bit (setNRI v w) n \<longleftrightarrow> (if n = 5 \<or> n = 6 then bit v (n - 5) else bit w n)"
  "n < 8 \<Longrightarrow> bit (setUnitType v w) n \<longleftrightarrow> (if n < 5 then bit v n else bit w n)"
proof -
  assume "n < 8"
  then consider "n = 0" | "n = 1" | "n = 2" | "n = 3" | "n = 4" | "n = 5" | "n = 6" | "n = 7" by linarith
  note c = this
  show "bit (nri w) n \<longleftrightarrow> n < 2 \<and> bit w (n + 5)" "bit (unitType w) n \<longleftrightarrow> n < 5 \<and> bit w n"
    "bit (setForbiddenBit b w) n \<longleftrightarrow> (if n = 7 then b else bit w n)" "bit (setStart b w) n \<longleftrightarrow> (if n = 7 then b else bit w n)"
    "bit (setEnd b w) n \<longleftrightarrow> (if n = 6 then b else bit w n)" "bit (setReservedBit6 b w) n \<longleftrightarrow> (if n = 5 then b else bit w n)"
    "bit (setNRI v w) n \<longleftrightarrow> (if n = 5 \<or> n = 6 then bit v (n - 5) else bit w n)"
    "bit (setUnitType v w) n \<longleftrightarrow> (if n < 5 then bit v n else bit w n)"
    by (cases rule: c; simp add: nal_defs bit_simps)+
qed

lemmas field_simps' = single_bits byte_eq_iff field_bits

interpretation fb: bit_field forbiddenBit setForbiddenBit "\<lambda>_. True"
  by unfold_locales (simp_all add: field_simps')

text \<open>Values that fit into two and five bits.\<close>

lemma nri_fits: "v AND 0x03 = v \<Longrightarrow> \<not> bit (v::byte) 2 \<and> \<not> bit v 3 \<and> \<not> bit v 4 \<and> \<not> bit v 5 \<and> \<not> bit v 6 \<and> \<not> bit v 7"
  by (simp add: byte_eq_iff bit_simps)

lemma type_fits: "v AND 0x1F = v \<Longrightarrow> \<not> bit (v::byte) 5 \<and> \<not> bit v 6 \<and> \<not> bit v 7"
  by (simp add: byte_eq_iff bit_simps)

interpretation ni: bit_field nri setNRI "\<lambda>v. v AND 0x03 = v"
proof
  show "v AND 0x03 = v \<Longrightarrow> nri (setNRI v w) = v" for v w by (drule nri_fits) (simp add: field_simps')
  show "nri w AND 0x03 = nri w" for w by (simp add: nri_def and.assoc)
qed (simp_all add: field_simps')

interpretation ty: bit_field unitType setUnitType "\<lambda>v. v AND 0x1F = v"
proof
  show "v AND 0x1F = v \<Longrightarrow> unitType (setUnitType v w) = v" for v w by (drule type_fits) (simp add: field_simps')
  show "unitType w AND 0x1F = unitType w" for w by (simp add: unitType_def and.assoc)
qed (simp_all add: field_simps')

interpretation st: bit_field isStart setStart "\<lambda>_. True"
  by unfold_locales (simp_all add: field_simps')

interpretation en: bit_field isEnd setEnd "\<lambda>_. True"
  by unfold_locales (simp_all add: field_simps')

interpretation rb: bit_field reservedBit6 setReservedBit6 "\<lambda>_. True"
  by unfold_locales (simp_all add: field_simps')

text \<open>The fields of each header are independent of each other.\<close>

interpretation fn: two_fields forbiddenBit setForbiddenBit "\<lambda>_. True" nri setNRI "\<lambda>v. v AND 0x03 = v"
  by unfold_locales (simp_all add: field_simps')

interpretation ft: two_fields forbiddenBit setForbiddenBit "\<lambda>_. True" unitType setUnitType "\<lambda>v. v AND 0x1F = v"
  by unfold_locales (simp_all add: field_simps')

interpretation nt: two_fields nri setNRI "\<lambda>v. v AND 0x03 = v" unitType setUnitType "\<lambda>v. v AND 0x1F = v"
  by unfold_locales (simp_all add: field_simps')

interpretation se: two_fields isStart setStart "\<lambda>_. True" isEnd setEnd "\<lambda>_. True"
  by unfold_locales (simp_all add: field_simps')

interpretation sr: two_fields isStart setStart "\<lambda>_. True" reservedBit6 setReservedBit6 "\<lambda>_. True"
  by unfold_locales (simp_all add: field_simps')

interpretation stt: two_fields isStart setStart "\<lambda>_. True" unitType setUnitType "\<lambda>v. v AND 0x1F = v"
  by unfold_locales (simp_all add: field_simps')

interpretation er: two_fields isEnd setEnd "\<lambda>_. True" reservedBit6 setReservedBit6 "\<lambda>_. True"
  by unfold_locales (simp_all add: field_simps')

interpretation ett: two_fields isEnd setEnd "\<lambda>_. True" unitType setUnitType "\<lambda>v. v AND 0x1F = v"
  by unfold_locales (simp_all add: field_simps')

interpretation rt: two_fields reservedBit6 setReservedBit6 "\<lambda>_. True" unitType setUnitType "\<lambda>v. v AND 0x1F = v"
  by unfold_locales (simp_all add: field_simps')

section \<open>NAL units\<close>

text \<open>A unit is its bytes. The accessors of the header assert that there is one.\<close>

type_synonym nal_unit = "byte list"

definition NalUnit_size :: "nat \<Rightarrow> bool \<Rightarrow> nal_unit" where
  "NalUnit_size n includingHeader = replicate (n + (if includingHeader then 0 else 1)) 0"

definition NalUnit_data :: "byte list \<Rightarrow> nal_unit" where
  "NalUnit_data data = data"

definition NalUnit0 :: nal_unit where
  "NalUnit0 = replicate 1 0"

definition header :: "nal_unit \<Rightarrow> byte res" where
  "header u = asserting (1 \<le> length u) (Inr (u ! 0))"

definition put_header :: "(byte \<Rightarrow> byte) \<Rightarrow> nal_unit \<Rightarrow> nal_unit res" where
  "put_header f u = res_bind (header u) (\<lambda>h. Inr (u[0 := f h]))"

definition unit_forbiddenBit :: "nal_unit \<Rightarrow> bool res" where
  "unit_forbiddenBit u = res_bind (header u) (\<lambda>h. Inr (forbiddenBit h))"

definition unit_nri :: "nal_unit \<Rightarrow> byte res" where
  "unit_nri u = res_bind (header u) (\<lambda>h. Inr (nri h))"

definition unit_unitType :: "nal_unit \<Rightarrow> byte res" where
  "unit_unitType u = res_bind (header u) (\<lambda>h. Inr (unitType h))"

definition unit_setForbiddenBit :: "bool \<Rightarrow> nal_unit \<Rightarrow> nal_unit res" where
  "unit_setForbiddenBit isSet u = put_header (setForbiddenBit isSet) u"

definition unit_setNRI :: "byte \<Rightarrow> nal_unit \<Rightarrow> nal_unit res" where
  "unit_setNRI v u = put_header (setNRI v) u"

definition unit_setUnitType :: "byte \<Rightarrow> nal_unit \<Rightarrow> nal_unit res" where
  "unit_setUnitType type u = put_header (setUnitType type) u"

definition unit_payload :: "nal_unit \<Rightarrow> byte list res" where
  "unit_payload u = asserting (1 \<le> length u) (Inr (drop 1 u))"

definition unit_setPayload :: "byte list \<Rightarrow> nal_unit \<Rightarrow> nal_unit res" where
  "unit_setPayload payload u = asserting (1 \<le> length u) (Inr (take 1 u @ payload))"

text \<open>
  A fragment has two headers. The pointer to the second one is made without a check: with less than two bytes the read is
  past the end.
\<close>

datatype fragment_type = Start | Middle | End

definition fragmentHeader :: "nal_unit \<Rightarrow> byte res" where
  "fragmentHeader u = (if 2 \<le> length u then Inr (u ! 1) else Inl OverRead)"

definition fragment_unitType :: "nal_unit \<Rightarrow> byte res" where
  "fragment_unitType u = res_bind (fragmentHeader u) (\<lambda>h. Inr (unitType h))"

definition fragment_payload :: "nal_unit \<Rightarrow> byte list res" where
  "fragment_payload u = asserting (2 \<le> length u) (Inr (drop 2 u))"

definition fragment_type_of :: "nal_unit \<Rightarrow> fragment_type res" where
  "fragment_type_of u =
     res_bind (fragmentHeader u) (\<lambda>h.
       if isStart h then Inr Start else if isEnd h then Inr End else Inr Middle)"

definition fragment_setUnitType :: "byte \<Rightarrow> nal_unit \<Rightarrow> nal_unit res" where
  "fragment_setUnitType type u = res_bind (fragmentHeader u) (\<lambda>h. Inr (u[1 := setUnitType type h]))"

definition fragment_setPayload :: "byte list \<Rightarrow> nal_unit \<Rightarrow> nal_unit res" where
  "fragment_setPayload payload u = asserting (2 \<le> length u) (Inr (take 2 u @ payload))"

section \<open>Messages\<close>

datatype message_type = Binary | String | Control | Reset

record 'rel message =
  msg_data :: "byte list"
  msg_type :: message_type
  msg_stream :: nat
  msg_dscp :: nat
  msg_reliability :: "'rel option"

definition Message :: "byte list \<Rightarrow> message_type \<Rightarrow> 'rel message" where
  "Message data type = \<lparr>msg_data = data, msg_type = type, msg_stream = 0, msg_dscp = 0, msg_reliability = None\<rparr>"

definition message_size_func :: "'rel message \<Rightarrow> nat" where
  "message_size_func m = (if msg_type m = Binary \<or> msg_type m = String then length (msg_data m) else 0)"

definition make_message :: "byte list \<Rightarrow> message_type \<Rightarrow> nat \<Rightarrow> 'rel option \<Rightarrow> 'rel message" where
  "make_message data type stream reliability =
     (Message data type)\<lparr>msg_stream := stream, msg_reliability := reliability\<rparr>"

section \<open>Callbacks\<close>

text \<open>
  \<open>overloaded\<close>, \<open>CheshireCat\<close> and the locks have no effect on what is called when. The calls of user functions are recorded:
  the function and its argument, in order.
\<close>

type_synonym ('f, 'a) calls = "('f \<times> 'a) list"

text \<open>A bound member function of an object that is gone returns the default.\<close>

definition weak_bind :: "bool \<Rightarrow> ('a \<Rightarrow> 'b) \<Rightarrow> 'b \<Rightarrow> 'a \<Rightarrow> 'b" where
  "weak_bind alive bound none_value args = (if alive then bound args else none_value)"

definition scope_guard_end :: "'f option \<Rightarrow> ('f, unit) calls \<Rightarrow> ('f, unit) calls" where
  "scope_guard_end function log = (case function of None \<Rightarrow> log | Some f \<Rightarrow> log @ [(f, ())])"

text \<open>The plain callback and the one that stores a call that it missed.\<close>

record ('f, 'a) stored_callback =
  callback :: "'f option"
  stored :: "'a option"

definition callback_set :: "'f option \<Rightarrow> 'f option \<times> ('f, 'a) calls \<Rightarrow> 'f option \<times> ('f, 'a) calls" where
  "callback_set func s = (func, snd s)"

definition callback_call :: "'a \<Rightarrow> 'f option \<times> ('f, 'a) calls \<Rightarrow> bool \<times> 'f option \<times> ('f, 'a) calls" where
  "callback_call args s =
     (case fst s of None \<Rightarrow> (False, s) | Some f \<Rightarrow> (True, Some f, snd s @ [(f, args)]))"

definition callback_move :: "'f option \<times> 'f option \<times> ('f, 'a) calls \<Rightarrow> 'f option \<times> 'f option \<times> ('f, 'a) calls" where
  "callback_move s = (let (to, from, log) = s; (to', log) = callback_set from (to, log) in (to', None, log))"

definition callback_copy :: "'f option \<times> 'f option \<times> ('f, 'a) calls \<Rightarrow> 'f option \<times> 'f option \<times> ('f, 'a) calls" where
  "callback_copy s = (let (to, from, log) = s; (to', log) = callback_set from (to, log) in (to', from, log))"

definition stored_set :: "'f option \<Rightarrow> ('f, 'a) stored_callback \<times> ('f, 'a) calls \<Rightarrow> ('f, 'a) stored_callback \<times> ('f, 'a) calls" where
  "stored_set func s =
     (let (cb, log) = s; (c, log) = callback_set func (callback cb, log); cb = cb\<lparr>callback := c\<rparr>
      in case (func, stored cb) of
           (Some f, Some args) \<Rightarrow> (cb\<lparr>stored := None\<rparr>, log @ [(f, args)])
         | _ \<Rightarrow> (cb, log))"

definition stored_call :: "'a \<Rightarrow> ('f, 'a) stored_callback \<times> ('f, 'a) calls \<Rightarrow> bool \<times> ('f, 'a) stored_callback \<times> ('f, 'a) calls" where
  "stored_call args s =
     (let (cb, log) = s; (called, c, log) = callback_call args (callback cb, log)
      in (True, if called then cb else cb\<lparr>stored := Some args\<rparr>, log))"

text \<open>What a program does with a stored callback.\<close>

datatype ('f, 'a) use = Set "'f option" | Call 'a

fun stored_use :: "('f, 'a) use \<Rightarrow> ('f, 'a) stored_callback \<times> ('f, 'a) calls \<Rightarrow> ('f, 'a) stored_callback \<times> ('f, 'a) calls" where
  "stored_use (Set f) s = stored_set f s"
| "stored_use (Call args) s = snd (stored_call args s)"

definition new_callback :: "('f, 'a) stored_callback \<times> ('f, 'a) calls" where
  "new_callback = (\<lparr>callback = None, stored = None\<rparr>, [])"

section \<open>Lemmas\<close>

lemma put_header_Inr: "put_header f u = Inr u' \<longleftrightarrow> (\<exists>h r. u = h # r \<and> u' = f h # r)"
  by (cases u) (auto simp: put_header_def header_def)

abbreviation called_args :: "('f, 'a) use list \<Rightarrow> 'a list" where
  "called_args us \<equiv> concat (map (\<lambda>u. case u of Set _ \<Rightarrow> [] | Call a \<Rightarrow> [a]) us)"

abbreviation pending :: "('f, 'a) stored_callback \<Rightarrow> 'a list" where
  "pending cb \<equiv> (case stored cb of None \<Rightarrow> [] | Some a \<Rightarrow> [a])"

definition callback_ok :: "'a list \<Rightarrow> ('f, 'a) stored_callback \<times> ('f, 'a) calls \<Rightarrow> bool" where
  "callback_ok args s \<longleftrightarrow> (callback (fst s) \<noteq> None \<longrightarrow> stored (fst s) = None)
     \<and> subseq (map snd (snd s) @ pending (fst s)) args
     \<and> (args \<noteq> [] \<longrightarrow> map snd (snd s) @ pending (fst s) \<noteq> [] \<and> last (map snd (snd s) @ pending (fst s)) = last args)"

lemma subseq_drop_last: "subseq (xs @ ys) zs \<Longrightarrow> subseq xs zs"
  using subseq_order.order_trans subseq_rev_drop_many [of xs xs ys] by blast

lemma callback_ok_use: "callback_ok args s \<Longrightarrow> callback_ok (args @ (case u of Set _ \<Rightarrow> [] | Call a \<Rightarrow> [a])) (stored_use u s)"
proof -
  assume ok: "callback_ok args s"
  obtain cb log where s: "s = (cb, log)" by (cases s)
  show ?thesis
  proof (cases u)
    case (Set f)
    then show ?thesis using ok
      by (cases f; cases "stored cb") (simp_all add: callback_ok_def s stored_set_def callback_set_def Let_def)
  next
    case (Call a)
    then show ?thesis using ok subseq_drop_last [of "map snd log" "pending cb" args]
      by (cases "callback cb"; cases "stored cb") (auto simp: callback_ok_def s stored_call_def callback_call_def Let_def)
  qed
qed

lemma callback_ok_run: "callback_ok (called_args us) (fold stored_use us new_callback)"
proof (induction us rule: rev_induct)
  case Nil
  then show ?case by (simp add: callback_ok_def new_callback_def)
next
  case (snoc u us)
  then show ?case using callback_ok_use [of "called_args us" "fold stored_use us new_callback" u] by simp
qed

section \<open>Properties\<close>

text \<open>The three fields of a NAL unit header are exactly its byte: values that fit are read back after all three were set,
  whatever the byte was before, and setting the fields of one header to what is read from another one copies it.\<close>

theorem nal_header_fields:
  assumes "v AND 0x03 = v" and "t AND 0x1F = t"
  shows "forbiddenBit (setUnitType t (setNRI v (setForbiddenBit f w))) = f
    \<and> nri (setUnitType t (setNRI v (setForbiddenBit f w))) = v
    \<and> unitType (setUnitType t (setNRI v (setForbiddenBit f w))) = t
    \<and> setUnitType (unitType w) (setNRI (nri w) (setForbiddenBit (forbiddenBit w) u)) = w"
proof -
  have "setUnitType (unitType w) (setNRI (nri w) (setForbiddenBit (forbiddenBit w) u)) = w" by (simp add: field_simps')
  then show ?thesis using assms
    by (simp add: ft.keep_a nt.keep_a fn.keep_a fb.get_put ni.get_put ty.get_put)
qed

theorem nal_header_fields_witness:
  "unitType (setUnitType 28 (setNRI 3 (setForbiddenBit False 0xFF))) = 28
    \<and> nri (setUnitType 28 (setNRI 3 (setForbiddenBit False 0xFF))) = 3"
  using nal_header_fields [of 3 28 False "0xFF" 0] by simp

text \<open>Changing the header of a NAL unit changes no other byte, and changing the payload does not change the header; both stop
  at the assertion exactly if the unit is empty.\<close>

theorem nal_unit_updates:
  "(\<forall>u'. unit_setNRI v u = Inr u' \<longrightarrow> unit_payload u' = unit_payload u \<and> unit_nri u' = Inr (v AND 0x03)
       \<and> unit_unitType u' = unit_unitType u \<and> unit_forbiddenBit u' = unit_forbiddenBit u)
   \<and> (\<forall>u'. unit_setPayload p u = Inr u' \<longrightarrow> unit_payload u' = Inr p \<and> header u' = header u)
   \<and> (unit_setNRI v u = Inl AssertionFailed \<longleftrightarrow> u = []) \<and> (unit_setPayload p u = Inl AssertionFailed \<longleftrightarrow> u = [])"
proof -
  have "nri (setNRI v h) = v AND 0x03" for h by (simp add: field_simps' bit_simps)
  then show ?thesis
    by (cases u) (auto simp: unit_setNRI_def put_header_def header_def unit_payload_def unit_nri_def unit_unitType_def
        unit_forbiddenBit_def unit_setPayload_def nt.keep_b fn.keep_a)
qed




end
