(* ===== verification/Spec2Isabelle.thy ===== *)
theory Spec2Isabelle
  imports ServerSystem StoreLocks ThreadSafeMap ClientMain SimplePeers JsonPretty JsonPatch JsonFlatten JsonAccess JsonOrder
    JsonSax MessagePack Cbor Bson Ubjson PlogAppenders RtcHeaders
begin

text \<open>
  Verification of the client-server signalling programs.

  \<^bold>\<open>The programs.\<close> The repository holds five programs that set up a WebRTC call. \<open>server\<close> keeps accounts and
  relays calls; a \<open>client\<close> connects to it, announces an address at which the server connects back, signs up,
  logs in and calls other users; \<open>offerer\<close> and \<open>answerer\<close> exchange a session description and candidates over
  one TCP connection without a server; \<open>simple_offerer\<close> and \<open>simple_answerer\<close> do so by copy and paste on the
  console. Descriptions travel as JSON texts, written and read with the library \<open>include/nlohmann/json.hpp\<close>.
  Every server connection has a handler thread; the threads share a \<open>UserStore\<close>. A client has a menu on its
  main thread and a listener thread that reads INVITE and ACCEPT from the server's connection.

  \<^bold>\<open>Foundations.\<close>
  \<^item> \<open>Prelude\<close>: faults and exceptions as values (\<open>fault\<close>, \<open>'a res\<close>, \<open>res_bind\<close>, \<open>asserting\<close>), and the interfaces:
    \<open>keyed_container\<close> (what \<open>std::map\<close> and \<open>std::unordered_map\<close> promise), \<open>invariant_system\<close> (reachable states
    have an inductive invariant), \<open>codec\<close> (a receiver reads what a sender wrote).
  \<^item> \<open>CLib\<close>: C strings in arrays, \<open>strncpy\<close>, \<open>sprintf\<close>, \<open>sscanf\<close> driven by its format, \<open>stoi\<close>. \<open>StdMap\<close>: \<open>std::map\<close> as a
    sorted list. \<open>Net\<close>: sockets as queues of arriving segments, failing calls, SIGINT, the trace of events.

  \<^bold>\<open>Accounts.\<close> \<open>User\<close> and \<open>UserStore\<close> (\<open>src/User.cpp\<close>, \<open>src/UserStore.cpp\<close>): every constructor, accessor and
  method. The store refines a contract of accounts (locale \<open>account_store\<close>). \<open>StoreLocks\<close>: which methods take
  the mutex, as a step relation; a race needs \<open>logOutUser\<close>, and one is reachable. \<open>ThreadSafeMap\<close>
  (\<open>src/ThreadSafeMap.cpp\<close>): the map and its file format, a partial function that survives saving and loading.

  \<^bold>\<open>Server.\<close> \<open>Server\<close> (\<open>src/server.cpp\<close>): \<open>client_handler\<close> with one definition per command, cut into steps that
  touch the store at most once. Lemmas give the behaviour of each command, the round trip of the message
  formats, and the arrays that overflow. \<open>ServerSystem\<close>: \<open>main\<close>, the accept loop, and all threads interleaved
  (\<open>sys_step\<close>). Its invariants say that accounts stay well-formed, that the checks inside a CALL never fail
  although other threads run in between, and that the process ends only after its handlers.

  \<^bold>\<open>JSON.\<close>
  \<^item> \<open>Json\<close>, \<open>JsonLexer\<close>, \<open>JsonParser\<close>: values, \<open>operator[]\<close>, \<open>get\<close>, the scanner with escapes, UTF-8 and numbers, and
    \<open>sax_parse_internal\<close> with the DOM builder. The parser ends on every input and yields sorted objects.
  \<^item> \<open>JsonSax\<close>: the loop of the parser with its consumer as an argument, and the three consumers: the DOM builder, the
    acceptor, and the builder that asks a callback what to keep. A locale says what a consumer has to do so that the
    loop computes the parser's value; each of the three does.
  \<^item> \<open>Diyfp\<close>, \<open>Grisu\<close>, \<open>JsonFloat\<close>: the printing of doubles. \<open>diyfp\<close> arithmetic on 64-bit words is exact up to one
    rounding; every cached power of ten is within half a unit of the power, which a chain of 128-bit brackets
    proves; the interval handed to the digit generation lies inside the one of the double, so the digits are
    those of a number nearer to it than to any other; no assertion fails, and 17 digits and 24 bytes suffice.
    \<open>strtod\<close> of the C library is modelled as correct rounding, and reading undoes printing.
  \<^item> \<open>JsonDump\<close>: the serializer with its UTF-8 decoder, its buffers of 512 and 64 bytes and its integer routine, each
    shown equal to a reference. \<open>JsonRoundTrip\<close>: parsing undoes dumping.
  \<^item> \<open>JsonPretty\<close>: \<open>dump\<close> with indentation, whose text is parsed to the same value; a step too large for the
    indentation string is an over-read. \<open>JsonCompare\<close>, \<open>JsonOrder\<close>: \<open>operator==\<close> and \<open>operator<\<close>,
    a total order where numbers are of one kind.
  \<^item> \<open>JsonPointer\<close>, \<open>JsonPatch\<close>, \<open>JsonFlatten\<close>: \<open>json_pointer\<close> with its escapes, checked and unchecked access and
    \<open>get_and_create\<close>; \<open>patch\<close>, \<open>diff\<close>, \<open>merge_patch\<close>; \<open>flatten\<close> and \<open>unflatten\<close>. A diff, applied, gives its target;
    \<open>contains\<close> agrees with \<open>at\<close>; unflattening undoes flattening unless a key looks like an index.
  \<^item> \<open>JsonIterator\<close>, \<open>JsonAccess\<close>: iterators as a value and a position, reverse iterators, \<open>items\<close>; \<open>at\<close>, \<open>value\<close>, \<open>find\<close>,
    \<open>erase\<close>, \<open>insert\<close>, \<open>push_back\<close>, \<open>emplace\<close>, \<open>update\<close>, \<open>swap\<close> with every exception. Loops meet every element once,
    lookups agree, erasing undoes inserting.
  \<^item> \<open>BinaryFormat\<close>, \<open>MessagePack\<close>, \<open>Cbor\<close>, \<open>Bson\<close>, \<open>Ubjson\<close>: the four binary formats, written and read. Reading what was
    written gives the value back, up to what the format cannot tell apart, which a view function states; the
    readers end on every input; the sizes that BSON announces are exact; which values cannot be written.

  \<^bold>\<open>Client.\<close> \<open>Client\<close> (\<open>src/client.cpp\<close>): console input, requests, menu, listener, INVITE and ACCEPT, media loop,
  start-up. \<open>ClientMain\<close>: \<open>media_handler\<close>, \<open>main\<close>, and the two threads as a step relation; the listener as a
  function agrees with its steps. The lemmas also state what goes wrong: an INVITE ends the called client or its
  listener, the menu spins once input has failed, and \<open>main\<close> never leaves the media loop.

  \<^bold>\<open>Peers.\<close> \<open>Peers\<close> (\<open>src/offerer.cpp\<close>, \<open>src/answerer.cpp\<close>) and \<open>SimplePeers\<close> (\<open>src/simple_offerer.cpp\<close>,
  \<open>src/simple_answerer.cpp\<close>): the whole of each \<open>main\<close>. Two connected peers complete their exchange; a pasted
  line gives the other side the same description; packets are forwarded in order.

  \<^bold>\<open>Logging.\<close> \<open>PlogRecord\<close> (\<open>src/include/plog\<close>: severities, records, formatters) and \<open>PlogAppenders\<close> (files on disk as
  a map, the rolling file appender, the console appenders, logger and initialisation). A write refines appending to
  a bounded sequence of logs; the files hold the end of what was logged, within their bounds; a CSV row can be read
  back; a console gets the records that pass the severity.

  \<^bold>\<open>libdatachannel headers.\<close> \<open>RtcHeaders\<close> (\<open>nalunit.hpp\<close>, \<open>message.hpp\<close>, \<open>utils.hpp\<close>): the bit fields of NAL unit headers
  through the locales \<open>bit_field\<close> and \<open>two_fields\<close>, units and fragments, messages, and the stored callback, which
  delivers calls in order and replays the last one that it missed.

  This theory joins client and server: what one sends is what the other reads.

  \<^bold>\<open>Conventions.\<close> Undefined behaviour is a value of \<open>fault\<close> (write past an array, read past an array, use of an
  indeterminate value, signed overflow, failed assertion, uncaught exception), so a theorem that a definition
  returns \<open>Inr\<close> excludes it. Sizes wrap modulo \<open>2 ^ 64\<close> where the code computes with \<open>size_t\<close>; significands and
  code points are words of their width. Loops are recursive functions with a measure (bytes still to be read,
  segments still to arrive, room in a buffer). The readers of the binary formats have fuel for their nesting,
  \<open>from_msgpack\<close>, \<open>from_cbor\<close>, \<open>from_bson\<close> and \<open>from_ubjson\<close> start with the length of the input, and the theorems
  \<open>from_msgpack_total\<close>, \<open>from_cbor_total\<close>, \<open>from_bson_total\<close> and \<open>from_ubjson_total\<close> show that this is always enough: every level of nesting takes
  a byte. The loops over iterators have a bound that their theorem requires to exceed the number of elements. The
  exceptions are \<open>open_menu\<close> and the loops over
  media packets, whose value \<open>None\<close>, or \<open>Hang\<close>, is not returning. Reachability is over every interleaving of
  steps and every segmentation of the incoming bytes.

  \<^bold>\<open>Parameters.\<close> libdatachannel is not part of the repository. Its calls are arguments of the definitions that
  make them: whether a call throws, whether gathering has completed by then and with which description, whether
  a track is open, and how the header of a packet is rewritten.

  \<^bold>\<open>Not modelled.\<close> Console output of the programs, except where it reads a C string. Of the JSON library: changes that
  a parser callback makes to its argument, comments, the error handlers that ignore or replace, conversions to and from other types,
  user-defined literals, the printing of \<open>long double\<close>. Positions and texts of parse errors, which
  only reach the console. Of plog: the branches for Windows, wide characters, the appenders of other systems. Of
  libdatachannel and libsrtp: declarations without bodies. The build files.
\<close>

section \<open>Client and server together\<close>

abbreviation greeting :: string where
  "greeting \<equiv> ''Hello from new server'' @ nl"

lemma greeting_fits: "fits greeting"
  by (simp add: fits_def SOCKET_BUFFER_SIZE_def)

text \<open>The listener ignores the greeting and leaves when the server has closed the connection.\<close>

lemma listener_greeting:
  assumes "quiet c" and "0 \<le> sock" and "inbox c sock = [Chunk (message_array greeting)]"
  shows "listener_loop lib sock c = Inr (c\<lparr>inbox := (inbox c)(sock := [])\<rparr>)"
proof -
  let ?c1 = "c\<lparr>inbox := (inbox c)(sock := [])\<rparr>"
  have f: "fill (zeros SOCKET_BUFFER_SIZE) (message_array greeting) = message_array greeting"
    using greeting_fits by (simp add: fits_def)
  have t: "take 4 (message_array greeting) = ''Hell''" "take 6 (message_array greeting) = ''Hello ''"
    by (simp_all add: message_array_def)
  have "listener_turn lib sock c = Inr (True, ?c1)"
    using assms(1) recv_message [OF greeting_fits assms(2,3)] c_str_message_array [OF greeting_fits] f t
    by (simp add: listener_turn_def quiet_def load_running_quiet command_tests)
  moreover have "listener_turn lib sock ?c1 = Inr (False, ?c1)"
    using assms(1,2)
    by (simp add: listener_turn_def quiet_def load_running_quiet recv_end fill_empty_zeros)
  ultimately show ?thesis by (simp add: listener_loop.simps)
qed

lemma server_handler_greeted:
  assumes "quiet c" and "0 \<le> next_fd c" and "inbox c (next_fd c + 1) = [Chunk (message_array greeting)]"
  shows "\<exists>c'. server_handler lib port c = Inr c'
    \<and> events c' = events c @ [Bound (next_fd c) (htons port), Closed (next_fd c + 1)]"
proof -
  define c1 where "c1 = (log_event (Bound (next_fd c) (htons port)) c)\<lparr>next_fd := 2 + next_fd c\<rparr>"
  have "listener_loop lib (next_fd c + 1) c1 = Inr (c1\<lparr>inbox := (inbox c1)(next_fd c + 1 := [])\<rparr>)"
    using assms by (intro listener_greeting) (simp_all add: c1_def quiet_def log_event_def)
  then show ?thesis
    using assms by (simp add: server_handler_def socket_def sys_ok_def quiet_def load_running_quiet c1_def log_event_def
        close_fd_def)
qed



section \<open>A call from one client to another\<close>

text \<open>C19. A call ends the program of the user who is called. The caller, whose description has been gathered, types the
  name of a user who is logged in; the server's handler reads what the caller sent and sends the INVITE on the
  connection of that user; the listener of the called client, reading what the server sent, looks for a member
  "description" that the descriptions do not have, and the \<open>type_error\<close> is not caught.\<close>

theorem call_crashes_callee:
  fixes a b :: client and s :: server
  assumes "gathering_complete ty sdp a0 = Inr a" and "cin a = \<lparr>in_rest = r @ CHR 0x0A # typed, in_fail = False\<rparr>"
    and "word50 r" and "fits (''INVITE '' @ r @ '' '' @ local_sdp a)"
    and "oks a = []" and "events a = []" and "0 \<le> sock"
    and "quiet s" and "events s = []" and "0 \<le> client_socket k"
    and "userStore s r = Some (User4 n p True fd)" and "0 \<le> fd"
    and "inbox s (client_socket k) = [Chunk (message_array (''CALL '' @ r @ '' '' @ local_sdp a))]"
    and "quiet b" and "0 \<le> bsock"
    and "inbox b bsock = [Chunk ((''INVITE '' @ r @ '' '' @ local_sdp a)
          @ zeros (2 * SOCKET_BUFFER_SIZE - length (''INVITE '' @ r @ '' '' @ local_sdp a)))]"
  shows "\<exists>a' s'.
      call_peer sock a = Inr a'
    \<and> inbox s (client_socket k) = map Chunk (sent sock (events a'))
    \<and> client_handler_from AtLoop k s = client_handler_from (AtAnswer fd) k s'
    \<and> inbox b bsock = map Chunk (sent fd (events s'))
    \<and> listener_turn lib bsock b = Inl (Uncaught ''nlohmann::type_error'')"
proof -
  let ?call = "''CALL '' @ r @ '' '' @ local_sdp a" and ?invite = "''INVITE '' @ r @ '' '' @ local_sdp a"
  let ?double = "?invite @ zeros (2 * SOCKET_BUFFER_SIZE - length ?invite)"
  have fit: "fits ?call" and sdp: "nul_free (local_sdp a)" "length (local_sdp a) < SOCKET_BUFFER_SIZE"
    using assms(4) by (auto simp: fits_def)
  have r: "token r" "nul_free r" "length r < 50" using assms(3) by (auto simp: word50_def)
  define i where "i = \<lparr>in_rest = CHR 0x0A # typed, in_fail = False\<rparr>"
  have 1: "call_peer sock a = Inr (log_event (Sent sock (message_array ?call)) (a\<lparr>cin := i\<rparr>))"
    using assms(2,5,7) r cin_word_token [OF r(1), of "CHR 0x0A" typed] store_str_zeros [of r 50]
      call_message_fits [OF fit] c_str_append_zeros [of r "50 - length r"]
    by (simp add: call_peer_def i_def send_ok)
  have "isLogin r (userStore s) = Inr True" using assms(11) by (simp add: isLogin_def getIslogin_def)
  note turn = call_turn [OF assms(3) fit assms(8,10,13) this]
  define s1 where "s1 = s\<lparr>inbox := (inbox s)(client_socket k := [])\<rparr>"
  have "client_handler_from AtLoop k s = client_handler_from (AtAnswer fd) k (log_event (Sent fd ?double) s1)"
    using handler_continues [OF turn] call_to_answer [OF assms(3) sdp, of s1 "User4 n p True fd" fd k] assms(8,11,12)
    by (simp add: s1_def quiet_def)
  moreover have "listener_turn lib bsock b = Inl (Uncaught ''nlohmann::type_error'')"
  proof -
    have "length ?invite < SOCKET_BUFFER_SIZE" using assms(4) by (simp only: fits_def)
    then have "recv bsock SOCKET_BUFFER_SIZE b = (int SOCKET_BUFFER_SIZE, message_array ?invite,
        b\<lparr>inbox := (inbox b)(bsock := [Chunk (zeros SOCKET_BUFFER_SIZE)])\<rparr>)"
      using recv_part [OF assms(15,16), of SOCKET_BUFFER_SIZE] double_array [of ?invite] by simp
    from listener_invite [OF assms(4,15,14) this] show ?thesis
      using handle_INVITE_type_error [OF assms(1,3,4)] by simp
  qed
  ultimately show ?thesis using 1 assms(6,9,13,16) by (auto simp: log_event_def s1_def)
qed

theorem call_crashes_callee_witness:
  "\<exists>t a' s'.
      call_peer 4 ((example_client (\<lambda>_. []) (''bob'' @ nl))\<lparr>local_sdp := t\<rparr>) = Inr a'
    \<and> sent 4 (events a') = [message_array (''CALL bob '' @ t)]
    \<and> client_handler_from AtLoop example_conn (example_server (arrives [(4, ''CALL bob '' @ t)])
          [''bob'' \<mapsto> User4 ''bob'' ''pw'' True 6]) = client_handler_from (AtAnswer 6) example_conn s'
    \<and> listener_turn quiet_lib 6 (example_client (\<lambda>_. map Chunk (sent 6 (events s'))) []) =
        Inl (Uncaught ''nlohmann::type_error'')"
proof -
  define t where "t = concat [[CHR 0x7B], quoted ''sdp'', '':'', quoted ''v=0'', '','', quoted ''type'',
       '':'', quoted ''offer'', [CHR 0x7D]]"
  let ?a = "(example_client (\<lambda>_. []) (''bob'' @ nl))\<lparr>local_sdp := t\<rparr>"
  let ?i = "''INVITE bob '' @ t"
  have g: "gathering_complete ''offer'' ''v=0'' (example_client (\<lambda>_. []) (''bob'' @ nl)) = Inr ?a"
    unfolding t_def by (rule example_gathering)
  have len: "length t = 28" "nul_free t" by (simp_all add: t_def quoted_def nul_free_def)
  then have fits: "fits (''INVITE bob '' @ t)" by (simp add: fits_def SOCKET_BUFFER_SIZE_def)
  let ?b = "example_client (\<lambda>_. [Chunk (?i @ zeros (2 * SOCKET_BUFFER_SIZE - length ?i))]) []"
  obtain a' s' where
    "call_peer 4 ?a = Inr a'"
    "[Chunk (message_array (''CALL bob '' @ t))] = map Chunk (sent 4 (events a'))"
    "client_handler_from AtLoop example_conn (example_server (arrives [(4, ''CALL bob '' @ t)])
          [''bob'' \<mapsto> User4 ''bob'' ''pw'' True 6]) = client_handler_from (AtAnswer 6) example_conn s'"
    "inbox ?b 6 = map Chunk (sent 6 (events s'))"
    "listener_turn quiet_lib 6 ?b = Inl (Uncaught ''nlohmann::type_error'')"
    using call_crashes_callee [OF g, of "''bob''" "[]" 4 "example_server (arrives [(4, ''CALL bob '' @ t)])
          [''bob'' \<mapsto> User4 ''bob'' ''pw'' True 6]" example_conn "''bob''" "''pw''" 6 ?b 6 quiet_lib] fits len
    by auto
  then show ?thesis by (intro exI [of _ t] exI [of _ a'] exI [of _ s']) (auto simp: map_eq_Cons_conv)
qed

end
